(* ===== verification/Leak_Monad.thy ===== *)
theory Leak_Monad
  imports Main "HOL-Library.Word" "HOL-Library.State_Monad"
begin

text \<open>
  The prelude: C arrays, a state monad that records what a program-counter and
  cache observer sees, and the two proof calculi the components are verified in.

  \<^item> An array object is a value of type \<open>'a arr\<close>: the block it lives in and its cells.
    A C function that writes through a pointer returns the updated array.
  \<^item> \<open>'a cm\<close> is \<open>State_Monad\<close> over \<open>leak\<close>. \<open>Some t\<close> is the trace so far; \<open>None\<close> says
    that an access outside an array has happened (undefined behaviour in C), and no
    operation leaves that state.
  \<^item> \<open>ok f Q\<close> is total correctness: \<open>f\<close> never leaves an array and its result satisfies \<open>Q\<close>.
  \<^item> \<open>ct f g R\<close> is a relational triple for two runs: neither leaves an array, both append the
    same events to the trace, and the results are related by \<open>R\<close>.
  \<^item> \<open>differ f g P Q\<close> is its opposite: the two runs append traces that separate at some event.
\<close>

unbundle bit_operations_syntax

named_theorems wp \<open>introduction rules of the total correctness calculus\<close>
named_theorems ctr \<open>introduction rules of the relational calculus\<close>

type_synonym u8 = "8 word"
type_synonym u16 = "16 word"
type_synonym u32 = "32 word"
type_synonym u64 = "64 word"

abbreviation shl :: "'a::len word \<Rightarrow> nat \<Rightarrow> 'a word" where
  "shl w n \<equiv> push_bit n w"

abbreviation shr :: "'a::len word \<Rightarrow> nat \<Rightarrow> 'a word" where
  "shr w n \<equiv> drop_bit n w"

section \<open>Arrays, events and the monad\<close>

record 'a arr =
  blk :: nat
  cells :: "'a list"

abbreviation alen :: "('a, 'b) arr_scheme \<Rightarrow> nat" where
  "alen a \<equiv> length (cells a)"

datatype event =
    Ld nat nat                    \<comment> \<open>load: block, index\<close>
  | St nat nat                    \<comment> \<open>store: block, index\<close>
  | Br bool                       \<comment> \<open>outcome of a conditional branch\<close>
  | Mcpy nat nat nat nat nat      \<comment> \<open>memcpy, memmove: destination and offset, source and offset, length\<close>
  | Mset nat nat nat              \<comment> \<open>memset: block, offset, length\<close>
  | Fence
  | Flush nat nat                 \<comment> \<open>a cache line is flushed: block, index\<close>
  | Out string nat                \<comment> \<open>a value printed on standard output\<close>

type_synonym leak = "event list option"
type_synonym 'a cm = "(leak, 'a) state"

abbreviation ret :: "'a \<Rightarrow> 'a cm" where
  "ret \<equiv> State_Monad.return"

definition tick :: "event \<Rightarrow> unit cm" where
  "tick e = State (\<lambda>s. ((), map_option (\<lambda>t. t @ [e]) s))"

definition ld :: "'a::zero arr \<Rightarrow> nat \<Rightarrow> 'a cm" where
  "ld a i = State (\<lambda>s. if i < alen a then (cells a ! i, map_option (\<lambda>t. t @ [Ld (blk a) i]) s)
     else (0, None))"

definition st :: "'a arr \<Rightarrow> nat \<Rightarrow> 'a \<Rightarrow> 'a arr cm" where
  "st a i v = State (\<lambda>s. if i < alen a
     then (a\<lparr>cells := (cells a)[i := v]\<rparr>, map_option (\<lambda>t. t @ [St (blk a) i]) s)
     else (a, None))"

definition splice :: "'a list \<Rightarrow> nat \<Rightarrow> 'a list \<Rightarrow> 'a list" where
  "splice xs i ys = take i xs @ ys @ drop (i + length ys) xs"

text \<open>\<open>memcpy d i s j n\<close> copies \<open>n\<close> elements from \<open>s + j\<close> to \<open>d + i\<close>. The arrays are values, so the
  source is read before the destination is written: \<open>memmove\<close> is the same definition.\<close>

definition memcpy :: "'a arr \<Rightarrow> nat \<Rightarrow> 'a arr \<Rightarrow> nat \<Rightarrow> nat \<Rightarrow> 'a arr cm" where
  "memcpy d i s j n = State (\<lambda>l. if i + n \<le> alen d \<and> j + n \<le> alen s
     then (d\<lparr>cells := splice (cells d) i (take n (drop j (cells s)))\<rparr>,
           map_option (\<lambda>t. t @ [Mcpy (blk d) i (blk s) j n]) l)
     else (d, None))"

abbreviation memmove :: "'a arr \<Rightarrow> nat \<Rightarrow> 'a arr \<Rightarrow> nat \<Rightarrow> nat \<Rightarrow> 'a arr cm" where
  "memmove \<equiv> memcpy"

definition memset :: "'a arr \<Rightarrow> nat \<Rightarrow> 'a \<Rightarrow> nat \<Rightarrow> 'a arr cm" where
  "memset d i v n = State (\<lambda>l. if i + n \<le> alen d
     then (d\<lparr>cells := splice (cells d) i (replicate n v)\<rparr>,
           map_option (\<lambda>t. t @ [Mset (blk d) i n]) l)
     else (d, None))"

definition branch :: "bool \<Rightarrow> 'a cm \<Rightarrow> 'a cm \<Rightarrow> 'a cm" where
  "branch b f g = do { tick (Br b); if b then f else g }"

lemma branch_cong [fundef_cong]:
  "b = b' \<Longrightarrow> (b' \<Longrightarrow> f = f') \<Longrightarrow> (\<not> b' \<Longrightarrow> g = g') \<Longrightarrow> branch b f g = branch b' f' g'"
  by (auto simp: branch_def)

text \<open>\<open>for_loop i n body s\<close>: \<open>for (; i < n; i ++) s = body i s\<close>. Each test of the condition is a
  branch that the observer sees.\<close>

function for_loop :: "nat \<Rightarrow> nat \<Rightarrow> (nat \<Rightarrow> 's \<Rightarrow> 's cm) \<Rightarrow> 's \<Rightarrow> 's cm" where
  "for_loop i n body s =
     branch (i < n) (do { s' \<leftarrow> body i s; for_loop (Suc i) n body s' }) (ret s)"
  by pat_completeness auto
termination
  by (relation "measure (\<lambda>(i, n, _, _). n - i)") auto

declare for_loop.simps [simp del]

text \<open>\<open>for_down n body s\<close>: \<open>while (n -- > 0) s = body n s\<close>, the body seeing the decremented \<open>n\<close>.\<close>

primrec for_down :: "nat \<Rightarrow> (nat \<Rightarrow> 's \<Rightarrow> 's cm) \<Rightarrow> 's \<Rightarrow> 's cm" where
  "for_down 0 body s = branch False (ret s) (ret s)"
| "for_down (Suc n) body s = branch True (do { s' \<leftarrow> body n s; for_down n body s' }) (ret s)"

definition result :: "'a cm \<Rightarrow> 'a" where
  "result f = fst (run_state f (Some []))"

definition trace :: "'a cm \<Rightarrow> leak" where
  "trace f = snd (run_state f (Some []))"

section \<open>Total correctness\<close>

definition ok :: "'a cm \<Rightarrow> ('a \<Rightarrow> bool) \<Rightarrow> bool" where
  "ok f Q \<longleftrightarrow> (\<forall>t. \<exists>x l. run_state f (Some t) = (x, Some (t @ l)) \<and> Q x)"

lemma okD_result: "ok f Q \<Longrightarrow> Q (result f)"
  unfolding ok_def result_def by (metis fst_conv)

lemma okD_trace: "ok f Q \<Longrightarrow> \<exists>t. trace f = Some t"
  unfolding ok_def trace_def by (metis snd_conv)

lemma ok_run: "ok f Q \<Longrightarrow> \<exists>t. run_state f (Some []) = (result f, Some t) \<and> Q (result f)"
  unfolding ok_def result_def by (metis fst_conv)

lemma ok_weaken: "ok f P \<Longrightarrow> (\<And>x. P x \<Longrightarrow> Q x) \<Longrightarrow> ok f Q"
  unfolding ok_def by meson

lemma ok_conj: "ok f P \<Longrightarrow> ok f Q \<Longrightarrow> ok f (\<lambda>x. P x \<and> Q x)"
  unfolding ok_def by (metis Pair_inject)

lemma ok_ret [wp]: "Q x \<Longrightarrow> ok (ret x) Q"
  by (auto simp: ok_def intro!: exI [of _ "[]"])

lemma ok_bind [wp]: "ok f (\<lambda>x. ok (g x) Q) \<Longrightarrow> ok (State_Monad.bind f g) Q"
  unfolding ok_def
proof (intro allI)
  fix t
  assume "\<forall>t. \<exists>x l. run_state f (Some t) = (x, Some (t @ l)) \<and>
    (\<forall>t. \<exists>y l. run_state (g x) (Some t) = (y, Some (t @ l)) \<and> Q y)"
  then obtain x l where 1: "run_state f (Some t) = (x, Some (t @ l))"
    and "\<forall>t. \<exists>y l. run_state (g x) (Some t) = (y, Some (t @ l)) \<and> Q y" by blast
  then obtain y l' where "run_state (g x) (Some (t @ l)) = (y, Some ((t @ l) @ l'))" and "Q y"
    by blast
  with 1 show "\<exists>x l. run_state (State_Monad.bind f g) (Some t) = (x, Some (t @ l)) \<and> Q x"
    by auto
qed

lemma ok_tick [wp]: "Q () \<Longrightarrow> ok (tick e) Q"
  by (auto simp: ok_def tick_def)

lemma ok_ld [wp]: "i < alen a \<Longrightarrow> Q (cells a ! i) \<Longrightarrow> ok (ld a i) Q"
  by (auto simp: ok_def ld_def)

lemma ok_st [wp]: "i < alen a \<Longrightarrow> Q (a\<lparr>cells := (cells a)[i := v]\<rparr>) \<Longrightarrow> ok (st a i v) Q"
  by (auto simp: ok_def st_def)

lemma ok_memcpy [wp]:
  "i + n \<le> alen d \<Longrightarrow> j + n \<le> alen s \<Longrightarrow>
   Q (d\<lparr>cells := splice (cells d) i (take n (drop j (cells s)))\<rparr>) \<Longrightarrow> ok (memcpy d i s j n) Q"
  by (auto simp: ok_def memcpy_def)

lemma ok_memset [wp]:
  "i + n \<le> alen d \<Longrightarrow> Q (d\<lparr>cells := splice (cells d) i (replicate n v)\<rparr>) \<Longrightarrow> ok (memset d i v n) Q"
  by (auto simp: ok_def memset_def)

lemma ok_branch [wp]: "(b \<Longrightarrow> ok f Q) \<Longrightarrow> (\<not> b \<Longrightarrow> ok g Q) \<Longrightarrow> ok (branch b f g) Q"
  unfolding branch_def by (rule ok_bind, rule ok_tick) auto

lemma ok_for_loop:
  assumes "Inv i s" and "i \<le> n"
    and "\<And>j s. i \<le> j \<Longrightarrow> j < n \<Longrightarrow> Inv j s \<Longrightarrow> ok (body j s) (Inv (Suc j))"
    and "\<And>s. Inv n s \<Longrightarrow> Q s"
  shows "ok (for_loop i n body s) Q"
  using assms
proof (induction i n body s rule: for_loop.induct)
  case (1 i n body s)
  show ?case
  proof (cases "i < n")
    case True
    have "ok (body i s) (\<lambda>s'. ok (for_loop (Suc i) n body s') Q)"
    proof (rule ok_weaken [OF "1.prems"(3) [OF order_refl True "1.prems"(1)]])
      fix s' assume "Inv (Suc i) s'"
      then show "ok (for_loop (Suc i) n body s') Q"
        using True "1.prems"(3,4) by (intro "1.IH") auto
    qed
    with True show ?thesis by (subst for_loop.simps) (auto intro!: ok_bind ok_branch)
  next
    case False
    with "1.prems" have "Q s" by simp
    with False show ?thesis by (subst for_loop.simps) (auto intro!: ok_branch ok_ret)
  qed
qed

lemma ok_for_down:
  assumes "Inv n s"
    and "\<And>j s. j < n \<Longrightarrow> Inv (Suc j) s \<Longrightarrow> ok (body j s) (Inv j)"
    and "\<And>s. Inv 0 s \<Longrightarrow> Q s"
  shows "ok (for_down n body s) Q"
  using assms(1,2)
proof (induction n arbitrary: s)
  case 0
  then show ?case by (simp add: assms(3) ok_branch ok_ret)
next
  case (Suc n)
  have "ok (body n s) (\<lambda>s'. ok (for_down n body s') Q)"
    by (rule ok_weaken [OF Suc.prems(2) [OF lessI Suc.prems(1)]])
      (rule Suc.IH, assumption, rule Suc.prems(2), simp_all)
  then show ?case by (auto intro!: ok_branch ok_bind)
qed

section \<open>Two runs with the same trace\<close>

definition ct :: "'a cm \<Rightarrow> 'b cm \<Rightarrow> ('a \<Rightarrow> 'b \<Rightarrow> bool) \<Rightarrow> bool" where
  "ct f g R \<longleftrightarrow> (\<forall>t. \<exists>x y l. run_state f (Some t) = (x, Some (t @ l)) \<and>
     run_state g (Some t) = (y, Some (t @ l)) \<and> R x y)"

lemma ctD_trace: "ct f g R \<Longrightarrow> trace f = trace g"
  unfolding ct_def trace_def by (metis snd_conv)

lemma ctD_safe: "ct f g R \<Longrightarrow> trace f \<noteq> None"
  unfolding ct_def trace_def by (metis option.distinct(1) snd_conv)

lemma ct_weaken: "ct f g P \<Longrightarrow> (\<And>x y. P x y \<Longrightarrow> R x y) \<Longrightarrow> ct f g R"
  unfolding ct_def by meson

lemma ct_ok: "ct f g R \<Longrightarrow> ok f P \<Longrightarrow> ok g Q \<Longrightarrow> ct f g (\<lambda>x y. R x y \<and> P x \<and> Q y)"
  unfolding ct_def ok_def by (metis Pair_inject)

lemma ct_ret [ctr]: "R x y \<Longrightarrow> ct (ret x) (ret y) R"
  by (auto simp: ct_def intro!: exI [of _ "[]"])

lemma ct_bind [ctr]:
  "ct f g (\<lambda>x y. ct (f' x) (g' y) R) \<Longrightarrow> ct (State_Monad.bind f f') (State_Monad.bind g g') R"
  unfolding ct_def
proof (intro allI)
  fix t
  assume "\<forall>t. \<exists>x y l. run_state f (Some t) = (x, Some (t @ l)) \<and> run_state g (Some t) = (y, Some (t @ l)) \<and>
    (\<forall>t. \<exists>x' y' l. run_state (f' x) (Some t) = (x', Some (t @ l)) \<and>
       run_state (g' y) (Some t) = (y', Some (t @ l)) \<and> R x' y')"
  then obtain x y l where 1: "run_state f (Some t) = (x, Some (t @ l))"
    "run_state g (Some t) = (y, Some (t @ l))"
    and 2: "\<forall>t. \<exists>x' y' l. run_state (f' x) (Some t) = (x', Some (t @ l)) \<and>
       run_state (g' y) (Some t) = (y', Some (t @ l)) \<and> R x' y'" by blast
  from 2 obtain x' y' l' where "run_state (f' x) (Some (t @ l)) = (x', Some ((t @ l) @ l'))"
    "run_state (g' y) (Some (t @ l)) = (y', Some ((t @ l) @ l'))" "R x' y'" by blast
  with 1 show "\<exists>x y l. run_state (State_Monad.bind f f') (Some t) = (x, Some (t @ l)) \<and>
    run_state (State_Monad.bind g g') (Some t) = (y, Some (t @ l)) \<and> R x y" by auto
qed

lemma ct_tick [ctr]: "e = e' \<Longrightarrow> R () () \<Longrightarrow> ct (tick e) (tick e') R"
  by (auto simp: ct_def tick_def)

text \<open>Arrays an observer cannot tell apart: same block, same length.\<close>

definition shape :: "'a arr \<Rightarrow> 'a arr \<Rightarrow> bool" where
  "shape a b \<longleftrightarrow> blk a = blk b \<and> alen a = alen b"

lemma shape_refl [simp, intro]: "shape a a"
  by (simp add: shape_def)

lemma ct_ld [ctr]:
  "shape a b \<Longrightarrow> i = j \<Longrightarrow> i < alen a \<Longrightarrow> R (cells a ! i) (cells b ! j) \<Longrightarrow> ct (ld a i) (ld b j) R"
  by (auto simp: ct_def ld_def shape_def)

lemma ct_st [ctr]:
  "shape a b \<Longrightarrow> i = j \<Longrightarrow> i < alen a \<Longrightarrow>
   (shape (a\<lparr>cells := (cells a)[i := v]\<rparr>) (b\<lparr>cells := (cells b)[j := w]\<rparr>) \<Longrightarrow>
    R (a\<lparr>cells := (cells a)[i := v]\<rparr>) (b\<lparr>cells := (cells b)[j := w]\<rparr>)) \<Longrightarrow> ct (st a i v) (st b j w) R"
  by (auto simp: ct_def st_def shape_def)

lemma length_splice [simp]: "i + length ys \<le> length xs \<Longrightarrow> length (splice xs i ys) = length xs"
  by (simp add: splice_def)

lemma ct_memcpy [ctr]:
  "shape d d' \<Longrightarrow> shape s s' \<Longrightarrow> i = i' \<Longrightarrow> j = j' \<Longrightarrow> n = n' \<Longrightarrow> i + n \<le> alen d \<Longrightarrow> j + n \<le> alen s \<Longrightarrow>
   (shape (d\<lparr>cells := splice (cells d) i (take n (drop j (cells s)))\<rparr>)
      (d'\<lparr>cells := splice (cells d') i (take n (drop j (cells s')))\<rparr>) \<Longrightarrow>
    R (d\<lparr>cells := splice (cells d) i (take n (drop j (cells s)))\<rparr>)
      (d'\<lparr>cells := splice (cells d') i (take n (drop j (cells s')))\<rparr>)) \<Longrightarrow>
   ct (memcpy d i s j n) (memcpy d' i' s' j' n') R"
  by (auto simp: ct_def memcpy_def shape_def)

lemma ct_memset [ctr]:
  "shape d d' \<Longrightarrow> i = i' \<Longrightarrow> n = n' \<Longrightarrow> i + n \<le> alen d \<Longrightarrow>
   (shape (d\<lparr>cells := splice (cells d) i (replicate n v)\<rparr>)
      (d'\<lparr>cells := splice (cells d') i (replicate n w)\<rparr>) \<Longrightarrow>
    R (d\<lparr>cells := splice (cells d) i (replicate n v)\<rparr>)
      (d'\<lparr>cells := splice (cells d') i (replicate n w)\<rparr>)) \<Longrightarrow>
   ct (memset d i v n) (memset d' i' w n') R"
  by (auto simp: ct_def memset_def shape_def)

lemma ct_branch [ctr]:
  "b = b' \<Longrightarrow> (b \<Longrightarrow> ct f f' R) \<Longrightarrow> (\<not> b \<Longrightarrow> ct g g' R) \<Longrightarrow> ct (branch b f g) (branch b' f' g') R"
  unfolding branch_def by (rule ct_bind, rule ct_tick) auto

lemma ct_for_loop:
  assumes "Inv i s s'" and "i \<le> n" and "i = i'" and "n = n'"
    and "\<And>j s s'. i \<le> j \<Longrightarrow> j < n \<Longrightarrow> Inv j s s' \<Longrightarrow> ct (body j s) (body' j s') (Inv (Suc j))"
    and "\<And>s s'. Inv n s s' \<Longrightarrow> R s s'"
  shows "ct (for_loop i n body s) (for_loop i' n' body' s') R"
  using assms(1,2,5,6) unfolding assms(3,4)[symmetric]
proof (induction i n body s arbitrary: s' rule: for_loop.induct)
  case (1 i n body s)
  show ?case
  proof (cases "i < n")
    case True
    have "ct (body i s) (body' i s') (\<lambda>s s'. ct (for_loop (Suc i) n body s) (for_loop (Suc i) n body' s') R)"
    proof (rule ct_weaken [OF "1.prems"(3) [OF order_refl True "1.prems"(1)]])
      fix z z' assume "Inv (Suc i) z z'"
      then show "ct (for_loop (Suc i) n body z) (for_loop (Suc i) n body' z') R"
        using True "1.prems"(3,4) by (intro "1.IH") auto
    qed
    with True show ?thesis by (subst (1 2) for_loop.simps) (auto intro!: ct_bind ct_branch)
  next
    case False
    with "1.prems" have "R s s'" by simp
    with False show ?thesis by (subst (1 2) for_loop.simps) (auto intro!: ct_branch ct_ret)
  qed
qed

lemma ct_for_down:
  assumes "Inv n s s'" and "n = n'"
    and "\<And>j s s'. j < n \<Longrightarrow> Inv (Suc j) s s' \<Longrightarrow> ct (body j s) (body' j s') (Inv j)"
    and "\<And>s s'. Inv 0 s s' \<Longrightarrow> R s s'"
  shows "ct (for_down n body s) (for_down n' body' s') R"
  using assms(1,3) unfolding assms(2)[symmetric]
proof (induction n arbitrary: s s')
  case 0
  then show ?case by (simp add: assms(4) ct_branch ct_ret)
next
  case (Suc n)
  have "ct (body n s) (body' n s') (\<lambda>s s'. ct (for_down n body s) (for_down n body' s') R)"
    by (rule ct_weaken [OF Suc.prems(2) [OF lessI Suc.prems(1)]])
      (rule Suc.IH, assumption, rule Suc.prems(2), simp_all)
  then show ?case by (auto intro!: ct_branch ct_bind)
qed

section \<open>Two runs whose traces separate\<close>

definition split_at :: "event list \<Rightarrow> event list \<Rightarrow> bool" where
  "split_at k l \<longleftrightarrow> (\<exists>p e e' k' l'. k = p @ e # k' \<and> l = p @ e' # l' \<and> e \<noteq> e')"

definition differ :: "'a cm \<Rightarrow> 'b cm \<Rightarrow> ('a \<Rightarrow> bool) \<Rightarrow> ('b \<Rightarrow> bool) \<Rightarrow> bool" where
  "differ f g P Q \<longleftrightarrow> (\<forall>t. \<exists>x y k l. run_state f (Some t) = (x, Some (t @ k)) \<and>
     run_state g (Some t) = (y, Some (t @ l)) \<and> split_at k l \<and> P x \<and> Q y)"

lemma split_at_neq: "split_at k l \<Longrightarrow> k \<noteq> l"
  by (auto simp: split_at_def)

lemma split_at_append: "split_at k l \<Longrightarrow> split_at (k @ k') (l @ l')"
  unfolding split_at_def by (metis append.assoc append_Cons)

lemma split_at_prefix: "split_at k l \<Longrightarrow> split_at (p @ k) (p @ l)"
  unfolding split_at_def by (metis append.assoc)

lemma differD: "differ f g P Q \<Longrightarrow> trace f \<noteq> trace g"
  unfolding differ_def trace_def by (metis append_Nil option.inject snd_conv split_at_neq)

lemma differ_weaken:
  "differ f g P Q \<Longrightarrow> (\<And>x. P x \<Longrightarrow> P' x) \<Longrightarrow> (\<And>x. Q x \<Longrightarrow> Q' x) \<Longrightarrow> differ f g P' Q'"
  unfolding differ_def by meson

lemma differ_bind_left:
  assumes "differ f g (\<lambda>x. ok (f' x) P) (\<lambda>y. ok (g' y) Q)"
  shows "differ (State_Monad.bind f f') (State_Monad.bind g g') P Q"
  unfolding differ_def
proof (intro allI)
  fix t
  from assms obtain x y k l where 1: "run_state f (Some t) = (x, Some (t @ k))"
    "run_state g (Some t) = (y, Some (t @ l))" "split_at k l" "ok (f' x) P" "ok (g' y) Q"
    unfolding differ_def by blast
  from 1(4) obtain x' k' where "run_state (f' x) (Some (t @ k)) = (x', Some ((t @ k) @ k'))" "P x'"
    unfolding ok_def by blast
  moreover from 1(5) obtain y' l' where "run_state (g' y) (Some (t @ l)) = (y', Some ((t @ l) @ l'))" "Q y'"
    unfolding ok_def by blast
  ultimately show "\<exists>x y k l. run_state (State_Monad.bind f f') (Some t) = (x, Some (t @ k)) \<and>
    run_state (State_Monad.bind g g') (Some t) = (y, Some (t @ l)) \<and> split_at k l \<and> P x \<and> Q y"
    using 1(1-3) split_at_append by fastforce
qed

lemma differ_bind_right:
  assumes "ct f g (\<lambda>x y. differ (f' x) (g' y) P Q)"
  shows "differ (State_Monad.bind f f') (State_Monad.bind g g') P Q"
  unfolding differ_def
proof (intro allI)
  fix t
  from assms obtain x y l where 1: "run_state f (Some t) = (x, Some (t @ l))"
    "run_state g (Some t) = (y, Some (t @ l))" "differ (f' x) (g' y) P Q" unfolding ct_def by blast
  from 1(3) obtain x' y' k' l' where 2: "run_state (f' x) (Some (t @ l)) = (x', Some ((t @ l) @ k'))"
    "run_state (g' y) (Some (t @ l)) = (y', Some ((t @ l) @ l'))" "split_at k' l'" "P x'" "Q y'"
    unfolding differ_def by blast
  have "split_at (l @ k') (l @ l')" using 2(3) by (rule split_at_prefix)
  with 1(1,2) 2 show "\<exists>x y k l. run_state (State_Monad.bind f f') (Some t) = (x, Some (t @ k)) \<and>
    run_state (State_Monad.bind g g') (Some t) = (y, Some (t @ l)) \<and> split_at k l \<and> P x \<and> Q y"
    by auto
qed

lemma differ_tick: "e \<noteq> e' \<Longrightarrow> P () \<Longrightarrow> Q () \<Longrightarrow> differ (tick e) (tick e') P Q"
  by (auto simp: differ_def tick_def split_at_def intro!: exI [of _ "[]"])

lemma differ_branch:
  "ok f P \<Longrightarrow> ok g Q \<Longrightarrow> differ (branch True f f') (branch False g' g) P Q"
  unfolding branch_def by (rule differ_bind_left, rule differ_tick) auto

lemma differ_branch_sym:
  "ok f P \<Longrightarrow> ok g Q \<Longrightarrow> differ (branch False f' f) (branch True g g') P Q"
  unfolding branch_def by (rule differ_bind_left, rule differ_tick) auto

lemma ct_imp_ok: "ct f g R \<Longrightarrow> ok f (\<lambda>x. \<exists>y. R x y)"
  unfolding ct_def ok_def by metis

lemma differ_for_loop:
  assumes "Inv i s s'" and "i \<le> k" and "k < n"
    and "\<And>j s s'. i \<le> j \<Longrightarrow> j < k \<Longrightarrow> Inv j s s' \<Longrightarrow> ct (body j s) (body' j s') (Inv (Suc j))"
    and "\<And>s s'. Inv k s s' \<Longrightarrow> differ (body k s) (body' k s')
      (\<lambda>s. ok (for_loop (Suc k) n body s) P) (\<lambda>s. ok (for_loop (Suc k) n body' s) P')"
  shows "differ (for_loop i n body s) (for_loop i n body' s') P P'"
  using assms
proof (induction "k - i" arbitrary: i s s')
  case 0
  then have i: "i = k" by simp
  have "differ (do { s \<leftarrow> body k s; for_loop (Suc k) n body s }) (do { s \<leftarrow> body' k s'; for_loop (Suc k) n body' s }) P P'"
    using 0 by (intro differ_bind_left) (simp add: i)
  then show ?case using \<open>k < n\<close>
    by (subst (1 2) for_loop.simps) (auto simp: i branch_def intro!: differ_bind_right [of "tick _"] ct_tick)
next
  case (Suc d)
  then have i: "i < k" by simp
  have "ct (body i s) (body' i s') (\<lambda>z z'. differ (for_loop (Suc i) n body z) (for_loop (Suc i) n body' z') P P')"
    by (rule ct_weaken [OF Suc.prems(4) [OF order_refl i Suc.prems(1)]], rule Suc.hyps(1))
      (use Suc.hyps(2) Suc.prems i in auto)
  then show ?case using i \<open>k < n\<close>
    by (subst (1 2) for_loop.simps) (auto simp: branch_def intro!: differ_bind_right ct_tick)
qed

end
