(* ===== verification/Ct_Prims.thy ===== *)
theory Ct_Prims
  imports Leak_Monad
begin

text \<open>
  The constant-time primitives of \<^verbatim>\<open>src/inner.h\<close> and the bit-by-bit division of
  \<^verbatim>\<open>src/int/i32_div32.c\<close>. Every primitive is the bit trick the source computes; the
  lemmas say what it means on the values.
\<close>

section \<open>Multiplexers and comparisons (inner.h)\<close>

definition NOT_ctl :: "u32 \<Rightarrow> u32" where
  "NOT_ctl ctl = ctl XOR 1"

definition MUX :: "u32 \<Rightarrow> u32 \<Rightarrow> u32 \<Rightarrow> u32" where
  "MUX ctl x y = y XOR (- ctl AND (x XOR y))"

definition EQ :: "u32 \<Rightarrow> u32 \<Rightarrow> u32" where
  "EQ x y = (let q = x XOR y in NOT_ctl (shr (q OR - q) 31))"

definition NEQ :: "u32 \<Rightarrow> u32 \<Rightarrow> u32" where
  "NEQ x y = (let q = x XOR y in shr (q OR - q) 31)"

definition GT :: "u32 \<Rightarrow> u32 \<Rightarrow> u32" where
  "GT x y = (let z = y - x in shr (z XOR ((x XOR y) AND (x XOR z))) 31)"

definition GE :: "u32 \<Rightarrow> u32 \<Rightarrow> u32" where
  "GE x y = NOT_ctl (GT y x)"

definition LT :: "u32 \<Rightarrow> u32 \<Rightarrow> u32" where
  "LT x y = GT y x"

definition LE :: "u32 \<Rightarrow> u32 \<Rightarrow> u32" where
  "LE x y = NOT_ctl (GT x y)"

text \<open>\<open>int32_t\<close> values are kept as the 32-bit words that represent them; \<open>sint\<close> reads them.\<close>

definition CMP :: "u32 \<Rightarrow> u32 \<Rightarrow> u32" where
  "CMP x y = GT x y OR - GT y x"

definition EQ0 :: "u32 \<Rightarrow> u32" where
  "EQ0 x = shr (NOT (x OR - x)) 31"

definition GT0 :: "u32 \<Rightarrow> u32" where
  "GT0 x = shr (NOT x AND - x) 31"

definition GE0 :: "u32 \<Rightarrow> u32" where
  "GE0 x = shr (NOT x) 31"

definition LT0 :: "u32 \<Rightarrow> u32" where
  "LT0 x = shr x 31"

definition LE0 :: "u32 \<Rightarrow> u32" where
  "LE0 x = shr (x OR NOT (- x)) 31"

definition BIT_LENGTH :: "u32 \<Rightarrow> u32" where
  "BIT_LENGTH x0 = (let
     k = NEQ x0 0;
     c = GT x0 0xFFFF; x = MUX c (shr x0 16) x0; k = k + shl c 4;
     c = GT x 0x00FF; x = MUX c (shr x 8) x; k = k + shl c 3;
     c = GT x 0x000F; x = MUX c (shr x 4) x; k = k + shl c 2;
     c = GT x 0x0003; x = MUX c (shr x 2) x; k = k + shl c 1
   in k + GT x 0x0001)"

definition MIN_u32 :: "u32 \<Rightarrow> u32 \<Rightarrow> u32" where
  "MIN_u32 x y = MUX (GT x y) y x"

definition MAX_u32 :: "u32 \<Rightarrow> u32 \<Rightarrow> u32" where
  "MAX_u32 x y = MUX (GT x y) x y"

section \<open>Multiplications (inner.h)\<close>

definition MUL :: "u32 \<Rightarrow> u32 \<Rightarrow> u64" where
  "MUL x y = ucast x * ucast y"

definition MUL31 :: "u32 \<Rightarrow> u32 \<Rightarrow> u64" where
  "MUL31 x y = ucast x * ucast y"

definition MUL31_lo :: "u32 \<Rightarrow> u32 \<Rightarrow> u32" where
  "MUL31_lo x y = (x * y) AND 0x7FFFFFFF"

text \<open>The alternate versions compiled when \<open>BR_CT_MUL31\<close> is set.\<close>

definition MUL31_ct :: "u32 \<Rightarrow> u32 \<Rightarrow> u64" where
  "MUL31_ct x y = ucast (x OR 0x80000000) * ucast (y OR 0x80000000)
     - shl (ucast x) 31 - shl (ucast y) 31 - shl 1 62"

definition MUL31_lo_ct :: "u32 \<Rightarrow> u32 \<Rightarrow> u32" where
  "MUL31_lo_ct x y = (let
     xl = (x AND 0xFFFF) OR 0x80000000;
     xh = shr x 16 OR 0x80000000;
     yl = (y AND 0xFFFF) OR 0x80000000;
     yh = shr y 16 OR 0x80000000
   in (xl * yl + shl (xl * yh + xh * yl) 16) AND 0x7FFFFFFF)"

section \<open>Division (int/i32_div32.c)\<close>

fun br_divrem_loop :: "nat \<Rightarrow> u32 \<Rightarrow> u32 \<Rightarrow> u32 \<Rightarrow> u32 \<Rightarrow> u32 \<times> u32 \<times> u32" where
  "br_divrem_loop 0 hi lo d q = (hi, lo, q)"
| "br_divrem_loop (Suc k') hi lo d q = (let
     k = Suc k';
     j = 32 - k;
     w = shl hi j OR shr lo k;
     ctl = GE w d OR shr hi k;
     hi2 = shr (w - d) j;
     lo2 = lo - shl d k;
     hi = MUX ctl hi2 hi;
     lo = MUX ctl lo2 lo;
     q = q OR shl ctl k
   in br_divrem_loop k' hi lo d q)"

definition br_divrem :: "u32 \<Rightarrow> u32 \<Rightarrow> u32 \<Rightarrow> u32 \<times> u32" where
  "br_divrem hi lo d = (let
     ch = EQ hi d;
     hi = MUX ch 0 hi;
     (hi, lo, q) = br_divrem_loop 31 hi lo d 0;
     cf = GE lo d OR hi;
     q = q OR cf;
     r = MUX cf (lo - d) lo
   in (q, r))"

definition br_rem :: "u32 \<Rightarrow> u32 \<Rightarrow> u32 \<Rightarrow> u32" where
  "br_rem hi lo d = (let (q, r) = br_divrem hi lo d in r)"

definition br_div :: "u32 \<Rightarrow> u32 \<Rightarrow> u32 \<Rightarrow> u32" where
  "br_div hi lo d = (let (q, r) = br_divrem hi lo d in q)"

section \<open>What the comparisons return\<close>

lemma unat_drop_bit: "unat (drop_bit n w) = unat w div 2 ^ n"
  by (simp add: unat_drop_bit_eq flip: drop_bit_eq_div)

lemma unat_lt32: "unat (w :: u32) < 4294967296"
proof -
  have "unat w < 2 ^ LENGTH(32)" by (rule unsigned_less)
  then show ?thesis by simp
qed

lemma unat_lt64: "unat (w :: u64) < 18446744073709551616"
proof -
  have "unat w < 2 ^ LENGTH(64)" by (rule unsigned_less)
  then show ?thesis by simp
qed

lemma xor_eq_0: "(x XOR y = 0) \<longleftrightarrow> (x :: 'a::len word) = y"
  by (metis xor.assoc xor.right_neutral xor_self_eq)

lemma xor_cancel [simp]: "y XOR (x XOR y) = (x :: 'a::len word)"
  by (metis xor.assoc xor.commute xor.right_neutral xor_self_eq)

lemma bit31: "bit (w :: u32) 31 \<longleftrightarrow> 2147483648 \<le> unat w"
proof -
  have "bit w 31 \<longleftrightarrow> odd (unat w div 2 ^ 31)"
    by (metis bit_iff_odd bit_unsigned_iff possible_bit_nat)
  moreover have "unat w div 2 ^ 31 = (if 2147483648 \<le> unat w then 1 else 0)"
    using unat_lt32 [of w] by (auto simp: div_eq_0_iff intro: div_nat_eqI)
  ultimately show ?thesis by (auto split: if_splits)
qed

lemma shr31: "shr (w :: u32) 31 = of_bool (bit w 31)"
proof (rule bit_word_eqI)
  fix n assume "n < LENGTH(32)"
  show "bit (shr w 31) n = bit (of_bool (bit w 31) :: u32) n"
    by (cases n) (auto simp: bit_simps bit_1_iff dest: bit_imp_le_length)
qed

lemma unat_sub32: "unat (y - x :: u32) = (if x \<le> y then unat y - unat x else 4294967296 + unat y - unat x)"
  by (simp only: unat_sub_if' word_le_nat_alt) auto

lemma unat_neg32: "unat (- q :: u32) = (if q = 0 then 0 else 4294967296 - unat q)"
  using unat_sub32 [of 0 q] by (cases "q = 0") (simp_all add: word_le_nat_alt unat_eq_zero)

lemma or_neg_bit31: "bit (q OR - q) 31 \<longleftrightarrow> (q :: u32) \<noteq> 0"
proof -
  have "bit (q OR - q) 31 \<longleftrightarrow> 2147483648 \<le> unat q \<or> 2147483648 \<le> unat (- q)"
    unfolding bit_or_iff unfolding bit31 by simp
  then show ?thesis using unat_lt32 [of q] by (auto simp: unat_neg32 unat_eq_0 [symmetric])
qed

lemma NOT_ctl_of_bool [simp]: "NOT_ctl (of_bool b) = of_bool (\<not> b)"
  by (simp add: NOT_ctl_def)

lemma NOT_ctl_numeral [simp]: "NOT_ctl 0 = 1" "NOT_ctl 1 = 0"
  by (simp_all add: NOT_ctl_def)

lemma NEQ_eq [simp]: "NEQ x y = of_bool (x \<noteq> y)"
  unfolding NEQ_def Let_def shr31 or_neg_bit31 xor_eq_0 by simp

lemma EQ_eq [simp]: "EQ x y = of_bool (x = y)"
  unfolding EQ_def Let_def shr31 or_neg_bit31 xor_eq_0 by simp

lemma MUX_of_bool [simp]: "MUX (of_bool b) x y = (if b then x else y)"
  by (simp add: MUX_def)

lemma MUX_0 [simp]: "MUX 0 x y = y"
  by (simp add: MUX_def)

lemma MUX_1 [simp]: "MUX 1 x y = x"
  by (simp add: MUX_def)

lemma GT_eq [simp]: "GT x y = of_bool (y < x)"
proof -
  have "bit ((y - x) XOR ((x XOR y) AND (x XOR (y - x)))) 31 \<longleftrightarrow> y < x"
    using unat_lt32 [of x] unat_lt32 [of y]
    unfolding bit_xor_iff bit_and_iff unfolding bit31 unat_sub32 word_less_nat_alt word_le_nat_alt
    by (auto split: if_splits)
  then show ?thesis by (simp only: GT_def Let_def shr31)
qed

lemma GE_eq [simp]: "GE x y = of_bool (y \<le> x)"
  by (simp add: GE_def not_less)

lemma LT_eq [simp]: "LT x y = of_bool (x < y)"
  by (simp add: LT_def)

lemma LE_eq [simp]: "LE x y = of_bool (x \<le> y)"
  by (simp add: LE_def not_less)

lemma CMP_eq: "CMP x y = (if x < y then - 1 else if x = y then 0 else 1)"
  by (auto simp: CMP_def)

lemma sint_le0: "sint (x :: u32) < 0 \<longleftrightarrow> bit x 31"
  by (simp add: bit_last_iff [symmetric])

lemma LT0_eq: "LT0 x = of_bool (sint x < 0)"
  by (simp add: LT0_def shr31 sint_le0)

lemma GE0_eq: "GE0 x = of_bool (0 \<le> sint x)"
  by (simp add: GE0_def shr31 bit_not_iff sint_le0 flip: not_less)

lemma EQ0_eq: "EQ0 x = of_bool (x = 0)"
  unfolding EQ0_def shr31 bit_not_iff or_neg_bit31 by simp

lemma or_disjoint:
  assumes "2 ^ j dvd unat (a :: 'a::len word)" and "unat b < 2 ^ j"
  shows "a OR b = a + b" and "unat (a OR b) = unat a + unat b"
proof -
  have bits: "\<not> bit a n \<or> \<not> bit b n" for n
  proof (cases "n < j")
    case True
    have "take_bit j (unat a) = 0" using assms(1) by (simp add: take_bit_eq_mod)
    with True have "\<not> bit (unat a) n" by (metis bit_0_eq bit_take_bit_iff bot_apply bot_bool_def)
    then show ?thesis by (simp add: bit_unsigned_iff)
  next
    case False
    then have "(2::nat) ^ j \<le> 2 ^ n" by simp
    with assms(2) have "unat b div 2 ^ n = 0" by (simp add: order.strict_trans2)
    then have "\<not> bit (unat b) n" by (simp add: bit_iff_odd)
    then show ?thesis by (simp add: bit_unsigned_iff)
  qed
  then show 1: "a OR b = a + b" by (simp add: disjunctive_add)
  have "unat (a OR b) = unat a OR unat b" by (simp add: unsigned_or_eq)
  also have "\<dots> = unat a + unat b" using bits by (simp add: disjunctive_add bit_unsigned_iff)
  finally show "unat (a OR b) = unat a + unat b" .
qed

lemma sint32: "sint (x :: u32) = uint x - 4294967296 * of_bool (bit x 31)"
proof -
  have "uint x < 2 ^ LENGTH(32)" by (rule unsigned_less)
  then have "take_bit 32 (uint x) = uint x" by (simp add: take_bit_int_eq_self_iff)
  then show ?thesis by (simp add: sint_uint signed_take_bit_eq_take_bit_minus bit_uint_iff)
qed

lemma sint32_nat: "\<exists>n. unat (x :: u32) = n \<and> uint x = int n \<and> n < 4294967296 \<and> (n = 0 \<longleftrightarrow> x = 0)"
  using unat_lt32 [of x] by (auto simp: unat_eq_zero)

lemma GT0_eq: "GT0 x = of_bool (0 < sint x)"
proof -
  obtain n where n: "unat x = n" "uint x = int n" "n < 4294967296" "n = 0 \<longleftrightarrow> x = 0"
    using sint32_nat by blast
  have "bit (NOT x AND - x) 31 \<longleftrightarrow> 0 < sint x"
    unfolding bit_and_iff bit_not_iff sint32 unfolding bit31 unat_neg32 n(1,2)
    using n(3,4) by auto
  then show ?thesis by (simp only: GT0_def shr31)
qed

lemma LE0_eq: "LE0 x = of_bool (sint x \<le> 0)"
proof -
  obtain n where n: "unat x = n" "uint x = int n" "n < 4294967296" "n = 0 \<longleftrightarrow> x = 0"
    using sint32_nat by blast
  have "bit (x OR NOT (- x)) 31 \<longleftrightarrow> sint x \<le> 0"
    unfolding bit_or_iff bit_not_iff sint32 unfolding bit31 unat_neg32 n(1,2)
    using n(3,4) by auto
  then show ?thesis by (simp only: LE0_def shr31)
qed

lemma MIN_u32_eq: "MIN_u32 x y = min x y"
  by (auto simp: MIN_u32_def min_def)

lemma MAX_u32_eq: "MAX_u32 x y = max x y"
  by (auto simp: MAX_u32_def max_def)

lemma unat_ucast_up [simp]: "unat (ucast (x :: u32) :: u64) = unat x"
  by (simp add: unsigned_ucast_eq take_bit_nat_eq_self unat_lt32 order.strict_trans [OF unat_lt32])

lemma unat_MUL31: "unat (MUL31 x y) = unat x * unat y"
proof -
  have "unat x * unat y < 4294967296 * 4294967296"
    by (rule mult_strict_mono) (use unat_lt32 in auto)
  then show ?thesis by (simp add: MUL31_def unat_word_ariths)
qed

lemma unat_and31: "unat (w AND 0x7FFFFFFF :: u32) = unat w mod 2147483648"
proof -
  have "(0x7FFFFFFF :: u32) = mask 31" by (simp add: mask_eq_exp_minus_1)
  then have "w AND 0x7FFFFFFF = take_bit 31 w" by (simp only: take_bit_eq_mask)
  then have "unat (w AND 0x7FFFFFFF) = take_bit 31 (unat w)" by (simp only: unsigned_take_bit_eq)
  then show ?thesis by (simp only: take_bit_eq_mod) simp
qed

lemma unat_MUL31_lo: "unat (MUL31_lo x y) = unat x * unat y mod 2147483648"
  by (simp add: MUL31_lo_def unat_and31 unat_word_ariths mod_mod_cancel)

fun nbits :: "nat \<Rightarrow> nat" where
  "nbits n = (if n = 0 then 0 else Suc (nbits (n div 2)))"

declare nbits.simps [simp del]

lemma nbits_0 [simp]: "nbits 0 = 0"
  by (simp add: nbits.simps)

lemma nbits_le_iff: "nbits n \<le> k \<longleftrightarrow> n < 2 ^ k"
proof (induction n arbitrary: k rule: nbits.induct)
  case (1 n)
  show ?case
  proof (cases "n = 0")
    case False
    show ?thesis
    proof (cases k)
      case 0
      with False show ?thesis by (simp add: nbits.simps [of n])
    next
      case (Suc k')
      with False "1.IH" [OF False, of k'] show ?thesis by (auto simp: nbits.simps [of n])
    qed
  qed simp
qed

lemma nbits_div: "2 ^ s \<le> n \<Longrightarrow> nbits (n div 2 ^ s) + s = nbits n"
proof (induction s arbitrary: n)
  case (Suc s)
  then have n: "n \<noteq> 0" "2 ^ s \<le> n div 2" by (auto intro: gr0I)
  have "nbits (n div 2 div 2 ^ s) + s = nbits (n div 2)" by (rule Suc.IH [OF n(2)])
  with n show ?case by (simp add: nbits.simps [of n] div_mult2_eq [symmetric] mult.commute)
qed simp

lemma BIT_LENGTH_step:
  fixes x :: u32
  assumes "unat x < 2 ^ (2 * s)" and "c = GT x m" and "unat m = 2 ^ s - 1" and "0 < s" and "s < 32"
    and "x' = MUX c (shr x s) x"
  shows "unat x' < 2 ^ s" and "nbits (unat x) = nbits (unat x') + s * unat c"
    and "x' = 0 \<longleftrightarrow> x = 0" and "unat c \<le> 1"
proof -
  have "m < x \<longleftrightarrow> 2 ^ s \<le> unat x"
    unfolding word_less_nat_alt assms(3) by (metis One_nat_def Suc_le_eq Suc_pred zero_less_numeral zero_less_power)
  then have c: "c = of_bool (2 ^ s \<le> unat x)"
    using assms(2) by simp
  have lt: "unat x div 2 ^ s < 2 ^ s"
    using assms(1) by (simp add: less_mult_imp_div_less power_add [symmetric] mult_2)
  show "unat x' < 2 ^ s" using lt assms(6) by (auto simp: c unat_drop_bit)
  show "nbits (unat x) = nbits (unat x') + s * unat c"
    using assms(6) nbits_div [of s "unat x"] by (auto simp: c unat_drop_bit)
  show "unat c \<le> 1" by (simp add: c)
  have "2 ^ s \<le> unat x \<Longrightarrow> unat (shr x s) \<noteq> 0"
    by (simp add: unat_drop_bit div_eq_0_iff)
  moreover have "2 ^ s \<le> unat x \<Longrightarrow> x \<noteq> 0" by auto
  ultimately show "x' = 0 \<longleftrightarrow> x = 0" using assms(6) by (auto simp: c)
qed

lemma nbits_lt4: "n < 4 \<Longrightarrow> nbits n = of_bool (n \<noteq> 0) + of_bool (1 < n)"
  by (cases "n = 0"; cases "n = 1"; cases "n = 2"; cases "n = 3") (auto simp: nbits.simps)

theorem BIT_LENGTH_nbits: "unat (BIT_LENGTH x) = nbits (unat x)"
proof -
  define c1 where "c1 = GT x 0xFFFF"
  define x1 where "x1 = MUX c1 (shr x 16) x"
  define c2 where "c2 = GT x1 0x00FF"
  define x2 where "x2 = MUX c2 (shr x1 8) x1"
  define c3 where "c3 = GT x2 0x000F"
  define x3 where "x3 = MUX c3 (shr x2 4) x2"
  define c4 where "c4 = GT x3 0x0003"
  define x4 where "x4 = MUX c4 (shr x3 2) x3"
  have s1: "unat x1 < 2 ^ 16" "nbits (unat x) = nbits (unat x1) + 16 * unat c1" "x1 = 0 \<longleftrightarrow> x = 0" "unat c1 \<le> 1"
    using BIT_LENGTH_step [of x 16 c1 "0xFFFF" x1, OF _ c1_def _ _ _ x1_def] unat_lt32 [of x] by simp_all
  have s2: "unat x2 < 2 ^ 8" "nbits (unat x1) = nbits (unat x2) + 8 * unat c2" "x2 = 0 \<longleftrightarrow> x1 = 0" "unat c2 \<le> 1"
    using BIT_LENGTH_step [of x1 8 c2 "0x00FF" x2, OF _ c2_def _ _ _ x2_def] s1(1) by simp_all
  have s3: "unat x3 < 2 ^ 4" "nbits (unat x2) = nbits (unat x3) + 4 * unat c3" "x3 = 0 \<longleftrightarrow> x2 = 0" "unat c3 \<le> 1"
    using BIT_LENGTH_step [of x2 4 c3 "0x000F" x3, OF _ c3_def _ _ _ x3_def] s2(1) by simp_all
  have s4: "unat x4 < 2 ^ 2" "nbits (unat x3) = nbits (unat x4) + 2 * unat c4" "x4 = 0 \<longleftrightarrow> x3 = 0" "unat c4 \<le> 1"
    using BIT_LENGTH_step [of x3 2 c4 "0x0003" x4, OF _ c4_def _ _ _ x4_def] s3(1) by simp_all
  have "nbits (unat x4) = of_bool (unat x4 \<noteq> 0) + of_bool (1 < unat x4)"
    using s4(1) by (intro nbits_lt4) simp
  then have x4: "nbits (unat x4) = unat (NEQ x 0) + unat (GT x4 1)"
    using s1(3) s2(3) s3(3) s4(3) by (simp add: word_less_nat_alt unat_eq_zero)
  have "BIT_LENGTH x = NEQ x 0 + shl c1 4 + shl c2 3 + shl c3 2 + shl c4 1 + GT x4 1"
    by (simp only: BIT_LENGTH_def Let_def c1_def x1_def c2_def x2_def c3_def x3_def c4_def x4_def)
  also have "\<dots> = of_nat (unat (NEQ x 0) + 16 * unat c1 + 8 * unat c2 + 4 * unat c3 + 2 * unat c4 + unat (GT x4 1))"
    by (simp add: push_bit_eq_mult mult.commute)
  finally have "BIT_LENGTH x = of_nat (nbits (unat x))"
    using s1(2) s2(2) s3(2) s4(2) x4 by (simp add: algebra_simps)
  moreover have "nbits (unat x) \<le> 32" using unat_lt32 [of x] by (simp add: nbits_le_iff)
  ultimately show ?thesis by (simp add: unsigned_of_nat take_bit_nat_eq_self)
qed

lemma unat_shl32: "unat (shl (a :: u32) j) = unat a * 2 ^ j mod 4294967296"
proof -
  have "unat (shl a j) = take_bit LENGTH(32) (push_bit j (unat a))" by (rule unsigned_push_bit_eq)
  then show ?thesis by (simp add: take_bit_eq_mod push_bit_eq_mult)
qed

lemma shl_or_shr:
  fixes hi lo :: u32
  assumes "k + j = 32" and "0 < j"
  shows "unat (shl hi j OR shr lo k) = (unat hi * 4294967296 + unat lo) div 2 ^ k mod 4294967296"
proof -
  have p: "(4294967296 :: nat) = 2 ^ j * 2 ^ k" using assms(1) by (simp flip: power_add add: add.commute)
  have lt: "unat (shr lo k) < 2 ^ j"
    using unat_lt32 [of lo] by (simp add: unat_drop_bit p less_mult_imp_div_less)
  have dv: "2 ^ j dvd unat (shl hi j)"
    by (simp add: unat_shl32 p mod_mult2_eq mod_mult_mult2)
  have "unat (shl hi j OR shr lo k) = unat hi * 2 ^ j mod 4294967296 + unat lo div 2 ^ k"
    by (simp add: or_disjoint(2) [OF dv lt] unat_shl32 unat_drop_bit)
  also have "\<dots> = (unat hi * 2 ^ j + unat lo div 2 ^ k) mod 4294967296"
  proof -
    have "unat hi * 2 ^ j mod 4294967296 + unat lo div 2 ^ k < 4294967296"
    proof -
      have "unat hi * 2 ^ j mod (2 ^ j * 2 ^ k) = 2 ^ j * (unat hi mod 2 ^ k)"
        by (simp add: mult.commute mod_mult_mult2)
      moreover have "2 ^ j * (unat hi mod 2 ^ k) + 2 ^ j \<le> 2 ^ j * 2 ^ k"
        by (metis Suc_leI mod_less_divisor mult_Suc_right mult_le_mono2 add.commute zero_less_numeral zero_less_power)
      ultimately show ?thesis using lt by (simp add: p unat_drop_bit)
    qed
    then show ?thesis by (metis mod_add_left_eq mod_less)
  qed
  also have "unat hi * 2 ^ j + unat lo div 2 ^ k = (unat hi * 4294967296 + unat lo) div 2 ^ k"
    by (simp add: p mult.assoc [symmetric])
  finally show ?thesis .
qed


lemma mod_add_mid: "((a::nat) + b + c) mod p = (a + (b mod p + c)) mod p"
  by (metis add.assoc mod_add_left_eq mod_add_right_eq)

lemma br_divrem_step:
  fixes hi lo d :: u32
  defines "N \<equiv> unat hi * 4294967296 + unat lo"
  assumes k: "0 < k" "k \<le> 31" and lt: "N < unat d * 2 ^ (Suc k)"
    and w: "w = shl hi (32 - k) OR shr lo k"
    and ctl: "ctl = GE w d OR shr hi k"
    and hi': "hi' = MUX ctl (shr (w - d) (32 - k)) hi"
    and lo': "lo' = MUX ctl (lo - shl d k) lo"
  shows "ctl = of_bool (unat d * 2 ^ k \<le> N)"
    and "unat hi' * 4294967296 + unat lo' = N - (if unat d * 2 ^ k \<le> N then unat d * 2 ^ k else 0)"
proof -
  define j where "j = 32 - k"
  have j: "k + j = 32" "0 < j" "32 - k = j" using k by (auto simp: j_def)
  have p: "(4294967296 :: nat) = 2 ^ j * 2 ^ k" using j(1) by (simp flip: power_add add: add.commute)
  have uw: "unat w = N div 2 ^ k mod 4294967296"
    unfolding w j(3) N_def by (rule shl_or_shr [OF j(1,2)])
  have Nk: "N div 2 ^ k < 2 * unat d" using lt less_mult_imp_div_less [of N "2 * unat d" "2 ^ k"] by (simp add: ac_simps)
  have hk: "unat (shr hi k) = N div 2 ^ k div 4294967296"
  proof -
    have "N div 2 ^ k div 4294967296 = N div 4294967296 div 2 ^ k"
      by (simp add: div_mult2_eq [symmetric] mult.commute)
    also have "N div 4294967296 = unat hi" using unat_lt32 [of lo] by (simp add: N_def)
    finally show ?thesis by (simp add: unat_drop_bit)
  qed
  have d: "unat d < 4294967296" by (rule unat_lt32)
  have big: "unat d * 2 ^ k \<le> N \<longleftrightarrow> unat d \<le> N div 2 ^ k" by (simp add: less_eq_div_iff_mult_less_eq)
  have ctl': "ctl = of_bool (unat d \<le> N div 2 ^ k)"
  proof (cases "N div 2 ^ k < 4294967296")
    case True
    then have "unat w = N div 2 ^ k" "shr hi k = 0"
      using uw hk by (simp_all add: unat_eq_zero [symmetric])
    then show ?thesis by (simp add: ctl word_le_nat_alt)
  next
    case False
    then have "N div 2 ^ k div 4294967296 = 1" using Nk d by (intro div_nat_eqI) auto
    then have "unat (shr hi k) = unat (1 :: u32)" using hk by simp
    then have "shr hi k = 1" by (simp only: word_unat_eq_iff)
    moreover have "unat d \<le> N div 2 ^ k" using False d by simp
    ultimately show ?thesis by (simp add: ctl of_bool_def)
  qed
  then show "ctl = of_bool (unat d * 2 ^ k \<le> N)" using big by simp
  show "unat hi' * 4294967296 + unat lo' = N - (if unat d * 2 ^ k \<le> N then unat d * 2 ^ k else 0)"
  proof (cases "unat d \<le> N div 2 ^ k")
    case False
    then show ?thesis using hi' lo' ctl' big by (simp add: N_def)
  next
    case True
    define M where "M = N - unat d * 2 ^ k"
    have M: "N = M + unat d * 2 ^ k" using True big by (simp add: M_def)
    have Mk: "M div 2 ^ k = N div 2 ^ k - unat d" by (simp add: M)
    have Mlt: "M div 2 ^ k < 4294967296" using Nk Mk d by simp
    have "unat (w - d) = (N div 2 ^ k + (4294967296 - unat d)) mod 4294967296"
    proof -
      have "unat (w - d) = (unat w + (4294967296 - unat d)) mod 4294967296"
        using unat_lt32 [of w] d by (auto simp: unat_sub32 word_le_nat_alt mod_if)
      then show ?thesis by (simp add: uw mod_add_left_eq)
    qed
    also have "N div 2 ^ k + (4294967296 - unat d) = M div 2 ^ k + 4294967296"
      using Mk True d by simp
    finally have wd: "unat (w - d) = M div 2 ^ k" using Mlt by simp
    have uhi: "unat hi' = M div 4294967296"
      using True by (simp add: hi' ctl' j(3) unat_drop_bit wd p div_mult2_eq [symmetric] mult.commute)
    have "unat (lo - shl d k) = (unat lo + (4294967296 - unat (shl d k))) mod 4294967296"
      using unat_lt32 [of lo] unat_lt32 [of "shl d k"] by (auto simp: unat_sub32 word_le_nat_alt mod_if)
    also have "\<dots> = M mod 4294967296"
    proof -
      define s where "s = unat (shl d k)"
      have s: "s = unat d * 2 ^ k mod 4294967296" "s < 4294967296"
        by (simp_all add: s_def unat_shl32)
      have "(unat lo + (4294967296 - s)) mod 4294967296 = (N + (4294967296 - s)) mod 4294967296"
        unfolding N_def add.assoc by (simp only: mod_mult_self3)
      also have "\<dots> = (M + (unat d * 2 ^ k mod 4294967296 + (4294967296 - s))) mod 4294967296"
        unfolding M by (rule mod_add_mid)
      also have "\<dots> = M mod 4294967296" using s by simp
      finally show ?thesis by (simp add: s_def)
    qed
    finally have ulo: "unat lo' = M mod 4294967296" using True by (simp add: lo' ctl')
    show ?thesis using True big by (simp add: uhi ulo M_def)
  qed
qed


lemma br_divrem_loop_correct:
  assumes "br_divrem_loop k hi lo d q = (hi', lo', q')" and "k \<le> 31"
    and "unat hi * 4294967296 + unat lo < unat d * 2 ^ Suc k" and "2 ^ Suc k dvd unat q"
  shows "unat hi' * 4294967296 + unat lo' < 2 * unat d \<and> 2 dvd unat q' \<and>
    unat q' * unat d + (unat hi' * 4294967296 + unat lo') = unat q * unat d + (unat hi * 4294967296 + unat lo)"
  using assms
proof (induction k arbitrary: hi lo q)
  case (Suc k')
  let ?k = "Suc k'" and ?N = "unat hi * 4294967296 + unat lo"
  define w where "w = shl hi (32 - ?k) OR shr lo ?k"
  define ctl where "ctl = GE w d OR shr hi ?k"
  define hi1 where "hi1 = MUX ctl (shr (w - d) (32 - ?k)) hi"
  define lo1 where "lo1 = MUX ctl (lo - shl d ?k) lo"
  have "0 < ?k" by simp
  note st = br_divrem_step [OF this Suc.prems(2,3) w_def ctl_def hi1_def lo1_def]
  have ub: "unat (of_bool b :: u32) = of_bool b" for b by simp
  have sc: "unat (shl ctl ?k) = of_bool (unat d * 2 ^ ?k \<le> ?N) * 2 ^ ?k"
    using power_strict_increasing [of ?k 32 "2 :: nat"] Suc.prems(2) by (simp add: st(1) unat_shl32)
  then have qlt: "unat (shl ctl ?k) < 2 ^ Suc ?k" by simp
  have uq: "unat (q OR shl ctl ?k) = unat q + of_bool (unat d * 2 ^ ?k \<le> ?N) * 2 ^ ?k"
    using or_disjoint(2) [OF Suc.prems(4) qlt] sc by simp
  have dv: "2 ^ Suc k' dvd unat (q OR shl ctl ?k)"
    unfolding uq using Suc.prems(4) by (intro dvd_add) (auto elim: dvd_trans [rotated] intro: le_imp_power_dvd)
  have run: "br_divrem_loop k' hi1 lo1 d (q OR shl ctl ?k) = (hi', lo', q')"
    using Suc.prems(1) by (simp add: Let_def w_def ctl_def hi1_def lo1_def)
  have lt: "unat hi1 * 4294967296 + unat lo1 < unat d * 2 ^ Suc k'"
    unfolding st(2) using Suc.prems(3) by auto
  have "k' \<le> 31" using Suc.prems(2) by simp
  from Suc.IH [OF run this lt dv] show ?case
    unfolding uq st(2) by (auto simp: algebra_simps split: if_splits)
qed simp

theorem br_divrem_correct:
  assumes "hi < d" and "br_divrem hi lo d = (q, r)"
  shows "unat q = (unat hi * 4294967296 + unat lo) div unat d"
    and "unat r = (unat hi * 4294967296 + unat lo) mod unat d"
proof -
  let ?N = "unat hi * 4294967296 + unat lo"
  obtain hi' lo' q' where loop: "br_divrem_loop 31 hi lo d 0 = (hi', lo', q')" by (metis prod_cases3)
  have d: "unat hi < unat d" using assms(1) by (simp add: word_less_nat_alt)
  have "?N < unat d * 2 ^ Suc 31"
  proof -
    have "?N < Suc (unat hi) * 4294967296" using unat_lt32 [of lo] by simp
    also have "\<dots> \<le> unat d * 4294967296" using d by (intro mult_le_mono1) simp
    finally show ?thesis by simp
  qed
  note L = br_divrem_loop_correct [OF loop _ this]
  let ?M = "unat hi' * 4294967296 + unat lo'"
  from L have M: "?M < 2 * unat d" "even (unat q')" "unat q' * unat d + ?M = ?N" by simp_all
  have dlt: "unat d < 4294967296" by (rule unat_lt32)
  define cf where "cf = GE lo' d OR hi'"
  have hi01: "hi' = 0 \<or> hi' = 1"
  proof -
    have "unat hi' = 0 \<or> unat hi' = 1" using M(1) dlt by arith
    then show ?thesis by (metis unat_eq_zero unat_1 word_unat_eq_iff unsigned_1)
  qed
  have cf: "cf = of_bool (unat d \<le> ?M)"
    using hi01 dlt by (auto simp: cf_def word_le_nat_alt of_bool_def)
  have "hi \<noteq> d" using assms(1) by auto
  then have res: "q = q' OR cf" "r = MUX cf (lo' - d) lo'"
    using assms(2) loop by (simp_all add: br_divrem_def Let_def cf_def)
  have uq: "unat q = unat q' + of_bool (unat d \<le> ?M)"
    using or_disjoint(2) [of 1 q' cf] M(2) by (simp add: res cf)
  have ur: "unat r = ?M - (if unat d \<le> ?M then unat d else 0)"
    using hi01 M(1) dlt unat_lt32 [of lo'] by (auto simp: res cf unat_sub32 word_le_nat_alt)
  have eq: "?N = unat q * unat d + unat r" using M(3) by (auto simp: uq ur algebra_simps)
  have lt: "unat r < unat d" using M(1) by (auto simp: ur)
  show "unat q = ?N div unat d" using eq lt by simp
  show "unat r = ?N mod unat d" using eq lt by simp
qed

lemma br_rem_correct: "hi < d \<Longrightarrow> unat (br_rem hi lo d) = (unat hi * 4294967296 + unat lo) mod unat d"
  by (cases "br_divrem hi lo d") (simp add: br_rem_def br_divrem_correct)

lemma br_div_correct: "hi < d \<Longrightarrow> unat (br_div hi lo d) = (unat hi * 4294967296 + unat lo) div unat d"
  by (cases "br_divrem hi lo d") (simp add: br_div_def br_divrem_correct)

lemma or_bit31: "unat x < 2147483648 \<Longrightarrow> unat (x OR 0x80000000 :: u32) = unat x + 2147483648"
  using or_disjoint(2) [of 31 "0x80000000 :: u32" x] by (simp add: or.commute)

lemma MUL31_ct_eq:
  assumes "unat x < 2147483648" and "unat y < 2147483648"
  shows "MUL31_ct x y = MUL31 x y"
proof -
  have up: "(ucast (z OR 0x80000000 :: u32) :: u64) = ucast z + 0x80000000" if "unat z < 2147483648" for z
    using or_bit31 [OF that] that by (simp add: word_unat_eq_iff unat_word_ariths)
  show ?thesis
    unfolding MUL31_ct_def MUL31_def up [OF assms(1)] up [OF assms(2)] push_bit_eq_mult
    by (simp add: algebra_simps)
qed

lemma MUL31_lo_ct_eq:
  assumes "unat x < 2147483648" and "unat y < 2147483648"
  shows "MUL31_lo_ct x y = MUL31_lo x y"
proof -
  define xl xh yl yh :: nat where defs: "xl = unat x mod 65536" "xh = unat x div 65536"
    "yl = unat y mod 65536" "yh = unat y div 65536"
  have m16: "unat (z AND 0xFFFF :: u32) = unat z mod 65536" for z
  proof -
    have "(0xFFFF :: u32) = mask 16" by (simp add: mask_eq_exp_minus_1)
    then have "z AND 0xFFFF = take_bit 16 z" by (simp only: take_bit_eq_mask)
    then have "unat (z AND 0xFFFF) = take_bit 16 (unat z)" by (simp only: unsigned_take_bit_eq)
    then show ?thesis by (simp only: take_bit_eq_mod) simp
  qed
  have lo: "unat ((z AND 0xFFFF) OR 0x80000000 :: u32) = unat z mod 65536 + 2147483648" for z
    by (subst or_bit31) (simp_all add: m16 order.strict_trans [OF mod_less_divisor])
  have hi: "unat (shr z 16 OR 0x80000000 :: u32) = unat z div 65536 + 2147483648" for z
    using unat_lt32 [of z] by (subst or_bit31) (simp_all add: unat_drop_bit)
  have xy: "unat x = xl + 65536 * xh" "unat y = yl + 65536 * yh" by (simp_all add: defs)
  have "unat (MUL31_lo_ct x y) =
     ((xl + 2147483648) * (yl + 2147483648) +
      ((xl + 2147483648) * (yh + 2147483648) + (xh + 2147483648) * (yl + 2147483648)) * 65536) mod 2147483648"
    by (simp add: MUL31_lo_ct_def Let_def unat_and31 unat_word_ariths unat_shl32 lo hi defs mod_mod_cancel
        mod_add_eq mod_mult_left_eq mod_mult_right_eq mod_add_left_eq mod_add_right_eq)
  also have "\<dots> = (xl * yl + 65536 * (xl * yh + xh * yl)) mod 2147483648"
  proof -
    have "(xl + 2147483648) * (yl + 2147483648) +
      ((xl + 2147483648) * (yh + 2147483648) + (xh + 2147483648) * (yl + 2147483648)) * 65536
      = xl * yl + 65536 * (xl * yh + xh * yl) +
        2147483648 * (xl + yl + 2147483648 + 65536 * (xl + yh + xh + yl + 2 * 2147483648))"
      by (simp add: algebra_simps)
    then show ?thesis by (simp only: mod_mult_self2)
  qed
  also have "\<dots> = unat x * unat y mod 2147483648"
  proof -
    have "unat x * unat y = xl * yl + 65536 * (xl * yh + xh * yl) + 2147483648 * (2 * xh * yh)"
      unfolding xy by (simp add: algebra_simps)
    then show ?thesis by (simp only: mod_mult_self2)
  qed
  finally show ?thesis by (simp add: word_unat_eq_iff unat_MUL31_lo)
qed

section \<open>Properties\<close>

text \<open>The comparison primitives compute the comparisons that they are named after, as 0 or 1, for all words: the unsigned
  ones on \<open>uint32_t\<close>, and the ones with zero on the signed reading. \<open>MUX\<close> selects on such a bit.\<close>

theorem ct_primitives_correct:
  "EQ x y = of_bool (x = y) \<and> NEQ x y = of_bool (x \<noteq> y) \<and> GT x y = of_bool (y < x) \<and> GE x y = of_bool (y \<le> x) \<and>
   LT x y = of_bool (x < y) \<and> LE x y = of_bool (x \<le> y) \<and> MUX (of_bool b) x y = (if b then x else y) \<and>
   NOT_ctl (of_bool b) = of_bool (\<not> b) \<and> MIN_u32 x y = min x y \<and> MAX_u32 x y = max x y \<and>
   EQ0 x = of_bool (x = 0) \<and> GT0 x = of_bool (0 < sint x) \<and> GE0 x = of_bool (0 \<le> sint x) \<and>
   LT0 x = of_bool (sint x < 0) \<and> LE0 x = of_bool (sint x \<le> 0)"
  by (intro conjI) (simp_all add: MIN_u32_eq MAX_u32_eq EQ0_eq GT0_eq GE0_eq LT0_eq LE0_eq)

text \<open>C20. \<open>br_div\<close> and \<open>br_rem\<close> divide the 64-bit number \<open>hi:lo\<close> by \<open>d\<close> exactly, whenever \<open>hi < d\<close>.\<close>

theorem br_div_rem_correct:
  assumes "hi < d"
  shows "unat (br_div hi lo d) = (unat hi * 4294967296 + unat lo) div unat d \<and>
    unat (br_rem hi lo d) = (unat hi * 4294967296 + unat lo) mod unat d"
  using assms by (simp add: br_div_correct br_rem_correct)

theorem br_div_rem_correct_witness:
  "unat (br_div 6 6 7) = 3681400540 \<and> unat (br_rem 6 6 7) = 2"
  using br_div_rem_correct [of 6 7 6] by simp

text \<open>The multiplication for CPUs whose multiplier is not constant-time gives the same products of 31-bit words as the
  plain one.\<close>

theorem MUL31_ct_agrees:
  assumes "unat x < 2147483648" and "unat y < 2147483648"
  shows "MUL31_ct x y = MUL31 x y \<and> MUL31_lo_ct x y = MUL31_lo x y"
  using assms by (simp add: MUL31_ct_eq MUL31_lo_ct_eq)

theorem MUL31_ct_agrees_witness: "MUL31_ct 0x7FFFFFFF 0x12345678 = MUL31 0x7FFFFFFF 0x12345678"
  using MUL31_ct_agrees [of "0x7FFFFFFF" "0x12345678"] by simp

end
