(* ===== verification/Ccopy.thy ===== *)
theory Ccopy
  imports Ct_Prims
begin

text \<open>
  The conditional copies of \<^verbatim>\<open>src/codec/ccopy.c\<close>: the constant-time \<open>br_ccopy\<close> (the
  \<open>CCOPY\<close> macro) and the two leaky variants \<open>br_ccopy_v1\<close> and \<open>br_ccopy_v2\<close> that the
  MicroSampler tests compare it with. They work on bytes; \<open>as_bytes\<close> and \<open>as_words\<close> are the
  casts between \<open>uint32_t *\<close> and \<open>void *\<close> on a little-endian machine.
\<close>

section \<open>Word arrays as byte arrays\<close>

definition enc32 :: "u32 \<Rightarrow> u8 list" where
  "enc32 w = [ucast w, ucast (shr w 8), ucast (shr w 16), ucast (shr w 24)]"

fun to_bytes :: "u32 list \<Rightarrow> u8 list" where
  "to_bytes [] = []"
| "to_bytes (w # ws) = enc32 w @ to_bytes ws"

fun to_words :: "u8 list \<Rightarrow> u32 list" where
  "to_words (a # b # c # d # bs) =
     (ucast a OR shl (ucast b) 8 OR shl (ucast c) 16 OR shl (ucast d) 24) # to_words bs"
| "to_words bs = []"

definition as_bytes :: "u32 arr \<Rightarrow> u8 arr" where
  "as_bytes a = \<lparr>blk = blk a, cells = to_bytes (cells a)\<rparr>"

definition as_words :: "u8 arr \<Rightarrow> u32 arr" where
  "as_words a = \<lparr>blk = blk a, cells = to_words (cells a)\<rparr>"

definition memcpy32 :: "u32 arr \<Rightarrow> u32 arr \<Rightarrow> nat \<Rightarrow> u32 arr cm" where
  "memcpy32 d s len = do { b \<leftarrow> memcpy (as_bytes d) 0 (as_bytes s) 0 len; ret (as_words b) }"

section \<open>The copies\<close>

definition br_ccopy :: "u32 \<Rightarrow> u8 arr \<Rightarrow> u8 arr \<Rightarrow> nat \<Rightarrow> u8 arr cm" where
  "br_ccopy ctl dst src len = for_loop 0 len (\<lambda>i d. do {
     x \<leftarrow> ld src i;
     y \<leftarrow> ld d i;
     st d i (ucast (MUX ctl (ucast x) (ucast y))) }) dst"

definition br_ccopy_v1 :: "u32 \<Rightarrow> u8 arr \<Rightarrow> u8 arr \<Rightarrow> nat \<Rightarrow> u8 arr cm" where
  "br_ccopy_v1 ctl dst src len = branch (ctl \<noteq> 0) (memmove dst 0 src 0 len) (ret dst)"

definition br_ccopy_v2 :: "u32 \<Rightarrow> u8 arr \<Rightarrow> u8 arr \<Rightarrow> u8 arr \<Rightarrow> nat \<Rightarrow> (u8 arr \<times> u8 arr) cm" where
  "br_ccopy_v2 ctl dst dummy src len = branch (ctl \<noteq> 0)
     (do { d \<leftarrow> memmove dst 0 src 0 len; ret (d, dummy) })
     (do { d \<leftarrow> memmove dummy 0 src 0 len; ret (dst, d) })"

section \<open>The casts are inverse to each other\<close>

lemma enc32_inverse:
  "(ucast (ucast w :: u8) OR shl (ucast (ucast (shr w 8) :: u8)) 8 OR shl (ucast (ucast (shr w 16) :: u8)) 16
     OR shl (ucast (ucast (shr w 24) :: u8)) 24) = (w :: u32)"
proof (rule bit_word_eqI)
  fix n assume "n < LENGTH(32)"
  then show "bit ((ucast (ucast w :: u8) :: u32) OR shl (ucast (ucast (shr w 8) :: u8)) 8 OR
      shl (ucast (ucast (shr w 16) :: u8)) 16 OR shl (ucast (ucast (shr w 24) :: u8)) 24) n = bit w n"
    by (cases "n < 8"; cases "n < 16"; cases "n < 24") (auto simp: bit_simps)
qed

lemma to_words_bytes [simp]: "to_words (to_bytes ws) = ws"
  by (induction ws) (simp_all add: enc32_def enc32_inverse)

lemma length_to_bytes [simp]: "length (to_bytes ws) = 4 * length ws"
  by (induction ws) (simp_all add: enc32_def)

lemma take_to_bytes: "take (4 * n) (to_bytes ws) = to_bytes (take n ws)"
  by (induction ws arbitrary: n) (auto simp: enc32_def take_Cons split: nat.split)

lemma drop_to_bytes: "drop (4 * n) (to_bytes ws) = to_bytes (drop n ws)"
  by (induction ws arbitrary: n) (auto simp: enc32_def drop_Cons split: nat.split)

lemma to_bytes_append: "to_bytes (xs @ ys) = to_bytes xs @ to_bytes ys"
  by (induction xs) simp_all

lemma alen_as_bytes [simp]: "alen (as_bytes a) = 4 * alen a"
  by (simp add: as_bytes_def)

lemma blk_as_bytes [simp]: "blk (as_bytes a) = blk a"
  by (simp add: as_bytes_def)

lemma blk_as_words [simp]: "blk (as_words a) = blk a"
  by (simp add: as_words_def)

lemma as_words_bytes [simp]: "as_words (as_bytes a) = a"
  by (simp add: as_words_def as_bytes_def)

definition put :: "u32 arr \<Rightarrow> u32 arr \<Rightarrow> nat \<Rightarrow> u32 arr" where
  "put d s n = d\<lparr>cells := take n (cells s) @ drop n (cells d)\<rparr>"

lemma as_words_put:
  "as_words ((as_bytes d)\<lparr>cells := take (4 * n) (cells (as_bytes s)) @ drop (4 * n) (cells (as_bytes d))\<rparr>) = put d s n"
  by (simp add: as_words_def as_bytes_def put_def take_to_bytes drop_to_bytes flip: to_bytes_append)

lemma ok_memcpy32:
  "n \<le> alen d \<Longrightarrow> n \<le> alen s \<Longrightarrow> len = 4 * n \<Longrightarrow> Q (put d s n) \<Longrightarrow> ok (memcpy32 d s len) Q"
  unfolding memcpy32_def
  by (intro wp) (auto simp: splice_def min_absorb2 simp flip: as_words_put)

lemma length_to_words: "length (to_words bs) = length bs div 4"
  by (induction bs rule: to_words.induct) auto

lemma shape_as_bytes: "shape a b \<Longrightarrow> shape (as_bytes a) (as_bytes b)"
  by (simp add: shape_def)

lemma shape_as_words: "shape a b \<Longrightarrow> shape (as_words a) (as_words b)"
  by (simp add: shape_def as_words_def length_to_words)

section \<open>What the copies do, and what they leak\<close>

lemma ucast_byte [simp]: "ucast (ucast (b :: u8) :: u32) = b"
  by (rule bit_word_eqI) (simp add: bit_simps)

lemma ok_br_ccopy:
  assumes "len \<le> alen dst" and "len \<le> alen src"
    and "Q (if b then dst\<lparr>cells := take len (cells src) @ drop len (cells dst)\<rparr> else dst)"
  shows "ok (br_ccopy (of_bool b) dst src len) Q"
  unfolding br_ccopy_def
proof (rule ok_for_loop [where Inv = "\<lambda>i d. d = (if b
    then dst\<lparr>cells := take i (cells src) @ drop i (cells dst)\<rparr> else dst)"])
  fix j and d :: "u8 arr"
  assume j: "0 \<le> j" "j < len" and d: "d = (if b
    then dst\<lparr>cells := take j (cells src) @ drop j (cells dst)\<rparr> else dst)"
  have 1: "j < alen dst" "j < alen src" using j assms by auto
  have 2: "(take j (cells src) @ drop j (cells dst))[j := cells src ! j]
    = take (Suc j) (cells src) @ drop (Suc j) (cells dst)"
    using 1 by (simp add: list_update_append take_Suc_conv_app_nth min_absorb2
        Cons_nth_drop_Suc [symmetric])
  show "ok (do { x \<leftarrow> ld src j; y \<leftarrow> ld d j; st d j (ucast (MUX (of_bool b) (ucast x) (ucast y))) })
    (\<lambda>d. d = (if b then dst\<lparr>cells := take (Suc j) (cells src) @ drop (Suc j) (cells dst)\<rparr> else dst))"
    using 1 2 d by (intro wp) (auto simp: min_absorb2)
qed (use assms in auto)

lemma ct_br_ccopy_len:
  assumes "shape dst dst'" and "shape src src'" and "len \<le> alen dst" and "len \<le> alen src"
  shows "ct (br_ccopy ctl dst src len) (br_ccopy ctl' dst' src' len) (\<lambda>d d'. shape d d' \<and> alen d = alen dst)"
  unfolding br_ccopy_def
proof (rule ct_for_loop [where Inv = "\<lambda>i d d'. shape d d' \<and> alen d = alen dst"])
  fix j and d d' :: "u8 arr"
  assume "0 \<le> j" "j < len" and d: "shape d d' \<and> alen d = alen dst"
  then show "ct (do { x \<leftarrow> ld src j; y \<leftarrow> ld d j; st d j (ucast (MUX ctl (ucast x) (ucast y))) })
     (do { x \<leftarrow> ld src' j; y \<leftarrow> ld d' j; st d' j (ucast (MUX ctl' (ucast x) (ucast y))) })
     (\<lambda>d d'. shape d d' \<and> alen d = alen dst)"
    using assms by (intro ctr) auto
qed (use assms in auto)

lemma ct_memcpy32:
  assumes "shape d d'" and "shape s s'" and "n \<le> alen d" and "n \<le> alen s" and "len = 4 * n"
    and R: "\<And>z z'. shape z z' \<Longrightarrow> alen z = alen d \<Longrightarrow> R z z'"
  shows "ct (memcpy32 d s len) (memcpy32 d' s' len) R"
proof -
  have sh: "shape (put d s n) (put d' s' n)" "alen (put d s n) = alen d" using assms by (auto simp: shape_def put_def)
  have "ct (memcpy (as_bytes d) 0 (as_bytes s) 0 len) (memcpy (as_bytes d') 0 (as_bytes s') 0 len)
    (\<lambda>b b'. as_words b = put d s n \<and> as_words b' = put d' s' n)"
    using assms shape_as_bytes by (intro ct_memcpy) (auto simp: shape_def splice_def min_absorb2 simp flip: as_words_put)
  then have "ct (memcpy (as_bytes d) 0 (as_bytes s) 0 len) (memcpy (as_bytes d') 0 (as_bytes s') 0 len)
    (\<lambda>b b'. ct (ret (as_words b)) (ret (as_words b')) R)"
    by (rule ct_weaken) (auto intro!: ct_ret R sh)
  then show ?thesis unfolding memcpy32_def by (rule ct_bind)
qed

end
