(* ===== verification/I31.thy ===== *)
theory I31
  imports Ccopy
begin

text \<open>
  The 31-bit big integers of \<^verbatim>\<open>src/int/i31_*.c\<close>. An integer is an array whose first word is
  the encoded bit length \<open>32 * (k div 31) + k mod 31\<close> of \<open>k\<close> bits, followed by the value in
  little-endian words of 31 bits. \<open>i31v n xs\<close> is the value of the first \<open>n\<close> value words.
\<close>

section \<open>Lengths\<close>

text \<open>The number of value words, \<open>(h + 31) >> 5\<close>, of a header \<open>h\<close>; and one more, \<open>(h + 63) >> 5\<close>.\<close>

definition words31 :: "u32 \<Rightarrow> nat" where
  "words31 h = unat (shr (h + 31) 5)"

definition words63 :: "u32 \<Rightarrow> nat" where
  "words63 h = unat (shr (h + 63) 5)"

section \<open>Operations\<close>

definition br_i31_zero :: "u32 arr \<Rightarrow> u32 \<Rightarrow> u32 arr cm" where
  "br_i31_zero x bit_len = do {
     x \<leftarrow> st x 0 bit_len;
     memset x 1 0 (words31 bit_len) }"

definition br_i31_iszero :: "u32 arr \<Rightarrow> u32 cm" where
  "br_i31_iszero x = do {
     x0 \<leftarrow> ld x 0;
     z \<leftarrow> for_down (words31 x0) (\<lambda>u z. do { w \<leftarrow> ld x (Suc u); ret (z OR w) }) 0;
     ret (shr (NOT (z OR - z)) 31) }"

definition br_i31_add :: "u32 arr \<Rightarrow> u32 arr \<Rightarrow> u32 \<Rightarrow> (u32 arr \<times> u32) cm" where
  "br_i31_add a b ctl = do {
     a0 \<leftarrow> ld a 0;
     for_loop 1 (words63 a0) (\<lambda>u (a, cc). do {
       aw \<leftarrow> ld a u;
       bw \<leftarrow> ld b u;
       let naw = aw + bw + cc;
       let cc = shr naw 31;
       a \<leftarrow> st a u (MUX ctl (naw AND 0x7FFFFFFF) aw);
       ret (a, cc) }) (a, 0) }"

definition br_i31_sub :: "u32 arr \<Rightarrow> u32 arr \<Rightarrow> u32 \<Rightarrow> (u32 arr \<times> u32) cm" where
  "br_i31_sub a b ctl = do {
     a0 \<leftarrow> ld a 0;
     for_loop 1 (words63 a0) (\<lambda>u (a, cc). do {
       aw \<leftarrow> ld a u;
       bw \<leftarrow> ld b u;
       let naw = aw - bw - cc;
       let cc = shr naw 31;
       a \<leftarrow> st a u (MUX ctl (naw AND 0x7FFFFFFF) aw);
       ret (a, cc) }) (a, 0) }"

text \<open>\<open>br_i31_bit_length (x + off, xlen)\<close>.\<close>

definition br_i31_bit_length :: "u32 arr \<Rightarrow> nat \<Rightarrow> nat \<Rightarrow> u32 cm" where
  "br_i31_bit_length x off xlen = do {
     (tw, twk) \<leftarrow> for_down xlen (\<lambda>k (tw, twk). do {
       let c = EQ tw 0;
       w \<leftarrow> ld x (off + k);
       ret (MUX c w tw, MUX c (of_nat k) twk) }) (0, 0);
     ret (shl twk 5 + BIT_LENGTH tw) }"

definition br_i31_rshift :: "u32 arr \<Rightarrow> nat \<Rightarrow> u32 arr cm" where
  "br_i31_rshift x count = do {
     x0 \<leftarrow> ld x 0;
     let len = words31 x0;
     branch (len = 0) (ret x) (do {
       x1 \<leftarrow> ld x 1;
       (x, r) \<leftarrow> for_loop 2 (Suc len) (\<lambda>u (x, r). do {
         w \<leftarrow> ld x u;
         x \<leftarrow> st x (u - 1) ((shl w (31 - count) OR r) AND 0x7FFFFFFF);
         ret (x, shr w count) }) (x, shr x1 count);
       st x len r }) }"

definition br_i31_ninv31 :: "u32 \<Rightarrow> u32" where
  "br_i31_ninv31 x = (let
     y = 2 - x;
     y = y * (2 - y * x);
     y = y * (2 - y * x);
     y = y * (2 - y * x);
     y = y * (2 - y * x)
   in MUX (x AND 1) (- y) 0 AND 0x7FFFFFFF)"

section \<open>Values\<close>

abbreviation B31 :: nat where
  "B31 \<equiv> 2147483648"

text \<open>\<open>wsum off n xs\<close>: the number whose \<open>n\<close> little-endian 31-bit digits start at index \<open>off\<close>.\<close>

definition wsum :: "nat \<Rightarrow> nat \<Rightarrow> u32 list \<Rightarrow> nat" where
  "wsum off n xs = (\<Sum>j<n. unat (xs ! (off + j)) * B31 ^ j)"

abbreviation i31v :: "nat \<Rightarrow> u32 list \<Rightarrow> nat" where
  "i31v \<equiv> wsum (Suc 0)"

definition digits31 :: "nat \<Rightarrow> nat \<Rightarrow> u32 list \<Rightarrow> bool" where
  "digits31 off n xs \<longleftrightarrow> off + n \<le> length xs \<and> (\<forall>j<n. unat (xs ! (off + j)) < B31)"

lemma wsum_0 [simp]: "wsum off 0 xs = 0"
  by (simp add: wsum_def)

lemma wsum_Suc: "wsum off (Suc n) xs = wsum off n xs + unat (xs ! (off + n)) * B31 ^ n"
  by (simp add: wsum_def)

lemma wsum_head: "wsum off (Suc n) xs = unat (xs ! off) + B31 * wsum (Suc off) n xs"
  unfolding wsum_def sum.lessThan_Suc_shift by (simp add: sum_distrib_left mult.left_commute)

lemma wsum_cong: "(\<And>j. j < n \<Longrightarrow> xs ! (off + j) = ys ! (off' + j)) \<Longrightarrow> wsum off n xs = wsum off' n ys"
  by (simp add: wsum_def)

lemma wsum_update [simp]: "off + n \<le> i \<Longrightarrow> wsum off n (xs[i := w]) = wsum off n xs"
  by (auto simp: wsum_def)

lemma wsum_update_last [simp]:
  "off + n < length xs \<Longrightarrow> wsum off (Suc n) (xs[off + n := w]) = wsum off n xs + unat w * B31 ^ n"
  by (simp add: wsum_Suc)

lemma i31v_update_last [simp]:
  "Suc n < length xs \<Longrightarrow> i31v (Suc n) (xs[Suc n := w]) = i31v n xs + unat w * B31 ^ n"
  using wsum_update_last [of "Suc 0" n xs w] by simp

lemma wsum_update_low [simp]: "i < off \<Longrightarrow> wsum off n (xs[i := w]) = wsum off n xs"
  by (auto simp: wsum_def)

lemma wsum_split: "wsum off (n + k) xs = wsum off n xs + B31 ^ n * wsum (off + n) k xs"
  by (induction k) (simp_all add: wsum_Suc algebra_simps power_add)

lemma wsum_lt: "digits31 off n xs \<Longrightarrow> wsum off n xs < B31 ^ n"
proof (induction n)
  case (Suc n)
  have "wsum off n xs < B31 ^ n" using Suc by (auto simp: digits31_def)
  moreover have "unat (xs ! (off + n)) + 1 \<le> B31" using Suc.prems by (auto simp: digits31_def Suc_le_eq)
  then have "(unat (xs ! (off + n)) + 1) * B31 ^ n \<le> B31 * B31 ^ n" by (rule mult_le_mono1)
  ultimately have "wsum off (Suc n) xs < B31 * B31 ^ n" by (simp only: wsum_Suc add_mult_distrib)
  then show ?case by simp
qed simp

lemma digits31_D: "digits31 off n xs \<Longrightarrow> j < n \<Longrightarrow> unat (xs ! (off + j)) < B31"
  by (simp add: digits31_def)

lemma digits31_1: "digits31 (Suc 0) n xs \<Longrightarrow> 0 < i \<Longrightarrow> i \<le> n \<Longrightarrow> unat (xs ! i) < B31"
  using digits31_D [of "Suc 0" n xs "i - 1"] by simp

lemma digits31_len: "digits31 off n xs \<Longrightarrow> off + n \<le> length xs"
  by (simp add: digits31_def)

lemma digits31_update:
  "digits31 off n xs \<Longrightarrow> unat w < B31 \<Longrightarrow> digits31 off n (xs[i := w])"
  unfolding digits31_def by (metis length_list_update nth_list_update_eq nth_list_update_neq list_update_beyond not_le)

lemma digits31_prefix: "digits31 off n xs \<Longrightarrow> k \<le> n \<Longrightarrow> digits31 off k xs"
  by (auto simp: digits31_def)

lemma digits31_update_out [simp]: "i < off \<or> off + n \<le> i \<Longrightarrow> digits31 off n (xs[i := w]) = digits31 off n xs"
  by (auto simp: digits31_def)

lemma wsum_zero: "wsum off n xs = 0 \<longleftrightarrow> (\<forall>j<n. xs ! (off + j) = 0)"
  by (auto simp: wsum_def unat_eq_zero)

section \<open>Case splits of the calculi on pairs\<close>

lemma ok_prod [wp]: "(\<And>a b. p = (a, b) \<Longrightarrow> ok (f a b) Q) \<Longrightarrow> ok (case p of (a, b) \<Rightarrow> f a b) Q"
  by (cases p) simp

lemma ok_let [wp]: "ok (f x) Q \<Longrightarrow> ok (let y = x in f y) Q"
  by simp

lemma ct_prod [ctr]:
  "(\<And>a b a' b'. p = (a, b) \<Longrightarrow> p' = (a', b') \<Longrightarrow> ct (f a b) (f' a' b') Q) \<Longrightarrow>
   ct (case p of (a, b) \<Rightarrow> f a b) (case p' of (a, b) \<Rightarrow> f' a b) Q"
  by (cases p; cases p') simp

lemma ct_let [ctr]: "ct (f x) (f' x') Q \<Longrightarrow> ct (let y = x in f y) (let y = x' in f' y) Q"
  by simp

section \<open>Addition and subtraction\<close>

lemma word_add31:
  assumes "unat (aw :: u32) < B31" and "unat bw < B31" and "unat cc \<le> 1"
  shows "unat (shr (aw + bw + cc) 31) = (unat aw + unat bw + unat cc) div B31"
    and "unat ((aw + bw + cc) AND 0x7FFFFFFF) = (unat aw + unat bw + unat cc) mod B31"
proof -
  have "unat (aw + bw + cc) = unat aw + unat bw + unat cc"
    using assms by (simp add: unat_word_ariths)
  then show "unat (shr (aw + bw + cc) 31) = (unat aw + unat bw + unat cc) div B31"
    and "unat ((aw + bw + cc) AND 0x7FFFFFFF) = (unat aw + unat bw + unat cc) mod B31"
    by (simp_all add: unat_drop_bit unat_and31)
qed

lemma word_sub31:
  assumes "unat (aw :: u32) < B31" and "unat bw < B31" and "unat cc \<le> 1"
  shows "unat (shr (aw - bw - cc) 31) = of_bool (unat aw < unat bw + unat cc)"
    and "unat ((aw - bw - cc) AND 0x7FFFFFFF) + unat bw + unat cc
      = unat aw + B31 * of_bool (unat aw < unat bw + unat cc)"
proof -
  have s: "unat (bw + cc) = unat bw + unat cc" using assms by (simp add: unat_word_ariths)
  have u: "unat (aw - bw - cc) = (if unat bw + unat cc \<le> unat aw then unat aw - (unat bw + unat cc)
      else 4294967296 + unat aw - (unat bw + unat cc))"
    unfolding diff_diff_eq by (simp only: unat_sub32 word_le_nat_alt s)
  show "unat (shr (aw - bw - cc) 31) = of_bool (unat aw < unat bw + unat cc)"
    using assms unfolding unat_drop_bit u by auto
  show "unat ((aw - bw - cc) AND 0x7FFFFFFF) + unat bw + unat cc
      = unat aw + B31 * of_bool (unat aw < unat bw + unat cc)"
    using assms unfolding unat_and31 u by (auto simp: mod_if)
qed

lemma digit_less:
  assumes "(va::nat) < P" and "vb < P"
  shows "va + aw * P < vb + bw * P \<longleftrightarrow> aw < bw + of_bool (va < vb)"
proof (cases aw bw rule: linorder_cases)
  case less
  then have "Suc aw * P \<le> bw * P" by (intro mult_le_mono1) simp
  with less assms show ?thesis by auto
next
  case greater
  then have "Suc bw * P \<le> aw * P" by (intro mult_le_mono1) simp
  with greater assms show ?thesis by auto
qed auto

text \<open>\<open>frame31 n a a'\<close>: only the value words \<open>1..n\<close> of \<open>a\<close> may have changed.\<close>

definition frame31 :: "nat \<Rightarrow> u32 arr \<Rightarrow> u32 arr \<Rightarrow> bool" where
  "frame31 n a a' \<longleftrightarrow> blk a' = blk a \<and> alen a' = alen a \<and>
     (\<forall>i. i = 0 \<or> n < i \<longrightarrow> cells a' ! i = cells a ! i)"

lemma frame31_refl [simp, intro]: "frame31 n a a"
  by (simp add: frame31_def)

lemma frame31_trans [trans]: "frame31 n a b \<Longrightarrow> frame31 n b c \<Longrightarrow> frame31 n a c"
  by (simp add: frame31_def)

lemma frame31_update: "frame31 n a a' \<Longrightarrow> 0 < i \<Longrightarrow> i \<le> n \<Longrightarrow> frame31 n a (a'\<lparr>cells := (cells a')[i := w]\<rparr>)"
  by (auto simp: frame31_def nth_list_update)

lemma frame31_mono: "frame31 n a a' \<Longrightarrow> n \<le> k \<Longrightarrow> frame31 k a a'"
  by (auto simp: frame31_def)

lemma frame31_head: "frame31 n a a' \<Longrightarrow> cells a' ! 0 = cells a ! 0"
  by (simp add: frame31_def)

lemma frame31_alen: "frame31 n a a' \<Longrightarrow> alen a' = alen a"
  by (simp add: frame31_def)

lemma wsum_nth_cong: "(\<And>i. off \<le> i \<Longrightarrow> i < off + n \<Longrightarrow> xs ! i = ys ! i) \<Longrightarrow> wsum off n xs = wsum off n ys"
  by (rule wsum_cong) simp

definition sub_inv :: "u32 arr \<Rightarrow> u32 arr \<Rightarrow> bool \<Rightarrow> nat \<Rightarrow> nat \<Rightarrow> u32 arr \<times> u32 \<Rightarrow> bool" where
  "sub_inv a b c n u s \<longleftrightarrow> (case s of (a', cc) \<Rightarrow>
     frame31 (u - 1) a a' \<and> digits31 (Suc 0) n (cells a') \<and>
     cc = of_bool (i31v (u - 1) (cells a) < i31v (u - 1) (cells b)) \<and>
     (if c then i31v (u - 1) (cells a') + i31v (u - 1) (cells b) = i31v (u - 1) (cells a) + unat cc * B31 ^ (u - 1)
      else cells a' = cells a))"

lemma sub_inv_step:
  assumes u: "1 \<le> u" "u \<le> n" and a: "digits31 (Suc 0) n (cells a)" and b: "digits31 (Suc 0) n (cells b)"
    and inv: "sub_inv a b c n u (a', cc)"
    and aw: "aw = cells a' ! u" and bw: "bw = cells b ! u" and naw: "naw = aw - bw - cc"
  shows "sub_inv a b c n (Suc u) (a'\<lparr>cells := (cells a')[u := MUX (of_bool c) (naw AND 0x7FFFFFFF) aw]\<rparr>, shr naw 31)"
proof -
  obtain k where k: "u = Suc k" using u by (cases u) auto
  from inv have f: "frame31 k a a'" and d: "digits31 (Suc 0) n (cells a')"
    and cc: "cc = of_bool (i31v k (cells a) < i31v k (cells b))"
    and v: "if c then i31v k (cells a') + i31v k (cells b) = i31v k (cells a) + unat cc * B31 ^ k else cells a' = cells a"
    by (auto simp: sub_inv_def k)
  have awa: "aw = cells a ! Suc k" using f by (simp add: aw k frame31_def)
  have lens: "u < alen a'" using digits31_len [OF d] u by simp
  have ub: "unat aw < B31" "unat bw < B31" "unat cc \<le> 1"
    using digits31_1 [OF a, of u] digits31_1 [OF b, of u] u by (simp_all add: awa bw k cc)
  have lt: "i31v k (cells a) < B31 ^ k" "i31v k (cells b) < B31 ^ k"
    using u a b by (auto simp: k intro!: wsum_lt elim: digits31_prefix)
  note w = word_sub31 [OF ub, folded naw]
  have cc': "unat aw < unat bw + unat cc \<longleftrightarrow> i31v (Suc k) (cells a) < i31v (Suc k) (cells b)"
    using digit_less [OF lt, of "unat aw" "unat bw"] by (simp add: wsum_Suc awa bw k cc)
  have sh: "shr naw 31 = of_bool (i31v (Suc k) (cells a) < i31v (Suc k) (cells b))"
    using w(1) cc' by (simp add: word_unat_eq_iff)
  have low: "unat (naw AND 0x7FFFFFFF) < B31" by (simp add: unat_and31)
  have val: "c \<Longrightarrow> i31v k (cells a') + unat (naw AND 0x7FFFFFFF) * B31 ^ k + i31v (Suc k) (cells b)
      = i31v (Suc k) (cells a) + unat (shr naw 31) * B31 ^ Suc k"
  proof -
    assume c
    with v have v': "i31v k (cells a') + i31v k (cells b) = i31v k (cells a) + unat cc * B31 ^ k" by simp
    have "unat (naw AND 0x7FFFFFFF) * B31 ^ k + unat bw * B31 ^ k + unat cc * B31 ^ k
      = unat aw * B31 ^ k + unat (shr naw 31) * B31 ^ Suc k"
      using arg_cong [OF w(2), of "\<lambda>x. x * B31 ^ k"] w(1) by (simp add: algebra_simps)
    with v' show ?thesis by (simp add: wsum_Suc awa bw k algebra_simps)
  qed
  define w where "w = MUX (of_bool c) (naw AND 0x7FFFFFFF) aw"
  have wl: "unat w < B31" using low ub(1) by (simp add: w_def)
  have fr: "frame31 (Suc k) a (a'\<lparr>cells := (cells a')[Suc k := w]\<rparr>)"
    using f by (intro frame31_update) (auto elim: frame31_mono)
  have up: "i31v (Suc k) ((cells a')[Suc k := w]) = i31v k (cells a') + unat w * B31 ^ k"
    using lens by (simp add: k)
  have same: "\<not> c \<Longrightarrow> (cells a')[Suc k := w] = cells a"
    using v by (simp add: w_def awa)
  show ?thesis
    unfolding sub_inv_def prod.case w_def [symmetric]
    using a fr d wl sh up same val by (cases c) (simp_all add: k w_def digits31_update)
qed

lemma ok_br_i31_sub:
  assumes len: "words63 (cells a ! 0) = Suc n"
    and a: "digits31 (Suc 0) n (cells a)" and b: "digits31 (Suc 0) n (cells b)"
    and Q: "\<And>a' cc. frame31 n a a' \<Longrightarrow> digits31 (Suc 0) n (cells a') \<Longrightarrow>
      cc = of_bool (i31v n (cells a) < i31v n (cells b)) \<Longrightarrow>
      (c \<Longrightarrow> i31v n (cells a') + i31v n (cells b) = i31v n (cells a) + unat cc * B31 ^ n) \<Longrightarrow>
      (\<not> c \<Longrightarrow> a' = a) \<Longrightarrow> Q (a', cc)"
  shows "ok (br_i31_sub a b (of_bool c)) Q"
  unfolding br_i31_sub_def
proof (intro ok_bind ok_ld, unfold len)
  show "0 < alen a" using digits31_len [OF a] by linarith
  show "ok (for_loop 1 (Suc n) (\<lambda>u (a, cc). do {
       aw \<leftarrow> ld a u; bw \<leftarrow> ld b u;
       let naw = aw - bw - cc; let cc = shr naw 31;
       a \<leftarrow> st a u (MUX (of_bool c) (naw AND 0x7FFFFFFF) aw);
       ret (a, cc) }) (a, 0)) Q"
  proof (rule ok_for_loop [where Inv = "sub_inv a b c n"])
    show "sub_inv a b c n 1 (a, 0)" using a by (simp add: sub_inv_def)
  next
    fix u s assume u: "1 \<le> u" "u < Suc n" and inv: "sub_inv a b c n u s"
    obtain a' cc where s: "s = (a', cc)" by (cases s)
    have "u < alen a'" "u < alen b"
      using inv digits31_len [of "Suc 0" n "cells a'"] digits31_len [OF b] u by (auto simp: s sub_inv_def)
    with sub_inv_step [OF _ _ a b inv [unfolded s] refl refl refl] u
    show "ok (case s of (a, cc) \<Rightarrow> do { aw \<leftarrow> ld a u; bw \<leftarrow> ld b u;
       let naw = aw - bw - cc; let cc = shr naw 31;
       a \<leftarrow> st a u (MUX (of_bool c) (naw AND 0x7FFFFFFF) aw); ret (a, cc) }) (sub_inv a b c n (Suc u))"
      unfolding s prod.case Let_def by (intro wp) auto
  next
    fix s assume "sub_inv a b c n (Suc n) s"
    then show "Q s"
      using Q [of "fst s" "snd s"]
      by (cases s) (auto simp: sub_inv_def frame31_def split: if_splits)
  qed simp
qed

definition add_inv :: "u32 arr \<Rightarrow> u32 arr \<Rightarrow> bool \<Rightarrow> nat \<Rightarrow> nat \<Rightarrow> u32 arr \<times> u32 \<Rightarrow> bool" where
  "add_inv a b c n u s \<longleftrightarrow> (case s of (a', cc) \<Rightarrow>
     frame31 (u - 1) a a' \<and> digits31 (Suc 0) n (cells a') \<and>
     unat cc = (i31v (u - 1) (cells a) + i31v (u - 1) (cells b)) div B31 ^ (u - 1) \<and>
     (if c then i31v (u - 1) (cells a') = (i31v (u - 1) (cells a) + i31v (u - 1) (cells b)) mod B31 ^ (u - 1)
      else cells a' = cells a))"

lemma digit_div_mod:
  fixes P :: nat
  assumes "0 < P"
  shows "(s + t * P) div (P * b) = (t + s div P) div b"
    and "(s + t * P) mod (P * b) = s mod P + P * ((t + s div P) mod b)"
proof -
  have 1: "(s + t * P) div P = t + s div P" using assms by simp
  show "(s + t * P) div (P * b) = (t + s div P) div b" by (simp only: div_mult2_eq 1)
  show "(s + t * P) mod (P * b) = s mod P + P * ((t + s div P) mod b)"
    by (simp only: mod_mult2_eq 1) (simp add: add.commute)
qed

lemma add_inv_step:
  assumes u: "1 \<le> u" "u \<le> n" and a: "digits31 (Suc 0) n (cells a)" and b: "digits31 (Suc 0) n (cells b)"
    and inv: "add_inv a b c n u (a', cc)"
    and aw: "aw = cells a' ! u" and bw: "bw = cells b ! u" and naw: "naw = aw + bw + cc"
  shows "add_inv a b c n (Suc u) (a'\<lparr>cells := (cells a')[u := MUX (of_bool c) (naw AND 0x7FFFFFFF) aw]\<rparr>, shr naw 31)"
proof -
  obtain k where k: "u = Suc k" using u by (cases u) auto
  let ?s = "i31v k (cells a) + i31v k (cells b)"
  from inv have f: "frame31 k a a'" and d: "digits31 (Suc 0) n (cells a')" and cc: "unat cc = ?s div B31 ^ k"
    and v: "if c then i31v k (cells a') = ?s mod B31 ^ k else cells a' = cells a"
    by (auto simp: add_inv_def k)
  have awa: "aw = cells a ! Suc k" using f by (simp add: aw k frame31_def)
  have lens: "u < alen a'" using digits31_len [OF d] u by simp
  have lt: "i31v k (cells a) < B31 ^ k" "i31v k (cells b) < B31 ^ k"
    using u a b by (auto simp: k intro!: wsum_lt elim: digits31_prefix)
  then have "?s < 2 * B31 ^ k" by simp
  then have "?s div B31 ^ k < 2" by (simp add: less_mult_imp_div_less)
  then have ub: "unat aw < B31" "unat bw < B31" "unat cc \<le> 1"
    using digits31_1 [OF a, of u] digits31_1 [OF b, of u] u by (simp_all add: awa bw k cc)
  note w = word_add31 [OF ub, folded naw]
  have sum: "i31v (Suc k) (cells a) + i31v (Suc k) (cells b) = ?s + (unat aw + unat bw) * B31 ^ k"
    by (simp add: wsum_Suc awa bw k algebra_simps)
  note dm = digit_div_mod [of "B31 ^ k" ?s "unat aw + unat bw" B31, folded sum cc]
  define x where "x = MUX (of_bool c) (naw AND 0x7FFFFFFF) aw"
  have xl: "unat x < B31" using ub(1) by (simp add: x_def unat_and31)
  have fr: "frame31 (Suc k) a (a'\<lparr>cells := (cells a')[Suc k := x]\<rparr>)"
    using f by (intro frame31_update) (auto elim: frame31_mono)
  have up: "i31v (Suc k) ((cells a')[Suc k := x]) = i31v k (cells a') + unat x * B31 ^ k"
    using lens by (simp add: k)
  have same: "\<not> c \<Longrightarrow> (cells a')[Suc k := x] = cells a" using v by (simp add: x_def awa)
  have cc': "unat (shr naw 31) = (i31v (Suc k) (cells a) + i31v (Suc k) (cells b)) div B31 ^ Suc k"
    using dm(1) w(1) by (simp add: mult.commute)
  have val: "c \<Longrightarrow> i31v (Suc k) ((cells a')[Suc k := x]) = (i31v (Suc k) (cells a) + i31v (Suc k) (cells b)) mod B31 ^ Suc k"
    using dm(2) w(2) v up by (simp add: x_def mult.commute)
  show ?thesis
    unfolding add_inv_def prod.case x_def [symmetric]
    using a fr d xl cc' same val by (cases c) (simp_all add: k digits31_update)
qed

lemma ok_br_i31_add:
  assumes len: "words63 (cells a ! 0) = Suc n"
    and a: "digits31 (Suc 0) n (cells a)" and b: "digits31 (Suc 0) n (cells b)"
    and Q: "\<And>a' cc. frame31 n a a' \<Longrightarrow> digits31 (Suc 0) n (cells a') \<Longrightarrow>
      unat cc = (i31v n (cells a) + i31v n (cells b)) div B31 ^ n \<Longrightarrow>
      (c \<Longrightarrow> i31v n (cells a') = (i31v n (cells a) + i31v n (cells b)) mod B31 ^ n) \<Longrightarrow>
      (\<not> c \<Longrightarrow> a' = a) \<Longrightarrow> Q (a', cc)"
  shows "ok (br_i31_add a b (of_bool c)) Q"
  unfolding br_i31_add_def
proof (intro ok_bind ok_ld, unfold len)
  show "0 < alen a" using digits31_len [OF a] by linarith
  show "ok (for_loop 1 (Suc n) (\<lambda>u (a, cc). do {
       aw \<leftarrow> ld a u; bw \<leftarrow> ld b u;
       let naw = aw + bw + cc; let cc = shr naw 31;
       a \<leftarrow> st a u (MUX (of_bool c) (naw AND 0x7FFFFFFF) aw);
       ret (a, cc) }) (a, 0)) Q"
  proof (rule ok_for_loop [where Inv = "add_inv a b c n"])
    show "add_inv a b c n 1 (a, 0)" using a by (simp add: add_inv_def)
  next
    fix u s assume u: "1 \<le> u" "u < Suc n" and inv: "add_inv a b c n u s"
    obtain a' cc where s: "s = (a', cc)" by (cases s)
    have "u < alen a'" "u < alen b"
      using inv digits31_len [of "Suc 0" n "cells a'"] digits31_len [OF b] u by (auto simp: s add_inv_def)
    with add_inv_step [OF _ _ a b inv [unfolded s] refl refl refl] u
    show "ok (case s of (a, cc) \<Rightarrow> do { aw \<leftarrow> ld a u; bw \<leftarrow> ld b u;
       let naw = aw + bw + cc; let cc = shr naw 31;
       a \<leftarrow> st a u (MUX (of_bool c) (naw AND 0x7FFFFFFF) aw); ret (a, cc) }) (add_inv a b c n (Suc u))"
      unfolding s prod.case Let_def by (intro wp) auto
  next
    fix s assume "add_inv a b c n (Suc n) s"
    then show "Q s"
      using Q [of "fst s" "snd s"]
      by (cases s) (auto simp: add_inv_def frame31_def split: if_splits)
  qed simp
qed

section \<open>Zeroing, shifting, comparing with zero\<close>

text \<open>Two arrays with the same public part: block, length and header.\<close>

definition pub :: "u32 arr \<Rightarrow> u32 arr \<Rightarrow> bool" where
  "pub a a' \<longleftrightarrow> shape a a' \<and> cells a ! 0 = cells a' ! 0"

lemma pubD: "pub a a' \<Longrightarrow> shape a a'" "pub a a' \<Longrightarrow> cells a' ! 0 = cells a ! 0"
  by (simp_all add: pub_def)

lemma ct_br_i31_sub:
  assumes "pub a a'" and "pub b b'" and "words63 (cells a ! 0) = Suc n" and "n < alen a" and "n < alen b"
    and R: "\<And>x x' cc cc'. pub x x' \<Longrightarrow> alen x = alen a \<Longrightarrow> cells x ! 0 = cells a ! 0 \<Longrightarrow> R (x, cc) (x', cc')"
  shows "ct (br_i31_sub a b ctl) (br_i31_sub a' b' ctl') R"
  unfolding br_i31_sub_def
proof (intro ct_bind ct_ld ct_for_loop [where Inv = "\<lambda>u (x, cc) (x', cc').
    pub x x' \<and> alen x = alen a \<and> cells x ! 0 = cells a ! 0"], goal_cases)
  case (8 u s s')
  then show ?case using assms
    by (intro ctr) (auto simp: pub_def shape_def split: prod.splits)
qed (use assms in \<open>auto simp: pub_def\<close>)

lemma ct_br_i31_add:
  assumes "pub a a'" and "pub b b'" and "words63 (cells a ! 0) = Suc n" and "n < alen a" and "n < alen b"
    and R: "\<And>x x' cc cc'. pub x x' \<Longrightarrow> alen x = alen a \<Longrightarrow> cells x ! 0 = cells a ! 0 \<Longrightarrow> R (x, cc) (x', cc')"
  shows "ct (br_i31_add a b ctl) (br_i31_add a' b' ctl') R"
  unfolding br_i31_add_def
proof (intro ct_bind ct_ld ct_for_loop [where Inv = "\<lambda>u (x, cc) (x', cc').
    pub x x' \<and> alen x = alen a \<and> cells x ! 0 = cells a ! 0"], goal_cases)
  case (8 u s s')
  then show ?case using assms
    by (intro ctr) (auto simp: pub_def shape_def split: prod.splits)
qed (use assms in \<open>auto simp: pub_def\<close>)

section \<open>The inverse modulo 2^31 (int/i31_ninv31.c)\<close>

lemma newton_step: "(x :: u32) * y = 1 - e \<Longrightarrow> x * (y * (2 - y * x)) = 1 - e * e"
proof -
  assume "x * y = 1 - e"
  then have "y * x = 1 - e" by (simp add: mult.commute)
  then have "x * (y * (2 - y * x)) = (1 - e) * (1 + e)"
    by (simp add: mult.assoc [symmetric] mult.commute [of y x] diff_diff_eq2)
  then show ?thesis by (simp add: algebra_simps)
qed

lemma odd_and_1: "odd (unat x) \<Longrightarrow> (x :: u32) AND 1 = 1"
proof (rule bit_word_eqI)
  fix n
  assume "odd (unat x)"
  then have "bit (unat x) 0" by (simp add: bit_0)
  then have "bit x 0" by (simp only: bit_unsigned_iff)
  then show "bit (x AND 1) n = bit (1 :: u32) n" by (auto simp: bit_and_iff bit_1_iff)
qed

theorem ninv31_correct:
  assumes "odd (unat x)"
  shows "(unat (br_i31_ninv31 x) * unat x + 1) mod B31 = 0" and "unat (br_i31_ninv31 x) < B31"
proof -
  define e where "e = (x - 1) ^ 2"
  define y0 where "y0 = 2 - x"
  define y1 where "y1 = y0 * (2 - y0 * x)"
  define y2 where "y2 = y1 * (2 - y1 * x)"
  define y3 where "y3 = y2 * (2 - y2 * x)"
  define y4 where "y4 = y3 * (2 - y3 * x)"
  have "x * y0 = 1 - e" by (simp add: y0_def e_def power2_eq_square algebra_simps)
  from newton_step [OF newton_step [OF newton_step [OF newton_step [OF this]]]]
  have y4: "x * y4 = 1 - (x - 1) ^ 32"
    unfolding y1_def [symmetric] y2_def [symmetric] y3_def [symmetric] y4_def [symmetric] e_def
    by (simp flip: power_add)
  obtain t where "unat x = 2 * t + 1" using assms by (elim oddE)
  then have "of_nat (unat x) = (2 * of_nat t + 1 :: u32)" by simp
  then have "x = 2 * of_nat t + 1" by simp
  then have "(x - 1) ^ 32 = 2 ^ 32 * of_nat t ^ 32" by (simp add: power_mult_distrib)
  also have "(2 :: u32) ^ 32 = 0" by simp
  finally have "x * y4 = 1" using y4 by simp
  then have "- y4 * x + 1 = 0" by (simp add: mult.commute)
  moreover have "unat (- y4 * x + 1) = (unat (- y4) * unat x + 1) mod 4294967296"
    by (simp only: unat_word_ariths) (simp add: mod_simps)
  ultimately have "(unat (- y4) * unat x + 1) mod 4294967296 = 0" by simp
  then have "(unat (- y4) * unat x + 1) mod B31 = 0"
    using mod_mod_cancel [of B31 4294967296 "unat (- y4) * unat x + 1"] by simp
  moreover have n: "br_i31_ninv31 x = - y4 AND 0x7FFFFFFF"
    using odd_and_1 [OF assms] by (simp add: br_i31_ninv31_def Let_def y0_def y1_def y2_def y3_def y4_def)
  ultimately show "(unat (br_i31_ninv31 x) * unat x + 1) mod B31 = 0"
    by (simp add: unat_and31) (metis mod_Suc_eq mod_mult_left_eq)
  show "unat (br_i31_ninv31 x) < B31" by (simp add: n unat_and31)
qed

section \<open>Zeroing and comparing with zero\<close>

lemma digits31_zeros: "digits31 off n (splice xs off (replicate n 0))" if "off + n \<le> length xs"
  using that by (auto simp: digits31_def splice_def nth_append)

lemma wsum_zeros: "wsum off n (splice xs off (replicate n 0)) = 0" if "off + n \<le> length xs"
  using that by (auto simp: wsum_zero splice_def nth_append)

lemma nth_splice: "i + length ys \<le> length xs \<Longrightarrow> j < i \<or> i + length ys \<le> j \<Longrightarrow> splice xs i ys ! j = xs ! j"
  by (auto simp: splice_def nth_append)

lemma nth_splice_in: "i + length ys \<le> length xs \<Longrightarrow> i \<le> j \<Longrightarrow> j < i + length ys \<Longrightarrow> splice xs i ys ! j = ys ! (j - i)"
  by (auto simp: splice_def nth_append)

lemma ok_br_i31_zero:
  assumes "Suc (words31 h) \<le> alen x"
    and "\<And>x'. blk x' = blk x \<Longrightarrow> alen x' = alen x \<Longrightarrow> cells x' ! 0 = h \<Longrightarrow> digits31 (Suc 0) (words31 h) (cells x') \<Longrightarrow>
      i31v (words31 h) (cells x') = 0 \<Longrightarrow> (\<And>i. words31 h < i \<Longrightarrow> cells x' ! i = cells x ! i) \<Longrightarrow> Q x'"
  shows "ok (br_i31_zero x h) Q"
  unfolding br_i31_zero_def
proof (intro wp)
  show l: "0 < alen x" using assms(1) by linarith
  let ?c = "splice ((cells x)[0 := h]) 1 (replicate (words31 h) 0)"
  have "?c ! 0 = h" using l assms(1) nth_splice [of 1 "replicate (words31 h) (0::u32)" "(cells x)[0 := h]" 0] by simp
  moreover have "words31 h < i \<Longrightarrow> ?c ! i = cells x ! i" for i
    using assms(1) nth_splice [of 1 "replicate (words31 h) (0::u32)" "(cells x)[0 := h]" i] by simp
  ultimately show "Q (x\<lparr>cells := (cells x)[0 := h], cells := splice (cells (x\<lparr>cells := (cells x)[0 := h]\<rparr>)) 1 (replicate (words31 h) 0)\<rparr>)"
    using assms(1) by (intro assms(2)) (simp_all add: digits31_zeros wsum_zeros)
qed (use assms(1) in simp)

lemma ct_br_i31_zero:
  assumes "shape x x'" and "Suc (words31 h) \<le> alen x" and "\<And>y y'. pub y y' \<Longrightarrow> alen y = alen x \<Longrightarrow> cells y ! 0 = h \<Longrightarrow> R y y'"
  shows "ct (br_i31_zero x h) (br_i31_zero x' h) R"
  unfolding br_i31_zero_def
proof (intro ctr, goal_cases)
  case (8)
  have "splice ((cells y)[0 := h]) 1 (replicate (words31 h) (0::u32)) ! 0 = h" if "alen y = alen x" for y :: "u32 arr"
  proof -
    have "0 < alen y" using assms(2) that by linarith
    with assms(2) that show ?thesis
      using nth_splice [of 1 "replicate (words31 h) (0::u32)" "(cells y)[0 := h]" 0] by simp
  qed
  with assms 8 show ?case by (intro assms(3)) (auto simp: pub_def shape_def)
qed (use assms in \<open>auto simp: shape_def\<close>)

theorem ok_br_i31_iszero:
  assumes "words31 (cells x ! 0) = n" and "n < alen x"
    and "Q (of_bool (i31v n (cells x) = 0))"
  shows "ok (br_i31_iszero x) Q"
  unfolding br_i31_iszero_def
proof (rule ok_bind, rule ok_ld)
  let ?I = "\<lambda>j z. z = 0 \<longleftrightarrow> (\<forall>i<n. j \<le> i \<longrightarrow> cells x ! Suc i = 0)"
  have "ok (do { w \<leftarrow> ld x (Suc j); ret (z OR w) }) (?I j)" if "j < n" and "?I (Suc j) z" for j z
  proof -
    have "(z OR cells x ! Suc j = 0) \<longleftrightarrow> (\<forall>i<n. j \<le> i \<longrightarrow> cells x ! Suc i = 0)"
      using that by (auto simp: or_eq_0_iff Suc_le_eq le_less)
    then show ?thesis using that(1) assms(2) by (intro wp) auto
  qed
  moreover have "ok (ret (shr (NOT (z OR - z)) 31)) Q" if "?I 0 z" for z
    using that assms(3) unfolding shr31 bit_not_iff or_neg_bit31 by (intro wp) (simp add: wsum_zero)
  ultimately show "ok (do { z \<leftarrow> for_down (words31 (cells x ! 0)) (\<lambda>u z. do { w \<leftarrow> ld x (Suc u); ret (z OR w) }) 0;
     ret (shr (NOT (z OR - z)) 31) }) Q"
    unfolding assms(1) by (intro ok_bind, intro ok_for_down [where Inv = ?I]) auto
  show "0 < alen x" using assms(2) by linarith
qed

section \<open>The encoded bit length (int/i31_bitlen.c)\<close>

text \<open>The encoding the function computes: a top word with all 31 bits in use gives \<open>32 * i + 31\<close>.\<close>

definition enc31 :: "nat \<Rightarrow> nat" where
  "enc31 k = (if k = 0 then 0 else 32 * ((k - 1) div 31) + (k - 1) mod 31 + 1)"

lemma nbits_digit:
  assumes "low < B31 ^ i" and "0 < w"
  shows "nbits (low + w * B31 ^ i) = 31 * i + nbits w"
proof -
  have p: "B31 ^ i = 2 ^ (31 * i)" by (simp add: power_mult)
  have "2 ^ (31 * i) \<le> low + w * 2 ^ (31 * i)" using assms(2) by (cases w) auto
  moreover have "(low + w * 2 ^ (31 * i)) div 2 ^ (31 * i) = w" using assms(1) by (simp add: p)
  ultimately show ?thesis using nbits_div [of "31 * i" "low + w * 2 ^ (31 * i)"] by (simp add: p)
qed

lemma enc31_digit: "0 < b \<Longrightarrow> b \<le> 31 \<Longrightarrow> enc31 (31 * i + b) = 32 * i + b"
proof -
  assume "0 < b" "b \<le> 31"
  then obtain c where b: "b = Suc c" "c < 31" by (cases b) auto
  then have "(31 * i + c) div 31 = i" "(31 * i + c) mod 31 = c" by simp_all
  then show ?thesis by (simp add: enc31_def b(1))
qed

definition bl_inv :: "u32 list \<Rightarrow> nat \<Rightarrow> nat \<Rightarrow> nat \<Rightarrow> u32 \<times> u32 \<Rightarrow> bool" where
  "bl_inv xs off n j s \<longleftrightarrow> (case s of (tw, twk) \<Rightarrow>
     if tw = 0 then (\<forall>i<n. j \<le> i \<longrightarrow> xs ! (off + i) = 0) \<and> twk = (if j < n then of_nat j else 0)
     else (\<exists>i<n. j \<le> i \<and> tw = xs ! (off + i) \<and> twk = of_nat i \<and> (\<forall>k<n. i < k \<longrightarrow> xs ! (off + k) = 0)))"

lemma bl_inv_step:
  "j < n \<Longrightarrow> bl_inv xs off n (Suc j) (tw, twk) \<Longrightarrow>
   bl_inv xs off n j (MUX (EQ tw 0) (xs ! (off + j)) tw, MUX (EQ tw 0) (of_nat j) twk)"
proof (cases "tw = 0")
  case True
  assume "j < n" and "bl_inv xs off n (Suc j) (tw, twk)"
  with True have h: "\<forall>i<n. j < i \<longrightarrow> xs ! (off + i) = 0" and j: "j < n" by (auto simp: bl_inv_def Suc_le_eq)
  show ?thesis
  proof (cases "xs ! (off + j) = 0")
    case z: True
    have "xs ! (off + i) = 0" if "i < n" "j \<le> i" for i
      using h z that by (cases "i = j") auto
    with True z j show ?thesis by (auto simp: bl_inv_def)
  next
    case False
    with True h j show ?thesis by (auto simp: bl_inv_def intro!: exI [of _ j])
  qed
next
  case False
  assume "j < n" and "bl_inv xs off n (Suc j) (tw, twk)"
  with False obtain i where "i < n" "Suc j \<le> i" "tw = xs ! (off + i)" "twk = of_nat i"
    "\<forall>k<n. i < k \<longrightarrow> xs ! (off + k) = 0" by (auto simp: bl_inv_def)
  with False show ?thesis by (auto simp: bl_inv_def intro!: exI [of _ i])
qed

lemma wsum_top:
  assumes "i < n" and "\<forall>k<n. i < k \<longrightarrow> xs ! (off + k) = 0"
  shows "wsum off n xs = wsum off i xs + unat (xs ! (off + i)) * B31 ^ i"
proof -
  have n: "n = Suc i + (n - Suc i)" using assms(1) by simp
  have "xs ! (off + Suc i + j) = 0" if "j < n - Suc i" for j
    using assms(2) that by (auto dest: spec [of _ "Suc i + j"] simp: add.assoc)
  then have "wsum (off + Suc i) (n - Suc i) xs = 0" by (simp add: wsum_zero)
  then show ?thesis using wsum_split [of off "Suc i" "n - Suc i" xs] n by (simp add: wsum_Suc)
qed

theorem ok_br_i31_bit_length:
  assumes d: "digits31 off n (cells x)" and n: "n < 134217727"
    and Q: "\<And>r. unat r = enc31 (nbits (wsum off n (cells x))) \<Longrightarrow> Q r"
  shows "ok (br_i31_bit_length x off n) Q"
proof -
  let ?I = "bl_inv (cells x) off n"
  have body: "ok (case s of (tw, twk) \<Rightarrow> do { let c = EQ tw 0; w \<leftarrow> ld x (off + j);
      ret (MUX c w tw, MUX c (of_nat j) twk) }) (?I j)" if "j < n" and "?I (Suc j) s" for j s
    using that digits31_len [OF d] bl_inv_step [of j n "cells x" off "fst s" "snd s"]
    unfolding Let_def by (cases s, simp only: prod.case, intro wp) auto
  have fin: "ok (case s of (tw, twk) \<Rightarrow> ret (shl twk 5 + BIT_LENGTH tw)) Q" if "?I 0 s" for s
  proof -
    obtain tw twk where s: "s = (tw, twk)" by (cases s)
    have "unat (shl twk 5 + BIT_LENGTH tw) = enc31 (nbits (wsum off n (cells x)))"
    proof (cases "tw = 0")
      case True
      with that have "wsum off n (cells x) = 0" "twk = 0" by (auto simp: s bl_inv_def wsum_zero split: if_splits)
      moreover have "unat (BIT_LENGTH 0) = 0" by (simp add: BIT_LENGTH_nbits)
      ultimately show ?thesis using True by (simp add: enc31_def unat_eq_zero)
    next
      case False
      with that obtain i where i: "i < n" "tw = cells x ! (off + i)" "twk = of_nat i"
        "\<forall>k<n. i < k \<longrightarrow> cells x ! (off + k) = 0" by (auto simp: s bl_inv_def)
      have tw: "0 < unat tw" "unat tw < B31"
        using False i digits31_D [OF d i(1)] by (simp_all add: unat_gt_0)
      have "wsum off i (cells x) < B31 ^ i" using d i(1) by (auto intro!: wsum_lt elim: digits31_prefix)
      then have nb: "nbits (wsum off n (cells x)) = 31 * i + nbits (unat tw)"
        using wsum_top [OF i(1,4)] nbits_digit tw(1) i(2) by simp
      have "nbits (unat tw) \<le> 31" using tw(2) by (simp add: nbits_le_iff)
      moreover have "0 < nbits (unat tw)" using tw(1) nbits_le_iff [of "unat tw" 0] by simp
      ultimately have e: "enc31 (nbits (wsum off n (cells x))) = 32 * i + nbits (unat tw)"
        unfolding nb by (rule enc31_digit [rotated])
      have ut: "unat twk = i" using i(1,3) n by (simp add: unsigned_of_nat take_bit_nat_eq_self)
      have "unat (shl twk 5) = 32 * i" using i(1) n by (simp add: unat_shl32 ut)
      then show ?thesis
        using \<open>nbits (unat tw) \<le> 31\<close> i(1) n by (simp add: e unat_word_ariths BIT_LENGTH_nbits)
    qed
    then show ?thesis unfolding s by (simp add: Q ok_ret)
  qed
  have init: "?I n (0, 0)" by (simp add: bl_inv_def)
  show ?thesis
    unfolding br_i31_bit_length_def
    by (rule ok_bind, rule ok_for_down [where Inv = ?I, OF init]) (erule (1) body, erule fin)
qed

section \<open>Properties\<close>

text \<open>C17. \<open>br_i31_add\<close> and \<open>br_i31_sub\<close> always return the carry or the borrow of the whole integer; they write the sum or the
  difference modulo \<open>2^(31 n)\<close> when the control bit is set, and leave the array unchanged when it is not.\<close>

theorem br_i31_add_sub_correct:
  assumes "words63 (cells a ! 0) = Suc n" and "digits31 (Suc 0) n (cells a)" and "digits31 (Suc 0) n (cells b)"
  shows "ok (br_i31_add a b (of_bool c)) (\<lambda>(a', cc). frame31 n a a' \<and> digits31 (Suc 0) n (cells a') \<and>
      unat cc = (i31v n (cells a) + i31v n (cells b)) div B31 ^ n \<and>
      (if c then i31v n (cells a') = (i31v n (cells a) + i31v n (cells b)) mod B31 ^ n else a' = a)) \<and>
    ok (br_i31_sub a b (of_bool c)) (\<lambda>(a', cc). frame31 n a a' \<and> digits31 (Suc 0) n (cells a') \<and>
      cc = of_bool (i31v n (cells a) < i31v n (cells b)) \<and>
      (if c then i31v n (cells a') + i31v n (cells b) = i31v n (cells a) + unat cc * B31 ^ n else a' = a))"
  using assms by (intro conjI ok_br_i31_add ok_br_i31_sub) auto

theorem br_i31_add_sub_correct_witness:
  "ok (br_i31_sub \<lparr>blk = 0, cells = [31, 5]\<rparr> \<lparr>blk = 1, cells = [31, 7]\<rparr> 1) (\<lambda>(a, cc). i31v 1 (cells a) = 2147483646 \<and> cc = 1)"
proof -
  have "words63 (cells \<lparr>blk = 0, cells = [31, 5]\<rparr> ! 0) = Suc 1" by (simp add: words63_def unat_drop_bit)
  from conjunct2 [OF br_i31_add_sub_correct [OF this, of "\<lparr>blk = 1, cells = [31, 7]\<rparr>" True]]
  have "ok (br_i31_sub \<lparr>blk = 0, cells = [31, 5]\<rparr> \<lparr>blk = 1, cells = [31, 7]\<rparr> 1)
    (\<lambda>(a', cc). i31v 1 (cells a') + 7 = 5 + unat cc * B31 \<and> cc = 1)"
    by (auto simp: digits31_def wsum_def intro: ok_weaken)
  then show ?thesis by (rule ok_weaken) auto
qed

text \<open>C19. \<open>br_i31_ninv31\<close> returns \<open>-1/x\<close> modulo \<open>2^31\<close> for an odd \<open>x\<close>, as a word of 31 bits.\<close>

theorem br_i31_ninv31_correct:
  assumes "odd (unat x)"
  shows "(unat (br_i31_ninv31 x) * unat x + 1) mod 2 ^ 31 = 0 \<and> unat (br_i31_ninv31 x) < 2 ^ 31"
  using ninv31_correct [OF assms] by simp

theorem br_i31_ninv31_correct_witness: "(unat (br_i31_ninv31 11) * 11 + 1) mod 2 ^ 31 = 0"
  using br_i31_ninv31_correct [of 11] by simp

text \<open>C18. \<open>br_i31_bit_length\<close> returns the encoding \<open>enc31\<close> of the true bit length. For \<open>k > 0\<close> bits that is
  \<open>32 * ((k - 1) div 31) + (k - 1) mod 31 + 1\<close>, so a full top word is announced as 31 bits and not as one more word of 0 bits,
  which is what the comment in \<open>inner.h\<close> says.\<close>

theorem br_i31_bit_length_correct:
  assumes "digits31 off n (cells x)" and "n < 134217727"
  shows "ok (br_i31_bit_length x off n) (\<lambda>r. unat r = enc31 (nbits (wsum off n (cells x))))"
  using assms by (rule ok_br_i31_bit_length)

theorem br_i31_bit_length_correct_witness:
  "ok (br_i31_bit_length \<lparr>blk = 0, cells = [0x7FFFFFFF]\<rparr> 0 1) (\<lambda>r. unat r = 31)"
proof -
  have "nbits 2147483647 \<le> 31" "\<not> nbits 2147483647 \<le> 30" by (simp_all only: nbits_le_iff) simp_all
  then have "nbits 2147483647 = 31" by linarith
  then show ?thesis
    using br_i31_bit_length_correct [of 0 1 "\<lparr>blk = 0, cells = [0x7FFFFFFF]\<rparr>"]
    by (simp add: digits31_def wsum_def enc31_def)
qed

end
