(* ===== verification/I31_Mont.thy ===== *)
theory I31_Mont
  imports I31
begin

text \<open>
  Montgomery multiplication and the conversion out of Montgomery representation:
  \<^verbatim>\<open>src/int/i31_montmul.c\<close> and \<^verbatim>\<open>src/int/i31_fmont.c\<close>.
\<close>

section \<open>Operations\<close>

text \<open>One step of the inner loop, for index \<open>v\<close>; the source has it once in the loop that is
  unrolled four times (at \<open>v\<close>, \<open>v + 1\<close>, \<open>v + 2\<close> and \<open>v + 3\<close>) and once in the loop for the rest.\<close>

definition montymul_step :: "u32 \<Rightarrow> u32 \<Rightarrow> u32 arr \<Rightarrow> u32 arr \<Rightarrow> nat \<Rightarrow> u32 arr \<times> u64 \<Rightarrow> (u32 arr \<times> u64) cm" where
  "montymul_step xu f y m v = (\<lambda>(d, r). do {
     dv \<leftarrow> ld d (v + 1);
     yv \<leftarrow> ld y (v + 1);
     mv \<leftarrow> ld m (v + 1);
     let z = ucast dv + MUL31 xu yv + MUL31 f mv + r;
     d \<leftarrow> st d v (ucast z AND 0x7FFFFFFF);
     ret (d, shr z 31) })"

definition br_i31_montymul :: "u32 arr \<Rightarrow> u32 arr \<Rightarrow> u32 arr \<Rightarrow> u32 arr \<Rightarrow> u32 \<Rightarrow> u32 arr cm" where
  "br_i31_montymul d x y m m0i = do {
     m0 \<leftarrow> ld m 0;
     let len = words31 m0;
     let len4 = 4 * (len div 4);
     d \<leftarrow> br_i31_zero d m0;
     (d, dh) \<leftarrow> for_loop 0 len (\<lambda>u (d, dh). do {
       xu \<leftarrow> ld x (u + 1);
       d1 \<leftarrow> ld d 1;
       y1 \<leftarrow> ld y 1;
       let f = MUL31_lo (d1 + MUL31_lo xu y1) m0i;
       (d, r) \<leftarrow> for_loop 0 (len4 div 4) (\<lambda>i s. do {
         s \<leftarrow> montymul_step xu f y m (4 * i) s;
         s \<leftarrow> montymul_step xu f y m (4 * i + 1) s;
         s \<leftarrow> montymul_step xu f y m (4 * i + 2) s;
         montymul_step xu f y m (4 * i + 3) s }) (d, 0);
       (d, r) \<leftarrow> for_loop len4 len (montymul_step xu f y m) (d, r);
       let zh = dh + r;
       d \<leftarrow> st d len (ucast zh AND 0x7FFFFFFF);
       ret (d, shr zh 31) }) (d, 0);
     d \<leftarrow> st d 0 m0;
     (d, c) \<leftarrow> br_i31_sub d m 0;
     (d, c) \<leftarrow> br_i31_sub d m (NEQ (ucast dh) 0 OR NOT_ctl c);
     ret d }"

definition br_i31_from_monty :: "u32 arr \<Rightarrow> u32 arr \<Rightarrow> u32 \<Rightarrow> u32 arr cm" where
  "br_i31_from_monty x m m0i = do {
     m0 \<leftarrow> ld m 0;
     let len = words31 m0;
     x \<leftarrow> for_loop 0 len (\<lambda>u x. do {
       x1 \<leftarrow> ld x 1;
       let f = MUL31_lo x1 m0i;
       (x, cc) \<leftarrow> for_loop 0 len (\<lambda>v (x, cc). do {
         xv \<leftarrow> ld x (v + 1);
         mv \<leftarrow> ld m (v + 1);
         let z = ucast xv + MUL31 f mv + cc;
         let cc = shr z 31;
         x \<leftarrow> branch (v \<noteq> 0) (st x v (ucast z AND 0x7FFFFFFF)) (ret x);
         ret (x, cc) }) (x, 0 :: u64);
       st x len (ucast cc) }) x;
     (x, c) \<leftarrow> br_i31_sub x m 0;
     (x, c) \<leftarrow> br_i31_sub x m (NOT_ctl c);
     ret x }"

section \<open>The inner loop\<close>

lemma unat_ucast_and31: "unat (ucast (z :: u64) AND 0x7FFFFFFF :: u32) = unat z mod B31"
proof -
  have "unat (ucast z :: u32) = unat z mod 4294967296"
    by (simp add: unsigned_ucast_eq take_bit_eq_mod)
  then show ?thesis by (simp add: unat_and31 mod_mod_cancel)
qed

text \<open>After \<open>v\<close> steps the low \<open>v\<close> cells hold the low digits of the sum, and \<open>r\<close> the carry.\<close>

definition mm_inv :: "nat \<Rightarrow> u32 arr \<Rightarrow> (nat \<Rightarrow> nat) \<Rightarrow> nat \<Rightarrow> u32 arr \<times> u64 \<Rightarrow> bool" where
  "mm_inv n d s v w \<longleftrightarrow> (case w of (d', r) \<Rightarrow>
     blk d' = blk d \<and> alen d' = alen d \<and> (\<forall>i\<ge>v. cells d' ! i = cells d ! i) \<and> digits31 0 v (cells d') \<and>
     unat r < 8589934592 \<and> wsum 0 v (cells d') + unat r * B31 ^ v = s v)"

lemma mm_word:
  assumes "unat (dv :: u32) < B31" and "unat (xu :: u32) < B31" and "unat (yv :: u32) < B31"
    and "unat (f :: u32) < B31" and "unat (mv :: u32) < B31" and "unat r < 8589934592"
  shows "unat (ucast dv + MUL31 xu yv + MUL31 f mv + r) = unat dv + unat xu * unat yv + unat f * unat mv + unat r"
    and "unat dv + unat xu * unat yv + unat f * unat mv + unat r < 8589934592 * B31"
proof -
  have "unat xu * unat yv \<le> 2147483647 * 2147483647" "unat f * unat mv \<le> 2147483647 * 2147483647"
    using assms by (intro mult_le_mono; simp)+
  then show "unat (ucast dv + MUL31 xu yv + MUL31 f mv + r) = unat dv + unat xu * unat yv + unat f * unat mv + unat r"
    and "unat dv + unat xu * unat yv + unat f * unat mv + unat r < 8589934592 * B31"
    using assms by (simp_all add: unat_word_ariths unat_MUL31)
qed

lemma ok_montymul_step:
  assumes inv: "mm_inv n d s v w" and v: "v < n"
    and d: "digits31 (Suc 0) n (cells d)" and y: "digits31 (Suc 0) n (cells y)" and m: "digits31 (Suc 0) n (cells m)"
    and xu: "unat xu < B31" and f: "unat f < B31"
    and s: "s (Suc v) = s v + (unat (cells d ! Suc v) + unat xu * unat (cells y ! Suc v) + unat f * unat (cells m ! Suc v)) * B31 ^ v"
    and Q: "\<And>w'. mm_inv n d s (Suc v) w' \<Longrightarrow> Q w'"
  shows "ok (montymul_step xu f y m v w) Q"
proof -
  obtain d' r where st: "w = (d', r)" by (cases w)
  from inv have i: "blk d' = blk d" "alen d' = alen d" "\<forall>i\<ge>v. cells d' ! i = cells d ! i" "digits31 0 v (cells d')"
    "unat r < 8589934592" "wsum 0 v (cells d') + unat r * B31 ^ v = s v" by (auto simp: mm_inv_def st)
  have lens: "Suc v < alen d'" "Suc v < alen y" "Suc v < alen m"
    using v digits31_len [OF d] digits31_len [OF y] digits31_len [OF m] i(2) by auto
  have dv: "cells d' ! Suc v = cells d ! Suc v" using i(3) by simp
  have ub: "unat (cells d ! Suc v) < B31" "unat (cells y ! Suc v) < B31" "unat (cells m ! Suc v) < B31"
    using v by (auto intro: digits31_1 [OF d] digits31_1 [OF y] digits31_1 [OF m])
  define z where "z = ucast (cells d ! Suc v) + MUL31 xu (cells y ! Suc v) + MUL31 f (cells m ! Suc v) + r"
  note zz = mm_word [OF ub(1) xu ub(2) f ub(3) i(5), folded z_def]
  have "mm_inv n d s (Suc v) (d'\<lparr>cells := (cells d')[v := ucast z AND 0x7FFFFFFF]\<rparr>, shr z 31)"
  proof -
    let ?c = "(cells d')[v := ucast z AND 0x7FFFFFFF]"
    have "unat z div B31 < 8589934592" using zz by (simp add: less_mult_imp_div_less)
    then have r: "unat (shr z 31) < 8589934592" by (simp add: unat_drop_bit)
    have dg: "digits31 0 (Suc v) ?c"
      using i(4) lens by (auto simp: digits31_def less_Suc_eq nth_list_update unat_ucast_and31)
    define p q where pq: "p = unat z mod B31" "q = unat z div B31"
    have z: "unat z = p + B31 * q" by (simp add: pq)
    have "wsum 0 (Suc v) ?c = wsum 0 v (cells d') + p * B31 ^ v"
      using lens wsum_update_last [of 0 v "cells d'"] by (simp add: unat_ucast_and31 pq)
    then have "wsum 0 (Suc v) ?c + unat (shr z 31) * B31 ^ Suc v = wsum 0 v (cells d') + (p + B31 * q) * B31 ^ v"
      by (simp add: unat_drop_bit pq(2) [symmetric] algebra_simps)
    also have "\<dots> = s (Suc v)" unfolding z [symmetric] zz(1) using i(6) s by (simp add: algebra_simps)
    finally show ?thesis using i r dg by (auto simp: mm_inv_def)
  qed
  then show ?thesis
    unfolding montymul_step_def st prod.case Let_def
    using lens by (intro wp) (auto simp: dv z_def [symmetric] intro: Q)
qed


lemma shape_mm_step:
  "shape d d' \<Longrightarrow> shape y y' \<Longrightarrow> shape m m' \<Longrightarrow> v + 1 < alen d \<Longrightarrow> v + 1 < alen y \<Longrightarrow> v + 1 < alen m \<Longrightarrow>
   (\<And>x x' r r'. shape x x' \<Longrightarrow> alen x = alen d \<Longrightarrow> R (x, r) (x', r')) \<Longrightarrow>
   ct (montymul_step xu f y m v (d, r)) (montymul_step xu' f' y' m' v (d', r')) R"
  unfolding montymul_step_def prod.case by (intro ctr) (auto simp: shape_def)

section \<open>One round\<close>

definition mm_round :: "nat \<Rightarrow> u32 arr \<Rightarrow> u32 arr \<Rightarrow> u32 \<Rightarrow> u32 \<Rightarrow> u32 arr \<times> u64 \<Rightarrow> (u32 arr \<times> u64) cm" where
  "mm_round len y m xu f = (\<lambda>(d, dh). do {
     (d, r) \<leftarrow> for_loop 0 (4 * (len div 4) div 4) (\<lambda>i s. do {
       s \<leftarrow> montymul_step xu f y m (4 * i) s;
       s \<leftarrow> montymul_step xu f y m (4 * i + 1) s;
       s \<leftarrow> montymul_step xu f y m (4 * i + 2) s;
       montymul_step xu f y m (4 * i + 3) s }) (d, 0);
     (d, r) \<leftarrow> for_loop (4 * (len div 4)) len (montymul_step xu f y m) (d, r);
     let zh = dh + r;
     d \<leftarrow> st d len (ucast zh AND 0x7FFFFFFF);
     ret (d, shr zh 31) })"

lemma ok_mm_round:
  assumes n: "0 < n" and d: "digits31 (Suc 0) n (cells d)" and y: "digits31 (Suc 0) n (cells y)" and m: "digits31 (Suc 0) n (cells m)"
    and xu: "unat xu < B31" and f: "unat f < B31" and dh: "unat dh \<le> 1"
    and low: "(unat (cells d ! 1) + unat xu * unat (cells y ! 1) + unat f * unat (cells m ! 1)) mod B31 = 0"
    and Q: "\<And>d' dh'. blk d' = blk d \<Longrightarrow> alen d' = alen d \<Longrightarrow> digits31 (Suc 0) n (cells d') \<Longrightarrow> (\<forall>i>n. cells d' ! i = cells d ! i) \<Longrightarrow>
      B31 * (i31v n (cells d') + unat dh' * B31 ^ n)
        = (i31v n (cells d) + unat dh * B31 ^ n) + unat xu * i31v n (cells y) + unat f * i31v n (cells m) \<Longrightarrow> Q (d', dh')"
  shows "ok (mm_round n y m xu f (d, dh)) Q"
proof -
  define s where "s v = i31v v (cells d) + unat xu * i31v v (cells y) + unat f * i31v v (cells m)" for v
  have s: "s (Suc v) = s v + (unat (cells d ! Suc v) + unat xu * unat (cells y ! Suc v) + unat f * unat (cells m ! Suc v)) * B31 ^ v" for v
    by (simp add: s_def wsum_Suc algebra_simps)
  let ?I = "mm_inv n d s"
  have step: "ok (montymul_step xu f y m v w) P" if "?I v w" "v < n" "\<And>w'. ?I (Suc v) w' \<Longrightarrow> P w'" for v w P
    by (rule ok_montymul_step [OF that(1,2) d y m xu f s that(3)])
  have four: "ok (do { w \<leftarrow> montymul_step xu f y m (4 * i) w; w \<leftarrow> montymul_step xu f y m (4 * i + 1) w;
      w \<leftarrow> montymul_step xu f y m (4 * i + 2) w; montymul_step xu f y m (4 * i + 3) w }) (\<lambda>w. ?I (4 * Suc i) w)"
    if "i < n div 4" "?I (4 * i) w" for i w
  proof -
    have "4 * i + 3 < n" using that(1) by linarith
    then show ?thesis using that(2) by (intro ok_bind step) (auto simp: numeral_eq_Suc)
  qed
  have fin: "ok (case w of (d, r) \<Rightarrow> let zh = dh + r in do {
      d \<leftarrow> st d n (ucast zh AND 0x7FFFFFFF); ret (d, shr zh 31) }) Q" if "?I n w" for w
  proof -
    obtain d' r where w: "w = (d', r)" by (cases w)
    from that have i: "blk d' = blk d" "alen d' = alen d" "\<forall>i\<ge>n. cells d' ! i = cells d ! i" "digits31 0 n (cells d')"
      "unat r < 8589934592" "wsum 0 n (cells d') + unat r * B31 ^ n = s n" by (auto simp: mm_inv_def w)
    obtain k where k: "n = Suc k" using n by (cases n) auto
    define zh where "zh = dh + r"
    have zh: "unat zh = unat dh + unat r" using dh i(5) by (simp add: zh_def unat_word_ariths)
    define p q where pq: "p = unat zh mod B31" "q = unat zh div B31"
    have zpq: "unat zh = p + B31 * q" by (simp add: pq)
    have lenn: "n < alen d'" using digits31_len [OF d] i(2) by simp
    let ?c = "(cells d')[n := ucast zh AND 0x7FFFFFFF]"
    have h0: "unat (cells d' ! 0) = 0"
    proof -
      have ws: "wsum 0 n (cells d') = unat (cells d' ! 0) + B31 * wsum (Suc 0) k (cells d')"
        unfolding k by (rule wsum_head)
      have "s n = (unat (cells d ! 1) + unat xu * unat (cells y ! 1) + unat f * unat (cells m ! 1))
        + B31 * (wsum 2 k (cells d) + unat xu * wsum 2 k (cells y) + unat f * wsum 2 k (cells m))"
        by (simp add: s_def k wsum_head algebra_simps numeral_2_eq_2)
      then have "s n mod B31 = 0" using low by (simp only: mod_mult_self2)
      moreover have "s n = unat (cells d' ! 0) + B31 * (wsum (Suc 0) k (cells d') + unat r * B31 ^ k)"
        using i(6) ws by (simp add: k algebra_simps)
      ultimately have "unat (cells d' ! 0) mod B31 = 0" by (simp only: mod_mult_self2)
      then show ?thesis using digits31_D [OF i(4), of 0] n by simp
    qed
    have v: "i31v n ?c = i31v k (cells d') + p * B31 ^ k"
      using lenn by (simp add: k unat_ucast_and31 pq)
    have "B31 * (i31v n ?c + q * B31 ^ n) = B31 * i31v k (cells d') + (p + B31 * q) * B31 ^ n"
      unfolding v by (simp add: k algebra_simps)
    also have "\<dots> = wsum 0 n (cells d') + (unat dh + unat r) * B31 ^ n"
      unfolding zpq [symmetric] zh using h0 wsum_head [of 0 k "cells d'"] by (simp add: k)
    also have "\<dots> = (i31v n (cells d) + unat dh * B31 ^ n) + unat xu * i31v n (cells y) + unat f * i31v n (cells m)"
      using i(6) by (simp add: s_def algebra_simps)
    finally have eq: "B31 * (i31v n ?c + unat (shr zh 31) * B31 ^ n) = \<dots>" by (simp add: unat_drop_bit pq)
    have dg: "digits31 (Suc 0) n ?c"
      using i(4) lenn by (auto simp: digits31_def nth_list_update unat_ucast_and31 k)
    have "Q (d'\<lparr>cells := ?c\<rparr>, shr zh 31)" using i dg eq by (intro Q) auto
    then show ?thesis unfolding w prod.case Let_def zh_def [symmetric] using lenn by (intro wp)
  qed
  have init: "?I (4 * 0) (d, 0)" by (simp add: mm_inv_def s_def digits31_def)
  show ?thesis
    unfolding mm_round_def prod.case
  proof (rule ok_bind, rule ok_for_loop [where Inv = "\<lambda>i. ?I (4 * i)", OF init], goal_cases)
    case (2 i w)
    then show ?case using four by simp
  next
    case (3 w)
    then have w: "?I (4 * (n div 4)) w" by simp
    show ?case
    proof (cases w)
      case (Pair d' r)
      have "ok (for_loop (4 * (n div 4)) n (montymul_step xu f y m) (d', r)) (\<lambda>w. ok (case w of (d, r) \<Rightarrow> let zh = dh + r in do {
        d \<leftarrow> st d n (ucast zh AND 0x7FFFFFFF); ret (d, shr zh 31) }) Q)"
        by (rule ok_for_loop [where Inv = ?I, OF w [unfolded Pair]]) (simp, erule step, assumption, assumption, erule fin)
      then show ?thesis unfolding Pair prod.case by (rule ok_bind)
    qed
  qed simp
qed


section \<open>The product\<close>

text \<open>A well-formed integer of \<open>n\<close> words under the header \<open>h\<close>.\<close>

definition hdr31 :: "u32 \<Rightarrow> nat \<Rightarrow> bool" where
  "hdr31 h n \<longleftrightarrow> unat h + 63 < 4294967296 \<and> n = (unat h + 31) div 32"

lemma hdr31D:
  assumes "hdr31 h n"
  shows "words31 h = n" "words63 h = Suc n"
  using assms by (simp_all add: hdr31_def words31_def words63_def unat_drop_bit unat_word_ariths)

definition is_i31 :: "u32 \<Rightarrow> nat \<Rightarrow> u32 arr \<Rightarrow> bool" where
  "is_i31 h n x \<longleftrightarrow> cells x ! 0 = h \<and> hdr31 h n \<and> digits31 (Suc 0) n (cells x)"

lemma is_i31D:
  assumes "is_i31 h n x"
  shows "cells x ! 0 = h" "words31 h = n" "words63 h = Suc n" "digits31 (Suc 0) n (cells x)" "n < alen x"
  using assms digits31_len [of "Suc 0" n "cells x"] by (auto simp: is_i31_def hdr31D)

abbreviation val31 :: "nat \<Rightarrow> u32 arr \<Rightarrow> nat" where
  "val31 n x \<equiv> i31v n (cells x)"

lemma mm_f:
  assumes "unat d1 < B31" and "(unat m0i * unat m1 + 1) mod B31 = 0"
    and f: "f = MUL31_lo (d1 + MUL31_lo xu y1) m0i"
  shows "unat f < B31" and "(unat d1 + unat xu * unat y1 + unat f * unat m1) mod B31 = 0"
proof -
  have a: "unat (d1 + MUL31_lo xu y1) = unat d1 + unat xu * unat y1 mod B31"
    using assms(1) by (simp add: unat_word_ariths unat_MUL31_lo)
  show "unat f < B31" by (simp add: f unat_MUL31_lo)
  define t where "t = unat d1 + unat xu * unat y1"
  have uf: "unat f = t * unat m0i mod B31"
    by (simp add: f unat_MUL31_lo a t_def) (metis mod_add_right_eq mod_mult_left_eq)
  have "(t + unat f * unat m1) mod B31 = (t + t * unat m0i * unat m1) mod B31"
    unfolding uf by (metis mod_add_right_eq mod_mult_left_eq)
  also have "\<dots> = (t * (unat m0i * unat m1 + 1)) mod B31" by (simp add: algebra_simps)
  also have "\<dots> = 0" using assms(2) by (metis mod_0 mod_mult_right_eq mult_0_right)
  finally show "(unat d1 + unat xu * unat y1 + unat f * unat m1) mod B31 = 0" by (simp add: t_def)
qed

text \<open>Invariant of the outer loop after \<open>u\<close> rounds, for \<open>D = d + dh * 2^(31 n)\<close>:
  \<open>D * 2^(31 u) = x_u * y + F * m\<close>, where \<open>x_u\<close> is the value of the low \<open>u\<close> words of \<open>x\<close>, and \<open>D < 2 m\<close>.\<close>

definition outer_inv :: "nat \<Rightarrow> u32 arr \<Rightarrow> u32 arr \<Rightarrow> u32 arr \<Rightarrow> u32 arr \<Rightarrow> nat \<Rightarrow> u32 arr \<times> u64 \<Rightarrow> bool" where
  "outer_inv n d x y m u w \<longleftrightarrow> (case w of (d', dh) \<Rightarrow>
     blk d' = blk d \<and> alen d' = alen d \<and> digits31 (Suc 0) n (cells d') \<and> (\<forall>i>n. cells d' ! i = cells d ! i) \<and>
     unat dh \<le> 1 \<and> val31 n d' + unat dh * B31 ^ n < 2 * val31 n m \<and>
     (\<exists>F. (val31 n d' + unat dh * B31 ^ n) * B31 ^ u = val31 u x * val31 n y + F * val31 n m))"

lemma outer_step:
  fixes D D' :: nat
  assumes "D * P = xu * y + F * m" and "B31 * D' = D + w * y + f * m" and "w < B31" and "f < B31"
    and "D < 2 * m" and "y < m"
  shows "D' * (B31 * P) = (xu + w * P) * y + (F + f * P) * m" and "D' < 2 * m"
proof -
  have "D' * (B31 * P) = (B31 * D') * P" by simp
  also have "\<dots> = D * P + w * P * y + f * P * m" unfolding assms(2) by (simp add: algebra_simps)
  finally show "D' * (B31 * P) = (xu + w * P) * y + (F + f * P) * m"
    unfolding assms(1) by (simp add: algebra_simps)
  have "w * y \<le> 2147483647 * m" "f * m \<le> 2147483647 * m"
    using assms(3,4,6) by (intro mult_le_mono; simp)+
  then have "B31 * D' < B31 * (2 * m)" unfolding assms(2) using assms(5) by linarith
  then show "D' < 2 * m" by simp
qed

definition mm_outer :: "nat \<Rightarrow> u32 arr \<Rightarrow> u32 arr \<Rightarrow> u32 arr \<Rightarrow> u32 \<Rightarrow> nat \<Rightarrow> u32 arr \<times> u64 \<Rightarrow> (u32 arr \<times> u64) cm" where
  "mm_outer n x y m m0i u = (\<lambda>(d, dh). do {
     xu \<leftarrow> ld x (u + 1); d1 \<leftarrow> ld d 1; y1 \<leftarrow> ld y 1;
     mm_round n y m xu (MUL31_lo (d1 + MUL31_lo xu y1) m0i) (d, dh) })"

definition mm_final :: "u32 \<Rightarrow> u32 arr \<Rightarrow> u32 arr \<times> u64 \<Rightarrow> u32 arr cm" where
  "mm_final h m = (\<lambda>(d, dh). do {
     d \<leftarrow> st d 0 h; (d, c) \<leftarrow> br_i31_sub d m 0;
     (d, c) \<leftarrow> br_i31_sub d m (NEQ (ucast dh) 0 OR NOT_ctl c); ret d })"

lemma br_i31_montymul_alt:
  "br_i31_montymul d x y m m0i = do {
     m0 \<leftarrow> ld m 0;
     d \<leftarrow> br_i31_zero d m0;
     w \<leftarrow> for_loop 0 (words31 m0) (mm_outer (words31 m0) x y m m0i) (d, 0);
     mm_final m0 m w }"
  unfolding br_i31_montymul_def mm_outer_def mm_round_def mm_final_def Let_def prod.case ..

lemma ok_mm_outer:
  assumes x: "digits31 (Suc 0) n (cells x)" and y: "digits31 (Suc 0) n (cells y)" and m: "digits31 (Suc 0) n (cells m)"
    and ylt: "val31 n y < val31 n m" and inv: "(unat m0i * unat (cells m ! 1) + 1) mod B31 = 0"
    and u: "u < n" and I: "outer_inv n d x y m u w"
  shows "ok (mm_outer n x y m m0i u w) (outer_inv n d x y m (Suc u))"
proof -
  let ?M = "val31 n m"
  obtain d' dh where w: "w = (d', dh)" by (cases w)
  from I obtain F where i: "blk d' = blk d" "alen d' = alen d" "digits31 (Suc 0) n (cells d')" "\<forall>i>n. cells d' ! i = cells d ! i"
    "unat dh \<le> 1" "val31 n d' + unat dh * B31 ^ n < 2 * ?M"
    "(val31 n d' + unat dh * B31 ^ n) * B31 ^ u = val31 u x * val31 n y + F * ?M"
    by (auto simp: outer_inv_def w)
  define xu where "xu = cells x ! Suc u"
  define f where "f = MUL31_lo (cells d' ! 1 + MUL31_lo xu (cells y ! 1)) m0i"
  have xu: "unat xu < B31" using digits31_1 [OF x, of "Suc u"] u by (simp add: xu_def)
  have ff: "unat f < B31" "(unat (cells d' ! 1) + unat xu * unat (cells y ! 1) + unat f * unat (cells m ! 1)) mod B31 = 0"
    using mm_f [OF digits31_1 [OF i(3), of 1] inv f_def] u by simp_all
  have lens: "Suc u < alen x" "1 < alen d'" "1 < alen y"
    using digits31_len [OF x] digits31_len [OF i(3)] digits31_len [OF y] u by auto
  have "ok (mm_round n y m xu f (d', dh)) (outer_inv n d x y m (Suc u))"
  proof (rule ok_mm_round [OF _ i(3) y m xu ff(1) i(5) ff(2)])
    fix e :: "u32 arr" and eh :: u64
    assume e: "blk e = blk d'" "alen e = alen d'" "digits31 (Suc 0) n (cells e)" "\<forall>i>n. cells e ! i = cells d' ! i"
      and eq: "B31 * (val31 n e + unat eh * B31 ^ n)
        = val31 n d' + unat dh * B31 ^ n + unat xu * val31 n y + unat f * ?M"
    note st = outer_step [OF i(7) eq xu ff(1) i(6) ylt]
    have "unat eh * B31 ^ n < 2 * B31 ^ n" using st(2) wsum_lt [OF m] by linarith
    then have "unat eh \<le> 1" by simp
    moreover have "val31 (Suc u) x = val31 u x + unat xu * B31 ^ u" by (simp add: wsum_Suc xu_def)
    ultimately show "outer_inv n d x y m (Suc u) (e, eh)"
      using e i(1,2,4) st by (auto simp: outer_inv_def intro!: exI [of _ "F + unat f * B31 ^ u"])
  qed (use u in simp)
  then show ?thesis
    unfolding mm_outer_def w prod.case using lens by (intro ok_bind ok_ld) (simp_all add: f_def xu_def)
qed

lemma ok_mm_subtract:
  assumes len: "words63 (cells e ! 0) = Suc n" and e: "digits31 (Suc 0) n (cells e)" and m: "digits31 (Suc 0) n (cells m)"
    and dh: "unat dh \<le> 1" and lt2: "val31 n e + unat dh * B31 ^ n < 2 * val31 n m"
    and Q: "\<And>a. frame31 n e a \<Longrightarrow> digits31 (Suc 0) n (cells a) \<Longrightarrow> val31 n a < val31 n m \<Longrightarrow>
      val31 n a = val31 n e + unat dh * B31 ^ n \<or> val31 n a + val31 n m = val31 n e + unat dh * B31 ^ n \<Longrightarrow> Q a"
  shows "ok (do { (d, c) \<leftarrow> br_i31_sub e m 0; (d, c) \<leftarrow> br_i31_sub d m (NEQ (ucast (dh :: u64)) 0 OR NOT_ctl c); ret d }) Q"
proof -
  let ?M = "val31 n m"
  have dh01: "dh = 0 \<or> dh = 1"
    using dh by (metis One_nat_def le_Suc_eq le_zero_eq unat_eq_zero unsigned_1 word_unat_eq_iff)
  define ge where "ge = (dh \<noteq> 0 \<or> \<not> val31 n e < ?M)"
  have ctl: "NEQ (ucast dh) 0 OR NOT_ctl (of_bool (val31 n e < ?M)) = of_bool ge"
    using dh01 by (auto simp: ge_def)
  have second: "ok (do { (d, c) \<leftarrow> br_i31_sub e m (of_bool ge); ret d }) Q"
  proof (rule ok_bind, rule ok_br_i31_sub [OF len e m])
    fix a cc assume a: "frame31 n e a" "digits31 (Suc 0) n (cells a)" "cc = of_bool (val31 n e < ?M)"
      "ge \<Longrightarrow> val31 n a + ?M = val31 n e + unat cc * B31 ^ n" "\<not> ge \<Longrightarrow> a = e"
    have lt: "val31 n a < B31 ^ n" "val31 n e < B31 ^ n" "?M < B31 ^ n"
      using a(2) e m by (auto intro: wsum_lt)
    have "val31 n a < ?M \<and> (val31 n a = val31 n e + unat dh * B31 ^ n \<or> val31 n a + ?M = val31 n e + unat dh * B31 ^ n)"
    proof (cases ge)
      case True
      with a(4) have v: "val31 n a + ?M = val31 n e + unat cc * B31 ^ n" by simp
      have "cc = of_bool (dh = 1)"
        using True dh01 lt2 lt(3) a(3) by (auto simp: ge_def)
      then have "unat cc = unat dh" using dh01 by auto
      with v lt2 show ?thesis by (simp del: of_bool_eq)
    next
      case False
      with a(5) show ?thesis by (simp add: ge_def)
    qed
    then show "ok (case (a, cc) of (d, c) \<Rightarrow> ret d) Q" using a by (auto intro!: ok_ret Q)
  qed
  show ?thesis
  proof (rule ok_bind, rule ok_br_i31_sub [OF len e m, where c = False, unfolded of_bool_eq])
    fix a and cc :: u32 assume "cc = of_bool (val31 n e < ?M)" "\<not> False \<Longrightarrow> a = e"
    then have "cc = of_bool (val31 n e < ?M)" "a = e" by simp_all
    then show "ok (case (a, cc) of (d, c) \<Rightarrow> do { (d, c) \<leftarrow> br_i31_sub d m (NEQ (ucast dh) 0 OR NOT_ctl c); ret d }) Q"
      using second by (simp only: prod.case ctl)
  qed
qed

lemma ok_br_i31_montymul:
  assumes m: "is_i31 h n m" and x: "digits31 (Suc 0) n (cells x)" and y: "digits31 (Suc 0) n (cells y)"
    and d: "n < alen d" and ylt: "val31 n y < val31 n m"
    and inv: "(unat m0i * unat (cells m ! 1) + 1) mod B31 = 0"
    and Q: "\<And>d'. blk d' = blk d \<Longrightarrow> alen d' = alen d \<Longrightarrow> is_i31 h n d' \<Longrightarrow> (\<forall>i>n. cells d' ! i = cells d ! i) \<Longrightarrow>
      val31 n d' < val31 n m \<Longrightarrow>
      (val31 n d' * B31 ^ n) mod val31 n m = (val31 n x * val31 n y) mod val31 n m \<Longrightarrow> Q d'"
  shows "ok (br_i31_montymul d x y m m0i) Q"
proof -
  note mD = is_i31D [OF m]
  let ?M = "val31 n m" and ?I = "outer_inv n d x y m"
  have fin: "ok (mm_final h m w) Q" if "?I n w" for w
  proof -
    obtain d' dh where w: "w = (d', dh)" by (cases w)
    from that obtain F where i: "blk d' = blk d" "alen d' = alen d" "digits31 (Suc 0) n (cells d')" "\<forall>i>n. cells d' ! i = cells d ! i"
      "unat dh \<le> 1" "val31 n d' + unat dh * B31 ^ n < 2 * ?M"
      "(val31 n d' + unat dh * B31 ^ n) * B31 ^ n = val31 n x * val31 n y + F * ?M"
      by (auto simp: outer_inv_def w)
    have l0: "0 < alen d'" using digits31_len [OF i(3)] by linarith
    let ?e = "d'\<lparr>cells := (cells d')[0 := h]\<rparr>"
    have sub: "ok (do { (d, c) \<leftarrow> br_i31_sub ?e m 0; (d, c) \<leftarrow> br_i31_sub d m (NEQ (ucast dh) 0 OR NOT_ctl c); ret d }) Q"
    proof (rule ok_mm_subtract [OF _ _ mD(4) i(5)])
      fix a assume a: "frame31 n ?e a" "digits31 (Suc 0) n (cells a)" "val31 n a < ?M"
        "val31 n a = val31 n ?e + unat dh * B31 ^ n \<or> val31 n a + ?M = val31 n ?e + unat dh * B31 ^ n"
      have "(val31 n a * B31 ^ n) mod ?M = ((val31 n d' + unat dh * B31 ^ n) * B31 ^ n) mod ?M"
      proof (rule disjE [OF a(4)])
        assume "val31 n a + ?M = val31 n ?e + unat dh * B31 ^ n"
        then have "val31 n d' + unat dh * B31 ^ n = val31 n a + ?M" by simp
        then show ?thesis by (simp only: add_mult_distrib mod_mult_self2)
      qed simp
      then show "Q a" using a(1-3) i m l0 by (intro Q) (auto simp: frame31_def is_i31_def)
    qed (use i mD l0 in simp_all)
    show ?thesis
      unfolding mm_final_def w prod.case by (rule ok_bind, rule ok_st [OF l0], rule sub)
  qed
  have lm: "0 < alen m" using mD(5) by linarith
  show ?thesis
    unfolding br_i31_montymul_alt
  proof (rule ok_bind, rule ok_ld [OF lm], unfold mD(1), rule ok_bind, rule ok_br_i31_zero, unfold mD(2))
    fix z assume z: "blk z = blk d" "alen z = alen d" "digits31 (Suc 0) n (cells z)" "val31 n z = 0"
      "\<And>i. n < i \<Longrightarrow> cells z ! i = cells d ! i"
    then have init: "?I 0 (z, 0)" using ylt by (auto simp: outer_inv_def)
    show "ok (do { w \<leftarrow> for_loop 0 n (mm_outer n x y m m0i) (z, 0); mm_final h m w }) Q"
      by (rule ok_bind, rule ok_for_loop [where Inv = ?I, OF init])
        (simp, erule (1) ok_mm_outer [OF x y mD(4) ylt inv], erule fin)
  qed (use mD(5) d in linarith)+
qed

section \<open>The trace of a product depends on the public parts only\<close>

lemma ct_mm_round:
  assumes "shape d d'" and "shape y y'" and "shape m m'" and "n < alen d" and "n < alen y" and "n < alen m"
    and R: "\<And>x x' r r'. shape x x' \<Longrightarrow> alen x = alen d \<Longrightarrow> R (x, r) (x', r')"
  shows "ct (mm_round n y m xu f (d, dh)) (mm_round n y' m' xu' f' (d', dh')) R"
proof -
  let ?I = "\<lambda>(_::nat) (x, r::u64) (x', r'::u64). shape x x' \<and> alen x = alen d"
  have step: "ct (montymul_step xu f y m v w) (montymul_step xu' f' y' m' v w') S"
    if "?I 0 w w'" "v < n" "\<And>x x'. ?I 0 x x' \<Longrightarrow> S x x'" for v w w' S
    using that assms by (cases w; cases w') (auto intro!: shape_mm_step)
  show ?thesis
    unfolding mm_round_def prod.case
  proof (rule ct_bind, rule ct_for_loop [where Inv = ?I], goal_cases)
    case (5 i w w')
    then have "4 * i + 3 < n" by linarith
    with 5 show ?case by (intro ct_bind step) auto
  next
    case (6 w w')
    from 6 show ?case
      by (intro ct_prod ct_bind, intro ct_for_loop [where Inv = ?I]) (auto intro: step, auto intro!: ctr R simp: assms)
  qed (use assms in auto)
qed

lemma ct_mm_outer:
  assumes "shape x x'" and "shape y y'" and "shape m m'" and "n < alen x" and "n < alen y" and "n < alen m"
    and "shape (fst w) (fst w')" and "n < alen (fst w)" and "u < n"
    and R: "\<And>z z'. shape (fst z) (fst z') \<Longrightarrow> alen (fst z) = alen (fst w) \<Longrightarrow> R z z'"
  shows "ct (mm_outer n x y m m0i u w) (mm_outer n x' y' m' m0i' u w') R"
  using assms unfolding mm_outer_def
  by (cases w; cases w') (auto intro!: ct_bind ct_ld ct_mm_round)

lemma ct_sub_twice:
  assumes "pub e e'" and "pub m m'" and "words63 (cells e ! 0) = Suc n" and "n < alen e" and "n < alen m"
    and R: "\<And>z z'. pub z z' \<Longrightarrow> alen z = alen e \<Longrightarrow> cells z ! 0 = cells e ! 0 \<Longrightarrow> R z z'"
  shows "ct (do { (d, c) \<leftarrow> br_i31_sub e m 0; (d, c) \<leftarrow> br_i31_sub d m (g c); ret d })
    (do { (d, c) \<leftarrow> br_i31_sub e' m' 0; (d, c) \<leftarrow> br_i31_sub d m' (g' c); ret d }) R"
  using assms by (intro ctr ct_br_i31_sub [where n = n]) auto

lemma ct_mm_final:
  assumes "pub m m'" and "words63 h = Suc n" and "n < alen m" and "shape (fst w) (fst w')" and "n < alen (fst w)"
    and R: "\<And>z z'. pub z z' \<Longrightarrow> alen z = alen (fst w) \<Longrightarrow> cells z ! 0 = h \<Longrightarrow> R z z'"
  shows "ct (mm_final h m w) (mm_final h m' w') R"
proof -
  obtain d dh where w: "w = (d, dh)" by (cases w)
  obtain d' dh' where w': "w' = (d', dh')" by (cases w')
  have l: "0 < alen d" "0 < alen d'" using assms(4,5) by (auto simp: w w' shape_def)
  have sh: "shape d d'" using assms(4) by (simp add: w w')
  have p: "pub (d\<lparr>cells := (cells d)[0 := h]\<rparr>) (d'\<lparr>cells := (cells d')[0 := h]\<rparr>)"
    using sh l by (simp add: pub_def shape_def)
  show ?thesis
    unfolding mm_final_def w w' prod.case
    by (rule ct_bind, rule ct_st [OF sh refl l(1)], rule ct_sub_twice [OF p assms(1), where n = n])
      (use assms l in \<open>simp_all add: w\<close>)
qed

lemma ct_br_i31_montymul:
  assumes m: "pub m m'" and "hdr31 (cells m ! 0) n" and "n < alen m"
    and "shape d d'" and "shape x x'" and "shape y y'" and "n < alen d" and "n < alen x" and "n < alen y"
    and R: "\<And>z z'. pub z z' \<Longrightarrow> alen z = alen d \<Longrightarrow> cells z ! 0 = cells m ! 0 \<Longrightarrow> R z z'"
  shows "ct (br_i31_montymul d x y m m0i) (br_i31_montymul d' x' y' m' m0i') R"
proof -
  let ?h = "cells m ! 0"
  let ?I = "\<lambda>(_::nat) (w :: u32 arr \<times> u64) (w' :: u32 arr \<times> u64). shape (fst w) (fst w') \<and> alen (fst w) = alen d"
  have h: "words31 ?h = n" "words63 ?h = Suc n" using assms(2) by (simp_all add: hdr31D)
  have l: "0 < alen m" using assms(3) by linarith
  have main: "ct (do { w \<leftarrow> for_loop 0 n (mm_outer n x y m m0i) (z, 0); mm_final ?h m w })
    (do { w \<leftarrow> for_loop 0 n (mm_outer n x' y' m' m0i') (z', 0); mm_final ?h m' w }) R"
    if "pub z z'" "alen z = alen d" for z z'
    using that assms h
    by (intro ct_bind ct_for_loop [where Inv = ?I]) (auto simp: pub_def intro!: ct_mm_outer ct_mm_final [where n = n] R)
  show ?thesis
    unfolding br_i31_montymul_alt
    by (rule ct_bind, rule ct_ld [OF pubD(1) [OF m] refl l], unfold pubD(2) [OF m] h, rule ct_bind,
        rule ct_br_i31_zero) (use assms(4,7) h in \<open>simp_all add: main\<close>)
qed

section \<open>From Montgomery representation\<close>

definition fm_step :: "u32 \<Rightarrow> u32 arr \<Rightarrow> nat \<Rightarrow> u32 arr \<times> u64 \<Rightarrow> (u32 arr \<times> u64) cm" where
  "fm_step f m v = (\<lambda>(x, cc). do {
     xv \<leftarrow> ld x (v + 1);
     mv \<leftarrow> ld m (v + 1);
     let z = ucast xv + MUL31 f mv + cc;
     let cc = shr z 31;
     x \<leftarrow> branch (v \<noteq> 0) (st x v (ucast z AND 0x7FFFFFFF)) (ret x);
     ret (x, cc) })"

definition fm_round :: "nat \<Rightarrow> u32 arr \<Rightarrow> u32 \<Rightarrow> nat \<Rightarrow> u32 arr \<Rightarrow> u32 arr cm" where
  "fm_round len m m0i u x = do {
     x1 \<leftarrow> ld x 1;
     (x, cc) \<leftarrow> for_loop 0 len (fm_step (MUL31_lo x1 m0i) m) (x, 0);
     st x len (ucast cc) }"

lemma br_i31_from_monty_alt:
  "br_i31_from_monty x m m0i = do {
     m0 \<leftarrow> ld m 0;
     x \<leftarrow> for_loop 0 (words31 m0) (fm_round (words31 m0) m m0i) x;
     (x, c) \<leftarrow> br_i31_sub x m 0;
     (x, c) \<leftarrow> br_i31_sub x m (NOT_ctl c);
     ret x }"
  unfolding br_i31_from_monty_def fm_round_def fm_step_def Let_def prod.case ..

definition fm_inv :: "nat \<Rightarrow> u32 arr \<Rightarrow> u32 arr \<Rightarrow> u32 \<Rightarrow> nat \<Rightarrow> u32 arr \<times> u64 \<Rightarrow> bool" where
  "fm_inv n x m f v w \<longleftrightarrow> (case w of (x', cc) \<Rightarrow>
     frame31 (v - 1) x x' \<and> digits31 (Suc 0) n (cells x') \<and> unat cc \<le> B31 \<and>
     B31 * i31v (v - 1) (cells x') + unat cc * B31 ^ v = i31v v (cells x) + unat f * i31v v (cells m))"

lemma fm_word:
  assumes "unat (xv :: u32) < B31" and "unat (f :: u32) < B31" and "unat (mv :: u32) < B31" and "unat cc \<le> B31"
  shows "unat (ucast xv + MUL31 f mv + cc) = unat xv + unat f * unat mv + unat cc"
    and "(unat xv + unat f * unat mv + unat cc) div B31 \<le> B31"
proof -
  have "unat f * unat mv \<le> 2147483647 * 2147483647"
    using assms by (intro mult_le_mono; simp)
  then show "unat (ucast xv + MUL31 f mv + cc) = unat xv + unat f * unat mv + unat cc"
    and "(unat xv + unat f * unat mv + unat cc) div B31 \<le> B31"
    using assms by (simp_all add: unat_word_ariths unat_MUL31)
qed

lemma ok_fm_step:
  assumes inv: "fm_inv n x m f v w" and v: "v < n"
    and x: "digits31 (Suc 0) n (cells x)" and m: "digits31 (Suc 0) n (cells m)" and f: "unat f < B31"
    and low: "(unat (cells x ! 1) + unat f * unat (cells m ! 1)) mod B31 = 0"
  shows "ok (fm_step f m v w) (fm_inv n x m f (Suc v))"
proof -
  obtain x' cc where w: "w = (x', cc)" by (cases w)
  from inv have i: "frame31 (v - 1) x x'" "digits31 (Suc 0) n (cells x')" "unat cc \<le> B31"
    "B31 * i31v (v - 1) (cells x') + unat cc * B31 ^ v = i31v v (cells x) + unat f * i31v v (cells m)"
    by (auto simp: fm_inv_def w)
  have lens: "Suc v < alen x'" "Suc v < alen m" using v digits31_len [OF i(2)] digits31_len [OF m] by auto
  have xv: "cells x' ! Suc v = cells x ! Suc v" using i(1) by (simp add: frame31_def)
  have ub: "unat (cells x ! Suc v) < B31" "unat (cells m ! Suc v) < B31"
    using v by (auto intro: digits31_1 [OF x] digits31_1 [OF m])
  define z where "z = ucast (cells x ! Suc v) + MUL31 f (cells m ! Suc v) + cc"
  note zz = fm_word [OF ub(1) f ub(2) i(3), folded z_def]
  define p q where pq: "p = unat z mod B31" "q = unat z div B31"
  have zpq: "p + B31 * q = unat (cells x ! Suc v) + unat f * unat (cells m ! Suc v) + unat cc"
    unfolding zz(1) [symmetric] by (simp add: pq)
  have q: "unat (shr z 31) = q" "q \<le> B31" using zz by (simp_all add: pq unat_drop_bit)
  have sum: "B31 * i31v (v - 1) (cells x') + p * B31 ^ v + q * B31 ^ Suc v
      = i31v (Suc v) (cells x) + unat f * i31v (Suc v) (cells m)"
    using i(4) arg_cong [OF zpq, of "\<lambda>t. t * B31 ^ v"] by (simp add: wsum_Suc algebra_simps)
  show ?thesis
  proof (cases v)
    case 0
    have "cc = 0" using i(4) by (simp add: 0 unat_eq_zero)
    then have "p = 0" using low by (simp add: pq zz(1) 0)
    then have "fm_inv n x m f (Suc v) (x', shr z 31)"
      using i q sum by (simp add: fm_inv_def 0 unat_eq_zero)
    then show ?thesis
      unfolding fm_step_def w prod.case using lens 0 xv by (intro wp) (auto simp: z_def)
  next
    case (Suc k)
    let ?x = "x'\<lparr>cells := (cells x')[v := ucast z AND 0x7FFFFFFF]\<rparr>"
    have "i31v v (cells ?x) = i31v k (cells x') + p * B31 ^ k"
      using lens by (simp add: Suc unat_ucast_and31 pq)
    then have "B31 * i31v v (cells ?x) + q * B31 ^ Suc v = i31v (Suc v) (cells x) + unat f * i31v (Suc v) (cells m)"
      unfolding sum [symmetric] by (simp add: Suc algebra_simps)
    moreover have "frame31 v x ?x"
      using i(1) by (intro frame31_update) (auto simp: Suc elim: frame31_mono)
    ultimately have "fm_inv n x m f (Suc v) (?x, shr z 31)"
      using i q by (simp add: fm_inv_def digits31_update unat_ucast_and31)
    then show ?thesis
      unfolding fm_step_def w prod.case using lens Suc xv by (intro wp) (auto simp: z_def)
  qed
qed

lemma ok_fm_round:
  assumes n: "0 < n" and x: "digits31 (Suc 0) n (cells x)" and m: "digits31 (Suc 0) n (cells m)"
    and inv: "(unat m0i * unat (cells m ! 1) + 1) mod B31 = 0" and lt: "val31 n x < val31 n m"
    and Q: "\<And>x' F. frame31 n x x' \<Longrightarrow> digits31 (Suc 0) n (cells x') \<Longrightarrow> val31 n x' < val31 n m \<Longrightarrow>
      B31 * val31 n x' = val31 n x + F * val31 n m \<Longrightarrow> Q x'"
  shows "ok (fm_round n m m0i u x) Q"
proof -
  obtain k where k: "n = Suc k" using n by (cases n) auto
  define f where "f = MUL31_lo (cells x ! 1) m0i"
  have "f = MUL31_lo (cells x ! 1 + MUL31_lo 0 0) m0i" by (simp add: f_def MUL31_lo_def)
  from mm_f [OF digits31_1 [OF x, of 1] inv this] n
  have f: "unat f < B31" "(unat (cells x ! 1) + unat f * unat (cells m ! 1)) mod B31 = 0" by simp_all
  have fin: "ok (case w of (x, cc) \<Rightarrow> st x n (ucast cc)) Q" if "fm_inv n x m f n w" for w
  proof -
    obtain x' cc where w: "w = (x', cc)" by (cases w)
    from that have i: "frame31 k x x'" "digits31 (Suc 0) n (cells x')" "unat cc \<le> B31"
      "B31 * i31v k (cells x') + unat cc * B31 ^ n = val31 n x + unat f * val31 n m" by (auto simp: fm_inv_def w k)
    have "unat f * val31 n m \<le> 2147483647 * val31 n m" using f(1) by (intro mult_le_mono1) simp
    then have lt': "B31 * i31v k (cells x') + unat cc * B31 ^ n < B31 * val31 n m" unfolding i(4) using lt by linarith
    then have "unat cc * B31 ^ n < B31 * B31 ^ n" using wsum_lt [OF m] by linarith
    then have cc: "unat cc < B31" by simp
    then have u: "unat (ucast cc :: u32) = unat cc" by (simp add: unsigned_ucast_eq take_bit_eq_mod)
    let ?x = "x'\<lparr>cells := (cells x')[n := ucast cc]\<rparr>"
    have l: "n < alen x'" using digits31_len [OF i(2)] by simp
    have v: "B31 * val31 n ?x = B31 * i31v k (cells x') + unat cc * B31 ^ n"
      using l by (simp add: k u)
    have "frame31 n x ?x" using i(1) by (intro frame31_update) (auto simp: k elim: frame31_mono)
    moreover have "digits31 (Suc 0) n (cells ?x)" using i(2) cc u by (simp add: digits31_update)
    moreover have "val31 n ?x < val31 n m" using lt' unfolding v [symmetric] by simp
    ultimately have "Q ?x" using v i(4) by (intro Q [of _ "unat f"]) simp_all
    then show ?thesis unfolding w prod.case using l by (intro wp)
  qed
  have init: "fm_inv n x m f 0 (x, 0)" using x by (simp add: fm_inv_def)
  have l: "1 < alen x" using digits31_len [OF x] n by linarith
  show ?thesis
    unfolding fm_round_def
    by (rule ok_bind, rule ok_ld [OF l], unfold f_def [symmetric], rule ok_bind,
      rule ok_for_loop [where Inv = "fm_inv n x m f", OF init])
      (simp, erule (1) ok_fm_step [OF _ _ x m f], erule fin)
qed

lemma ok_br_i31_from_monty:
  assumes m: "is_i31 h n m" and x: "is_i31 h n x" and n: "0 < n"
    and inv: "(unat m0i * unat (cells m ! 1) + 1) mod B31 = 0" and lt: "val31 n x < val31 n m"
    and Q: "\<And>x'. frame31 n x x' \<Longrightarrow> digits31 (Suc 0) n (cells x') \<Longrightarrow> val31 n x' < val31 n m \<Longrightarrow>
      (val31 n x' * B31 ^ n) mod val31 n m = val31 n x \<Longrightarrow> Q x'"
  shows "ok (br_i31_from_monty x m m0i) Q"
proof -
  note mD = is_i31D [OF m] and xD = is_i31D [OF x]
  let ?M = "val31 n m"
  let ?I = "\<lambda>u x'. frame31 n x x' \<and> digits31 (Suc 0) n (cells x') \<and> val31 n x' < ?M \<and>
    (\<exists>F. B31 ^ u * val31 n x' = val31 n x + F * ?M)"
  have round: "ok (fm_round n m m0i u x') (?I (Suc u))" if i: "?I u x'" for u x'
  proof -
    from i obtain F where F: "B31 ^ u * val31 n x' = val31 n x + F * ?M" by blast
    show ?thesis
    proof (rule ok_fm_round [OF n _ mD(4) inv])
      fix a G assume a: "frame31 n x' a" "digits31 (Suc 0) n (cells a)" "val31 n a < ?M"
        "B31 * val31 n a = val31 n x' + G * ?M"
      have "B31 ^ Suc u * val31 n a = B31 ^ u * (B31 * val31 n a)" by simp
      also have "\<dots> = val31 n x + (F + B31 ^ u * G) * ?M" unfolding a(4) using F by (simp add: algebra_simps)
      finally show "?I (Suc u) a" using a i frame31_trans by blast
    qed (use i in simp_all)
  qed
  have fin: "ok (do { (x, c) \<leftarrow> br_i31_sub x' m 0; (x, c) \<leftarrow> br_i31_sub x m (NOT_ctl c); ret x }) Q" if i: "?I n x'" for x'
  proof -
    from i obtain F where F: "B31 ^ n * val31 n x' = val31 n x + F * ?M" by blast
    have "ok (do { (d, c) \<leftarrow> br_i31_sub x' m 0; (d, c) \<leftarrow> br_i31_sub d m (NEQ (ucast (0::u64)) 0 OR NOT_ctl c); ret d }) Q"
    proof (rule ok_mm_subtract [OF _ _ mD(4)])
      fix a assume a: "frame31 n x' a" "digits31 (Suc 0) n (cells a)" "val31 n a < ?M"
        "val31 n a = val31 n x' + unat (0::u64) * B31 ^ n \<or> val31 n a + ?M = val31 n x' + unat (0::u64) * B31 ^ n"
      then have "val31 n a = val31 n x'" using i by auto
      then have "(val31 n a * B31 ^ n) mod ?M = val31 n x" using F lt by (simp add: mult.commute)
      then show "Q a" using a i frame31_trans by (intro Q) auto
    qed (use i mD xD frame31_head [of n x x'] in auto)
    then show ?thesis by simp
  qed
  have l: "0 < alen m" using mD(5) by linarith
  have init: "?I 0 x" using xD lt by (auto intro: exI [of _ 0])
  show ?thesis
    unfolding br_i31_from_monty_alt
    by (rule ok_bind, rule ok_ld [OF l], unfold mD(1,2), rule ok_bind,
      rule ok_for_loop [where Inv = ?I, OF init]) (simp, rule round, assumption, erule fin)
qed

lemma ct_br_i31_from_monty:
  assumes m: "pub m m'" and "hdr31 (cells m ! 0) n" and "n < alen m"
    and x: "pub x x'" and "cells x ! 0 = cells m ! 0" and "n < alen x"
    and R: "\<And>z z'. pub z z' \<Longrightarrow> alen z = alen x \<Longrightarrow> cells z ! 0 = cells m ! 0 \<Longrightarrow> R z z'"
  shows "ct (br_i31_from_monty x m m0i) (br_i31_from_monty x' m' m0i') R"
proof -
  have h: "words31 (cells m ! 0) = n" "words63 (cells m ! 0) = Suc n" using assms(2) by (simp_all add: hdr31D)
  have l: "0 < alen m" using assms(3) by linarith
  let ?I = "\<lambda>(_::nat) z z'. pub z z' \<and> alen z = alen x \<and> cells z ! 0 = cells m ! 0"
  have round: "ct (fm_round n m m0i u z) (fm_round n m' m0i' u z') (?I v)" if "?I u z z'" "u < n" for u v z z'
    unfolding fm_round_def fm_step_def using that assms
    by (intro ctr ct_for_loop [where Inv = "\<lambda>v (z, c) (z', c'). ?I v z z'"]) (auto simp: pub_def shape_def split: prod.splits)
  have fin: "ct (do { (x, c) \<leftarrow> br_i31_sub z m 0; (x, c) \<leftarrow> br_i31_sub x m (NOT_ctl c); ret x })
    (do { (x, c) \<leftarrow> br_i31_sub z' m' 0; (x, c) \<leftarrow> br_i31_sub x m' (NOT_ctl c); ret x }) R" if "?I n z z'" for z z'
    using that assms h by (intro ct_sub_twice [where n = n]) auto
  show ?thesis
    unfolding br_i31_from_monty_alt
    by (rule ct_bind, rule ct_ld [OF pubD(1) [OF m] refl l], unfold pubD(2) [OF m] h, rule ct_bind,
      rule ct_for_loop [where Inv = ?I]) (use assms in \<open>auto intro: round fin\<close>)
qed

end
