(* ===== verification/I31_Muladd.thy ===== *)
theory I31_Muladd
  imports I31_Mont
begin

text \<open>
  Modular reduction: \<^verbatim>\<open>src/int/i31_muladd.c\<close>, \<^verbatim>\<open>i31_tmont.c\<close>, \<^verbatim>\<open>i31_reduce.c\<close>.
  \<open>br_i31_muladd_small x z m\<close> replaces \<open>x\<close> by \<open>(x * 2^31 + z) mod m\<close>; it estimates the quotient
  by a division of the two top words of the dividend by the top word of the modulus, and then
  corrects the remainder by at most one addition or subtraction of the modulus.
\<close>

section \<open>Operations\<close>

text \<open>The window of 31 bits whose lowest bit is bit \<open>r\<close> of the word \<open>i - 1\<close>.\<close>

definition window31 :: "u32 arr \<Rightarrow> nat \<Rightarrow> nat \<Rightarrow> u32 cm" where
  "window31 x i r = do {
     w1 \<leftarrow> ld x i;
     w0 \<leftarrow> ld x (i - 1);
     ret ((shl w1 (31 - r) OR shr w0 r) AND 0x7FFFFFFF) }"

text \<open>The loop that subtracts \<open>q * m\<close> from \<open>x\<close>; \<open>cc\<close> is the word carried out at the top, and \<open>tb\<close>
  tells whether what is left in \<open>x\<close> is at least \<open>m\<close>.\<close>

definition muladd_sub :: "u32 \<Rightarrow> u32 arr \<Rightarrow> nat \<Rightarrow> u32 arr \<times> u32 \<times> u32 \<Rightarrow> (u32 arr \<times> u32 \<times> u32) cm" where
  "muladd_sub q m u = (\<lambda>(x, cc, tb). do {
     mw \<leftarrow> ld m u;
     let zl = MUL31 mw q + ucast cc;
     let cc = ucast (shr zl 31);
     let zw = ucast zl AND 0x7FFFFFFF;
     xw \<leftarrow> ld x u;
     let nxw = xw - zw;
     let cc = cc + shr nxw 31;
     let nxw = nxw AND 0x7FFFFFFF;
     x \<leftarrow> st x u nxw;
     ret (x, cc, MUX (EQ nxw mw) tb (GT nxw mw)) })"

definition br_i31_muladd_small :: "u32 arr \<Rightarrow> u32 \<Rightarrow> u32 arr \<Rightarrow> u32 arr cm" where
  "br_i31_muladd_small x z m = do {
     m_bitlen \<leftarrow> ld m 0;
     branch (m_bitlen = 0) (ret x) (
     branch (m_bitlen \<le> 31) (do {
       x1 \<leftarrow> ld x 1;
       let hi = shr x1 1;
       let lo = shl x1 31 OR z;
       m1 \<leftarrow> ld m 1;
       st x 1 (br_rem hi lo m1) })
     (do {
       let mlen = words31 m_bitlen;
       let mblr = unat (m_bitlen AND 31);
       hi \<leftarrow> ld x mlen;
       (x, a0, a1, b0) \<leftarrow> branch (mblr = 0)
         (do {
           a0 \<leftarrow> ld x mlen;
           x \<leftarrow> memmove x 2 x 1 (mlen - 1);
           x \<leftarrow> st x 1 z;
           a1 \<leftarrow> ld x mlen;
           b0 \<leftarrow> ld m mlen;
           ret (x, a0, a1, b0) })
         (do {
           a0 \<leftarrow> window31 x mlen mblr;
           x \<leftarrow> memmove x 2 x 1 (mlen - 1);
           x \<leftarrow> st x 1 z;
           a1 \<leftarrow> window31 x mlen mblr;
           b0 \<leftarrow> window31 m mlen mblr;
           ret (x, a0, a1, b0) });
       let g = br_div (shr a0 1) (a1 OR shl a0 31) b0;
       let q = MUX (EQ a0 b0) 0x7FFFFFFF (MUX (EQ g 0) 0 (g - 1));
       (x, cc, tb) \<leftarrow> for_loop 1 (Suc mlen) (muladd_sub q m) (x, 0, 1);
       let ovr = GT cc hi;
       let under = NOT ovr AND (tb OR LT cc hi);
       (x, c) \<leftarrow> br_i31_add x m ovr;
       (x, c) \<leftarrow> br_i31_sub x m under;
       ret x })) }"

definition br_i31_to_monty :: "u32 arr \<Rightarrow> u32 arr \<Rightarrow> u32 arr cm" where
  "br_i31_to_monty x m = do {
     m0 \<leftarrow> ld m 0;
     for_down (words31 m0) (\<lambda>k x. br_i31_muladd_small x 0 m) x }"

definition br_i31_reduce :: "u32 arr \<Rightarrow> u32 arr \<Rightarrow> u32 arr \<Rightarrow> u32 arr cm" where
  "br_i31_reduce x a m = do {
     m_bitlen \<leftarrow> ld m 0;
     let mlen = words31 m_bitlen;
     x \<leftarrow> st x 0 m_bitlen;
     branch (m_bitlen = 0) (ret x) (do {
       a_bitlen \<leftarrow> ld a 0;
       let alen = words31 a_bitlen;
       branch (a_bitlen < m_bitlen)
         (do {
           x \<leftarrow> memcpy x 1 a 1 alen;
           for_loop alen mlen (\<lambda>u x. st x (u + 1) 0) x })
         (do {
           x \<leftarrow> memcpy x 1 a (2 + (alen - mlen)) (mlen - 1);
           x \<leftarrow> st x mlen 0;
           for_down (1 + alen - mlen) (\<lambda>u x. do {
             au \<leftarrow> ld a (Suc u);
             br_i31_muladd_small x au m }) x }) }) }"

section \<open>The quotient estimate\<close>

text \<open>The number of bits that a header announces.\<close>

definition bits31 :: "u32 \<Rightarrow> nat" where
  "bits31 h = 31 * (unat h div 32) + unat h mod 32"

lemma quotient_upper:
  fixes a m :: nat
  assumes "0 < m div P" and "0 < P"
  shows "a div m \<le> a div P div (m div P)"
proof -
  have "a div m * (m div P) * P \<le> a div m * m" by (simp add: mult.assoc)
  also have "\<dots> \<le> a" by simp
  finally have "a div m * (m div P) \<le> a div P" using assms(2) by (simp add: less_eq_div_iff_mult_less_eq)
  then show ?thesis using assms(1) by (simp add: less_eq_div_iff_mult_less_eq)
qed

lemma quotient_lower:
  fixes a m :: nat
  assumes b0: "W \<le> 2 * (m div P)" and a: "a < W * m" and P: "0 < P" and W: "0 < W"
  shows "a div P div (m div P) \<le> a div m + 2"
proof -
  let ?b = "m div P" and ?q = "a div m" and ?u = "a div P div (m div P)"
  have b: "0 < ?b" using b0 W by linarith
  have m: "0 < m" using b by (cases m) auto
  have q: "?q < W" using a by (simp add: less_mult_imp_div_less)
  have "?u * ?b * P \<le> a"
    by (metis P div_times_less_eq_dividend less_eq_div_iff_mult_less_eq)
  also have "a < Suc ?q * m" using dividend_less_div_times [OF m, of a] by simp
  also have "\<dots> < Suc ?q * (Suc ?b * P)"
    using dividend_less_div_times [OF P, of m] by (intro mult_less_mono2) (simp_all add: add.commute)
  finally have "?u * ?b < Suc ?q * Suc ?b" by (metis mult.assoc mult_less_cancel2)
  also have "\<dots> = Suc ?q * ?b + Suc ?q" by simp
  also have "\<dots> \<le> Suc ?q * ?b + 2 * ?b" using q b0 by linarith
  finally have "?u * ?b < (?q + 3) * ?b" by (simp add: algebra_simps)
  then show ?thesis by (simp only: mult_less_cancel2) simp
qed

text \<open>With the corrections of the source, the estimate is off by at most one.\<close>

lemma estimate:
  fixes a m P :: nat
  defines "a0 \<equiv> a div P div B31" and "b0 \<equiv> m div P"
  defines "g \<equiv> a div P div b0"
  defines "q \<equiv> if a0 = b0 then B31 - 1 else if g = 0 then 0 else g - 1"
  assumes b0: "B31 \<le> 2 * b0" and a: "a < B31 * m" and P: "0 < P"
  shows "q < B31" and "q * m \<le> a + m" and "a < q * m + 2 * m"
proof -
  have bp: "0 < b0" using b0 by linarith
  have m: "0 < m" using bp unfolding b0_def by (cases m) auto
  have Q: "a div m < B31" using a by (simp add: less_mult_imp_div_less)
  have up: "a div m \<le> g" unfolding g_def b0_def using quotient_upper [of m P a] bp P b0_def by simp
  have lo: "g \<le> a div m + 2" unfolding g_def b0_def using quotient_lower [of B31 m P a] b0 a P b0_def by simp
  have "a div P div B31 \<le> b0"
  proof -
    have "a div B31 div P \<le> m div P" using a by (intro div_le_mono) (simp add: less_mult_imp_div_less less_imp_le mult.commute)
    then show ?thesis by (simp add: b0_def div_mult2_eq [symmetric] mult.commute)
  qed
  then have le: "a0 \<le> b0" by (simp add: a0_def)
  have "a0 \<noteq> b0 \<Longrightarrow> g < B31"
  proof -
    assume "a0 \<noteq> b0"
    with le have "a div P < b0 * B31" unfolding a0_def using div_less_iff_less_mult [of B31 "a div P" b0] by simp
    then show ?thesis unfolding g_def by (simp add: less_mult_imp_div_less mult.commute)
  qed
  moreover have "a0 = b0 \<Longrightarrow> B31 \<le> g"
    unfolding g_def using bp by (simp add: a0_def less_eq_div_iff_mult_less_eq)
  ultimately have "q < B31" and c: "q \<le> a div m + 1" "a div m \<le> q + 1"
    using up lo Q by (auto simp: q_def split: if_splits)
  then show "q < B31" by simp
  have "q * m \<le> (a div m + 1) * m" using c(1) by (rule mult_le_mono1)
  also have "\<dots> \<le> a + m" by simp
  finally show "q * m \<le> a + m" .
  have "a < (a div m + 1) * m" using dividend_less_div_times [OF m, of a] by (simp add: algebra_simps)
  also have "\<dots> \<le> (q + 2) * m" using c(2) by (intro mult_le_mono1) simp
  finally show "a < q * m + 2 * m" by (simp add: algebra_simps)
qed


section \<open>Top windows\<close>

lemma wsum_div:
  assumes "digits31 off (k + j) xs"
  shows "wsum off (k + j) xs div B31 ^ k = wsum (off + k) j xs"
proof -
  have "wsum off k xs < B31 ^ k" using assms by (auto intro!: wsum_lt elim!: digits31_prefix)
  then show ?thesis by (simp add: wsum_split)
qed

lemma power31: "2 ^ (31 * k + r) = B31 ^ k * 2 ^ r"
  by (simp add: power_add power_mult)

lemma window_word:
  fixes w0 w1 :: u32
  assumes w0: "unat w0 < B31" and w1: "unat w1 < B31" and r: "0 < r" "r \<le> 31"
  shows "unat ((shl w1 (31 - r) OR shr w0 r) AND 0x7FFFFFFF) = (unat w0 + B31 * unat w1) div 2 ^ r mod B31"
proof -
  obtain j where j: "31 - r = j" "r + j = 31" using r by simp
  have p: "B31 = 2 ^ r * 2 ^ j" unfolding power_add [symmetric] j(2) by simp
  have p2: "(4294967296 :: nat) = 2 ^ j * 2 ^ (Suc r)" using p by (simp add: mult.commute)
  have "unat w0 < 2 ^ j * 2 ^ r" using w0 unfolding p by (simp only: mult.commute)
  then have lt: "unat (shr w0 r) < 2 ^ j" by (simp add: unat_drop_bit less_mult_imp_div_less)
  have sh: "unat (shl w1 j) = 2 ^ j * (unat w1 mod 2 ^ Suc r)"
    unfolding unat_shl32 p2 by (simp only: mult_mod_right mult.commute)
  then have "2 ^ j dvd unat (shl w1 j)" by simp
  from or_disjoint(2) [OF this lt]
  have "unat (shl w1 j OR shr w0 r) = unat w1 * 2 ^ j mod 4294967296 + unat w0 div 2 ^ r"
    by (simp only: unat_shl32 unat_drop_bit)
  moreover have "(unat w0 + B31 * unat w1) div 2 ^ r = unat w0 div 2 ^ r + unat w1 * 2 ^ j"
  proof -
    have h: "unat w0 + B31 * unat w1 = unat w0 + 2 ^ r * (unat w1 * 2 ^ j)" unfolding p by (simp only: ac_simps)
    show ?thesis unfolding h by simp
  qed
  moreover have "(unat w1 * 2 ^ j mod 4294967296 + unat w0 div 2 ^ r) mod B31 = (unat w0 div 2 ^ r + unat w1 * 2 ^ j) mod B31"
  proof -
    have "(y mod 4294967296 + x) mod B31 = (x + y) mod B31" for x y :: nat
    proof -
      have "y mod 4294967296 mod B31 = y mod B31" by (rule mod_mod_cancel) simp
      then show ?thesis by (metis add.commute mod_add_left_eq)
    qed
    then show ?thesis .
  qed
  ultimately show ?thesis unfolding unat_and31 j(1) by simp
qed

lemma ok_window31:
  assumes x: "digits31 (Suc 0) n (cells x)" and n: "2 \<le> n" and r: "0 < r" "r \<le> 31"
    and Q: "\<And>w. unat w = (val31 n x div 2 ^ (31 * (n - 2) + r)) mod B31 \<Longrightarrow> Q w"
  shows "ok (window31 x n r) Q"
proof -
  obtain k where k: "n = k + 2" using n by (metis add.commute le_Suc_ex)
  have l: "n < alen x" using digits31_len [OF x] by simp
  have "val31 n x div 2 ^ (31 * k + r) = wsum (Suc 0 + k) 2 (cells x) div 2 ^ r"
    using wsum_div [of "Suc 0" k 2 "cells x"] x by (simp add: power31 div_mult2_eq k)
  also have "wsum (Suc 0 + k) 2 (cells x) = unat (cells x ! (k + 1)) + B31 * unat (cells x ! (k + 2))"
    by (simp add: wsum_def numeral_2_eq_2)
  finally have v: "val31 n x div 2 ^ (31 * k + r) = (unat (cells x ! (k + 1)) + B31 * unat (cells x ! (k + 2))) div 2 ^ r" .
  have "unat (cells x ! (k + 1)) < B31" "unat (cells x ! (k + 2)) < B31"
    using k by (auto intro!: digits31_1 [OF x])
  from window_word [OF this r] v l k show ?thesis
    unfolding window31_def by (intro wp Q) auto
qed


section \<open>The subtraction loop\<close>

definition ms_inv :: "nat \<Rightarrow> u32 arr \<Rightarrow> u32 arr \<Rightarrow> u32 \<Rightarrow> nat \<Rightarrow> u32 arr \<times> u32 \<times> u32 \<Rightarrow> bool" where
  "ms_inv n x m q u w \<longleftrightarrow> (case w of (x', cc, tb) \<Rightarrow>
     frame31 (u - 1) x x' \<and> digits31 (Suc 0) n (cells x') \<and> unat cc \<le> B31 \<and>
     tb = of_bool (i31v (u - 1) (cells m) \<le> i31v (u - 1) (cells x')) \<and>
     i31v (u - 1) (cells x') + unat q * i31v (u - 1) (cells m) = i31v (u - 1) (cells x) + unat cc * B31 ^ (u - 1))"

lemma ms_word:
  assumes "unat (xw :: u32) < B31" and "unat (mw :: u32) < B31" and "unat (q :: u32) < B31" and "unat (cc :: u32) \<le> B31"
    and zl: "zl = MUL31 mw q + ucast cc" and nxw: "nxw = xw - (ucast zl AND 0x7FFFFFFF)"
    and cc': "cc' = ucast (shr zl 31) + shr nxw 31"
  shows "unat cc' \<le> B31" and "unat (nxw AND 0x7FFFFFFF) + unat q * unat mw + unat cc = unat xw + unat cc' * B31"
proof -
  have "unat mw * unat q \<le> 2147483647 * 2147483647" using assms(2,3) by (intro mult_le_mono; simp)
  then have z: "unat zl = unat q * unat mw + unat cc" "unat zl div B31 < B31"
    using assms(4) by (simp_all add: zl unat_word_ariths unat_MUL31 mult.commute less_mult_imp_div_less)
  define p r where pr: "p = unat zl mod B31" "r = unat zl div B31"
  have zpr: "unat zl = p + B31 * r" by (simp add: pr)
  have zw: "unat (ucast zl AND 0x7FFFFFFF :: u32) = p" by (simp add: unat_ucast_and31 pr)
  have "unat (ucast zl AND 0x7FFFFFFF :: u32) < B31" by (simp add: zw pr)
  from word_sub31 [OF assms(1) this, of 0]
  have s: "unat (shr nxw 31) = of_bool (unat xw < p)" "unat (nxw AND 0x7FFFFFFF) + p = unat xw + B31 * of_bool (unat xw < p)"
    by (simp_all add: nxw zw)
  have r: "r < B31" using z(2) by (simp add: pr)
  then have "unat (ucast (shr zl 31) :: u32) = r"
    by (simp add: unsigned_ucast_eq take_bit_eq_mod unat_drop_bit pr)
  then have c: "unat cc' = r + of_bool (unat xw < p)" using r s(1) by (auto simp: cc' unat_word_ariths)
  then show "unat cc' \<le> B31" using r by auto
  show "unat (nxw AND 0x7FFFFFFF) + unat q * unat mw + unat cc = unat xw + unat cc' * B31"
    using s(2) z(1) zpr unfolding c by (auto simp: algebra_simps)
qed

lemma digit_le:
  "(va::nat) < P \<Longrightarrow> vb < P \<Longrightarrow> vb + bw * P \<le> va + aw * P \<longleftrightarrow> (if aw = bw then vb \<le> va else bw < aw)"
  using digit_less [of va P vb aw bw] by (auto simp: not_less [symmetric] split: if_splits)

lemma ok_muladd_sub:
  assumes u: "1 \<le> u" "u \<le> n" and x: "digits31 (Suc 0) n (cells x)" and m: "digits31 (Suc 0) n (cells m)"
    and q: "unat q < B31" and inv: "ms_inv n x m q u w"
  shows "ok (muladd_sub q m u w) (ms_inv n x m q (Suc u))"
proof -
  obtain k where k: "u = Suc k" using u by (cases u) auto
  obtain x' cc tb where w: "w = (x', cc, tb)" by (cases w)
  from inv have i: "frame31 k x x'" "digits31 (Suc 0) n (cells x')" "unat cc \<le> B31"
    "tb = of_bool (i31v k (cells m) \<le> i31v k (cells x'))"
    "i31v k (cells x') + unat q * i31v k (cells m) = i31v k (cells x) + unat cc * B31 ^ k"
    by (auto simp: ms_inv_def w k)
  have lens: "u < alen x'" "u < alen m" using u digits31_len [OF i(2)] digits31_len [OF m] by auto
  have xw: "cells x' ! u = cells x ! Suc k" using i(1) by (simp add: frame31_def k)
  have ub: "unat (cells x ! Suc k) < B31" "unat (cells m ! Suc k) < B31"
    using u k by (auto intro: digits31_1 [OF x] digits31_1 [OF m])
  define zl where "zl = MUL31 (cells m ! Suc k) q + ucast cc"
  define nxw where "nxw = cells x ! Suc k - (ucast zl AND 0x7FFFFFFF)"
  define cc' where "cc' = ucast (shr zl 31) + shr nxw 31"
  note z = ms_word [OF ub(1) ub(2) q i(3) zl_def nxw_def cc'_def]
  define y where "y = nxw AND 0x7FFFFFFF"
  have y: "unat y < B31" by (simp add: y_def unat_and31)
  let ?x = "x'\<lparr>cells := (cells x')[u := y]\<rparr>"
  have v: "i31v u (cells ?x) = i31v k (cells x') + unat y * B31 ^ k" using lens by (simp add: k)
  have eq: "i31v u (cells ?x) + unat q * i31v u (cells m) = i31v u (cells x) + unat cc' * B31 ^ u"
    unfolding v using i(5) arg_cong [OF z(2), of "\<lambda>t. t * B31 ^ k"] by (simp add: wsum_Suc k y_def algebra_simps)
  have lt: "i31v k (cells x') < B31 ^ k" "i31v k (cells m) < B31 ^ k"
    using u i(2) m by (auto simp: k intro!: wsum_lt elim: digits31_prefix)
  have "MUX (EQ y (cells m ! u)) tb (GT y (cells m ! u)) = of_bool (i31v u (cells m) \<le> i31v u (cells ?x))"
    unfolding v using digit_le [OF lt, of "unat (cells m ! Suc k)" "unat y"]
    by (simp add: i(4) k wsum_Suc word_less_nat_alt word_unat_eq_iff)
  moreover have "frame31 u x ?x" using i(1) by (intro frame31_update) (auto simp: k elim: frame31_mono)
  ultimately have "ms_inv n x m q (Suc u) (?x, cc', MUX (EQ y (cells m ! u)) tb (GT y (cells m ! u)))"
    using i(2) y z(1) eq by (simp add: ms_inv_def digits31_update)
  then show ?thesis
    unfolding muladd_sub_def w prod.case Let_def using lens
    by (intro wp) (simp_all add: xw [unfolded k] y_def cc'_def nxw_def zl_def k)
qed


section \<open>One word in: x becomes (x * 2^31 + z) mod m\<close>

definition shift_in :: "nat \<Rightarrow> u32 arr \<Rightarrow> u32 \<Rightarrow> u32 arr" where
  "shift_in n x z = x\<lparr>cells := (splice (cells x) 2 (take (n - 1) (drop 1 (cells x))))[1 := z]\<rparr>"

lemma shift_in_nth:
  assumes "0 < n" and "n < alen x"
  shows "cells (shift_in n x z) ! i = (if i = 1 then z else if 2 \<le> i \<and> i \<le> n then cells x ! (i - 1) else cells x ! i)"
proof -
  have l: "length (take (n - 1) (drop 1 (cells x))) = n - 1" using assms by simp
  have "2 \<le> i \<Longrightarrow> Suc (i - 2) = i - Suc 0" by simp
  then show ?thesis
    using assms nth_splice [of 2 "take (n - 1) (drop 1 (cells x))" "cells x" i]
      nth_splice_in [of 2 "take (n - 1) (drop 1 (cells x))" "cells x" i] l
    by (auto simp: shift_in_def nth_list_update)
qed

lemma shift_in_frame: "0 < n \<Longrightarrow> n < alen x \<Longrightarrow> frame31 n x (shift_in n x z)"
  by (auto simp: frame31_def shift_in_nth) (auto simp: shift_in_def)

lemma shift_in_digits:
  "0 < n \<Longrightarrow> unat z < B31 \<Longrightarrow> digits31 (Suc 0) n (cells x) \<Longrightarrow> digits31 (Suc 0) n (cells (shift_in n x z))"
  using frame31_alen [OF shift_in_frame [of n x z]] digits31_1 [of n "cells x"] digits31_len [of "Suc 0" n "cells x"]
  by (auto simp: digits31_def [of _ _ "cells (shift_in n x z)"] shift_in_nth)

lemma shift_in_val:
  assumes "0 < n" and "n < alen x"
  shows "val31 n (shift_in n x z) + unat (cells x ! n) * B31 ^ n = val31 n x * B31 + unat z"
proof -
  obtain k where k: "n = Suc k" using assms by (cases n) auto
  have "wsum 2 k (cells (shift_in n x z)) = wsum (Suc 0) k (cells x)"
    using assms by (intro wsum_cong) (simp add: shift_in_nth k)
  then have "val31 n (shift_in n x z) = unat z + B31 * val31 k x"
    using assms by (simp add: k wsum_head shift_in_nth numeral_2_eq_2)
  then show ?thesis by (simp add: k wsum_Suc algebra_simps)
qed

definition tops :: "nat \<Rightarrow> nat \<Rightarrow> u32 \<Rightarrow> u32 arr \<Rightarrow> u32 arr \<Rightarrow> (u32 arr \<times> u32 \<times> u32 \<times> u32) cm" where
  "tops mlen mblr z m x = branch (mblr = 0)
     (do {
       a0 \<leftarrow> ld x mlen;
       x \<leftarrow> memmove x 2 x 1 (mlen - 1);
       x \<leftarrow> st x 1 z;
       a1 \<leftarrow> ld x mlen;
       b0 \<leftarrow> ld m mlen;
       ret (x, a0, a1, b0) })
     (do {
       a0 \<leftarrow> window31 x mlen mblr;
       x \<leftarrow> memmove x 2 x 1 (mlen - 1);
       x \<leftarrow> st x 1 z;
       a1 \<leftarrow> window31 x mlen mblr;
       b0 \<leftarrow> window31 m mlen mblr;
       ret (x, a0, a1, b0) })"

lemma ok_shift_in:
  assumes "0 < n" and "n < alen x" and "ok (f (shift_in n x z)) Q"
  shows "ok (do { x \<leftarrow> memmove x 2 x 1 (n - 1); x \<leftarrow> st x 1 z; f x }) Q"
proof -
  have "length (splice (cells x) 2 (take (n - 1) (drop 1 (cells x)))) = alen x" using assms by simp
  with assms show ?thesis by (intro ok_bind ok_memcpy ok_st) (auto simp: shift_in_def)
qed

text \<open>The position of the lowest bit of the top window of the modulus, for the header \<open>h\<close>.\<close>

lemma top_mod:
  assumes "val31 n x' + c * B31 ^ n = A" and "s + 31 \<le> 31 * n"
  shows "(val31 n x' div 2 ^ s) mod B31 = (A div 2 ^ s) mod B31"
proof -
  obtain j where j: "31 * n = s + 31 + j" using assms(2) by (metis le_Suc_ex)
  have "B31 ^ n = 2 ^ s * (B31 * 2 ^ j)" using power31 [of n 0] by (simp add: j power_add)
  then have "A = val31 n x' + 2 ^ s * (B31 * (2 ^ j * c))" using assms(1) by (simp only: ac_simps)
  then have "A div 2 ^ s = val31 n x' div 2 ^ s + B31 * (2 ^ j * c)" by simp
  then show ?thesis by (simp only: mod_mult_self2)
qed

lemma ok_tops:
  assumes n: "0 < n" and r: "r \<le> 31" "r \<noteq> 0 \<Longrightarrow> 2 \<le> n" and s: "s = (if r = 0 then 31 * (n - 1) else 31 * (n - 2) + r)"
    and x: "digits31 (Suc 0) n (cells x)" and m: "digits31 (Suc 0) n (cells m)" and z: "unat z < B31"
    and lt: "val31 n x < 2 ^ (s + 31)" "val31 n m < 2 ^ (s + 31)" and A: "A = val31 n x * B31 + unat z"
    and Q: "\<And>a0 a1 b0. unat a0 = A div 2 ^ s div B31 \<Longrightarrow> unat a1 = A div 2 ^ s mod B31 \<Longrightarrow> unat b0 = val31 n m div 2 ^ s \<Longrightarrow>
      Q (shift_in n x z, a0, a1, b0)"
  shows "ok (tops n r z m x) Q"
proof -
  have lens: "n < alen x" "n < alen m" using digits31_len [OF x] digits31_len [OF m] by auto
  let ?y = "shift_in n x z"
  have y: "digits31 (Suc 0) n (cells ?y)" by (rule shift_in_digits [OF n z x])
  have ly: "n < alen ?y" using digits31_len [OF y] by simp
  have sn: "s + 31 \<le> 31 * n" using n r s by auto
  have a1: "(val31 n ?y div 2 ^ s) mod B31 = A div 2 ^ s mod B31"
    using shift_in_val [OF n lens(1), of z] by (intro top_mod [OF _ sn]) (simp add: A)
  have "val31 n x div 2 ^ s < B31" "val31 n m div 2 ^ s < B31" using lt by (simp_all add: power_add less_mult_imp_div_less mult.commute)
  then have md: "(val31 n x div 2 ^ s) mod B31 = val31 n x div 2 ^ s" "(val31 n m div 2 ^ s) mod B31 = val31 n m div 2 ^ s" by simp_all
  have a0: "A div 2 ^ s div B31 = val31 n x div 2 ^ s"
    using z by (simp add: A div_mult2_eq [symmetric] mult.commute [of _ B31]) (simp add: div_mult2_eq)
  have top: "val31 n w div 2 ^ s mod B31 = unat (cells w ! n)" if "r = 0" "digits31 (Suc 0) n (cells w)" for w :: "u32 arr"
  proof -
    obtain k where k: "n = k + 1" using n by (cases n) auto
    have "val31 n w div 2 ^ s = unat (cells w ! n)"
      using wsum_div [of "Suc 0" k 1 "cells w"] that power31 [of k 0] by (simp add: s k wsum_def)
    then show ?thesis using digits31_1 [OF that(2), of n] n by simp
  qed
  show ?thesis
  proof (cases "r = 0")
    case True
    have "Q (?y, cells x ! n, cells ?y ! n, cells m ! n)"
      using top [OF True x] top [OF True y] top [OF True m] a0 a1 md by (intro Q) simp_all
    then show ?thesis unfolding tops_def using True n lens ly
      by (intro ok_branch ok_bind [of "ld _ _"] ok_shift_in ok_ld ok_ret) simp_all
  next
    case False
    then have r0: "0 < r" and n2: "2 \<le> n" and s': "s = 31 * (n - 2) + r" using r s by auto
    show ?thesis unfolding tops_def using False n lens
      by (intro ok_branch ok_bind [of "window31 _ _ _"] ok_shift_in ok_window31 [OF x n2 r0 r(1), folded s']
          ok_window31 [OF m n2 r0 r(1), folded s'] ok_window31 [OF y n2 r0 r(1), folded s'] ok_ret)
        (simp_all add: Q a0 a1 md)
  qed
qed


text \<open>The remainder \<open>A - q * M = R + (hi - cc) * P\<close> is in the range from \<open>-M\<close> to \<open>2 M\<close>; what each correction gives.\<close>

lemma fix_remainder:
  fixes A M P R X q cc hi :: nat
  assumes eq: "R + q * M = X + cc * P" "X + hi * P = A" and R: "R < P" and M: "0 < M" "M < P"
    and lo: "q * M \<le> A + M" and hi: "A < q * M + 2 * M"
  shows "hi < cc \<Longrightarrow> R + M = A mod M + P"
    and "cc < hi \<Longrightarrow> R < M \<and> A mod M + M = R + P"
    and "cc = hi \<Longrightarrow> M \<le> R \<Longrightarrow> A mod M + M = R"
    and "cc = hi \<Longrightarrow> R < M \<Longrightarrow> A mod M = R"
proof -
  have modI: "A mod M = r" if "A = r + k * M" "r < M" for r k using that by simp
  show "R + M = A mod M + P" if "hi < cc"
  proof -
    obtain e where e: "cc = hi + Suc e" using less_imp_Suc_add [OF \<open>hi < cc\<close>] by auto
    have "R + q * M = A + Suc e * P" using eq by (simp add: e algebra_simps)
    then have le: "Suc e * P \<le> R + M" using lo by linarith
    have "e = 0"
    proof (rule ccontr)
      assume "e \<noteq> 0"
      then have "2 * P \<le> Suc e * P" by (intro mult_le_mono1) simp
      then show False using le R M(2) by linarith
    qed
    then have s: "R + q * M = A + P" using \<open>R + q * M = A + Suc e * P\<close> by simp
    have q: "0 < q" using s R by (intro gr0I) simp
    then obtain k where k: "q = Suc k" by (cases q) auto
    have "A = (R + M - P) + k * M" using s le \<open>e = 0\<close> by (simp add: k)
    then have "A mod M = R + M - P" using R M by (intro modI) auto
    then show ?thesis using le \<open>e = 0\<close> by simp
  qed
  show "R < M \<and> A mod M + M = R + P" if "cc < hi"
  proof -
    obtain e where e: "hi = cc + Suc e" using less_imp_Suc_add [OF \<open>cc < hi\<close>] by auto
    have s: "A = R + q * M + Suc e * P" using eq by (simp add: e algebra_simps)
    then have l: "R + Suc e * P < 2 * M" using hi by linarith
    have e0: "e = 0"
    proof (rule ccontr)
      assume "e \<noteq> 0"
      then have "2 * P \<le> Suc e * P" by (intro mult_le_mono1) simp
      then show False using l M(2) by linarith
    qed
    have "A = R + P - M + Suc q * M" using s M(2) by (simp add: e0)
    moreover have "R + P - M < M" using l M(1) by (simp add: e0)
    ultimately have "A mod M = R + P - M" by (rule modI)
    then show ?thesis using l M e0 by simp
  qed
  show "A mod M + M = R" if "cc = hi" "M \<le> R"
  proof -
    have "A = (R - M) + Suc q * M" using eq that by simp
    moreover have "R - M < M" using eq that hi by auto
    ultimately have "A mod M = R - M" by (rule modI)
    then show ?thesis using that by simp
  qed
  show "A mod M = R" if "cc = hi" "R < M" using eq that by (intro modI) auto
qed

lemma ok_muladd_fix:
  assumes len: "words63 (cells x ! 0) = Suc n" and x: "digits31 (Suc 0) n (cells x)" and m: "digits31 (Suc 0) n (cells m)"
    and eq: "val31 n x + q * val31 n m = X + unat cc * B31 ^ n" "X + unat hi * B31 ^ n = A"
    and M: "0 < val31 n m" and lo: "q * val31 n m \<le> A + val31 n m" and up: "A < q * val31 n m + 2 * val31 n m"
    and tb: "tb = of_bool (val31 n m \<le> val31 n x)"
    and Q: "\<And>x'. frame31 n x x' \<Longrightarrow> digits31 (Suc 0) n (cells x') \<Longrightarrow> val31 n x' = A mod val31 n m \<Longrightarrow> Q x'"
  shows "ok (do { (x, c) \<leftarrow> br_i31_add x m (GT cc hi);
    (x, c) \<leftarrow> br_i31_sub x m (NOT (GT cc hi) AND (tb OR LT cc hi)); ret x }) Q"
proof -
  let ?M = "val31 n m" and ?R = "val31 n x" and ?P = "B31 ^ n"
  have lt: "?R < ?P" "?M < ?P" using x m by (auto intro: wsum_lt)
  note f = fix_remainder [OF eq lt(1) M lt(2) lo up]
  have g: "GT cc hi = of_bool (unat hi < unat cc)" by (simp add: word_less_nat_alt)
  define b where "b = (\<not> unat hi < unat cc \<and> (?M \<le> ?R \<or> unat cc < unat hi))"
  have u: "NOT (GT cc hi) AND (tb OR LT cc hi) = of_bool b"
    by (auto simp: b_def tb word_less_nat_alt)
  have Ml: "A mod ?M < ?M" using M by simp
  show ?thesis
    unfolding u unfolding g
  proof (rule ok_bind, rule ok_br_i31_add [OF len x m], unfold prod.case)
    fix a c1 assume a: "frame31 n x a" "digits31 (Suc 0) n (cells a)"
      "unat hi < unat cc \<Longrightarrow> val31 n a = (?R + ?M) mod ?P" "\<not> unat hi < unat cc \<Longrightarrow> a = x"
    have len': "words63 (cells a ! 0) = Suc n" using len a(1) by (simp add: frame31_head)
    show "ok (do { (x, c) \<leftarrow> br_i31_sub a m (of_bool b); ret x }) Q"
    proof (rule ok_bind, rule ok_br_i31_sub [OF len' a(2) m], unfold prod.case)
      fix d c2 assume d: "frame31 n a d" "digits31 (Suc 0) n (cells d)" "c2 = of_bool (val31 n a < ?M)"
        "b \<Longrightarrow> val31 n d + ?M = val31 n a + unat c2 * ?P" "\<not> b \<Longrightarrow> d = a"
      have "val31 n d = A mod ?M"
      proof (cases "unat cc" "unat hi" rule: linorder_cases)
        case less
        then have "a = x" "val31 n d + ?M = val31 n a + unat c2 * ?P" using a(4) d(4) by (auto simp: b_def)
        then show ?thesis using f(2) [OF less] d(3) by simp
      next
        case equal
        then have "a = x" using a(4) by simp
        show ?thesis
        proof (cases "?M \<le> ?R")
          case True
          then have "val31 n d + ?M = ?R" using d(3,4) equal \<open>a = x\<close> by (auto simp: b_def)
          then show ?thesis using f(3) [OF equal True] by simp
        next
          case False
          then show ?thesis using f(4) [OF equal] d(5) equal \<open>a = x\<close> by (auto simp: b_def)
        qed
      next
        case greater
        then have "d = a" using d(5) by (auto simp: b_def)
        moreover have "(A mod ?M + ?P) mod ?P = A mod ?M" using Ml lt(2) by simp
        ultimately show ?thesis using a(3) [OF greater] f(1) [OF greater] by simp
      qed
      with a d show "ok (ret d) Q" by (intro wp Q) (auto intro: frame31_trans)
    qed
  qed
qed

lemma br_i31_muladd_small_alt:
  "br_i31_muladd_small x z m = do {
     m_bitlen \<leftarrow> ld m 0;
     branch (m_bitlen = 0) (ret x) (
     branch (m_bitlen \<le> 31) (do {
       x1 \<leftarrow> ld x 1;
       m1 \<leftarrow> ld m 1;
       st x 1 (br_rem (shr x1 1) (shl x1 31 OR z) m1) })
     (do {
       hi \<leftarrow> ld x (words31 m_bitlen);
       (x, a0, a1, b0) \<leftarrow> tops (words31 m_bitlen) (unat (m_bitlen AND 31)) z m x;
       let g = br_div (shr a0 1) (a1 OR shl a0 31) b0;
       let q = MUX (EQ a0 b0) 0x7FFFFFFF (MUX (EQ g 0) 0 (g - 1));
       (x, cc, tb) \<leftarrow> for_loop 1 (Suc (words31 m_bitlen)) (muladd_sub q m) (x, 0, 1);
       (x, c) \<leftarrow> br_i31_add x m (GT cc hi);
       (x, c) \<leftarrow> br_i31_sub x m (NOT (GT cc hi) AND (tb OR LT cc hi));
       ret x })) }"
  unfolding br_i31_muladd_small_def tops_def Let_def ..


lemma hdr31_words:
  assumes "hdr31 h n"
  shows "unat h + 63 < 4294967296" and "n = (unat h + 31) div 32"
  using assms by (auto simp: hdr31_def)

lemma unat_and5: "unat (h AND 31 :: u32) = unat h mod 32"
proof -
  have "(31 :: u32) = mask 5" by (simp add: mask_eq_exp_minus_1)
  then have "h AND 31 = take_bit 5 h" by (simp only: take_bit_eq_mask)
  then have "unat (h AND 31) = take_bit 5 (unat h)" by (simp only: unsigned_take_bit_eq)
  then show ?thesis by (simp only: take_bit_eq_mod) simp
qed

lemma two_words31:
  assumes "unat (a :: u32) < B31" and "unat (z :: u32) < B31"
  shows "unat (shr a 1) * 4294967296 + unat (shl a 31 OR z) = unat a * B31 + unat z"
proof -
  have s: "unat (shl a 31) = B31 * (unat a mod 2)" 
    using mult_mod_right [of B31 "unat a" 2] by (simp add: unat_shl32 mult.commute)
  then have "unat (shl a 31 OR z) = unat (shl a 31) + unat z" using assms(2) by (intro or_disjoint(2) [of 31]) simp_all
  moreover have "unat a = 2 * (unat a div 2) + unat a mod 2" by simp
  ultimately show ?thesis unfolding s unat_drop_bit power_one_right by linarith
qed

lemma unat_estimate:
  "unat (MUX (EQ a0 b0) 0x7FFFFFFF (MUX (EQ g 0) 0 (g - 1))) =
   (if unat a0 = unat b0 then B31 - 1 else if unat g = 0 then 0 else unat g - 1)"
proof -
  have "g \<noteq> 0 \<Longrightarrow> unat (g - 1) = unat g - 1" using unat_gt_0 [of g] by (simp add: unat_minus_one)
  then show ?thesis by (auto simp: unat_eq_zero simp flip: word_unat_eq_iff)
qed

lemma top_bits:
  assumes "nbits m = s + 31"
  shows "m < 2 ^ (s + 31)" and "B31 \<le> 2 * (m div 2 ^ s)"
proof -
  show "m < 2 ^ (s + 31)" using assms nbits_le_iff [of m "s + 31"] by simp
  have "2 ^ (s + 30) \<le> m" using assms nbits_le_iff [of m "s + 30"] by simp
  then have "2 ^ s * 1073741824 \<le> m" by (simp add: power_add)
  then have "1073741824 \<le> m div 2 ^ s" by (simp add: less_eq_div_iff_mult_less_eq mult.commute)
  then show "B31 \<le> 2 * (m div 2 ^ s)" by simp
qed

lemma hdr31_top:
  assumes "hdr31 h n" and "0 < n" and "31 < unat h"
  obtains s r where "unat (h AND 31) = r" and "r \<le> 31" and "r \<noteq> 0 \<Longrightarrow> 2 \<le> n"
    and "s = (if r = 0 then 31 * (n - 1) else 31 * (n - 2) + r)" and "bits31 h = s + 31"
proof -
  define d r where dr: "d = unat h div 32" "r = unat h mod 32"
  have h: "unat h = 32 * d + r" "r < 32" by (simp_all add: dr)
  have n: "n = (if r = 0 then d else d + 1)" using hdr31_words(2) [OF assms(1)] h by auto
  have b: "bits31 h = 31 * d + r" by (simp add: bits31_def dr)
  show ?thesis
  proof (rule that [of r "if r = 0 then 31 * (n - 1) else 31 * (n - 2) + r"])
    show "unat (h AND 31) = r" by (simp add: unat_and5 dr)
    show "r \<le> 31" using h by simp
    show "r \<noteq> 0 \<Longrightarrow> 2 \<le> n" using n h assms(3) by (cases d) auto
    show "bits31 h = (if r = 0 then 31 * (n - 1) else 31 * (n - 2) + r) + 31"
      using n h assms(2,3) b by (cases d) auto
  qed simp
qed

lemma ok_muladd_one:
  assumes x: "digits31 (Suc 0) n (cells x)" and m: "digits31 (Suc 0) n (cells m)" and n: "n = 1"
    and lt: "val31 n x < val31 n m" and z: "unat z < B31"
    and Q: "\<And>x'. frame31 n x x' \<Longrightarrow> digits31 (Suc 0) n (cells x') \<Longrightarrow>
      val31 n x' = (val31 n x * B31 + unat z) mod val31 n m \<Longrightarrow> Q x'"
  shows "ok (do { x1 \<leftarrow> ld x 1; m1 \<leftarrow> ld m 1; st x 1 (br_rem (shr x1 1) (shl x1 31 OR z) m1) }) Q"
proof -
  let ?x = "cells x ! 1" and ?m = "cells m ! 1"
  have v: "i31v n y = unat (y ! 1)" for y :: "u32 list" by (simp add: n wsum_def)
  have lens: "1 < alen x" "1 < alen m" using digits31_len [OF x] digits31_len [OF m] n by auto
  have ub: "unat ?x < B31" "unat ?m < B31" using digits31_1 [OF x, of 1] digits31_1 [OF m, of 1] n by auto
  have "shr ?x 1 < ?m" using lt by (simp add: word_less_nat_alt unat_drop_bit v)
  from br_rem_correct [OF this, of "shl ?x 31 OR z"] two_words31 [OF ub(1) z]
  have r: "unat (br_rem (shr ?x 1) (shl ?x 31 OR z) ?m) = (unat ?x * B31 + unat z) mod unat ?m" by simp
  also have "\<dots> < unat ?m" using lt v by (intro mod_less_divisor) simp
  finally have "unat (br_rem (shr ?x 1) (shl ?x 31 OR z) ?m) < B31" using ub(2) by linarith
  then have "Q (x\<lparr>cells := (cells x)[1 := br_rem (shr ?x 1) (shl ?x 31 OR z) ?m]\<rparr>)"
    using r lens x n by (intro Q frame31_update) (simp_all add: wsum_def digits31_update)
  then show ?thesis using lens by (intro wp)
qed

lemma ok_muladd_many:
  assumes hd: "cells x ! 0 = h" and hn: "hdr31 h n" "0 < n" "31 < unat h"
    and x: "digits31 (Suc 0) n (cells x)" and m: "digits31 (Suc 0) n (cells m)"
    and nb: "nbits (val31 n m) = bits31 h"
    and lt: "val31 n x < val31 n m" and z: "unat z < B31"
    and Q: "\<And>x'. frame31 n x x' \<Longrightarrow> digits31 (Suc 0) n (cells x') \<Longrightarrow>
      val31 n x' = (val31 n x * B31 + unat z) mod val31 n m \<Longrightarrow> Q x'"
  shows "ok (do {
       hi \<leftarrow> ld x n;
       (x, a0, a1, b0) \<leftarrow> tops n (unat (h AND 31)) z m x;
       let g = br_div (shr a0 1) (a1 OR shl a0 31) b0;
       let q = MUX (EQ a0 b0) 0x7FFFFFFF (MUX (EQ g 0) 0 (g - 1));
       (x, cc, tb) \<leftarrow> for_loop 1 (Suc n) (muladd_sub q m) (x, 0, 1);
       (x, c) \<leftarrow> br_i31_add x m (GT cc hi);
       (x, c) \<leftarrow> br_i31_sub x m (NOT (GT cc hi) AND (tb OR LT cc hi));
       ret x }) Q"
proof -
  obtain s r where r: "unat (h AND 31) = r" "r \<le> 31" "r \<noteq> 0 \<Longrightarrow> 2 \<le> n"
    and s: "s = (if r = 0 then 31 * (n - 1) else 31 * (n - 2) + r)" and b: "bits31 h = s + 31"
    using hdr31_top [OF hn] by metis
  let ?M = "val31 n m" and ?A = "val31 n x * B31 + unat z" and ?y = "shift_in n x z"
  note tb = top_bits [OF trans [OF nb b]]
  have lx: "val31 n x < 2 ^ (s + 31)" using lt tb(1) by linarith
  have lens: "n < alen x" using digits31_len [OF x] by simp
  have A: "?A < B31 * ?M"
  proof -
    have "Suc (val31 n x) * B31 \<le> ?M * B31" using lt by (intro mult_le_mono1) simp
    then show ?thesis using z by (simp add: mult.commute)
  qed
  have y: "digits31 (Suc 0) n (cells ?y)" by (rule shift_in_digits [OF hn(2) z x])
  have yf: "frame31 n x ?y" by (rule shift_in_frame [OF hn(2) lens])
  have len: "words63 (cells x ! 0) = Suc n" using hn(1) by (simp add: hd hdr31D)
  show ?thesis
  proof (rule ok_bind, rule ok_ld [OF lens], rule ok_bind, unfold r(1), rule ok_tops [OF hn(2) r(2,3) s x m z lx tb(1) refl],
      assumption, unfold prod.case Let_def)
    fix a0 a1 b0 :: u32
    assume a0: "unat a0 = ?A div 2 ^ s div B31" and a1: "unat a1 = ?A div 2 ^ s mod B31" and b0: "unat b0 = ?M div 2 ^ s"
    define g where "g = br_div (shr a0 1) (a1 OR shl a0 31) b0"
    define q where "q = MUX (EQ a0 b0) 0x7FFFFFFF (MUX (EQ g 0) 0 (g - 1))"
    have "?A div 2 ^ s div B31 = val31 n x div 2 ^ s"
      using z by (simp add: div_mult2_eq [symmetric] mult.commute [of _ B31]) (simp add: div_mult2_eq)
    then have "unat a0 \<le> unat b0" using lt by (simp add: a0 b0 div_le_mono)
    moreover have "0 < unat b0" using tb(2) b0 by linarith
    ultimately have "shr a0 1 < b0" by (simp add: word_less_nat_alt unat_drop_bit)
    moreover have ub: "unat a0 < B31" "unat a1 < B31"
      using lx b0 \<open>unat a0 \<le> unat b0\<close> tb(1) by (auto simp: a1 power_add less_mult_imp_div_less mult.commute intro: le_less_trans)
    moreover have "unat a0 * B31 + unat a1 = ?A div 2 ^ s" by (simp add: a0 a1)
    ultimately have g: "unat g = ?A div 2 ^ s div (?M div 2 ^ s)"
      using br_div_correct [of "shr a0 1" b0 "a1 OR shl a0 31"] two_words31 [of a0 a1] by (simp add: g_def b0 or.commute)
    have qv: "unat q = (if ?A div 2 ^ s div B31 = ?M div 2 ^ s then B31 - 1 else
        if ?A div 2 ^ s div (?M div 2 ^ s) = 0 then 0 else ?A div 2 ^ s div (?M div 2 ^ s) - 1)"
      unfolding a0 [symmetric] b0 [symmetric] g [unfolded b0 [symmetric], symmetric] q_def by (rule unat_estimate)
    note est = estimate [OF tb(2) A, of, folded qv, simplified]
    define hi where "hi = cells x ! n"
    have init: "ms_inv n ?y m q 1 (?y, 0, 1)" using y by (simp add: ms_inv_def)
    have "ok (do { (x, cc, tb) \<leftarrow> for_loop 1 (Suc n) (muladd_sub q m) (?y, 0, 1);
       (x, c) \<leftarrow> br_i31_add x m (GT cc hi);
       (x, c) \<leftarrow> br_i31_sub x m (NOT (GT cc hi) AND (tb OR LT cc hi)); ret x }) Q"
    proof (rule ok_bind, rule ok_for_loop [where Inv = "ms_inv n ?y m q", OF init])
      fix w assume "ms_inv n ?y m q (Suc n) w"
      then obtain x' cc tb where w: "w = (x', cc, tb)" and f: "frame31 n ?y x'" and d: "digits31 (Suc 0) n (cells x')"
        and t: "tb = of_bool (?M \<le> val31 n x')" and e: "val31 n x' + unat q * ?M = val31 n ?y + unat cc * B31 ^ n"
        by (cases w) (auto simp: ms_inv_def)
      have fx: "frame31 n x x'" by (rule frame31_trans [OF yf f])
      show "ok (case w of (x, cc, tb) \<Rightarrow> do { (x, c) \<leftarrow> br_i31_add x m (GT cc hi);
         (x, c) \<leftarrow> br_i31_sub x m (NOT (GT cc hi) AND (tb OR LT cc hi)); ret x }) Q"
        unfolding w prod.case
      proof (rule ok_muladd_fix [OF _ d m e _ _ est(2,3) t])
        show "words63 (cells x' ! 0) = Suc n" using len fx by (simp add: frame31_head)
        show "val31 n ?y + unat hi * B31 ^ n = ?A" using shift_in_val [OF hn(2) lens] by (simp add: hi_def)
        show "0 < ?M" using lt by simp
        show "Q a" if "frame31 n x' a" "digits31 (Suc 0) n (cells a)" "val31 n a = ?A mod ?M" for a
          using that fx by (intro Q) (auto intro: frame31_trans)
      qed
    qed (use y m est(1) in \<open>auto intro: ok_muladd_sub\<close>)
    then show "ok (for_loop 1 (Suc n) (muladd_sub (MUX (EQ a0 b0) 0x7FFFFFFF
         (MUX (EQ (br_div (shr a0 1) (a1 OR shl a0 31) b0) 0) 0 (br_div (shr a0 1) (a1 OR shl a0 31) b0 - 1))) m) (?y, 0, 1) \<bind>
       (\<lambda>(x', cc, tb). do { (xa, c) \<leftarrow> br_i31_add x' m (GT cc (cells x ! n));
       (xa, c) \<leftarrow> br_i31_sub xa m (NOT (GT cc (cells x ! n)) AND (tb OR LT cc (cells x ! n))); ret xa })) Q"
      unfolding q_def g_def hi_def .
  qed
qed


text \<open>The modulus is well formed under the header \<open>h\<close> when its bit length is the one \<open>h\<close> announces.\<close>

definition modulus31 :: "u32 \<Rightarrow> nat \<Rightarrow> u32 arr \<Rightarrow> bool" where
  "modulus31 h n m \<longleftrightarrow> is_i31 h n m \<and> nbits (val31 n m) = bits31 h"

lemma ok_br_i31_muladd_small:
  assumes m: "modulus31 h n m" and x: "is_i31 h n x" and lt: "val31 n x < val31 n m" and z: "unat z < B31"
    and Q: "\<And>x'. frame31 n x x' \<Longrightarrow> digits31 (Suc 0) n (cells x') \<Longrightarrow>
      val31 n x' = (val31 n x * B31 + unat z) mod val31 n m \<Longrightarrow> Q x'"
  shows "ok (br_i31_muladd_small x z m) Q"
proof -
  have m': "is_i31 h n m" and nb: "nbits (val31 n m) = bits31 h" using m by (auto simp: modulus31_def)
  note mD = is_i31D [OF m'] and xD = is_i31D [OF x]
  have n: "0 < n" using lt by (intro gr0I) simp
  have hn: "hdr31 h n" using m' by (simp add: is_i31_def)
  have w: "n = (unat h + 31) div 32" by (rule hdr31_words(2) [OF hn])
  have l: "0 < alen m" using mD(5) by linarith
  have one: "ok (do { x1 \<leftarrow> ld x 1; m1 \<leftarrow> ld m 1; st x 1 (br_rem (shr x1 1) (shl x1 31 OR z) m1) }) Q" if "h \<le> 31"
  proof -
    have "n = 1" using that n w by (simp add: word_le_nat_alt)
    then show ?thesis by (intro ok_muladd_one [OF xD(4) mD(4) _ lt z Q])
  qed
  show ?thesis
    unfolding br_i31_muladd_small_alt
    by (rule ok_bind, rule ok_ld [OF l], unfold mD(1,2), intro ok_branch)
      (use n w in simp, rule one, assumption,
       rule ok_muladd_many [OF xD(1) hn n _ xD(4) mD(4) nb lt z Q], simp_all add: word_le_nat_alt)
qed

lemma ct_muladd_sub:
  assumes "shape x x'" and "shape m m'" and "u < alen x" and "u < alen m"
    and "\<And>y y' c c' t t'. shape y y' \<Longrightarrow> alen y = alen x \<Longrightarrow> (0 < u \<Longrightarrow> cells y ! 0 = cells x ! 0 \<and> cells y' ! 0 = cells x' ! 0) \<Longrightarrow>
      R (y, c, t) (y', c', t')"
  shows "ct (muladd_sub q m u (x, cc, tb)) (muladd_sub q' m' u (x', cc', tb')) R"
  using assms unfolding muladd_sub_def prod.case by (intro ctr) (auto simp: shape_def)

section \<open>The trace of the reduction depends on the public parts only\<close>

lemma shift_in_pub: "pub x x' \<Longrightarrow> 0 < n \<Longrightarrow> n < alen x \<Longrightarrow> pub (shift_in n x z) (shift_in n x' z')"
  using shift_in_frame [of n x z] shift_in_frame [of n x' z'] by (auto simp: pub_def shape_def frame31_def)

lemma ct_shift_in:
  assumes "pub x x'" and "0 < n" and "n < alen x"
    and "pub (shift_in n x z) (shift_in n x' z') \<Longrightarrow> ct (f (shift_in n x z)) (f' (shift_in n x' z')) R"
  shows "ct (do { x \<leftarrow> memmove x 2 x 1 (n - 1); x \<leftarrow> st x 1 z; f x })
    (do { x \<leftarrow> memmove x' 2 x' 1 (n - 1); x \<leftarrow> st x 1 z'; f' x }) R"
proof (intro ct_bind ct_memcpy ct_st, goal_cases)
  case 11
  have "ct (f (shift_in n x z)) (f' (shift_in n x' z')) R"
    using assms shift_in_pub by blast
  moreover have "n - 1 \<le> alen x - 1" by (use assms in simp)
  ultimately show ?case by (simp add: shift_in_def)
qed (use assms in \<open>auto simp: pub_def shape_def\<close>)

lemma ct_window31:
  assumes "shape x x'" and "i < alen x" and "\<And>w w'. R w w'"
  shows "ct (window31 x i r) (window31 x' i r) R"
  using assms unfolding window31_def by (intro ctr) auto

lemma ct_tops:
  assumes x: "pub x x'" and m: "shape m m'" and n: "0 < n" "n < alen x" "n < alen m"
    and R: "\<And>a b c a' b' c'. pub (shift_in n x z) (shift_in n x' z') \<Longrightarrow> R (shift_in n x z, a, b, c) (shift_in n x' z', a', b', c')"
  shows "ct (tops n r z m x) (tops n r z' m' x') R"
proof -
  have sx: "shape x x'" using x by (simp add: pub_def)
  have l: "alen (shift_in n x z) = alen x" using shift_in_frame [OF n(1,2)] by (rule frame31_alen)
  have "ct (do { a0 \<leftarrow> ld x n; x \<leftarrow> memmove x 2 x 1 (n - 1); x \<leftarrow> st x 1 z; a1 \<leftarrow> ld x n; b0 \<leftarrow> ld m n; ret (x, a0, a1, b0) })
    (do { a0 \<leftarrow> ld x' n; x \<leftarrow> memmove x' 2 x' 1 (n - 1); x \<leftarrow> st x 1 z'; a1 \<leftarrow> ld x n; b0 \<leftarrow> ld m' n; ret (x, a0, a1, b0) }) R"
  proof (rule ct_bind, rule ct_ld [OF sx refl n(2)], rule ct_shift_in [OF x n(1,2)])
    assume p: "pub (shift_in n x z) (shift_in n x' z')"
    then show "ct (do { a1 \<leftarrow> ld (shift_in n x z) n; b0 \<leftarrow> ld m n; ret (shift_in n x z, cells x ! n, a1, b0) })
      (do { a1 \<leftarrow> ld (shift_in n x' z') n; b0 \<leftarrow> ld m' n; ret (shift_in n x' z', cells x' ! n, a1, b0) }) R"
      using m n l by (intro ctr R) (auto simp: pub_def)
  qed
  moreover have "ct (do { a0 \<leftarrow> window31 x n r; x \<leftarrow> memmove x 2 x 1 (n - 1); x \<leftarrow> st x 1 z;
      a1 \<leftarrow> window31 x n r; b0 \<leftarrow> window31 m n r; ret (x, a0, a1, b0) })
    (do { a0 \<leftarrow> window31 x' n r; x \<leftarrow> memmove x' 2 x' 1 (n - 1); x \<leftarrow> st x 1 z';
      a1 \<leftarrow> window31 x n r; b0 \<leftarrow> window31 m' n r; ret (x, a0, a1, b0) }) R"
  proof (rule ct_bind, rule ct_window31 [OF sx n(2)], rule ct_shift_in [OF x n(1,2)])
    fix a0 a0' assume p: "pub (shift_in n x z) (shift_in n x' z')"
    then show "ct (do { a1 \<leftarrow> window31 (shift_in n x z) n r; b0 \<leftarrow> window31 m n r; ret (shift_in n x z, a0, a1, b0) })
      (do { a1 \<leftarrow> window31 (shift_in n x' z') n r; b0 \<leftarrow> window31 m' n r; ret (shift_in n x' z', a0', a1, b0) }) R"
      using m n l by (intro ct_bind ct_window31 ct_ret R) (auto simp: pub_def)
  qed
  ultimately show ?thesis unfolding tops_def by (intro ct_branch) auto
qed

lemma ct_br_i31_muladd_small:
  assumes m: "pub m m'" and x: "pub x x'" and n: "words31 (cells m ! 0) = n" "words63 (cells m ! 0) = Suc n" "0 < n" "n < alen x" "n < alen m"
    and hx: "cells x ! 0 = cells m ! 0"
    and R: "\<And>z z'. pub z z' \<Longrightarrow> alen z = alen x \<Longrightarrow> cells z ! 0 = cells m ! 0 \<Longrightarrow> R z z'"
  shows "ct (br_i31_muladd_small x z m) (br_i31_muladd_small x' z' m') R"
proof -
  have sm: "shape m m'" using m by (simp add: pub_def)
  have l: "0 < alen m" using n by linarith
  let ?I = "\<lambda>(_::nat) (y, _) (y', _). pub y y' \<and> alen y = alen x \<and> cells y ! 0 = cells m ! 0"
  have l: "0 < alen m" using n by linarith
  have one: "ct (do { x1 \<leftarrow> ld x 1; m1 \<leftarrow> ld m 1; st x 1 (br_rem (shr x1 1) (shl x1 31 OR z) m1) })
    (do { x1 \<leftarrow> ld x' 1; m1 \<leftarrow> ld m' 1; st x' 1 (br_rem (shr x1 1) (shl x1 31 OR z') m1) }) R"
    using x sm n hx by (intro ctr R) (auto simp: pub_def)
  have fin: "ct (do { (x, c) \<leftarrow> br_i31_add y m (g c'); (x, c) \<leftarrow> br_i31_sub x m s; ret x })
      (do { (x, c) \<leftarrow> br_i31_add y' m' (g' c''); (x, c) \<leftarrow> br_i31_sub x m' s'; ret x }) R"
    if "pub y y'" "alen y = alen x" "cells y ! 0 = cells m ! 0" for y y' g g' c' c'' s s'
    using that m n by (intro ctr ct_br_i31_add [where n = n] ct_br_i31_sub [where n = n] R) auto
  have body: "ct (muladd_sub q m u w) (muladd_sub q' m' u w') (?I (Suc u))"
    if "1 \<le> u" "u < Suc n" "?I u w w'" for u q q' w w'
    using that sm n by (cases w; cases w') (auto simp: pub_def intro!: ct_muladd_sub)
  have many: "ct (do {
       hi \<leftarrow> ld x n;
       (x, a0, a1, b0) \<leftarrow> tops n r z m x;
       let g = br_div (shr a0 1) (a1 OR shl a0 31) b0;
       let q = MUX (EQ a0 b0) 0x7FFFFFFF (MUX (EQ g 0) 0 (g - 1));
       (x, cc, tb) \<leftarrow> for_loop 1 (Suc n) (muladd_sub q m) (x, 0, 1);
       (x, c) \<leftarrow> br_i31_add x m (GT cc hi);
       (x, c) \<leftarrow> br_i31_sub x m (NOT (GT cc hi) AND (tb OR LT cc hi));
       ret x }) (do {
       hi \<leftarrow> ld x' n;
       (x, a0, a1, b0) \<leftarrow> tops n r z' m' x';
       let g = br_div (shr a0 1) (a1 OR shl a0 31) b0;
       let q = MUX (EQ a0 b0) 0x7FFFFFFF (MUX (EQ g 0) 0 (g - 1));
       (x, cc, tb) \<leftarrow> for_loop 1 (Suc n) (muladd_sub q m') (x, 0, 1);
       (x, c) \<leftarrow> br_i31_add x m' (GT cc hi);
       (x, c) \<leftarrow> br_i31_sub x m' (NOT (GT cc hi) AND (tb OR LT cc hi));
       ret x }) R" for r
  proof (rule ct_bind, rule ct_ld [OF pubD(1) [OF x] refl n(4)], rule ct_bind, rule ct_tops [OF x sm n(3-5)],
      unfold prod.case Let_def, rule ct_bind, rule ct_for_loop [where Inv = ?I], goal_cases)
    case 1
    then show ?case using shift_in_frame [OF n(3,4), of z] hx by (auto simp: frame31_def)
  next
    case (5 a b c a' b' c' u w w')
    then show ?case by (intro body)
  next
    case (6 a b c a' b' c' w w')
    then show ?case by (intro ct_prod) (auto intro!: fin)
  qed (use n in auto)
  show ?thesis
    unfolding br_i31_muladd_small_alt
    by (rule ct_bind, rule ct_ld [OF sm refl l], unfold pubD(2) [OF m] n(1), rule ct_branch [OF refl],
      rule ct_ret, rule R [OF x refl hx], rule ct_branch [OF refl], rule one, rule many)
qed

section \<open>To Montgomery representation\<close>

lemma is_i31_frame: "is_i31 h n x \<Longrightarrow> frame31 n x x' \<Longrightarrow> digits31 (Suc 0) n (cells x') \<Longrightarrow> is_i31 h n x'"
  by (simp add: is_i31_def frame31_head)

lemma ok_br_i31_to_monty:
  assumes m: "modulus31 h n m" and x: "is_i31 h n x" and lt: "val31 n x < val31 n m"
    and Q: "\<And>x'. frame31 n x x' \<Longrightarrow> digits31 (Suc 0) n (cells x') \<Longrightarrow>
      val31 n x' = (val31 n x * B31 ^ n) mod val31 n m \<Longrightarrow> Q x'"
  shows "ok (br_i31_to_monty x m) Q"
proof -
  have m': "is_i31 h n m" using m by (simp add: modulus31_def)
  note mD = is_i31D [OF m']
  have l: "0 < alen m" using mD(5) by linarith
  let ?M = "val31 n m"
  let ?I = "\<lambda>k y. k \<le> n \<and> frame31 n x y \<and> digits31 (Suc 0) n (cells y) \<and> val31 n y = (val31 n x * B31 ^ (n - k)) mod ?M"
  have step: "ok (br_i31_muladd_small y 0 m) (?I k)" if i: "?I (Suc k) y" for k y
  proof (rule ok_br_i31_muladd_small [OF m is_i31_frame [OF x]])
    show "val31 n y < ?M" using i lt by simp
    fix a assume a: "frame31 n y a" "digits31 (Suc 0) n (cells a)" "val31 n a = (val31 n y * B31 + unat (0::u32)) mod ?M"
    have "n - k = Suc (n - Suc k)" using conjunct1 [OF i] by (simp add: Suc_diff_Suc)
    then have "val31 n a = (val31 n x * B31 ^ (n - k)) mod ?M" using a(3) i by (simp add: mod_mult_right_eq ac_simps)
    then show "?I k a" using a i frame31_trans by auto
  qed (use i in auto)
  have init: "?I n x" using lt is_i31D [OF x] by simp
  show ?thesis
    unfolding br_i31_to_monty_def
    by (rule ok_bind, rule ok_ld [OF l], unfold mD(1,2), rule ok_for_down [where Inv = ?I, OF init])
      (erule step, simp add: Q)
qed

lemma ct_br_i31_to_monty:
  assumes m: "pub m m'" and x: "pub x x'" and n: "hdr31 (cells m ! 0) n" "n < alen x" "n < alen m"
    and hx: "cells x ! 0 = cells m ! 0"
    and R: "\<And>z z'. pub z z' \<Longrightarrow> alen z = alen x \<Longrightarrow> cells z ! 0 = cells m ! 0 \<Longrightarrow> R z z'"
  shows "ct (br_i31_to_monty x m) (br_i31_to_monty x' m') R"
proof -
  have sm: "shape m m'" using m by (simp add: pub_def)
  have l: "0 < alen m" using n by linarith
  have w: "words31 (cells m ! 0) = n" "words63 (cells m ! 0) = Suc n" using n by (auto simp: hdr31D)
  show ?thesis
    unfolding br_i31_to_monty_def
    by (rule ct_bind, rule ct_ld [OF sm refl l], unfold pubD(2) [OF m] w,
        rule ct_for_down [where Inv = "\<lambda>(_::nat) y y'. pub y y' \<and> alen y = alen x \<and> cells y ! 0 = cells m ! 0"])
      (use m x n hx w R in \<open>auto intro!: ct_br_i31_muladd_small\<close>)
qed

section \<open>Reduction of an integer of any size\<close>

lemma bits31_mono_less: "unat a < unat h \<Longrightarrow> unat h mod 32 \<noteq> 0 \<Longrightarrow> bits31 a < bits31 h"
proof -
  assume lt: "unat a < unat h" and nz: "unat h mod 32 \<noteq> 0"
  define d r where dr: "d = unat h div 32" "r = unat h mod 32"
  define e s where es: "e = unat a div 32" "s = unat a mod 32"
  have h: "unat h = 32 * d + r" "r < 32" "0 < r" using nz by (simp_all add: dr)
  have a: "unat a = 32 * e + s" "s < 32" by (simp_all add: es)
  have "31 * e + s < 31 * d + r"
  proof (cases "e = d")
    case False
    then have "e + 1 \<le> d" using lt h a by linarith
    then show ?thesis using a h by linarith
  qed (use lt h a in linarith)
  then show ?thesis by (simp add: bits31_def dr es)
qed

lemma bits31_words: "hdr31 h n \<Longrightarrow> 0 < n \<Longrightarrow> 31 * (n - 1) < bits31 h"
proof -
  assume hn: "hdr31 h n" "0 < n"
  define d r where dr: "d = unat h div 32" "r = unat h mod 32"
  have h: "unat h = 32 * d + r" "r < 32" by (simp_all add: dr)
  have "n = (if r = 0 then d else d + 1)" using hdr31_words(2) [OF hn(1)] h by auto
  then show ?thesis using hn(2) by (auto simp: bits31_def dr [symmetric])
qed

text \<open>\<open>sized31\<close>: the value fits in the bits that the header announces. The theorem also needs that the header of
  the modulus is not a multiple of 32: \<open>br_i31_reduce\<close> compares the two headers as numbers.\<close>

definition sized31 :: "u32 \<Rightarrow> nat \<Rightarrow> u32 arr \<Rightarrow> bool" where
  "sized31 h n a \<longleftrightarrow> is_i31 h n a \<and> nbits (val31 n a) \<le> bits31 h"

lemma ok_zero_up:
  assumes "k \<le> n" and "n < alen x" and "digits31 (Suc 0) k (cells x)"
    and Q: "\<And>x'. frame31 n x x' \<Longrightarrow> digits31 (Suc 0) n (cells x') \<Longrightarrow> val31 n x' = val31 k x \<Longrightarrow> Q x'"
  shows "ok (for_loop k n (\<lambda>u x. st x (u + 1) 0) x) Q"
proof (rule ok_for_loop [where Inv = "\<lambda>u y. frame31 n x y \<and> digits31 (Suc 0) u (cells y) \<and> val31 u y = val31 k x"])
  fix u y assume u: "k \<le> u" "u < n" and i: "frame31 n x y \<and> digits31 (Suc 0) u (cells y) \<and> val31 u y = val31 k x"
  then have l: "Suc u < alen y" using assms(2) frame31_alen [of n x y] by simp
  have "digits31 (Suc 0) (Suc u) ((cells y)[Suc u := 0])"
    using i l by (auto simp: digits31_def less_Suc_eq nth_list_update)
  then show "ok (st y (u + 1) 0) (\<lambda>y. frame31 n x y \<and> digits31 (Suc 0) (Suc u) (cells y) \<and> val31 (Suc u) y = val31 k x)"
    using i l u by (intro wp) (auto intro: frame31_update)
qed (use assms in auto)

lemma copy_words:
  assumes "off + k \<le> alen a" and "k < alen x" and "\<And>i. off \<le> i \<Longrightarrow> i < off + k \<Longrightarrow> unat (cells a ! i) < B31"
  defines "c \<equiv> splice (cells x) 1 (take k (drop off (cells a)))"
  shows "length c = alen x" and "\<And>i. i = 0 \<or> k < i \<Longrightarrow> c ! i = cells x ! i" and "digits31 (Suc 0) k c"
    and "i31v k c = wsum off k (cells a)"
proof -
  have l: "length (take k (drop off (cells a))) = k" using assms(1) by simp
  show lc: "length c = alen x" unfolding c_def using assms(2) l by (intro length_splice) simp
  show "\<And>i. i = 0 \<or> k < i \<Longrightarrow> c ! i = cells x ! i"
    unfolding c_def using assms(2) l by (intro nth_splice) auto
  have n: "c ! (Suc 0 + j) = cells a ! (off + j)" if "j < k" for j
    unfolding c_def using assms(1,2) l that nth_splice_in [of 1 "take k (drop off (cells a))" "cells x" "Suc j"] by simp
  then show "digits31 (Suc 0) k c" using assms(2,3) lc by (auto simp: digits31_def)
  show "i31v k c = wsum off k (cells a)" using n by (intro wsum_cong) simp
qed


lemma mod_horner: "(q mod M * b + c) mod M = (q * b + c) mod (M :: nat)"
  by (metis mod_add_left_eq mod_mult_left_eq)

lemma ok_br_i31_reduce:
  assumes m: "modulus31 h n m" and n: "0 < n" and h32: "unat h mod 32 \<noteq> 0" and a: "sized31 ha na a" and x: "n < alen x"
    and Q: "\<And>x'. blk x' = blk x \<Longrightarrow> alen x' = alen x \<Longrightarrow> is_i31 h n x' \<Longrightarrow> val31 n x' = val31 na a mod val31 n m \<Longrightarrow> Q x'"
  shows "ok (br_i31_reduce x a m) Q"
proof -
  have m': "is_i31 h n m" and nb: "nbits (val31 n m) = bits31 h" using m by (auto simp: modulus31_def)
  have a': "is_i31 ha na a" and na: "nbits (val31 na a) \<le> bits31 ha" using a by (auto simp: sized31_def)
  note mD = is_i31D [OF m'] and aD = is_i31D [OF a']
  let ?M = "val31 n m"
  have hn: "hdr31 h n" "hdr31 ha na" using m' a' by (simp_all add: is_i31_def)
  have l: "0 < alen m" "0 < alen x" "0 < alen a" using mD(5) x aD(5) by linarith+
  have wn: "n = (unat h + 31) div 32" by (rule hdr31_words(2) [OF hn(1)])
  have h0: "h \<noteq> 0" using h32 by auto
  let ?x = "x\<lparr>cells := (cells x)[0 := h]\<rparr>"
  have small: "ok (do { x \<leftarrow> memcpy ?x 1 a 1 na; for_loop na n (\<lambda>u x. st x (u + 1) 0) x }) Q" if lt: "ha < h"
  proof -
    have "na \<le> n"
      unfolding wn hdr31_words(2) [OF hn(2)] using lt by (intro div_le_mono) (simp add: word_less_nat_alt)
    have "bits31 ha < bits31 h" using lt h32 by (intro bits31_mono_less) (simp_all add: word_less_nat_alt)
    then have "nbits (val31 na a) \<le> bits31 h - 1" using na by linarith
    then have "val31 na a < 2 ^ (bits31 h - 1)" by (simp only: nbits_le_iff)
    moreover have "2 ^ (bits31 h - 1) \<le> ?M" using nb nbits_le_iff [of ?M "bits31 h - 1"] \<open>bits31 ha < bits31 h\<close> by (simp add: not_less [symmetric])
    ultimately have ltm: "val31 na a < ?M" by linarith
    let ?c = "splice (cells ?x) 1 (take na (drop 1 (cells a)))"
    have c: "length ?c = alen x" "\<And>i. i = 0 \<or> na < i \<Longrightarrow> ?c ! i = cells ?x ! i" "digits31 (Suc 0) na ?c" "i31v na ?c = val31 na a"
      using copy_words [of 1 na a ?x] aD(5) x \<open>na \<le> n\<close> digits31_1 [OF aD(4)] by simp_all
    show ?thesis
    proof (rule ok_bind, rule ok_memcpy, goal_cases)
      case 3
      show ?case
      proof (rule ok_zero_up [OF \<open>na \<le> n\<close>])
        fix y assume y: "frame31 n (x\<lparr>cells := (cells x)[0 := h], cells := ?c\<rparr>) y" "digits31 (Suc 0) n (cells y)"
          "val31 n y = val31 na (x\<lparr>cells := (cells x)[0 := h], cells := ?c\<rparr>)"
        have "cells y ! 0 = h" using frame31_head [OF y(1)] c(2) [of 0] l(2) by simp
        then have "is_i31 h n y" using y(2) hn by (simp add: is_i31_def)
        then show "Q y" using y c ltm frame31_alen [OF y(1)] by (intro Q) (auto simp: frame31_def)
      qed (use c x in simp_all)
    qed (use x \<open>na \<le> n\<close> aD(5) in simp_all)
  qed
  have big: "ok (do { x \<leftarrow> memcpy ?x 1 a (2 + (na - n)) (n - 1); x \<leftarrow> st x n 0;
      for_down (1 + na - n) (\<lambda>u x. do { au \<leftarrow> ld a (Suc u); br_i31_muladd_small x au m }) x }) Q" if ge: "\<not> ha < h"
  proof -
    have nna: "n \<le> na"
      unfolding wn hdr31_words(2) [OF hn(2)] using ge by (intro div_le_mono) (simp add: word_less_nat_alt)
    obtain k where k: "n = Suc k" using n by (cases n) auto
    obtain j where j: "na = k + Suc j" using nna by (auto simp: k le_iff_add)
    have "2 ^ (31 * k) \<le> ?M"
      using nb bits31_words [OF hn(1) n] nbits_le_iff [of ?M "31 * k"] by (simp add: k)
    then have kM: "B31 ^ k \<le> ?M" using power31 [of k 0] by simp
    have M0: "0 < ?M" by (rule less_le_trans [OF _ kM]) simp
    let ?off = "2 + (na - n)"
    have off: "?off = Suc 0 + Suc j" by (simp add: j k)
    let ?c = "splice (cells ?x) 1 (take k (drop ?off (cells a)))"
    have dg: "unat (cells a ! i) < B31" if "?off \<le> i" "i < ?off + k" for i
      using that j k by (intro digits31_1 [OF aD(4)]) auto
    have c: "length ?c = alen x" "\<And>i. i = 0 \<or> k < i \<Longrightarrow> ?c ! i = cells ?x ! i" "digits31 (Suc 0) k ?c"
      "i31v k ?c = wsum ?off k (cells a)"
      using copy_words [of ?off k a ?x] aD(5) x j k dg by simp_all
    have top: "wsum ?off k (cells a) = val31 na a div B31 ^ Suc j"
      using wsum_div [of "Suc 0" "Suc j" k "cells a"] aD(4) unfolding off by (simp add: j add.commute)
    let ?y = "x\<lparr>cells := ?c[n := 0]\<rparr>"
    have ly: "alen ?y = alen x" using c(1) by simp
    have y: "is_i31 h n ?y" "val31 n ?y = val31 na a div B31 ^ Suc j"
    proof -
      have "digits31 (Suc 0) n (?c[n := 0])"
        using c(1,3) x by (auto simp: k digits31_def less_Suc_eq nth_list_update)
      moreover have "?c ! 0 = h" using c(2) [of 0] l(2) by simp
      ultimately show "is_i31 h n ?y" using hn k by (simp add: is_i31_def)
      show "val31 n ?y = val31 na a div B31 ^ Suc j" using c x top by (simp add: k)
    qed
    let ?I = "\<lambda>u w. u \<le> Suc j \<and> blk w = blk x \<and> alen w = alen x \<and> is_i31 h n w \<and> val31 n w = (val31 na a div B31 ^ u) mod ?M"
    have "val31 n ?y < B31 ^ k" unfolding y(2) top [symmetric] c(4) [symmetric] by (rule wsum_lt [OF c(3)])
    then have init: "?I (1 + na - n) ?y" using y ly kM by (auto simp: j k)
    have step: "ok (do { au \<leftarrow> ld a (Suc u); br_i31_muladd_small w au m }) (?I u)" if i: "?I (Suc u) w" for u w
    proof -
      have u: "u < na" using i j by auto
      have lu: "Suc u < alen a" using u aD(5) by simp
      have ub: "unat (cells a ! Suc u) < B31" using u by (intro digits31_1 [OF aD(4)]) auto
      have dv: "val31 na a div B31 ^ u = val31 na a div B31 ^ Suc u * B31 + unat (cells a ! Suc u)"
      proof -
        obtain e where e: "na = u + Suc e" using u by (metis add_Suc_right less_imp_Suc_add)
        have "val31 na a div B31 ^ u = wsum (Suc 0 + u) (Suc e) (cells a)" "val31 na a div B31 ^ Suc u = wsum (Suc 0 + Suc u) e (cells a)"
          using wsum_div [of "Suc 0" u "Suc e" "cells a"] wsum_div [of "Suc 0" "Suc u" e "cells a"] aD(4) by (simp_all add: e)
        then show ?thesis by (simp add: wsum_head)
      qed
      have wlt: "val31 n w < ?M" using i M0 by simp
      show ?thesis
      proof (rule ok_bind, rule ok_ld [OF lu], rule ok_br_i31_muladd_small [OF m _ wlt ub])
        show "is_i31 h n w" using i by simp
        fix b assume b: "frame31 n w b" "digits31 (Suc 0) n (cells b)" "val31 n b = (val31 n w * B31 + unat (cells a ! Suc u)) mod ?M"
        have "val31 n b = (val31 na a div B31 ^ u) mod ?M" 
          unfolding b(3) dv conjunct2 [OF conjunct2 [OF conjunct2 [OF conjunct2 [OF i]]]] by (rule mod_horner)
        then show "?I u b" using i b(1,2) by (auto simp: frame31_def is_i31_def)
      qed
    qed
    have down: "ok (for_down (1 + na - n) (\<lambda>u x. do { au \<leftarrow> ld a (Suc u); br_i31_muladd_small x au m }) ?y) Q"
      by (rule ok_for_down [where Inv = ?I, OF init]) (rule step, assumption, auto intro!: Q)
    show ?thesis
    proof (rule ok_bind, rule ok_memcpy, goal_cases)
      case 3
      show ?case
        by (rule ok_bind, rule ok_st) (use c(1) x k down in simp_all)
    qed (use x k aD(5) j in simp_all)
  qed
  show ?thesis
    unfolding br_i31_reduce_def Let_def
    by (rule ok_bind, rule ok_ld [OF l(1)], unfold mD(1,2), rule ok_bind, rule ok_st [OF l(2)], rule ok_branch,
        simp add: h0, rule ok_bind, rule ok_ld [OF l(3)], unfold aD(1,2), rule ok_branch, erule small, erule big)
qed

section \<open>Properties\<close>

lemma mod_cancel:
  fixes a b R M :: nat
  assumes "(a * R) mod M = (b * R) mod M" and "coprime R M"
  shows "a mod M = b mod M"
proof -
  have "int M dvd (int a - int b) * int R"
    using assms(1) by (metis left_diff_distrib mod_eq_dvd_iff of_nat_mod of_nat_mult)
  moreover have "coprime (int M) (int R)" using assms(2) by (simp add: coprime_commute)
  ultimately have "int M dvd int a - int b" by (simp add: coprime_dvd_mult_left_iff)
  then have "int a mod int M = int b mod int M" by (simp add: mod_eq_dvd_iff)
  then show ?thesis by (metis of_nat_eq_iff of_nat_mod)
qed

lemma coprime_B31: "odd M \<Longrightarrow> coprime (B31 ^ n) M"
proof -
  assume "odd M"
  then have "coprime (2 ^ (31 * n)) M" by (simp add: coprime_power_left_iff)
  moreover have "(2::nat) ^ (31 * n) = B31 ^ n" using power31 [of n 0] by simp
  ultimately show ?thesis by (simp only:)
qed

lemma nbits_eqI: "2 ^ k \<le> m \<Longrightarrow> m < 2 ^ Suc k \<Longrightarrow> nbits m = Suc k"
  using nbits_le_iff [of m k] nbits_le_iff [of m "Suc k"] by linarith

lemma i31v_2: "i31v 2 xs = unat (xs ! 1) + B31 * unat (xs ! 2)"
  by (simp add: wsum_def numeral_2_eq_2)

lemma digits31_2: "digits31 (Suc 0) 2 xs \<longleftrightarrow> 3 \<le> length xs \<and> unat (xs ! 1) < B31 \<and> unat (xs ! 2) < B31"
proof -
  have "(\<forall>j<2. unat (xs ! (Suc 0 + j)) < B31) \<longleftrightarrow> unat (xs ! 1) < B31 \<and> unat (xs ! 2) < B31"
    by (auto simp only: less_2_cases_iff) (simp_all add: numeral_2_eq_2)
  then show ?thesis by (auto simp: digits31_def)
qed

text \<open>The witnesses work with the modulus \<open>2^31 + 11\<close> of two words.\<close>

abbreviation ex_m :: "u32 arr" where "ex_m \<equiv> \<lparr>blk = 1, cells = [33, 11, 1]\<rparr>"
abbreviation ex_x :: "u32 arr" where "ex_x \<equiv> \<lparr>blk = 2, cells = [33, 3, 1]\<rparr>"
abbreviation ex_t :: "nat \<Rightarrow> u32 arr" where "ex_t b \<equiv> \<lparr>blk = b, cells = [0, 0, 0]\<rparr>"

lemma ex_vals: "i31v 2 [33, 11, 1] = 2147483659" "i31v 2 [33, 3, 1] = 2147483651"
  by (simp_all add: i31v_2)

lemma ex_modulus: "modulus31 33 2 ex_m" "is_i31 33 2 ex_x"
proof -
  have "nbits 2147483659 = 32" using nbits_eqI [of 31 2147483659] by simp
  then show "modulus31 33 2 ex_m" "is_i31 33 2 ex_x"
    by (simp_all add: modulus31_def is_i31_def ex_vals digits31_2 hdr31_def bits31_def)
qed

lemma ex_inv: "(unat (br_i31_ninv31 11) * unat (cells ex_m ! 1) + 1) mod B31 = 0"
  using ninv31_correct(1) [of 11] by simp

text \<open>C14. \<open>br_i31_muladd_small\<close> is exact: \<open>x\<close> becomes \<open>(x * 2^31 + z) mod m\<close> although the quotient is only estimated, in both the
  one-word and the general case, and nothing but the value words of \<open>x\<close> changes.\<close>

theorem br_i31_muladd_small_correct:
  assumes "modulus31 h n m" and "is_i31 h n x" and "val31 n x < val31 n m" and "unat z < B31"
  shows "ok (br_i31_muladd_small x z m) (\<lambda>x'. frame31 n x x' \<and> digits31 (Suc 0) n (cells x') \<and>
    val31 n x' = (val31 n x * 2 ^ 31 + unat z) mod val31 n m)"
  using assms by (intro ok_br_i31_muladd_small) auto

theorem br_i31_muladd_small_correct_witness:
  "ok (br_i31_muladd_small ex_x 9 ex_m) (\<lambda>x'. val31 2 x' = (2147483651 * 2 ^ 31 + 9) mod 2147483659)"
  using br_i31_muladd_small_correct [OF ex_modulus, of 9] by (rule ok_weaken) (auto simp: ex_vals)

text \<open>C15. \<open>br_i31_reduce\<close> leaves \<open>a mod m\<close> in \<open>x\<close>, under the header of \<open>m\<close>, for an \<open>a\<close> of any size, provided the header of \<open>m\<close> is not a multiple of 32
  (as \<open>br_i31_bit_length\<close> guarantees).\<close>

theorem br_i31_reduce_correct:
  assumes "modulus31 h n m" and "0 < n" and "unat h mod 32 \<noteq> 0" and "sized31 ha na a" and "n < alen x"
  shows "ok (br_i31_reduce x a m) (\<lambda>x'. blk x' = blk x \<and> alen x' = alen x \<and> is_i31 h n x' \<and> val31 n x' = val31 na a mod val31 n m)"
  using assms by (intro ok_br_i31_reduce) auto

theorem br_i31_reduce_correct_witness:
  "ok (br_i31_reduce (ex_t 3) ex_x ex_m) (\<lambda>x'. val31 2 x' = 2147483651)"
proof -
  have "nbits 2147483651 = 32" using nbits_eqI [of 31 2147483651] by simp
  then have "sized31 33 2 ex_x" using ex_modulus(2) by (simp add: sized31_def ex_vals bits31_def)
  from br_i31_reduce_correct [OF ex_modulus(1) _ _ this, of "ex_t 3"] show ?thesis
    by (auto simp: ex_vals intro: ok_weaken)
qed

text \<open>C16. Conversion to Montgomery representation and back is the identity on the integers below an odd modulus.\<close>

theorem montgomery_roundtrip:
  assumes m: "modulus31 h n m" and x: "is_i31 h n x" and lt: "val31 n x < val31 n m" and odd: "odd (val31 n m)"
    and inv: "(unat m0i * unat (cells m ! 1) + 1) mod B31 = 0"
  shows "ok (do { x \<leftarrow> br_i31_to_monty x m; br_i31_from_monty x m m0i }) (\<lambda>x'. is_i31 h n x' \<and> val31 n x' = val31 n x)"
proof (rule ok_bind, rule ok_br_i31_to_monty [OF m x lt])
  fix y assume y: "frame31 n x y" "digits31 (Suc 0) n (cells y)" "val31 n y = (val31 n x * B31 ^ n) mod val31 n m"
  have n: "0 < n" using lt by (intro gr0I) simp
  have i: "is_i31 h n y" by (rule is_i31_frame [OF x y(1,2)])
  have ly: "val31 n y < val31 n m" using y(3) lt by simp
  show "ok (br_i31_from_monty y m m0i) (\<lambda>x'. is_i31 h n x' \<and> val31 n x' = val31 n x)"
  proof (rule ok_br_i31_from_monty [OF _ i n inv ly])
    fix z assume z: "frame31 n y z" "digits31 (Suc 0) n (cells z)" "val31 n z < val31 n m"
      "(val31 n z * B31 ^ n) mod val31 n m = val31 n y"
    have "val31 n z mod val31 n m = val31 n x mod val31 n m"
      by (rule mod_cancel [OF trans [OF z(4) y(3)] coprime_B31 [OF odd]])
    then show "is_i31 h n z \<and> val31 n z = val31 n x" using z lt is_i31_frame [OF i] by simp
  qed (use m in \<open>simp add: modulus31_def\<close>)
qed

theorem montgomery_roundtrip_witness:
  "ok (do { x \<leftarrow> br_i31_to_monty ex_x ex_m; br_i31_from_monty x ex_m (br_i31_ninv31 11) }) (\<lambda>x'. val31 2 x' = 2147483651)"
  using montgomery_roundtrip [OF ex_modulus _ _ ex_inv] by (auto simp: ex_vals intro: ok_weaken)

text \<open>C13. \<open>br_i31_montymul\<close> computes the Montgomery product: \<open>d * 2^(31 n) = x * y\<close> modulo \<open>m\<close>, with \<open>d < m\<close> and the header of \<open>m\<close>, for
  an unrestricted \<open>x\<close> and a \<open>y\<close> below \<open>m\<close>.\<close>

theorem br_i31_montymul_correct:
  assumes "is_i31 h n m" and "digits31 (Suc 0) n (cells x)" and "digits31 (Suc 0) n (cells y)" and "n < alen d"
    and "val31 n y < val31 n m" and "(unat m0i * unat (cells m ! 1) + 1) mod B31 = 0"
  shows "ok (br_i31_montymul d x y m m0i) (\<lambda>d'. is_i31 h n d' \<and> val31 n d' < val31 n m \<and>
    (val31 n d' * 2 ^ (31 * n)) mod val31 n m = (val31 n x * val31 n y) mod val31 n m)"
proof -
  have "(2 :: nat) ^ (31 * n) = B31 ^ n" using power31 [of n 0] by simp
  then show ?thesis using assms by (intro ok_br_i31_montymul) auto
qed

theorem br_i31_montymul_correct_witness:
  "ok (br_i31_montymul (ex_t 4) ex_x ex_x ex_m (br_i31_ninv31 11)) (\<lambda>d. val31 2 d < 2147483659)"
  using br_i31_montymul_correct [of 33 2 ex_m ex_x ex_x "ex_t 4" "br_i31_ninv31 11"] ex_inv ex_modulus
  by (auto simp: ex_vals modulus31_def digits31_2 intro: ok_weaken)

end
