(* ===== verification/Bytes.thy ===== *)
theory Bytes
  imports Ct_Prims
begin

text \<open>
  Bytes: big-endian strings as numbers, and the encoders and decoders of \<^verbatim>\<open>inner.h\<close> and
  \<^verbatim>\<open>src/codec/{enc,dec}{16,32,64}{le,be}.c\<close> (portable versions), as functions on byte lists.
\<close>

section \<open>Big-endian strings as numbers\<close>

definition be_val :: "u8 list \<Rightarrow> nat" where
  "be_val bs = foldl (\<lambda>a b. a * 256 + unat b) 0 bs"

lemma be_val_Nil [simp]: "be_val [] = 0"
  by (simp add: be_val_def)

lemma be_val_snoc: "be_val (bs @ [b]) = be_val bs * 256 + unat b"
  by (simp add: be_val_def)

lemma unat_lt8: "unat (b :: u8) < 256"
proof -
  have "unat b < 2 ^ LENGTH(8)" by (rule unsigned_less)
  then show ?thesis by simp
qed

lemma be_val_less: "be_val bs < 256 ^ length bs"
proof (induction bs rule: rev_induct)
  case (snoc b bs)
  have "(be_val bs + 1) * 256 \<le> 256 ^ length bs * 256" using snoc by (intro mult_le_mono1) simp
  then show ?case using unat_lt8 [of b] by (simp add: be_val_snoc)
qed simp

lemma bit_byte: "bit (n * 256 + unat (b :: u8)) k = (if k < 8 then bit b k else bit n (k - 8))"
proof (cases "k < 8")
  case True
  then obtain j where j: "8 = k + Suc j" by (metis add_Suc_right less_imp_Suc_add)
  have "(256 :: nat) = 2 ^ (k + Suc j)" unfolding j [symmetric] by simp
  then have p: "(256 :: nat) = 2 ^ k * (2 * 2 ^ j)" by (simp add: power_add)
  have "n * 256 + unat b = unat b + 2 ^ k * (2 * (2 ^ j * n))" unfolding p by (simp only: ac_simps)
  then have "(n * 256 + unat b) div 2 ^ k = (unat b + 2 ^ k * (2 * (2 ^ j * n))) div 2 ^ k" by (rule arg_cong)
  also have "\<dots> = unat b div 2 ^ k + 2 * (2 ^ j * n)" by simp
  finally have "(n * 256 + unat b) div 2 ^ k = unat b div 2 ^ k + 2 * (2 ^ j * n)" .
  then have "bit (n * 256 + unat b) k = bit (unat b) k" by (simp add: bit_iff_odd)
  then show ?thesis using True by (simp add: bit_unsigned_iff)
next
  case False
  then obtain j where j: "k = 8 + j" by (metis le_Suc_ex not_less)
  have "(n * 256 + unat b) div 2 ^ k = (n * 256 + unat b) div 256 div 2 ^ j" by (simp add: j power_add div_mult2_eq)
  also have "\<dots> = n div 2 ^ j" using unat_lt8 [of b] by simp
  finally show ?thesis by (simp add: bit_iff_odd j)
qed

lemma bit_be_val:
  "k < 8 * length bs \<Longrightarrow> bit (be_val bs) k = bit (bs ! (length bs - 1 - k div 8)) (k mod 8)"
proof (induction bs arbitrary: k rule: rev_induct)
  case (snoc b bs)
  show ?case
  proof (cases "k < 8")
    case False
    then obtain j where j: "k = 8 + j" by (metis le_Suc_ex not_less)
    then have "j < 8 * length bs" using snoc.prems by simp
    moreover have "(8 + j) div 8 = Suc (j div 8)" "(8 + j) mod 8 = j mod 8" by simp_all
    moreover have "length bs - Suc (j div 8) < length bs" using \<open>j < 8 * length bs\<close> by simp
    ultimately show ?thesis using snoc.IH [of j] by (simp add: be_val_snoc bit_byte j nth_append)
  qed (simp add: be_val_snoc bit_byte)
qed simp

lemma be_val_Cons: "be_val (b # bs) = unat b * 256 ^ length bs + be_val bs"
proof (induction bs rule: rev_induct)
  case (snoc c bs)
  then show ?case using be_val_snoc [of "b # bs" c] by (simp add: be_val_snoc algebra_simps)
qed (simp add: be_val_def)

lemma be_val_append: "be_val (xs @ ys) = be_val xs * 256 ^ length ys + be_val ys"
  by (induction xs) (simp_all add: be_val_Cons power_add algebra_simps)

lemma pow256: "(256 :: nat) ^ k = 2 ^ (8 * k)"
  by (simp add: power_mult)

text \<open>\<open>be_byte bs u\<close>: byte \<open>u\<close> of the string from the right, zero beyond its end.\<close>

definition be_byte :: "u8 list \<Rightarrow> nat \<Rightarrow> u8" where
  "be_byte bs u = (if u < length bs then bs ! (length bs - 1 - u) else 0)"

lemma be_val_mod: "be_val bs mod 256 ^ Suc u = be_val bs mod 256 ^ u + unat (be_byte bs u) * 256 ^ u"
proof (cases "u < length bs")
  case True
  define xs ys where s: "xs = take (length bs - 1 - u) bs" "ys = drop (length bs - u) bs"
  have l: "length ys = u" using True by (simp add: s)
  have "bs = xs @ be_byte bs u # ys"
    using True id_take_nth_drop [of "length bs - 1 - u" bs] by (simp add: be_byte_def s Suc_diff_Suc)
  then have "be_val bs = be_val xs * 256 ^ Suc u + unat (be_byte bs u) * 256 ^ u + be_val ys"
    by (metis be_val_append be_val_Cons l length_Cons add.assoc)
  moreover have y: "be_val ys < 256 ^ u" using be_val_less [of ys] l by simp
  moreover have "unat (be_byte bs u) * 256 ^ u + be_val ys < 256 ^ Suc u"
  proof -
    have "unat (be_byte bs u) * 256 ^ u + be_val ys < (unat (be_byte bs u) + 1) * 256 ^ u" using y by simp
    also have "\<dots> \<le> 256 * 256 ^ u" using unat_lt8 [of "be_byte bs u"] by (intro mult_le_mono1) simp
    finally show ?thesis by simp
  qed
  moreover define R where "R = unat (be_byte bs u) * 256 ^ u + be_val ys"
  ultimately have V: "be_val bs = R + 256 ^ Suc u * be_val xs" and R: "R < 256 ^ Suc u" by (simp_all add: mult.commute)
  have "be_val bs mod 256 ^ Suc u = R" unfolding V using R by (simp only: mod_mult_self2 mod_less)
  moreover have "be_val bs mod 256 ^ u = be_val ys"
  proof -
    have "be_val bs = be_val ys + 256 ^ u * (256 * be_val xs + unat (be_byte bs u))" unfolding V R_def by (simp add: algebra_simps)
    then show ?thesis using y by (simp only: mod_mult_self2 mod_less)
  qed
  ultimately show ?thesis by (simp add: R_def)
next
  case False
  then have "be_val bs < 256 ^ u"
    by (intro less_le_trans [OF be_val_less power_increasing]) simp_all
  then have "be_val bs mod 256 ^ u = be_val bs" "be_val bs mod 256 ^ Suc u = be_val bs" by simp_all
  then show ?thesis using False by (simp add: be_byte_def)
qed


section \<open>Encoders and decoders of one value (inner.h)\<close>

definition br_enc16le :: "u16 \<Rightarrow> u8 list" where
  "br_enc16le x = [ucast x, ucast (shr x 8)]"

definition br_enc16be :: "u16 \<Rightarrow> u8 list" where
  "br_enc16be x = [ucast (shr x 8), ucast x]"

definition br_dec16le :: "u8 list \<Rightarrow> u16" where
  "br_dec16le buf = ucast (buf ! 0) OR shl (ucast (buf ! 1)) 8"

definition br_dec16be :: "u8 list \<Rightarrow> u16" where
  "br_dec16be buf = shl (ucast (buf ! 0)) 8 OR ucast (buf ! 1)"

definition br_enc32le :: "u32 \<Rightarrow> u8 list" where
  "br_enc32le x = [ucast x, ucast (shr x 8), ucast (shr x 16), ucast (shr x 24)]"

definition br_enc32be :: "u32 \<Rightarrow> u8 list" where
  "br_enc32be x = [ucast (shr x 24), ucast (shr x 16), ucast (shr x 8), ucast x]"

definition br_dec32le :: "u8 list \<Rightarrow> u32" where
  "br_dec32le buf = ucast (buf ! 0) OR shl (ucast (buf ! 1)) 8 OR shl (ucast (buf ! 2)) 16 OR shl (ucast (buf ! 3)) 24"

definition br_dec32be :: "u8 list \<Rightarrow> u32" where
  "br_dec32be buf = shl (ucast (buf ! 0)) 24 OR shl (ucast (buf ! 1)) 16 OR shl (ucast (buf ! 2)) 8 OR ucast (buf ! 3)"

definition br_enc64le :: "u64 \<Rightarrow> u8 list" where
  "br_enc64le x = br_enc32le (ucast x) @ br_enc32le (ucast (shr x 32))"

definition br_enc64be :: "u64 \<Rightarrow> u8 list" where
  "br_enc64be x = br_enc32be (ucast (shr x 32)) @ br_enc32be (ucast x)"

definition br_dec64le :: "u8 list \<Rightarrow> u64" where
  "br_dec64le buf = ucast (br_dec32le buf) OR shl (ucast (br_dec32le (drop 4 buf))) 32"

definition br_dec64be :: "u8 list \<Rightarrow> u64" where
  "br_dec64be buf = shl (ucast (br_dec32be buf)) 32 OR ucast (br_dec32be (drop 4 buf))"

section \<open>Ranges (src/codec/enc*.c, dec*.c)\<close>

text \<open>\<open>while (num -- > 0)\<close> over the values; the functions differ in the width only.\<close>

definition br_range_enc16le :: "u16 list \<Rightarrow> u8 list" where "br_range_enc16le v = concat (map br_enc16le v)"
definition br_range_enc16be :: "u16 list \<Rightarrow> u8 list" where "br_range_enc16be v = concat (map br_enc16be v)"
definition br_range_enc32le :: "u32 list \<Rightarrow> u8 list" where "br_range_enc32le v = concat (map br_enc32le v)"
definition br_range_enc32be :: "u32 list \<Rightarrow> u8 list" where "br_range_enc32be v = concat (map br_enc32be v)"
definition br_range_enc64le :: "u64 list \<Rightarrow> u8 list" where "br_range_enc64le v = concat (map br_enc64le v)"
definition br_range_enc64be :: "u64 list \<Rightarrow> u8 list" where "br_range_enc64be v = concat (map br_enc64be v)"

primrec br_range_dec16le :: "nat \<Rightarrow> u8 list \<Rightarrow> u16 list" where
  "br_range_dec16le 0 src = []"
| "br_range_dec16le (Suc num) src = br_dec16le src # br_range_dec16le num (drop 2 src)"

primrec br_range_dec16be :: "nat \<Rightarrow> u8 list \<Rightarrow> u16 list" where
  "br_range_dec16be 0 src = []"
| "br_range_dec16be (Suc num) src = br_dec16be src # br_range_dec16be num (drop 2 src)"

primrec br_range_dec32le :: "nat \<Rightarrow> u8 list \<Rightarrow> u32 list" where
  "br_range_dec32le 0 src = []"
| "br_range_dec32le (Suc num) src = br_dec32le src # br_range_dec32le num (drop 4 src)"

primrec br_range_dec32be :: "nat \<Rightarrow> u8 list \<Rightarrow> u32 list" where
  "br_range_dec32be 0 src = []"
| "br_range_dec32be (Suc num) src = br_dec32be src # br_range_dec32be num (drop 4 src)"

primrec br_range_dec64le :: "nat \<Rightarrow> u8 list \<Rightarrow> u64 list" where
  "br_range_dec64le 0 src = []"
| "br_range_dec64le (Suc num) src = br_dec64le src # br_range_dec64le num (drop 8 src)"

primrec br_range_dec64be :: "nat \<Rightarrow> u8 list \<Rightarrow> u64 list" where
  "br_range_dec64be 0 src = []"
| "br_range_dec64be (Suc num) src = br_dec64be src # br_range_dec64be num (drop 8 src)"

section \<open>Round trips\<close>

lemma length_enc [simp]:
  "length (br_enc16le h) = 2" "length (br_enc16be h) = 2" "length (br_enc32le w) = 4" "length (br_enc32be w) = 4"
  "length (br_enc64le q) = 8" "length (br_enc64be q) = 8"
  by (simp_all add: br_enc16le_def br_enc16be_def br_enc32le_def br_enc32be_def br_enc64le_def br_enc64be_def)

lemma dec_enc16 [simp]: "br_dec16le (br_enc16le x @ r) = x" "br_dec16be (br_enc16be x @ r) = x"
  by (auto simp: br_dec16le_def br_enc16le_def br_dec16be_def br_enc16be_def bit_simps intro!: bit_word_eqI)

lemma dec_enc32le [simp]: "br_dec32le (br_enc32le x @ r) = x"
proof (rule bit_word_eqI)
  fix n assume "n < LENGTH(32)"
  then show "bit (br_dec32le (br_enc32le x @ r)) n = bit x n"
    unfolding br_dec32le_def br_enc32le_def
    by (cases "n < 8"; cases "n < 16"; cases "n < 24") (auto simp: bit_simps)
qed

lemma dec_enc32be [simp]: "br_dec32be (br_enc32be x @ r) = x"
proof (rule bit_word_eqI)
  fix n assume "n < LENGTH(32)"
  then show "bit (br_dec32be (br_enc32be x @ r)) n = bit x n"
    unfolding br_dec32be_def br_enc32be_def
    by (cases "n < 8"; cases "n < 16"; cases "n < 24") (auto simp: bit_simps)
qed

lemma join64: "shl (ucast (ucast (shr x 32) :: u32)) 32 OR ucast (ucast x :: u32) = (x :: u64)"
proof (rule bit_word_eqI)
  fix n assume "n < LENGTH(64)"
  then show "bit (shl (ucast (ucast (shr x 32) :: u32)) 32 OR ucast (ucast x :: u32) :: u64) n = bit x n"
    by (cases "n < 32") (auto simp: bit_simps)
qed

lemma dec_enc64 [simp]: "br_dec64le (br_enc64le x @ r) = x" "br_dec64be (br_enc64be x @ r) = x"
  using join64 [of x] by (simp_all add: br_dec64le_def br_enc64le_def br_dec64be_def br_enc64be_def or.commute)

lemma range_dec_enc16:
  "br_range_dec16le (length v) (br_range_enc16le v) = v" "br_range_dec16be (length v) (br_range_enc16be v) = v"
  unfolding br_range_enc16le_def br_range_enc16be_def by (induction v) simp_all

lemma range_dec_enc32:
  "br_range_dec32le (length v) (br_range_enc32le v) = v" "br_range_dec32be (length v) (br_range_enc32be v) = v"
  unfolding br_range_enc32le_def br_range_enc32be_def by (induction v) simp_all

lemma range_dec_enc64:
  "br_range_dec64le (length v) (br_range_enc64le v) = v" "br_range_dec64be (length v) (br_range_enc64be v) = v"
  unfolding br_range_enc64le_def br_range_enc64be_def by (induction v) simp_all

lemma horner256: "(n :: nat) = 256 * p + a \<Longrightarrow> p = 256 * q + b \<Longrightarrow> q = 256 * r + c \<Longrightarrow> r * 16777216 + c * 65536 + b * 256 + a = n"
  by simp

lemma be_val_enc32be: "be_val (br_enc32be x) = unat x"
proof -
  have b: "unat (ucast w :: u8) = unat w mod 256" for w :: u32
    by (simp add: unsigned_ucast_eq take_bit_eq_mod)
  have "unat x div 16777216 mod 256 = unat x div 16777216" using unat_lt32 [of x] by simp
  moreover have "n div 16777216 * 16777216 + n div 65536 mod 256 * 65536 + n div 256 mod 256 * 256 + n mod 256 = n" for n :: nat
  proof -
    define p q where "p = n div 256" and "q = p div 256"
    have d: "n div 65536 = q" "n div 16777216 = q div 256" by (simp_all add: p_def q_def div_mult2_eq [symmetric])
    have "n = 256 * p + n mod 256" "p = 256 * q + p mod 256" "q = 256 * (q div 256) + q mod 256" by (simp_all add: p_def q_def)
    then have "q div 256 * 16777216 + q mod 256 * 65536 + p mod 256 * 256 + n mod 256 = n"
      by (rule horner256)
    then show ?thesis unfolding d p_def [symmetric] .
  qed
  moreover have "be_val (br_enc32be x) = ((unat x div 16777216 mod 256 * 256 + unat x div 65536 mod 256) * 256
      + unat x div 256 mod 256) * 256 + unat x mod 256"
    by (simp add: br_enc32be_def be_val_def b unat_drop_bit)
  moreover have "((a * 256 + b) * 256 + c) * 256 + d = a * 16777216 + b * 65536 + c * 256 + d" for a b c d :: nat by simp
  ultimately show ?thesis by (simp only:)
qed

end
