(* ===== verification/I31_Modpow.thy ===== *)
theory I31_Modpow
  imports I31_Muladd Bytes
begin

text \<open>
  Modular exponentiation, \<^verbatim>\<open>src/int/i31_modpow.c\<close>: the constant-time \<open>br_i31_modpow\<close>, the two
  variants with a leaky conditional copy, and the three variants with fences around the copy.
  The six functions share everything but the copy. \<open>modpow_loop\<close> is their common loop, with the
  copy a parameter; the locales \<open>cond_copy\<close>, \<open>ct_copy\<close> and \<open>leaky_copy\<close> are what it relies on.
\<close>

section \<open>Operations\<close>

text \<open>The destination of the copy is the array \<open>x\<close> alone, or \<open>x\<close> with the dummy array \<open>r\<close> of the
  second variant: a state \<open>'s\<close> with a selector \<open>sel\<close> for \<open>x\<close>.\<close>

definition exp_bit :: "u8 arr \<Rightarrow> nat \<Rightarrow> nat \<Rightarrow> u32 cm" where
  "exp_bit e elen k = do {
     b \<leftarrow> ld e (elen - 1 - k div 8);
     ret (shr (ucast b) (k mod 8) AND 1) }"

definition modpow_round :: "('s \<Rightarrow> u32 arr) \<Rightarrow> (u32 \<Rightarrow> 's \<Rightarrow> u32 arr \<Rightarrow> nat \<Rightarrow> 's cm) \<Rightarrow> u8 arr \<Rightarrow> nat \<Rightarrow> u32 arr \<Rightarrow> u32 \<Rightarrow> nat \<Rightarrow>
    nat \<Rightarrow> 's \<times> u32 arr \<times> u32 arr \<Rightarrow> ('s \<times> u32 arr \<times> u32 arr) cm" where
  "modpow_round sel copy e elen m m0i mlen k = (\<lambda>(s, t1, t2). do {
     ctl \<leftarrow> exp_bit e elen k;
     t2 \<leftarrow> br_i31_montymul t2 (sel s) t1 m m0i;
     s \<leftarrow> copy ctl s t2 mlen;
     t2 \<leftarrow> br_i31_montymul t2 t1 t1 m m0i;
     t1 \<leftarrow> memcpy32 t1 t2 mlen;
     ret (s, t1, t2) })"

definition modpow_loop :: "('s \<Rightarrow> u32 arr) \<Rightarrow> (u32 \<Rightarrow> 's \<Rightarrow> u32 arr \<Rightarrow> nat \<Rightarrow> 's cm) \<Rightarrow> u8 arr \<Rightarrow> nat \<Rightarrow> u32 arr \<Rightarrow> u32 \<Rightarrow> nat \<Rightarrow>
    's \<times> u32 arr \<times> u32 arr \<Rightarrow> ('s \<times> u32 arr \<times> u32 arr) cm" where
  "modpow_loop sel copy e elen m m0i mlen =
     for_loop 0 (unat (shl (of_nat elen) 3 :: u32)) (modpow_round sel copy e elen m m0i mlen)"

text \<open>The lines before the loop: \<open>t1\<close> is \<open>x\<close> in Montgomery representation and \<open>x\<close> is 1; the third
  component is \<open>mlen\<close>, the size of the modulus in bytes.\<close>

definition modpow_init :: "u32 arr \<Rightarrow> u32 arr \<Rightarrow> u32 arr \<Rightarrow> (u32 arr \<times> u32 arr \<times> nat) cm" where
  "modpow_init x m t1 = do {
     m0 \<leftarrow> ld m 0;
     let mlen = words63 m0 * 4;
     t1 \<leftarrow> memcpy32 t1 x mlen;
     t1 \<leftarrow> br_i31_to_monty t1 m;
     x \<leftarrow> br_i31_zero x m0;
     x \<leftarrow> st x 1 1;
     ret (x, t1, mlen) }"

definition CCOPY :: "u32 \<Rightarrow> u32 arr \<Rightarrow> u32 arr \<Rightarrow> nat \<Rightarrow> u32 arr cm" where
  "CCOPY ctl d s len = do { b \<leftarrow> br_ccopy ctl (as_bytes d) (as_bytes s) len; ret (as_words b) }"

definition copy_v1 :: "u32 \<Rightarrow> u32 arr \<Rightarrow> u32 arr \<Rightarrow> nat \<Rightarrow> u32 arr cm" where
  "copy_v1 ctl d s len = do { b \<leftarrow> br_ccopy_v1 ctl (as_bytes d) (as_bytes s) len; ret (as_words b) }"

definition copy_v2 :: "u32 \<Rightarrow> u32 arr \<times> u32 arr \<Rightarrow> u32 arr \<Rightarrow> nat \<Rightarrow> (u32 arr \<times> u32 arr) cm" where
  "copy_v2 ctl = (\<lambda>(d, r) s len. do {
     (b, c) \<leftarrow> br_ccopy_v2 ctl (as_bytes d) (as_bytes r) (as_bytes s) len;
     ret (as_words b, as_words c) })"

definition fenced :: "(u32 \<Rightarrow> 's \<Rightarrow> u32 arr \<Rightarrow> nat \<Rightarrow> 's cm) \<Rightarrow> u32 \<Rightarrow> 's \<Rightarrow> u32 arr \<Rightarrow> nat \<Rightarrow> 's cm" where
  "fenced copy ctl s t len = do { tick Fence; s \<leftarrow> copy ctl s t len; tick Fence; ret s }"

definition br_i31_modpow :: "u32 arr \<Rightarrow> u8 arr \<Rightarrow> nat \<Rightarrow> u32 arr \<Rightarrow> u32 \<Rightarrow> u32 arr \<Rightarrow> u32 arr \<Rightarrow> (u32 arr \<times> u32 arr \<times> u32 arr) cm" where
  "br_i31_modpow x e elen m m0i t1 t2 = do {
     (x, t1, mlen) \<leftarrow> modpow_init x m t1;
     modpow_loop id CCOPY e elen m m0i mlen (x, t1, t2) }"

definition br_i31_modpow_fence :: "u32 arr \<Rightarrow> u8 arr \<Rightarrow> nat \<Rightarrow> u32 arr \<Rightarrow> u32 \<Rightarrow> u32 arr \<Rightarrow> u32 arr \<Rightarrow> (u32 arr \<times> u32 arr \<times> u32 arr) cm" where
  "br_i31_modpow_fence x e elen m m0i t1 t2 = do {
     (x, t1, mlen) \<leftarrow> modpow_init x m t1;
     modpow_loop id (fenced CCOPY) e elen m m0i mlen (x, t1, t2) }"

definition br_i31_modpow_v1 :: "u32 arr \<Rightarrow> u8 arr \<Rightarrow> nat \<Rightarrow> u32 arr \<Rightarrow> u32 \<Rightarrow> u32 arr \<Rightarrow> u32 arr \<Rightarrow> (u32 arr \<times> u32 arr \<times> u32 arr) cm" where
  "br_i31_modpow_v1 x e elen m m0i t1 t2 = do {
     (x, t1, mlen) \<leftarrow> modpow_init x m t1;
     modpow_loop id copy_v1 e elen m m0i mlen (x, t1, t2) }"

definition br_i31_modpow_v1_fence :: "u32 arr \<Rightarrow> u8 arr \<Rightarrow> nat \<Rightarrow> u32 arr \<Rightarrow> u32 \<Rightarrow> u32 arr \<Rightarrow> u32 arr \<Rightarrow> (u32 arr \<times> u32 arr \<times> u32 arr) cm" where
  "br_i31_modpow_v1_fence x e elen m m0i t1 t2 = do {
     (x, t1, mlen) \<leftarrow> modpow_init x m t1;
     modpow_loop id (fenced copy_v1) e elen m m0i mlen (x, t1, t2) }"

definition br_i31_modpow_v2 :: "u32 arr \<Rightarrow> u32 arr \<Rightarrow> u8 arr \<Rightarrow> nat \<Rightarrow> u32 arr \<Rightarrow> u32 \<Rightarrow> u32 arr \<Rightarrow> u32 arr \<Rightarrow> ((u32 arr \<times> u32 arr) \<times> u32 arr \<times> u32 arr) cm" where
  "br_i31_modpow_v2 x r e elen m m0i t1 t2 = do {
     (x, t1, mlen) \<leftarrow> modpow_init x m t1;
     modpow_loop fst copy_v2 e elen m m0i mlen ((x, r), t1, t2) }"

definition br_i31_modpow_v2_fence :: "u32 arr \<Rightarrow> u32 arr \<Rightarrow> u8 arr \<Rightarrow> nat \<Rightarrow> u32 arr \<Rightarrow> u32 \<Rightarrow> u32 arr \<Rightarrow> u32 arr \<Rightarrow> ((u32 arr \<times> u32 arr) \<times> u32 arr \<times> u32 arr) cm" where
  "br_i31_modpow_v2_fence x r e elen m m0i t1 t2 = do {
     (x, t1, mlen) \<leftarrow> modpow_init x m t1;
     modpow_loop fst (fenced copy_v2) e elen m m0i mlen ((x, r), t1, t2) }"

section \<open>The exponent\<close>

lemma mod_pow2_Suc: "(E :: nat) mod 2 ^ Suc k = E mod 2 ^ k + of_bool (bit E k) * 2 ^ k"
  using take_bit_Suc_from_most [of k E] by (simp add: take_bit_eq_mod mult.commute)

lemma exp_bit_word: "shr (ucast (b :: u8)) j AND 1 = (of_bool (bit b j) :: u32)"
  by (rule bit_word_eqI) (auto simp: bit_simps dest: bit_imp_le_length)

lemma ok_exp_bit:
  assumes "elen \<le> alen e" and "k < 8 * elen" and "Q (of_bool (bit (be_val (take elen (cells e))) k))"
  shows "ok (exp_bit e elen k) Q"
proof -
  have "elen - 1 - k div 8 < elen" using assms(2) by linarith
  then show ?thesis
    using assms unfolding exp_bit_def by (intro wp) (auto simp: exp_bit_word bit_be_val min_absorb2)
qed

lemma ct_exp_bit:
  assumes "shape e e'" and "elen \<le> alen e" and "k < 8 * elen"
    and "R (of_bool (bit (be_val (take elen (cells e))) k)) (of_bool (bit (be_val (take elen (cells e'))) k))"
  shows "ct (exp_bit e elen k) (exp_bit e' elen k) R"
proof -
  have "elen - 1 - k div 8 < elen" using assms(3) by linarith
  then show ?thesis
    using assms unfolding exp_bit_def by (intro ctr) (auto simp: exp_bit_word bit_be_val min_absorb2 shape_def)
qed

section \<open>What the loop needs of the copy\<close>

text \<open>\<open>room n s\<close>: every destination array of the copy has at least \<open>n\<close> words. The copy replaces the
  first \<open>n\<close> words of \<open>x\<close> by those of \<open>t\<close> when the control bit is set, and leaves \<open>x\<close> alone otherwise.\<close>

locale cond_copy =
  fixes sel :: "'s \<Rightarrow> u32 arr" and copy :: "u32 \<Rightarrow> 's \<Rightarrow> u32 arr \<Rightarrow> nat \<Rightarrow> 's cm"
    and room :: "nat \<Rightarrow> 's \<Rightarrow> bool"
  assumes room_sel: "room n s \<Longrightarrow> n \<le> alen (sel s)"
    and copy_ok: "room n s \<Longrightarrow> n \<le> alen t \<Longrightarrow>
      (\<And>s'. room n s' \<Longrightarrow> sel s' = (if b then put (sel s) t n else sel s) \<Longrightarrow> Q s') \<Longrightarrow>
      ok (copy (of_bool b) s t (4 * n)) Q"

text \<open>A copy that shows nothing but the shapes of the arrays, \<open>sim\<close> being what two states have in common.\<close>

locale ct_copy = cond_copy +
  fixes sim :: "'a \<Rightarrow> 'a \<Rightarrow> bool"
  assumes sim_sel: "sim s s' \<Longrightarrow> shape (sel s) (sel s')"
    and copy_ct: "room n s \<Longrightarrow> sim s s' \<Longrightarrow> shape t t' \<Longrightarrow> n \<le> alen t \<Longrightarrow>
      (\<And>u u'. room n u \<Longrightarrow> sim u u' \<Longrightarrow> R u u') \<Longrightarrow> ct (copy c s t (4 * n)) (copy c' s' t' (4 * n)) R"

text \<open>A copy whose trace depends on the control bit, and on nothing else.\<close>

locale leaky_copy = cond_copy +
  fixes sim :: "'a \<Rightarrow> 'a \<Rightarrow> bool"
  assumes sim_sel: "sim s s' \<Longrightarrow> shape (sel s) (sel s')"
    and sim_refl: "sim s s"
    and copy_same: "room n s \<Longrightarrow> sim s s' \<Longrightarrow> shape t t' \<Longrightarrow> n \<le> alen t \<Longrightarrow>
      (\<And>u u'. room n u \<Longrightarrow> sim u u' \<Longrightarrow> R u u') \<Longrightarrow> ct (copy c s t (4 * n)) (copy c s' t' (4 * n)) R"
    and copy_leaks: "room n s \<Longrightarrow> sim s s' \<Longrightarrow> shape t t' \<Longrightarrow> n \<le> alen t \<Longrightarrow> b \<noteq> b' \<Longrightarrow>
      (\<And>u. room n u \<Longrightarrow> P u) \<Longrightarrow> (\<And>u. room n u \<Longrightarrow> P' u) \<Longrightarrow>
      differ (copy (of_bool b) s t (4 * n)) (copy (of_bool b') s' t' (4 * n)) P P'"


section \<open>Arithmetic of the loop\<close>

lemma mont_product:
  fixes d R M a b :: nat
  assumes "(d * R) mod M = (x * y) mod M" and "x = a mod M" and "y = (b * R) mod M" and "coprime R M" and "d < M"
  shows "d = (a * b) mod M"
proof -
  have "(x * y) mod M = (a * b * R) mod M" unfolding assms(2,3) by (simp add: mod_simps mult.assoc)
  with assms(1,4) have "d mod M = (a * b) mod M" by (intro mod_cancel [of d R]) simp_all
  then show ?thesis using assms(5) by simp
qed

text \<open>The number that \<open>modpow_loop\<close> has accumulated after \<open>k\<close> rounds, and the square it has reached.\<close>

definition mp_inv :: "('s \<Rightarrow> u32 arr) \<Rightarrow> (nat \<Rightarrow> 's \<Rightarrow> bool) \<Rightarrow> u32 \<Rightarrow> nat \<Rightarrow> u32 arr \<Rightarrow> nat \<Rightarrow> nat \<Rightarrow> nat \<Rightarrow> 's \<times> u32 arr \<times> u32 arr \<Rightarrow> bool" where
  "mp_inv sel room h n m X E k w \<longleftrightarrow> (case w of (s, t1, t2) \<Rightarrow>
     room (Suc n) s \<and> is_i31 h n (sel s) \<and> is_i31 h n t1 \<and> n < alen t2 \<and>
     val31 n (sel s) = X ^ (E mod 2 ^ k) mod val31 n m \<and>
     val31 n t1 = (X ^ (2 ^ k) * B31 ^ n) mod val31 n m)"

lemma is_i31_put: "is_i31 h n t \<Longrightarrow> Suc n \<le> alen d \<Longrightarrow> is_i31 h n (put d t (Suc n)) \<and> val31 n (put d t (Suc n)) = val31 n t"
proof -
  assume t: "is_i31 h n t" and d: "Suc n \<le> alen d"
  then have l: "Suc n \<le> alen t" using is_i31D(5) [OF t] by simp
  have c: "i < Suc n \<Longrightarrow> cells (put d t (Suc n)) ! i = cells t ! i" for i
    using d l by (simp add: put_def nth_append min_absorb2)
  have "val31 n (put d t (Suc n)) = val31 n t" by (intro wsum_cong) (simp add: c)
  moreover have "digits31 (Suc 0) n (cells (put d t (Suc n)))"
    using is_i31D(4) [OF t] d l c by (auto simp: digits31_def) (simp add: put_def)
  ultimately show ?thesis using t c [of 0] by (simp add: is_i31_def)
qed

lemma alen_put: "n \<le> alen d \<Longrightarrow> n \<le> alen s \<Longrightarrow> alen (put d s n) = alen d"
  by (simp add: put_def)

context cond_copy
begin

lemma ok_modpow_round:
  assumes m: "modulus31 h n m" and odd: "odd (val31 n m)" and inv: "(unat m0i * unat (cells m ! 1) + 1) mod B31 = 0"
    and e: "elen \<le> alen e" "k < 8 * elen" and E: "E = be_val (take elen (cells e))"
    and I: "mp_inv sel room h n m X E k w"
  shows "ok (modpow_round sel copy e elen m m0i (4 * Suc n) k w) (mp_inv sel room h n m X E (Suc k))"
proof -
  let ?M = "val31 n m" and ?R = "B31 ^ n"
  obtain s t1 t2 where w: "w = (s, t1, t2)" by (cases w)
  from I have i: "room (Suc n) s" "is_i31 h n (sel s)" "is_i31 h n t1" "n < alen t2"
    and vx: "val31 n (sel s) = X ^ (E mod 2 ^ k) mod ?M" and v1: "val31 n t1 = (X ^ (2 ^ k) * ?R) mod ?M"
    by (auto simp: mp_inv_def w)
  have m': "is_i31 h n m" using m by (simp add: modulus31_def)
  have M: "0 < ?M" using odd by (intro gr0I) simp
  have cop: "coprime ?R ?M" by (rule coprime_B31 [OF odd])
  have lt1: "val31 n t1 < ?M" using v1 M by simp
  note D = is_i31D(4) [OF i(2)] is_i31D(4) [OF i(3)]
  define b where "b = bit E k"
  show ?thesis
    unfolding modpow_round_def w prod.case
  proof (rule ok_bind, rule ok_exp_bit [OF e], rule ok_bind, rule ok_br_i31_montymul [OF m' D i(4) lt1 inv],
      unfold E [symmetric] b_def [symmetric])
    fix d assume d: "alen d = alen t2" "is_i31 h n d" "val31 n d < ?M" "(val31 n d * ?R) mod ?M = (val31 n (sel s) * val31 n t1) mod ?M"
    have vd: "val31 n d = X ^ (E mod 2 ^ k + 2 ^ k) mod ?M"
      using mont_product [OF d(4) vx v1 cop d(3)] by (simp add: power_add)
    show "ok (do { s \<leftarrow> copy (of_bool b) s d (4 * Suc n); t2 \<leftarrow> br_i31_montymul d t1 t1 m m0i;
        t1 \<leftarrow> memcpy32 t1 t2 (4 * Suc n); ret (s, t1, t2) }) (mp_inv sel room h n m X E (Suc k))"
    proof (rule ok_bind, rule copy_ok [OF i(1)], goal_cases)
      case (2 s')
      have x': "is_i31 h n (sel s')" "val31 n (sel s') = X ^ (E mod 2 ^ Suc k) mod ?M"
        using 2(2) i(2) is_i31_put [OF d(2)] room_sel [OF i(1)] vx vd by (auto simp: mod_pow2_Suc b_def simp del: power_Suc)
      show ?case
      proof (rule ok_bind, rule ok_br_i31_montymul [OF m' D(2) D(2) _ lt1 inv])
        fix c assume c: "alen c = alen d" "is_i31 h n c" "val31 n c < ?M" "(val31 n c * ?R) mod ?M = (val31 n t1 * val31 n t1) mod ?M"
        have vc: "val31 n c = (X ^ (2 ^ Suc k) * ?R) mod ?M"
          using mont_product [OF c(4) v1 v1 cop c(3)] by (simp add: power_add mult_2 ac_simps)
        have ln: "Suc n \<le> alen t1" "Suc n \<le> alen c" using is_i31D(5) [OF i(3)] d(1) c(1) i(4) by auto
        show "ok (do { t1 \<leftarrow> memcpy32 t1 c (4 * Suc n); ret (s', t1, c) }) (mp_inv sel room h n m X E (Suc k))"
          using 2 x' ln vc is_i31_put [OF c(2) ln(1)]
          by (intro ok_bind ok_memcpy32 [OF ln refl] ok_ret) (simp add: mp_inv_def)
      qed (use d(1) i(4) in simp)
    qed (use d(1) i(4) in simp)
  qed
qed

lemma ok_modpow_loop:
  assumes m: "modulus31 h n m" and odd: "odd (val31 n m)" and inv: "(unat m0i * unat (cells m ! 1) + 1) mod B31 = 0"
    and e: "elen \<le> alen e" "elen < 536870912"
    and s: "room (Suc n) s" "is_i31 h n (sel s)" "val31 n (sel s) = 1 mod val31 n m"
    and t: "is_i31 h n t1" "val31 n t1 = (X * B31 ^ n) mod val31 n m" "n < alen t2"
    and Q: "\<And>s' t1' t2'. is_i31 h n (sel s') \<Longrightarrow> room (Suc n) s' \<Longrightarrow>
      val31 n (sel s') = X ^ be_val (take elen (cells e)) mod val31 n m \<Longrightarrow> Q (s', t1', t2')"
  shows "ok (modpow_loop sel copy e elen m m0i (4 * Suc n) (s, t1, t2)) Q"
proof -
  define E where "E = be_val (take elen (cells e))"
  have nb: "unat (shl (of_nat elen) 3 :: u32) = 8 * elen"
    using e(2) by (simp add: unat_shl32 unsigned_of_nat take_bit_nat_eq_self)
  have "E < 256 ^ elen" using be_val_less [of "take elen (cells e)"] e(1) by (simp add: E_def min_absorb2)
  then have "E mod 2 ^ (8 * elen) = E" by (simp add: power_mult)
  moreover have "mp_inv sel room h n m X E 0 (s, t1, t2)" using s t by (simp add: mp_inv_def)
  ultimately show ?thesis
    unfolding modpow_loop_def nb
    by (intro ok_for_loop [where Inv = "mp_inv sel room h n m X E"])
      (assumption, simp, erule (1) ok_modpow_round [OF m odd inv e(1) _ E_def],
       auto simp: mp_inv_def E_def [symmetric] intro!: Q)
qed

end

lemma ok_modpow_init:
  assumes m: "modulus31 h n m" and M: "1 < val31 n m" and x: "is_i31 h n x" "val31 n x < val31 n m" and t1: "n < alen t1"
    and Q: "\<And>x' t1'. is_i31 h n x' \<Longrightarrow> alen x' = alen x \<Longrightarrow> val31 n x' = 1 mod val31 n m \<Longrightarrow> is_i31 h n t1' \<Longrightarrow>
      val31 n t1' = (val31 n x * B31 ^ n) mod val31 n m \<Longrightarrow> Q (x', t1', 4 * Suc n)"
  shows "ok (modpow_init x m t1) Q"
proof -
  have m': "is_i31 h n m" using m by (simp add: modulus31_def)
  note mD = is_i31D [OF m'] and xD = is_i31D [OF x(1)]
  have lm: "0 < alen m" using mD(5) by linarith
  have n: "0 < n" using M by (intro gr0I) simp
  have ln: "Suc n \<le> alen t1" "Suc n \<le> alen x" using t1 xD(5) by simp_all
  note p = is_i31_put [OF x(1) ln(1)]
  have lt: "val31 n (put t1 x (Suc n)) < val31 n m" using p x(2) by simp
  show ?thesis
    unfolding modpow_init_def Let_def
  proof (rule ok_bind, rule ok_ld [OF lm], unfold mD(1,3), rule ok_bind, rule ok_memcpy32 [OF ln mult.commute], rule ok_bind,
      rule ok_br_i31_to_monty [OF m conjunct1 [OF p] lt], rule ok_bind, rule ok_br_i31_zero, unfold mD(2))
    fix t z assume t: "frame31 n (put t1 x (Suc n)) t" "digits31 (Suc 0) n (cells t)"
        "val31 n t = (val31 n (put t1 x (Suc n)) * B31 ^ n) mod val31 n m"
      and z: "alen z = alen x" "cells z ! 0 = h" "digits31 (Suc 0) n (cells z)" "val31 n z = 0"
    let ?z = "z\<lparr>cells := (cells z)[1 := 1]\<rparr>"
    have lz: "1 < alen z" using ln(2) n z(1) by simp
    have "is_i31 h n ?z" using z m' by (simp add: is_i31_def digits31_update)
    moreover have "val31 n ?z = 1"
    proof -
      obtain k where k: "n = Suc k" using n by (cases n) auto
      have "cells z ! Suc 0 = 0" "wsum 2 k (cells z) = 0" using z(4) by (simp_all add: k wsum_head numeral_2_eq_2 unat_eq_zero)
      then show ?thesis using lz by (simp add: k wsum_head numeral_2_eq_2)
    qed
    moreover have "is_i31 h n t" using t(1,2) conjunct1 [OF p] is_i31_frame by blast
    ultimately have "Q (?z, t, 4 * Suc n)" using t(3) z(1) M p by (intro Q) simp_all
    then show "ok (do { x \<leftarrow> st z 1 1; ret (x, t, Suc n * 4) }) Q" using lz by (intro wp) (simp_all add: mult.commute)
  qed (use ln in simp)
qed

section \<open>What the loop leaks\<close>

text \<open>Two states of the loop that an observer cannot tell apart.\<close>

definition mp_sim :: "(nat \<Rightarrow> 's \<Rightarrow> bool) \<Rightarrow> ('s \<Rightarrow> 's \<Rightarrow> bool) \<Rightarrow> nat \<Rightarrow> 's \<times> u32 arr \<times> u32 arr \<Rightarrow> 's \<times> u32 arr \<times> u32 arr \<Rightarrow> bool" where
  "mp_sim room sim n = (\<lambda>(s, t1, t2) (s', t1', t2'). room (Suc n) s \<and> sim s s' \<and> shape t1 t1' \<and> shape t2 t2' \<and> n < alen t1 \<and> n < alen t2)"

text \<open>The lines of a round after the copy.\<close>

lemma ct_round_end:
  assumes "pub m m'" and "hdr31 (cells m ! 0) n" and "n < alen m"
    and "shape t1 t1'" and "shape t2 t2'" and "n < alen t1" and "n < alen t2" and "room (Suc n) s" and "sim s s'"
  shows "ct (do { t2 \<leftarrow> br_i31_montymul t2 t1 t1 m m0i; t1 \<leftarrow> memcpy32 t1 t2 (4 * Suc n); ret (s, t1, t2) })
     (do { t2 \<leftarrow> br_i31_montymul t2' t1' t1' m' m0i'; t1 \<leftarrow> memcpy32 t1' t2 (4 * Suc n); ret (s', t1, t2) }) (mp_sim room sim n)"
proof (rule ct_bind, rule ct_br_i31_montymul [OF assms(1-3,5,4,4)])
  fix z z' assume z: "pub z z'" "alen z = alen t2"
  then show "ct (do { t1 \<leftarrow> memcpy32 t1 z (4 * Suc n); ret (s, t1, z) })
    (do { t1 \<leftarrow> memcpy32 t1' z' (4 * Suc n); ret (s', t1, z') }) (mp_sim room sim n)"
    using assms by (intro ct_bind ct_memcpy32 [where n = "Suc n"] ct_ret) (auto simp: mp_sim_def pub_def)
qed (use assms in auto)

lemma modpow_rounds: "elen < 536870912 \<Longrightarrow> unat (shl (of_nat elen) 3 :: u32) = 8 * elen"
  by (simp add: unat_shl32 unsigned_of_nat take_bit_nat_eq_self)

context ct_copy
begin

lemma ct_modpow_round:
  assumes m: "pub m m'" "hdr31 (cells m ! 0) n" "n < alen m" and e: "shape e e'" "elen \<le> alen e" "k < 8 * elen"
    and w: "mp_sim room sim n w w'"
  shows "ct (modpow_round sel copy e elen m m0i (4 * Suc n) k w) (modpow_round sel copy e' elen m' m0i' (4 * Suc n) k w') (mp_sim room sim n)"
proof -
  obtain s t1 t2 where w1: "w = (s, t1, t2)" by (cases w)
  obtain s' t1' t2' where w2: "w' = (s', t1', t2')" by (cases w')
  from w have i: "room (Suc n) s" "sim s s'" "shape t1 t1'" "shape t2 t2'" "n < alen t1" "n < alen t2"
    by (auto simp: mp_sim_def w1 w2)
  have ls: "n < alen (sel s)" using room_sel [OF i(1)] by simp
  show ?thesis
    unfolding modpow_round_def w1 w2 prod.case
  proof (rule ct_bind, rule ct_exp_bit [OF e], rule ct_bind, rule ct_br_i31_montymul [OF m i(4) sim_sel [OF i(2)] i(3) i(6) ls i(5)],
      rule ct_bind, rule copy_ct [OF i(1,2)])
    fix z z' u u' assume "pub z z'" "alen z = alen t2" "room (Suc n) u" "sim u u'"
    then show "ct (do { t2 \<leftarrow> br_i31_montymul z t1 t1 m m0i; t1 \<leftarrow> memcpy32 t1 t2 (4 * Suc n); ret (u, t1, t2) })
     (do { t2 \<leftarrow> br_i31_montymul z' t1' t1' m' m0i'; t1 \<leftarrow> memcpy32 t1' t2 (4 * Suc n); ret (u', t1, t2) }) (mp_sim room sim n)"
      using i by (intro ct_round_end [OF m]) (auto simp: pub_def)
  qed (use i in \<open>auto simp: pub_def\<close>)
qed

lemma ct_modpow_loop:
  assumes "pub m m'" "hdr31 (cells m ! 0) n" "n < alen m" and "shape e e'" "elen \<le> alen e" "elen < 536870912"
    and "mp_sim room sim n w w'"
  shows "ct (modpow_loop sel copy e elen m m0i (4 * Suc n) w) (modpow_loop sel copy e' elen m' m0i' (4 * Suc n) w') (mp_sim room sim n)"
  unfolding modpow_loop_def modpow_rounds [OF assms(6)]
  by (rule ct_for_loop [where Inv = "\<lambda>_. mp_sim room sim n"]) (use assms in \<open>auto intro: ct_modpow_round simp del: mult_Suc_right\<close>)

end

context leaky_copy
begin

lemma leaky_round_same:
  assumes m: "pub m m'" "hdr31 (cells m ! 0) n" "n < alen m" and e: "shape e e'" "elen \<le> alen e" "k < 8 * elen"
    and same: "bit (be_val (take elen (cells e))) k = bit (be_val (take elen (cells e'))) k"
    and w: "mp_sim room sim n w w'"
  shows "ct (modpow_round sel copy e elen m m0i (4 * Suc n) k w) (modpow_round sel copy e' elen m' m0i' (4 * Suc n) k w') (mp_sim room sim n)"
proof -
  obtain s t1 t2 where w1: "w = (s, t1, t2)" by (cases w)
  obtain s' t1' t2' where w2: "w' = (s', t1', t2')" by (cases w')
  from w have i: "room (Suc n) s" "sim s s'" "shape t1 t1'" "shape t2 t2'" "n < alen t1" "n < alen t2"
    by (auto simp: mp_sim_def w1 w2)
  have ls: "n < alen (sel s)" using room_sel [OF i(1)] by simp
  show ?thesis
    unfolding modpow_round_def w1 w2 prod.case
  proof (rule ct_bind, rule ct_exp_bit [OF e], rule ct_bind, rule ct_br_i31_montymul [OF m i(4) sim_sel [OF i(2)] i(3) i(6) ls i(5)],
      rule ct_bind, unfold same, rule copy_same [OF i(1,2)])
    fix z z' u u' assume "pub z z'" "alen z = alen t2" "room (Suc n) u" "sim u u'"
    then show "ct (do { t2 \<leftarrow> br_i31_montymul z t1 t1 m m0i; t1 \<leftarrow> memcpy32 t1 t2 (4 * Suc n); ret (u, t1, t2) })
     (do { t2 \<leftarrow> br_i31_montymul z' t1' t1' m' m0i'; t1 \<leftarrow> memcpy32 t1' t2 (4 * Suc n); ret (u', t1, t2) }) (mp_sim room sim n)"
      using i by (intro ct_round_end [OF m]) (auto simp: pub_def)
  qed (use i in \<open>auto simp: pub_def\<close>)
qed

lemma leaky_loop_same:
  assumes "pub m m'" "hdr31 (cells m ! 0) n" "n < alen m" and "shape e e'" "elen \<le> alen e" "elen < 536870912"
    and "\<And>j. j < 8 * elen \<Longrightarrow> bit (be_val (take elen (cells e))) j = bit (be_val (take elen (cells e'))) j"
    and "mp_sim room sim n w w'"
  shows "ct (modpow_loop sel copy e elen m m0i (4 * Suc n) w) (modpow_loop sel copy e' elen m' m0i' (4 * Suc n) w') (mp_sim room sim n)"
  unfolding modpow_loop_def modpow_rounds [OF assms(6)]
  by (rule ct_for_loop [where Inv = "\<lambda>_. mp_sim room sim n"]) (use assms in \<open>auto intro: leaky_round_same simp del: mult_Suc_right\<close>)

text \<open>The loop from any round on leaves no array.\<close>

lemma leaky_loop_safe:
  assumes m: "hdr31 (cells m ! 0) n" "n < alen m" and e: "elen \<le> alen e" and j: "j \<le> 8 * elen" and w: "mp_sim room sim n w w"
  shows "ok (for_loop j (8 * elen) (modpow_round sel copy e elen m m0i (4 * Suc n)) w) (\<lambda>_. True)"
proof -
  have "ct (for_loop j (8 * elen) (modpow_round sel copy e elen m m0i (4 * Suc n)) w)
    (for_loop j (8 * elen) (modpow_round sel copy e elen m m0i (4 * Suc n)) w) (mp_sim room sim n)"
    by (rule ct_for_loop [where Inv = "\<lambda>_. mp_sim room sim n"])
      (use m e j w in \<open>auto intro!: leaky_round_same simp: pub_def simp del: mult_Suc_right\<close>)
  then show ?thesis by (rule ok_weaken [OF ct_imp_ok]) simp
qed

lemma leaky_round_differ:
  assumes m: "pub m m'" "hdr31 (cells m ! 0) n" "n < alen m" and e: "shape e e'" "elen \<le> alen e" "k < 8 * elen"
    and diff: "bit (be_val (take elen (cells e))) k \<noteq> bit (be_val (take elen (cells e'))) k"
    and w: "mp_sim room sim n w w'"
    and P: "\<And>w. mp_sim room sim n w w \<Longrightarrow> P w" "\<And>w. mp_sim room sim n w w \<Longrightarrow> P' w"
  shows "differ (modpow_round sel copy e elen m m0i (4 * Suc n) k w) (modpow_round sel copy e' elen m' m0i' (4 * Suc n) k w') P P'"
proof -
  obtain s t1 t2 where w1: "w = (s, t1, t2)" by (cases w)
  obtain s' t1' t2' where w2: "w' = (s', t1', t2')" by (cases w')
  from w have i: "room (Suc n) s" "sim s s'" "shape t1 t1'" "shape t2 t2'" "n < alen t1" "n < alen t2"
    by (auto simp: mp_sim_def w1 w2)
  have ls: "n < alen (sel s)" using room_sel [OF i(1)] by simp
  have m2: "hdr31 (cells m' ! 0) n" "n < alen m'" using m by (auto simp: pub_def shape_def)
  have i2: "n < alen t1'" "n < alen t2'" using i by (auto simp: shape_def)
  have rest: "ok (do { t2 \<leftarrow> br_i31_montymul z t t m m0i; t1 \<leftarrow> memcpy32 t t2 (4 * Suc n); ret (u, t1, t2) }) P"
    if "hdr31 (cells m ! 0) n" "n < alen m" "n < alen t" "n < alen z" "room (Suc n) u" "\<And>w. mp_sim room sim n w w \<Longrightarrow> P w" for m m0i z t u P
  proof -
    have "ct (do { t2 \<leftarrow> br_i31_montymul z t t m m0i; t1 \<leftarrow> memcpy32 t t2 (4 * Suc n); ret (u, t1, t2) })
      (do { t2 \<leftarrow> br_i31_montymul z t t m m0i; t1 \<leftarrow> memcpy32 t t2 (4 * Suc n); ret (u, t1, t2) }) (mp_sim room sim n)"
      using that by (intro ct_round_end) (auto simp: pub_def sim_refl)
    from ct_imp_ok [OF this] show ?thesis
      by (rule ok_weaken) (use that(6) sim_refl in \<open>auto simp: mp_sim_def\<close>)
  qed
  show ?thesis
    unfolding modpow_round_def w1 w2 prod.case
  proof (rule differ_bind_right, rule ct_exp_bit [OF e], rule differ_bind_right,
      rule ct_br_i31_montymul [OF m i(4) sim_sel [OF i(2)] i(3) i(6) ls i(5)],
      rule differ_bind_left, rule copy_leaks [OF i(1,2) _ _ diff])
    fix z z' u assume z: "pub z z'" "alen z = alen t2" and u: "room (Suc n) u"
    show "ok (do { t2 \<leftarrow> br_i31_montymul z t1 t1 m m0i; t1 \<leftarrow> memcpy32 t1 t2 (4 * Suc n); ret (u, t1, t2) }) P"
      using z i u P(1) by (intro rest [OF m(2,3)]) auto
    show "ok (do { t2 \<leftarrow> br_i31_montymul z' t1' t1' m' m0i'; t1 \<leftarrow> memcpy32 t1' t2 (4 * Suc n); ret (u, t1, t2) }) P'"
      using z i2 i u P(2) by (intro rest [OF m2]) (auto simp: pub_def shape_def)
  qed (use i in \<open>auto simp: pub_def\<close>)
qed

lemma leaky_loop_differ:
  assumes m: "pub m m'" "hdr31 (cells m ! 0) n" "n < alen m" and e: "shape e e'" "elen \<le> alen e" "elen < 536870912"
    and k: "k < 8 * elen" "bit (be_val (take elen (cells e))) k \<noteq> bit (be_val (take elen (cells e'))) k"
    and w: "mp_sim room sim n w w'"
  shows "differ (modpow_loop sel copy e elen m m0i (4 * Suc n) w) (modpow_loop sel copy e' elen m' m0i' (4 * Suc n) w') (\<lambda>_. True) (\<lambda>_. True)"
proof -
  let ?d = "\<lambda>k. k < 8 * elen \<and> bit (be_val (take elen (cells e))) k \<noteq> bit (be_val (take elen (cells e'))) k"
  define l where "l = (LEAST k. ?d k)"
  have l: "?d l" unfolding l_def by (rule LeastI [of ?d k]) (use k in blast)
  have before: "bit (be_val (take elen (cells e))) j = bit (be_val (take elen (cells e'))) j" if "j < l" for j
    using not_less_Least [of j ?d] that l unfolding l_def by (metis (no_types, lifting) less_trans)
  have m2: "hdr31 (cells m' ! 0) n" "n < alen m'" using m by (auto simp: pub_def shape_def)
  have e2: "elen \<le> alen e'" using e by (simp add: shape_def)
  show ?thesis
    unfolding modpow_loop_def modpow_rounds [OF e(3)]
  proof (rule differ_for_loop [where Inv = "\<lambda>_. mp_sim room sim n" and k = l, OF w])
    show "differ (modpow_round sel copy e elen m m0i (4 * Suc n) l s) (modpow_round sel copy e' elen m' m0i' (4 * Suc n) l s')
      (\<lambda>s. ok (for_loop (Suc l) (8 * elen) (modpow_round sel copy e elen m m0i (4 * Suc n)) s) (\<lambda>_. True))
      (\<lambda>s. ok (for_loop (Suc l) (8 * elen) (modpow_round sel copy e' elen m' m0i' (4 * Suc n)) s) (\<lambda>_. True))"
      if "mp_sim room sim n s s'" for s s'
      using l that by (intro leaky_round_differ [OF m e(1,2)] leaky_loop_safe m m2 e e2) auto
  qed (use l before m e in \<open>auto intro!: leaky_round_same simp del: mult_Suc_right\<close>)
qed

end

section \<open>The copies of the program\<close>

lemma alen_as_words: "alen (as_words a) = alen a div 4"
  by (simp add: as_words_def length_to_words)

lemmas ok_memcpy32_words = ok_memcpy32 [OF _ _ refl]
lemmas ct_memcpy32_words = ct_memcpy32 [OF _ _ _ _ refl]

lemma ok_CCOPY:
  assumes "n \<le> alen d" and "n \<le> alen s" and "Q (if b then put d s n else d)"
  shows "ok (CCOPY (of_bool b) d s (4 * n)) Q"
  unfolding CCOPY_def
  by (rule ok_bind, rule ok_br_ccopy) (use assms in \<open>auto intro!: ok_ret simp: as_words_put\<close>)

lemma ct_CCOPY:
  assumes "shape d d'" and "shape s s'" and "n \<le> alen d" and "n \<le> alen s" and R: "\<And>z z'. shape z z' \<Longrightarrow> n \<le> alen z \<Longrightarrow> R z z'"
  shows "ct (CCOPY c d s (4 * n)) (CCOPY c' d' s' (4 * n)) R"
proof -
  have "ct (br_ccopy c (as_bytes d) (as_bytes s) (4 * n)) (br_ccopy c' (as_bytes d') (as_bytes s') (4 * n))
    (\<lambda>b b'. shape (as_words b) (as_words b') \<and> n \<le> alen (as_words b))"
  proof (rule ct_weaken)
    show "ct (br_ccopy c (as_bytes d) (as_bytes s) (4 * n)) (br_ccopy c' (as_bytes d') (as_bytes s') (4 * n))
      (\<lambda>b b'. shape b b' \<and> alen b = alen (as_bytes d))"
      using assms by (intro ct_br_ccopy_len) (auto intro: shape_as_bytes)
  qed (use assms in \<open>auto intro: shape_as_words simp: alen_as_words\<close>)
  then have "ct (br_ccopy c (as_bytes d) (as_bytes s) (4 * n)) (br_ccopy c' (as_bytes d') (as_bytes s') (4 * n))
    (\<lambda>b b'. ct (ret (as_words b)) (ret (as_words b')) R)"
    by (rule ct_weaken) (auto intro!: ct_ret R)
  then show ?thesis unfolding CCOPY_def by (rule ct_bind)
qed

lemma copy_v1_alt: "copy_v1 ctl d s len = branch (ctl \<noteq> 0) (memcpy32 d s len) (ret d)"
  by (rule state.expand, rule ext)
    (simp add: copy_v1_def br_ccopy_v1_def memcpy32_def branch_def tick_def split: prod.split)

lemma copy_v2_alt:
  "copy_v2 ctl (d, r) s len = branch (ctl \<noteq> 0)
     (do { d \<leftarrow> memcpy32 d s len; ret (d, r) }) (do { r \<leftarrow> memcpy32 r s len; ret (d, r) })"
  by (rule state.expand, rule ext)
    (simp add: copy_v2_def br_ccopy_v2_def memcpy32_def branch_def tick_def split: prod.split)

definition room2 :: "nat \<Rightarrow> u32 arr \<times> u32 arr \<Rightarrow> bool" where
  "room2 n = (\<lambda>(x, r). n \<le> alen x \<and> n \<le> alen r)"

definition sim2 :: "u32 arr \<times> u32 arr \<Rightarrow> u32 arr \<times> u32 arr \<Rightarrow> bool" where
  "sim2 = (\<lambda>(x, r) (x', r'). shape x x' \<and> shape r r')"

abbreviation room1 :: "nat \<Rightarrow> u32 arr \<Rightarrow> bool" where
  "room1 n x \<equiv> n \<le> alen x"

interpretation ccopy: ct_copy id CCOPY room1 shape
proof
  show "ok (CCOPY (of_bool b) s t (4 * n)) Q"
    if "n \<le> alen s" "n \<le> alen t" "\<And>s'. n \<le> alen s' \<Longrightarrow> id s' = (if b then put (id s) t n else id s) \<Longrightarrow> Q s'" for n s t b Q
    using that by (intro ok_CCOPY) (auto simp: alen_put)
qed (auto intro!: ct_CCOPY)

interpretation copy1: leaky_copy id copy_v1 room1 shape
proof
  show "differ (copy_v1 (of_bool b) s t (4 * n)) (copy_v1 (of_bool b') s' t' (4 * n)) P P'"
    if "n \<le> alen s" "shape s s'" "shape t t'" "n \<le> alen t" "b \<noteq> b'" "\<And>u. n \<le> alen u \<Longrightarrow> P u" "\<And>u. n \<le> alen u \<Longrightarrow> P' u"
    for n s s' t t' b b' P P'
    using that unfolding copy_v1_alt
    by (cases b) (auto intro!: differ_branch differ_branch_sym ok_memcpy32_words ok_ret simp: alen_put shape_def)
qed (auto simp: copy_v1_alt alen_put intro!: ok_branch ok_memcpy32_words ok_ret ct_branch ct_memcpy32_words ct_ret)

interpretation copy2: leaky_copy fst copy_v2 room2 sim2
proof
  show "differ (copy_v2 (of_bool b) s t (4 * n)) (copy_v2 (of_bool b') s' t' (4 * n)) P P'"
    if "room2 n s" "sim2 s s'" "shape t t'" "n \<le> alen t" "b \<noteq> b'" "\<And>u. room2 n u \<Longrightarrow> P u" "\<And>u. room2 n u \<Longrightarrow> P' u"
    for n s s' t t' b b' P P'
    using that
    by (cases b; cases s; cases s') (auto intro!: differ_branch differ_branch_sym ok_bind ok_memcpy32_words ok_ret
        simp: copy_v2_alt room2_def sim2_def alen_put shape_def)
  show "ct (copy_v2 c s t (4 * n)) (copy_v2 c s' t' (4 * n)) R"
    if "room2 n s" "sim2 s s'" "shape t t'" "n \<le> alen t" "\<And>u u'. room2 n u \<Longrightarrow> sim2 u u' \<Longrightarrow> R u u'" for n s s' t t' R c
    using that by (cases s; cases s')
      (auto intro!: ct_branch ct_bind ct_memcpy32_words ct_ret simp: copy_v2_alt room2_def sim2_def)
qed (auto simp: copy_v2_alt alen_put room2_def sim2_def intro!: ok_branch ok_bind ok_memcpy32_words ok_ret)

section \<open>Fences around a copy\<close>

context cond_copy
begin

lemma fenced_cond: "cond_copy sel (fenced copy) room"
proof
  show "ok (fenced copy (of_bool b) s t (4 * n)) Q"
    if "room n s" "n \<le> alen t" "\<And>s'. room n s' \<Longrightarrow> sel s' = (if b then put (sel s) t n else sel s) \<Longrightarrow> Q s'" for n s t b Q
    unfolding fenced_def by (intro ok_bind ok_tick copy_ok [OF that(1,2)] ok_ret that(3))
qed (rule room_sel)

end

context ct_copy
begin

lemma fenced_ct: "ct_copy sel (fenced copy) room sim"
  by (intro ct_copy.intro fenced_cond ct_copy_axioms.intro)
    (auto simp: fenced_def intro!: sim_sel ct_bind ct_tick ct_ret copy_ct)

end

context leaky_copy
begin

lemma fenced_leaky: "leaky_copy sel (fenced copy) room sim"
proof (intro leaky_copy.intro fenced_cond leaky_copy_axioms.intro)
  show "differ (fenced copy (of_bool b) s t (4 * n)) (fenced copy (of_bool b') s' t' (4 * n)) P P'"
    if "room n s" "sim s s'" "shape t t'" "n \<le> alen t" "b \<noteq> b'" "\<And>u. room n u \<Longrightarrow> P u" "\<And>u. room n u \<Longrightarrow> P' u"
    for n s s' t t' b b' P P'
    unfolding fenced_def
    by (rule differ_bind_right, rule ct_tick [OF refl], rule differ_bind_left, rule copy_leaks [OF that(1-5)])
      (intro ok_bind ok_tick ok_ret that; assumption)+
qed (auto simp: fenced_def intro!: sim_sel sim_refl ct_bind ct_tick ct_ret copy_same)

end

interpretation ccopy_fence: ct_copy id "fenced CCOPY" room1 shape
  by (rule ccopy.fenced_ct)

interpretation copy1_fence: leaky_copy id "fenced copy_v1" room1 shape
  by (rule copy1.fenced_leaky)

interpretation copy2_fence: leaky_copy fst "fenced copy_v2" room2 sim2
  by (rule copy2.fenced_leaky)

section \<open>Whole exponentiations\<close>

text \<open>What the callers of the exponentiations establish. \<open>modpow_pre\<close> is the functional precondition;
  \<open>modpow_safe\<close> is the part that concerns the headers and the sizes of the arrays only.\<close>

definition modpow_safe :: "nat \<Rightarrow> u32 arr \<Rightarrow> u8 arr \<Rightarrow> nat \<Rightarrow> u32 arr \<Rightarrow> u32 arr \<Rightarrow> u32 arr \<Rightarrow> bool" where
  "modpow_safe n x e elen m t1 t2 \<longleftrightarrow> hdr31 (cells m ! 0) n \<and> 0 < n \<and> cells x ! 0 = cells m ! 0 \<and>
     n < alen m \<and> n < alen x \<and> n < alen t1 \<and> n < alen t2 \<and> elen \<le> alen e \<and> elen < 536870912"

definition modpow_pre :: "nat \<Rightarrow> u32 arr \<Rightarrow> u8 arr \<Rightarrow> nat \<Rightarrow> u32 arr \<Rightarrow> u32 \<Rightarrow> u32 arr \<Rightarrow> u32 arr \<Rightarrow> bool" where
  "modpow_pre n x e elen m m0i t1 t2 \<longleftrightarrow> modpow_safe n x e elen m t1 t2 \<and>
     digits31 (Suc 0) n (cells m) \<and> digits31 (Suc 0) n (cells x) \<and>
     nbits (val31 n m) = bits31 (cells m ! 0) \<and> odd (val31 n m) \<and> 1 < val31 n m \<and> val31 n x < val31 n m \<and>
     m0i = br_i31_ninv31 (cells m ! 1)"

lemma modpow_preD:
  assumes "modpow_pre n x e elen m m0i t1 t2"
  shows "modulus31 (cells m ! 0) n m" and "is_i31 (cells m ! 0) n x"
    and "(unat m0i * unat (cells m ! 1) + 1) mod B31 = 0" and "odd (val31 n m)" and "1 < val31 n m"
    and "val31 n x < val31 n m" and "n < alen t1" and "n < alen t2" and "elen \<le> alen e" and "elen < 536870912"
proof -
  from assms have a: "modpow_safe n x e elen m t1 t2" "odd (val31 n m)" "m0i = br_i31_ninv31 (cells m ! 1)"
    by (auto simp: modpow_pre_def)
  then obtain k where "n = Suc k" by (cases n) (auto simp: modpow_safe_def)
  then have "odd (unat (cells m ! 1))" using a(2) by (simp add: wsum_head)
  then show "(unat m0i * unat (cells m ! 1) + 1) mod B31 = 0"
    using ninv31_correct(1) [of "cells m ! 1"] a(3) by simp
qed (use assms in \<open>auto simp: modpow_pre_def modpow_safe_def modulus31_def is_i31_def\<close>)

context cond_copy
begin

lemma ok_modpow:
  assumes pre: "modpow_pre n x e elen m m0i t1 t2"
    and mk: "\<And>x'. alen x' = alen x \<Longrightarrow> room (Suc n) (mk x') \<and> sel (mk x') = x'"
  shows "ok (do { (x, t1, mlen) \<leftarrow> modpow_init x m t1; modpow_loop sel copy e elen m m0i mlen (mk x, t1, t2) })
    (\<lambda>(s, _). is_i31 (cells m ! 0) n (sel s) \<and> val31 n (sel s) = val31 n x ^ be_val (take elen (cells e)) mod val31 n m)"
proof (rule ok_bind, rule ok_modpow_init [OF modpow_preD(1,5,2,6,7) [OF pre]], unfold prod.case)
  note D = modpow_preD [OF pre]
  fix x' t1'
  assume "is_i31 (cells m ! 0) n x'" "alen x' = alen x" "val31 n x' = 1 mod val31 n m"
    "is_i31 (cells m ! 0) n t1'" "val31 n t1' = (val31 n x * B31 ^ n) mod val31 n m"
  then show "ok (modpow_loop sel copy e elen m m0i (4 * Suc n) (mk x', t1', t2))
    (\<lambda>(s, _). is_i31 (cells m ! 0) n (sel s) \<and> val31 n (sel s) = val31 n x ^ be_val (take elen (cells e)) mod val31 n m)"
    using mk by (intro ok_modpow_loop [OF D(1,4,3,9,10) _ _ _ _ _ D(8)]) auto
qed

end

definition modpow_pub :: "u32 arr \<Rightarrow> u8 arr \<Rightarrow> u32 arr \<Rightarrow> u32 arr \<Rightarrow> u32 arr \<Rightarrow>
    u32 arr \<Rightarrow> u8 arr \<Rightarrow> u32 arr \<Rightarrow> u32 arr \<Rightarrow> u32 arr \<Rightarrow> bool" where
  "modpow_pub x e m t1 t2 x' e' m' t1' t2' \<longleftrightarrow>
     pub m m' \<and> pub x x' \<and> shape e e' \<and> shape t1 t1' \<and> shape t2 t2'"

lemma ct_memcpy32_put:
  assumes "shape d d'" and "shape s s'" and "n \<le> alen d" and "n \<le> alen s" and "len = 4 * n" and "R (put d s n) (put d' s' n)"
  shows "ct (memcpy32 d s len) (memcpy32 d' s' len) R"
  unfolding memcpy32_def using assms
  by (intro ct_bind ct_memcpy ct_ret) (auto simp: shape_def splice_def min_absorb2 simp flip: as_words_put)

lemma ct_modpow_init:
  assumes safe: "modpow_safe n x e elen m t1 t2" and p: "modpow_pub x e m t1 t2 x' e' m' t1' t2'"
    and R: "\<And>z z' u u'. pub z z' \<Longrightarrow> alen z = alen x \<Longrightarrow> shape u u' \<Longrightarrow> alen u = alen t1 \<Longrightarrow> R (z, u, 4 * Suc n) (z', u', 4 * Suc n)"
  shows "ct (modpow_init x m t1) (modpow_init x' m' t1') R"
proof -
  from safe have s: "hdr31 (cells m ! 0) n" "0 < n" "cells x ! 0 = cells m ! 0" "n < alen m" "n < alen x" "n < alen t1"
    by (auto simp: modpow_safe_def)
  from p have q: "pub m m'" "pub x x'" "shape t1 t1'" by (auto simp: modpow_pub_def)
  have w: "words31 (cells m ! 0) = n" "words63 (cells m ! 0) = Suc n" using hdr31D [OF s(1)] by auto
  have l: "0 < alen m" "Suc n \<le> alen t1" "Suc n \<le> alen x" using s by auto
  have pt: "pub (put t1 x (Suc n)) (put t1' x' (Suc n))" "cells (put t1 x (Suc n)) ! 0 = cells m ! 0"
    "alen (put t1 x (Suc n)) = alen t1"
    using q l s(3) by (auto simp: pub_def shape_def put_def nth_append min_absorb2)
  show ?thesis
    unfolding modpow_init_def Let_def
  proof (rule ct_bind, rule ct_ld [OF pubD(1) [OF q(1)] refl l(1)], unfold pubD(2) [OF q(1)] w, rule ct_bind,
      rule ct_memcpy32_put [OF q(3) pubD(1) [OF q(2)] l(2,3) mult.commute], rule ct_bind,
      rule ct_br_i31_to_monty [OF q(1) pt(1) s(1) _ s(4) pt(2)], unfold pt(3), rule s(6), rule ct_bind,
      rule ct_br_i31_zero [OF pubD(1) [OF q(2)]], unfold w)
    fix u u' z z' assume u: "pub u u'" "alen u = alen t1" and z: "pub z z'" "alen z = alen x"
    then show "ct (do { x \<leftarrow> st z 1 1; ret (x, u, Suc n * 4) }) (do { x \<leftarrow> st z' 1 1; ret (x, u', Suc n * 4) }) R"
      using s R by (intro ctr) (auto simp: pub_def mult.commute)
  qed (use l in simp)
qed

lemma bits_eq_iff_bytes:
  assumes "length a = k" and "length b = k"
  shows "(\<forall>j<8 * k. bit (be_val a) j = bit (be_val b) j) \<longleftrightarrow> a = b"
proof
  assume bits: "\<forall>j<8 * k. bit (be_val a) j = bit (be_val b) j"
  show "a = b"
  proof (rule nth_equalityI)
    show "length a = length b" using assms by simp
    fix i assume i: "i < length a"
    have "bit (a ! i) j = bit (b ! i) j" if "j < 8" for j
    proof -
      define r where "r = 8 * (k - 1 - i) + j"
      have r: "r < 8 * k" "r div 8 = k - 1 - i" "r mod 8 = j" using i assms that by (auto simp: r_def)
      have "k - 1 - (k - 1 - i) = i" using i assms by simp
      then show ?thesis using bits [rule_format, OF r(1)] r assms by (simp add: bit_be_val)
    qed
    then show "a ! i = b ! i" by (intro bit_word_eqI) simp
  qed
qed simp

context ct_copy
begin

lemma ct_modpow:
  assumes safe: "modpow_safe n x e elen m t1 t2" and p: "modpow_pub x e m t1 t2 x' e' m' t1' t2'"
    and mk: "\<And>z z'. shape z z' \<Longrightarrow> alen z = alen x \<Longrightarrow> room (Suc n) (mk z) \<and> sim (mk z) (mk' z')"
  shows "ct (do { (x, t1, mlen) \<leftarrow> modpow_init x m t1; modpow_loop sel copy e elen m m0i mlen (mk x, t1, t2) })
    (do { (x, t1, mlen) \<leftarrow> modpow_init x' m' t1'; modpow_loop sel copy e' elen m' m0i' mlen (mk' x, t1, t2') }) (mp_sim room sim n)"
proof (rule ct_bind, rule ct_modpow_init [OF safe p], unfold prod.case)
  fix z z' u u' :: "u32 arr" assume "pub z z'" "alen z = alen x" "shape u u'" "alen u = alen t1"
  then show "ct (modpow_loop sel copy e elen m m0i (4 * Suc n) (mk z, u, t2)) (modpow_loop sel copy e' elen m' m0i' (4 * Suc n) (mk' z', u', t2')) (mp_sim room sim n)"
    using safe p mk by (intro ct_modpow_loop) (auto simp: modpow_safe_def modpow_pub_def mp_sim_def pub_def)
qed

end

context leaky_copy
begin

lemma leaky_modpow:
  assumes safe: "modpow_safe n x e elen m t1 t2" and p: "modpow_pub x e m t1 t2 x' e' m' t1' t2'"
    and mk: "\<And>z z'. shape z z' \<Longrightarrow> alen z = alen x \<Longrightarrow> room (Suc n) (mk z) \<and> sim (mk z) (mk' z')"
  shows "trace (do { (x, t1, mlen) \<leftarrow> modpow_init x m t1; modpow_loop sel copy e elen m m0i mlen (mk x, t1, t2) })
    = trace (do { (x, t1, mlen) \<leftarrow> modpow_init x' m' t1'; modpow_loop sel copy e' elen m' m0i' mlen (mk' x, t1, t2') })
    \<longleftrightarrow> take elen (cells e) = take elen (cells e')" (is "trace ?f = trace ?g \<longleftrightarrow> _")
proof -
  let ?E = "be_val (take elen (cells e))" and ?E' = "be_val (take elen (cells e'))"
  have l: "length (take elen (cells e)) = elen" "length (take elen (cells e')) = elen"
    using safe p by (auto simp: modpow_safe_def modpow_pub_def shape_def)
  have s: "pub m m'" "hdr31 (cells m ! 0) n" "n < alen m" "shape e e'" "elen \<le> alen e" "elen < 536870912"
    using safe p by (auto simp: modpow_safe_def modpow_pub_def)
  have sim: "mp_sim room sim n (mk z, u, t2) (mk' z', u', t2')"
    if "pub z z'" "alen z = alen x" "shape u u'" "alen u = alen t1" for z z' u u'
    using that safe p mk by (auto simp: modpow_safe_def modpow_pub_def mp_sim_def pub_def)
  show ?thesis
  proof (cases "\<forall>j<8 * elen. bit ?E j = bit ?E' j")
    case True
    have "ct ?f ?g (mp_sim room sim n)"
      by (rule ct_bind, rule ct_modpow_init [OF safe p], unfold prod.case, rule leaky_loop_same [OF s])
        (use True sim in blast)+
    then show ?thesis using True bits_eq_iff_bytes [OF l] ctD_trace by blast
  next
    case False
    then obtain k where k: "k < 8 * elen" "bit ?E k \<noteq> bit ?E' k" by blast
    have "differ ?f ?g (\<lambda>_. True) (\<lambda>_. True)"
      by (rule differ_bind_right, rule ct_modpow_init [OF safe p], unfold prod.case, rule leaky_loop_differ [OF s k])
        (use sim in blast)
    then show ?thesis using False bits_eq_iff_bytes [OF l] differD by blast
  qed
qed

end

section \<open>Properties\<close>

lemma wsum_inj:
  assumes "digits31 off n xs" and "digits31 off n ys" and "wsum off n xs = wsum off n ys" and "j < n"
  shows "xs ! (off + j) = ys ! (off + j)"
  using assms
proof (induction n)
  case (Suc n)
  have lt: "wsum off n xs < B31 ^ n" "wsum off n ys < B31 ^ n"
    using Suc.prems(1,2) by (auto intro!: wsum_lt elim: digits31_prefix)
  have eq: "wsum off n xs + unat (xs ! (off + n)) * B31 ^ n = wsum off n ys + unat (ys ! (off + n)) * B31 ^ n"
    using Suc.prems(3) by (simp add: wsum_Suc)
  have "unat (xs ! (off + n)) = unat (ys ! (off + n))"
    using arg_cong [OF eq, of "\<lambda>v. v div B31 ^ n"] lt by simp
  moreover have "wsum off n xs = wsum off n ys" using arg_cong [OF eq, of "\<lambda>v. v mod B31 ^ n"] lt by simp
  ultimately show ?case
    using Suc.IH Suc.prems by (cases "j = n") (auto simp: digits31_prefix [of off "Suc n" _ n] simp flip: word_unat_eq_iff)
qed simp

lemma is_i31_eqI:
  assumes "is_i31 h n x" and "is_i31 h n y" and "val31 n x = val31 n y"
  shows "take (Suc n) (cells x) = take (Suc n) (cells y)"
proof (rule nth_equalityI)
  note xD = is_i31D [OF assms(1)] and yD = is_i31D [OF assms(2)]
  show "length (take (Suc n) (cells x)) = length (take (Suc n) (cells y))" using xD(5) yD(5) by simp
  fix i assume "i < length (take (Suc n) (cells x))"
  then show "take (Suc n) (cells x) ! i = take (Suc n) (cells y) ! i"
    using xD yD wsum_inj [OF xD(4) yD(4) assms(3)] by (cases i) auto
qed

abbreviation ex_e :: "u8 \<Rightarrow> u8 arr" where "ex_e v \<equiv> \<lparr>blk = 3, cells = [v]\<rparr>"

lemma ex_pre: "modpow_pre 2 ex_x (ex_e v) 1 ex_m (br_i31_ninv31 11) (ex_t 4) (ex_t 5)"
proof -
  have "nbits 2147483659 = 32" using nbits_eqI [of 31 2147483659] by simp
  then show ?thesis
    by (simp add: modpow_pre_def modpow_safe_def ex_vals digits31_2 hdr31_def bits31_def)
qed

text \<open>C8. \<open>br_i31_modpow\<close> computes \<open>x ^ e mod m\<close>: for an odd modulus above 1, a base below it and the right \<open>m0i\<close>, it stays
  in its arrays and leaves in \<open>x\<close>, under the header of the modulus, the power of \<open>x\<close> by the big-endian exponent.\<close>

theorem br_i31_modpow_correct:
  assumes "modpow_pre n x e elen m m0i t1 t2"
  shows "ok (br_i31_modpow x e elen m m0i t1 t2) (\<lambda>(x', _). is_i31 (cells m ! 0) n x' \<and>
    val31 n x' = val31 n x ^ be_val (take elen (cells e)) mod val31 n m)"
  unfolding br_i31_modpow_def
  using ccopy.ok_modpow [OF assms, of id] is_i31D(5) [OF modpow_preD(2) [OF assms]] by simp

theorem br_i31_modpow_correct_witness:
  "ok (br_i31_modpow ex_x (ex_e 5) 1 ex_m (br_i31_ninv31 11) (ex_t 4) (ex_t 5)) (\<lambda>(x', _). val31 2 x' = 2147450891)"
  by (rule ok_weaken [OF br_i31_modpow_correct [OF ex_pre]]) (auto simp: be_val_def ex_vals)

text \<open>C12. The six exponentiations return the same integer: the leaky copies and the fences change nothing of the result.\<close>

theorem modpow_variants_agree:
  assumes pre: "modpow_pre n x e elen m m0i t1 t2" and r: "n < alen r"
  defines "z \<equiv> take (Suc n) (cells (fst (result (br_i31_modpow x e elen m m0i t1 t2))))"
  shows "take (Suc n) (cells (fst (result (br_i31_modpow_fence x e elen m m0i t1 t2)))) = z \<and>
    take (Suc n) (cells (fst (result (br_i31_modpow_v1 x e elen m m0i t1 t2)))) = z \<and>
    take (Suc n) (cells (fst (result (br_i31_modpow_v1_fence x e elen m m0i t1 t2)))) = z \<and>
    take (Suc n) (cells (fst (fst (result (br_i31_modpow_v2 x r e elen m m0i t1 t2))))) = z \<and>
    take (Suc n) (cells (fst (fst (result (br_i31_modpow_v2_fence x r e elen m m0i t1 t2))))) = z"
proof -
  have lx: "n < alen x" by (rule is_i31D(5) [OF modpow_preD(2) [OF pre]])
  let ?P = "\<lambda>s. is_i31 (cells m ! 0) n s \<and> val31 n s = val31 n x ^ be_val (take elen (cells e)) mod val31 n m"
  have eq: "take (Suc n) (cells s) = z" if "?P s" for s
  proof -
    have "ok (br_i31_modpow x e elen m m0i t1 t2) (\<lambda>(s, _). ?P s)"
      unfolding br_i31_modpow_def using ccopy.ok_modpow [OF pre, of id] lx by simp
    from okD_result [OF this] that show ?thesis
      unfolding z_def by (auto split: prod.splits intro: is_i31_eqI)
  qed
  have q: "take (Suc n) (cells (fst (result f))) = z" if "ok f (\<lambda>(s, _). ?P (id s))" for f :: "(u32 arr \<times> u32 arr \<times> u32 arr) cm"
    using okD_result [OF that] by (intro eq) (auto split: prod.splits)
  have q2: "take (Suc n) (cells (fst (fst (result f)))) = z" if "ok f (\<lambda>(s, _). ?P (fst s))"
    for f :: "((u32 arr \<times> u32 arr) \<times> u32 arr \<times> u32 arr) cm"
    using okD_result [OF that] by (intro eq) (auto split: prod.splits)
  show ?thesis
  proof (intro conjI)
  show "take (Suc n) (cells (fst (result (br_i31_modpow_fence x e elen m m0i t1 t2)))) = z"
    unfolding br_i31_modpow_fence_def using ccopy_fence.ok_modpow [OF pre, of id] lx by (intro q) simp
  show "take (Suc n) (cells (fst (result (br_i31_modpow_v1 x e elen m m0i t1 t2)))) = z"
    unfolding br_i31_modpow_v1_def using copy1.ok_modpow [OF pre, of id] lx by (intro q) simp
  show "take (Suc n) (cells (fst (result (br_i31_modpow_v1_fence x e elen m m0i t1 t2)))) = z"
    unfolding br_i31_modpow_v1_fence_def using copy1_fence.ok_modpow [OF pre, of id] lx by (intro q) simp
  show "take (Suc n) (cells (fst (fst (result (br_i31_modpow_v2 x r e elen m m0i t1 t2))))) = z"
    unfolding br_i31_modpow_v2_def using lx r
    by (intro q2 copy2.ok_modpow [OF pre, of "\<lambda>x. (x, r)"]) (simp add: room2_def)
  show "take (Suc n) (cells (fst (fst (result (br_i31_modpow_v2_fence x r e elen m m0i t1 t2))))) = z"
    unfolding br_i31_modpow_v2_fence_def using lx r
    by (intro q2 copy2_fence.ok_modpow [OF pre, of "\<lambda>x. (x, r)"]) (simp add: room2_def)
  qed
qed

theorem modpow_variants_agree_witness:
  "take 3 (cells (fst (result (br_i31_modpow_v1 ex_x (ex_e 5) 1 ex_m (br_i31_ninv31 11) (ex_t 4) (ex_t 5)))))
   = take 3 (cells (fst (result (br_i31_modpow ex_x (ex_e 5) 1 ex_m (br_i31_ninv31 11) (ex_t 4) (ex_t 5)))))"
  using modpow_variants_agree [OF ex_pre, of "ex_t 6"] by simp

text \<open>C9. \<open>br_i31_modpow\<close> is constant time: two calls that agree in the blocks and sizes of the arrays, in the headers of
  \<open>x\<close> and \<open>m\<close> and in \<open>elen\<close>, whatever the base, the exponent and the value of the modulus, show the same trace of accesses and branches,
  and neither leaves an array.\<close>

theorem br_i31_modpow_constant_time:
  assumes "modpow_safe n x e elen m t1 t2" and "modpow_pub x e m t1 t2 x' e' m' t1' t2'"
  shows "trace (br_i31_modpow x e elen m m0i t1 t2) = trace (br_i31_modpow x' e' elen m' m0i' t1' t2') \<and>
    trace (br_i31_modpow x e elen m m0i t1 t2) \<noteq> None"
proof -
  have "n < alen x" using assms(1) by (simp add: modpow_safe_def)
  then have "ct (br_i31_modpow x e elen m m0i t1 t2) (br_i31_modpow x' e' elen m' m0i' t1' t2') (mp_sim room1 shape n)"
    unfolding br_i31_modpow_def using ccopy.ct_modpow [OF assms, of id id] by simp
  then show ?thesis using ctD_trace ctD_safe by blast
qed

lemma ex_safe: "modpow_safe 2 ex_x (ex_e v) 1 ex_m (ex_t 4) (ex_t 5)"
  and ex_pub: "modpow_pub ex_x (ex_e v) ex_m (ex_t 4) (ex_t 5) ex_x (ex_e w) ex_m (ex_t 4) (ex_t 5)"
  using ex_pre [of v] by (auto simp: modpow_pre_def modpow_pub_def shape_def pub_def)

theorem br_i31_modpow_constant_time_witness:
  "trace (br_i31_modpow ex_x (ex_e 5) 1 ex_m 0 (ex_t 4) (ex_t 5)) = trace (br_i31_modpow ex_x (ex_e 200) 1 ex_m 0 (ex_t 4) (ex_t 5))"
  using br_i31_modpow_constant_time [OF ex_safe ex_pub] by blast

text \<open>The fences keep \<open>br_i31_modpow_fence\<close> constant time, in the same sense.\<close>

theorem br_i31_modpow_fence_constant_time:
  assumes "modpow_safe n x e elen m t1 t2" and "modpow_pub x e m t1 t2 x' e' m' t1' t2'"
  shows "trace (br_i31_modpow_fence x e elen m m0i t1 t2) = trace (br_i31_modpow_fence x' e' elen m' m0i' t1' t2') \<and>
    trace (br_i31_modpow_fence x e elen m m0i t1 t2) \<noteq> None"
proof -
  have "n < alen x" using assms(1) by (simp add: modpow_safe_def)
  then have "ct (br_i31_modpow_fence x e elen m m0i t1 t2) (br_i31_modpow_fence x' e' elen m' m0i' t1' t2') (mp_sim room1 shape n)"
    unfolding br_i31_modpow_fence_def using ccopy_fence.ct_modpow [OF assms, of id id] by simp
  then show ?thesis using ctD_trace ctD_safe by blast
qed

theorem br_i31_modpow_fence_constant_time_witness:
  "trace (br_i31_modpow_fence ex_x (ex_e 5) 1 ex_m 0 (ex_t 4) (ex_t 5)) = trace (br_i31_modpow_fence ex_x (ex_e 200) 1 ex_m 0 (ex_t 4) (ex_t 5))"
  using br_i31_modpow_fence_constant_time [OF ex_safe ex_pub] by blast

text \<open>C10. \<open>br_i31_modpow_v1\<close> gives the whole exponent away: on the same public inputs, two traces are equal exactly when
  the two exponents are; its variant with fences leaks the same.\<close>

theorem br_i31_modpow_v1_leaks:
  assumes "modpow_safe n x e elen m t1 t2" and "modpow_pub x e m t1 t2 x' e' m' t1' t2'"
  shows "(trace (br_i31_modpow_v1 x e elen m m0i t1 t2) = trace (br_i31_modpow_v1 x' e' elen m' m0i' t1' t2')
      \<longleftrightarrow> take elen (cells e) = take elen (cells e')) \<and>
    (trace (br_i31_modpow_v1_fence x e elen m m0i t1 t2) = trace (br_i31_modpow_v1_fence x' e' elen m' m0i' t1' t2')
      \<longleftrightarrow> take elen (cells e) = take elen (cells e'))"
proof -
  have lx: "n < alen x" using assms(1) by (simp add: modpow_safe_def)
  show ?thesis
  proof (rule conjI)
  show "trace (br_i31_modpow_v1 x e elen m m0i t1 t2) = trace (br_i31_modpow_v1 x' e' elen m' m0i' t1' t2')
      \<longleftrightarrow> take elen (cells e) = take elen (cells e')"
    unfolding br_i31_modpow_v1_def using copy1.leaky_modpow [OF assms, of id id] lx by simp
  show "trace (br_i31_modpow_v1_fence x e elen m m0i t1 t2) = trace (br_i31_modpow_v1_fence x' e' elen m' m0i' t1' t2')
      \<longleftrightarrow> take elen (cells e) = take elen (cells e')"
    unfolding br_i31_modpow_v1_fence_def using copy1_fence.leaky_modpow [OF assms, of id id] lx by simp
  qed
qed

theorem br_i31_modpow_v1_leaks_witness:
  "trace (br_i31_modpow_v1 ex_x (ex_e 5) 1 ex_m 0 (ex_t 4) (ex_t 5)) \<noteq> trace (br_i31_modpow_v1 ex_x (ex_e 200) 1 ex_m 0 (ex_t 4) (ex_t 5))"
  using br_i31_modpow_v1_leaks [OF ex_safe ex_pub] by simp

text \<open>C11. So does \<open>br_i31_modpow_v2\<close>, although it copies the same number of bytes whatever the bit: the branch and the destination
  of the copy tell every bit of the exponent. Fences do not help.\<close>

theorem br_i31_modpow_v2_leaks:
  assumes "modpow_safe n x e elen m t1 t2" and "modpow_pub x e m t1 t2 x' e' m' t1' t2'" and "shape r r'" and "n < alen r"
  shows "(trace (br_i31_modpow_v2 x r e elen m m0i t1 t2) = trace (br_i31_modpow_v2 x' r' e' elen m' m0i' t1' t2')
      \<longleftrightarrow> take elen (cells e) = take elen (cells e')) \<and>
    (trace (br_i31_modpow_v2_fence x r e elen m m0i t1 t2) = trace (br_i31_modpow_v2_fence x' r' e' elen m' m0i' t1' t2')
      \<longleftrightarrow> take elen (cells e) = take elen (cells e'))"
proof -
  have lx: "n < alen x" using assms(1) by (simp add: modpow_safe_def)
  show ?thesis
  proof (rule conjI)
  show "trace (br_i31_modpow_v2 x r e elen m m0i t1 t2) = trace (br_i31_modpow_v2 x' r' e' elen m' m0i' t1' t2')
      \<longleftrightarrow> take elen (cells e) = take elen (cells e')"
    unfolding br_i31_modpow_v2_def using lx assms(3,4)
    by (intro copy2.leaky_modpow [OF assms(1,2), of "\<lambda>x. (x, r)" "\<lambda>x. (x, r')"]) (simp add: room2_def sim2_def)
  show "trace (br_i31_modpow_v2_fence x r e elen m m0i t1 t2) = trace (br_i31_modpow_v2_fence x' r' e' elen m' m0i' t1' t2')
      \<longleftrightarrow> take elen (cells e) = take elen (cells e')"
    unfolding br_i31_modpow_v2_fence_def using lx assms(3,4)
    by (intro copy2_fence.leaky_modpow [OF assms(1,2), of "\<lambda>x. (x, r)" "\<lambda>x. (x, r')"]) (simp add: room2_def sim2_def)
  qed
qed

theorem br_i31_modpow_v2_leaks_witness:
  "trace (br_i31_modpow_v2 ex_x (ex_t 6) (ex_e 5) 1 ex_m 0 (ex_t 4) (ex_t 5))
    \<noteq> trace (br_i31_modpow_v2 ex_x (ex_t 6) (ex_e 200) 1 ex_m 0 (ex_t 4) (ex_t 5))"
proof -
  have "shape (ex_t 6) (ex_t 6)" "2 < alen (ex_t 6)" by simp_all
  from br_i31_modpow_v2_leaks [OF ex_safe ex_pub this] show ?thesis by simp
qed

end
