(* ===== verification/I31_Codec.thy ===== *)
theory I31_Codec
  imports I31_Modpow
begin

text \<open>
  Bytes to integers and back: \<^verbatim>\<open>src/int/i31_decode.c\<close>, \<^verbatim>\<open>i31_encode.c\<close>, \<^verbatim>\<open>i31_decmod.c\<close>. The byte strings
  are big-endian, \<open>be_val\<close> is the number that they stand for.
\<close>

section \<open>Decoding\<close>

definition decode_step :: "u8 arr \<Rightarrow> nat \<Rightarrow> u32 arr \<times> nat \<times> u32 \<times> nat \<Rightarrow> (u32 arr \<times> nat \<times> u32 \<times> nat) cm" where
  "decode_step src u = (\<lambda>(x, v, acc, acc_len). do {
     b \<leftarrow> ld src u;
     let b = ucast b;
     let acc = acc OR shl b acc_len;
     let acc_len = acc_len + 8;
     branch (31 \<le> acc_len)
       (do {
         x \<leftarrow> st x v (acc AND 0x7FFFFFFF);
         let acc_len = acc_len - 31;
         ret (x, v + 1, shr b (8 - acc_len), acc_len) })
       (ret (x, v, acc, acc_len)) })"

definition br_i31_decode :: "u32 arr \<Rightarrow> u8 arr \<Rightarrow> nat \<Rightarrow> u32 arr cm" where
  "br_i31_decode x src len = do {
     (x, v, acc, acc_len) \<leftarrow> for_down len (decode_step src) (x, 1, 0, 0);
     (x, v) \<leftarrow> branch (acc_len \<noteq> 0) (do { x \<leftarrow> st x v acc; ret (x, v + 1) }) (ret (x, v));
     bl \<leftarrow> br_i31_bit_length x 1 (v - 1);
     st x 0 bl }"

text \<open>Eight bits of \<open>b\<close> come in above the \<open>l\<close> bits of \<open>acc\<close>; a full word of 31 bits goes out.\<close>

lemma acc_in:
  fixes acc :: u32 and b :: u8
  assumes acc: "unat acc < 2 ^ l" and l: "l \<le> 30"
  defines "a \<equiv> acc OR shl (ucast b) l"
  shows "l + 8 < 31 \<Longrightarrow> unat a = unat acc + unat b * 2 ^ l"
    and "unat (a AND 0x7FFFFFFF) + B31 * unat (shr (ucast b :: u32) (31 - l)) = unat acc + unat b * 2 ^ l"
    and "31 \<le> l + 8 \<Longrightarrow> unat (shr (ucast b :: u32) (31 - l)) < 2 ^ (l + 8 - 31)"
proof -
  have ub: "unat (ucast b :: u32) = unat b" using unat_lt8 [of b] by (simp add: unsigned_ucast_eq take_bit_nat_eq_self)
  obtain j where j: "31 - l = j" "l + j = 31" using l by simp
  have p: "B31 = 2 ^ l * 2 ^ j" unfolding power_add [symmetric] j(2) by simp
  have p2: "(4294967296 :: nat) = 2 ^ l * 2 ^ Suc j" using p by (simp add: mult.commute)
  have sh: "unat (shl (ucast b :: u32) l) = 2 ^ l * (unat b mod 2 ^ Suc j)"
    unfolding unat_shl32 ub p2 by (simp only: mult_mod_right mult.commute)
  have "2 ^ l dvd unat (shl (ucast b :: u32) l)" unfolding sh by simp
  from or_disjoint(2) [OF this acc] have a: "unat a = unat (shl (ucast b :: u32) l) + unat acc"
    by (simp add: a_def or.commute)
  show "unat a = unat acc + unat b * 2 ^ l" if "l + 8 < 31"
  proof -
    have "unat b * 2 ^ l < 256 * 2 ^ l" using unat_lt8 [of b] by simp
    also have "256 * 2 ^ l = (2 :: nat) ^ (l + 8)" by (simp add: power_add)
    also have "\<dots> \<le> 2 ^ 31" using that by (intro power_increasing) simp_all
    finally show ?thesis by (simp add: a unat_shl32 ub)
  qed
  have low: "unat (a AND 0x7FFFFFFF) = (unat acc + unat b * 2 ^ l) mod B31"
  proof -
    have "(y mod 4294967296 + x) mod B31 = (x + y) mod B31" for x y :: nat
    proof -
      have "y mod 4294967296 mod B31 = y mod B31" by (rule mod_mod_cancel) simp
      then show ?thesis by (metis add.commute mod_add_left_eq)
    qed
    then show ?thesis by (simp add: unat_and31 a unat_shl32 ub)
  qed
  have "(unat acc + unat b * 2 ^ l) div B31 = (unat acc + 2 ^ l * unat b) div 2 ^ l div 2 ^ j"
    unfolding p div_mult2_eq by (simp only: mult.commute)
  also have "(unat acc + 2 ^ l * unat b) div 2 ^ l = unat b" using acc by simp
  finally have high: "unat (shr (ucast b :: u32) (31 - l)) = (unat acc + unat b * 2 ^ l) div B31"
    by (simp add: unat_drop_bit ub j(1))
  show "unat (a AND 0x7FFFFFFF) + B31 * unat (shr (ucast b :: u32) (31 - l)) = unat acc + unat b * 2 ^ l"
    unfolding low high by simp
  show "unat (shr (ucast b :: u32) (31 - l)) < 2 ^ (l + 8 - 31)" if "31 \<le> l + 8"
  proof -
    have e: "j + (l + 8 - 31) = 8" using that j(2) by linarith
    have "2 ^ j * 2 ^ (l + 8 - 31) = (256 :: nat)" unfolding power_add [symmetric] e by simp
    then have "unat b < 2 ^ (l + 8 - 31) * 2 ^ j" using unat_lt8 [of b] by (simp only: mult.commute)
    then show ?thesis by (simp add: unat_drop_bit ub j(1) less_mult_imp_div_less)
  qed
qed


definition dec_inv :: "u32 arr \<Rightarrow> u8 list \<Rightarrow> nat \<Rightarrow> u32 arr \<times> nat \<times> u32 \<times> nat \<Rightarrow> bool" where
  "dec_inv x bs k w \<longleftrightarrow> (case w of (x', v, acc, l) \<Rightarrow>
     blk x' = blk x \<and> alen x' = alen x \<and> (\<forall>i\<ge>v. cells x' ! i = cells x ! i) \<and>
     0 < v \<and> 31 * (v - 1) + l = 8 * k \<and> l < 31 \<and> unat acc < 2 ^ l \<and> digits31 (Suc 0) (v - 1) (cells x') \<and>
     i31v (v - 1) (cells x') + unat acc * B31 ^ (v - 1) = be_val bs)"

lemma dec_inv_step:
  assumes i: "dec_inv x bs k (x', v, acc, l)" and k: "k = length bs" and sz: "8 * Suc k + 31 \<le> 31 * alen x"
    and a_def: "a = acc OR shl (ucast (b :: u8)) l"
  shows "\<not> 31 \<le> l + 8 \<Longrightarrow> dec_inv x (b # bs) (Suc k) (x', v, a, l + 8)"
    and "31 \<le> l + 8 \<Longrightarrow> v < alen x' \<and> dec_inv x (b # bs) (Suc k)
      (x'\<lparr>cells := (cells x')[v := a AND 0x7FFFFFFF]\<rparr>, v + 1, shr (ucast b) (8 - (l + 8 - 31)), l + 8 - 31)"
proof -
  from i have x': "blk x' = blk x" "alen x' = alen x" "\<forall>i\<ge>v. cells x' ! i = cells x ! i"
    and v: "0 < v" "31 * (v - 1) + l = 8 * k" "l < 31" and acc: "unat acc < 2 ^ l" and dg: "digits31 (Suc 0) (v - 1) (cells x')"
    and val: "i31v (v - 1) (cells x') + unat acc * B31 ^ (v - 1) = be_val bs"
    by (auto simp: dec_inv_def)
  obtain q where q: "v = Suc q" using v(1) by (cases v) auto
  have pw: "B31 ^ q * 2 ^ l = (256 :: nat) ^ k" using v(2) by (simp add: q pow256 flip: power31)
  have new: "i31v q (cells x') + (unat acc + unat b * 2 ^ l) * B31 ^ q = be_val (b # bs)"
    unfolding be_val_Cons k [symmetric] pw [symmetric] using val by (simp add: q algebra_simps)
  note A = acc_in [OF acc, of b, folded a_def]
  show "dec_inv x (b # bs) (Suc k) (x', v, a, l + 8)" if n: "\<not> 31 \<le> l + 8"
  proof -
    have "unat a = unat acc + unat b * 2 ^ l" using A(1) n by simp
    moreover have "unat acc + unat b * 2 ^ l < 2 ^ (l + 8)"
    proof -
      have "unat acc + unat b * 2 ^ l < (unat b + 1) * 2 ^ l" using acc by simp
      also have "\<dots> \<le> 256 * 2 ^ l" using unat_lt8 [of b] by (intro mult_le_mono1) simp
      finally show ?thesis by (simp add: power_add)
    qed
    ultimately show ?thesis using x' v dg new n by (simp add: dec_inv_def q)
  qed
  show "v < alen x' \<and> dec_inv x (b # bs) (Suc k)
      (x'\<lparr>cells := (cells x')[v := a AND 0x7FFFFFFF]\<rparr>, v + 1, shr (ucast b) (8 - (l + 8 - 31)), l + 8 - 31)" if n: "31 \<le> l + 8"
  proof -
    have vl: "v < alen x'" using v(2) sz n unfolding x'(2) q by simp
    have sh: "8 - (l + 8 - 31) = 31 - l" using n v(3) by linarith
    let ?c = "(cells x')[v := a AND 0x7FFFFFFF]"
    have "digits31 (Suc 0) v ?c"
      using dg vl by (auto simp: q digits31_def less_Suc_eq nth_list_update unat_and31)
    moreover have "i31v v ?c + unat (shr (ucast b :: u32) (31 - l)) * B31 ^ v = be_val (b # bs)"
    proof -
      have "i31v v ?c = i31v q (cells x') + unat (a AND 0x7FFFFFFF) * B31 ^ q" using vl by (simp add: q)
      then have "i31v v ?c + unat (shr (ucast b :: u32) (31 - l)) * B31 ^ v
        = i31v q (cells x') + (unat (a AND 0x7FFFFFFF) + B31 * unat (shr (ucast b :: u32) (31 - l))) * B31 ^ q"
        by (simp add: q algebra_simps)
      also have "unat (a AND 0x7FFFFFFF) + B31 * unat (shr (ucast b :: u32) (31 - l)) = unat acc + unat b * 2 ^ l"
        using A(2) v(3) by simp
      finally show ?thesis unfolding new .
    qed
    moreover have "31 * v + (l + 8 - 31) = 8 * Suc k" using v(2) n unfolding q by simp
    moreover have "unat (shr (ucast b :: u32) (31 - l)) < 2 ^ (l + 8 - 31)" using A(3) v(3) n by simp
    ultimately show ?thesis using vl x' v(3) n unfolding sh by (simp add: dec_inv_def)
  qed
qed

lemma ok_decode_step:
  assumes i: "dec_inv x (drop (Suc u) bs) (len - Suc u) w" and bs: "bs = take len (cells src)" and u: "u < len"
    and len: "len \<le> alen src" and sz: "8 * len + 31 \<le> 31 * alen x"
  shows "ok (decode_step src u w) (dec_inv x (drop u bs) (len - u))"
proof -
  obtain x' v acc l where w: "w = (x', v, acc, l)" by (cases w)
  have dr: "drop u bs = cells src ! u # drop (Suc u) bs" and ll: "len - Suc u = length (drop (Suc u) bs)" "len - u = Suc (len - Suc u)"
    using u len by (simp_all add: bs Cons_nth_drop_Suc [symmetric] min_absorb2)
  have "Suc (len - Suc u) \<le> len" using u by simp
  then have "8 * Suc (len - Suc u) \<le> 8 * len" by (rule mult_le_mono2)
  then have "8 * Suc (len - Suc u) + 31 \<le> 31 * alen x" using sz by (meson add_le_mono1 order_trans)
  note s = dec_inv_step [OF i [unfolded w] ll(1) this refl, of "cells src ! u"]
  show ?thesis
    unfolding decode_step_def w prod.case Let_def dr ll(2) using u len s
    by (intro ok_bind ok_ld ok_branch ok_st ok_ret) auto
qed

lemma ok_br_i31_decode:
  assumes len: "len \<le> alen src" "len < 500000000" and sz: "8 * len + 31 \<le> 31 * alen x"
    and n: "n = (8 * len + 30) div 31"
    and Q: "\<And>x'. blk x' = blk x \<Longrightarrow> alen x' = alen x \<Longrightarrow> digits31 (Suc 0) n (cells x') \<Longrightarrow> (\<forall>i>n. cells x' ! i = cells x ! i) \<Longrightarrow>
      i31v n (cells x') = be_val (take len (cells src)) \<Longrightarrow> unat (cells x' ! 0) = enc31 (nbits (be_val (take len (cells src)))) \<Longrightarrow> Q x'"
  shows "ok (br_i31_decode x src len) Q"
proof -
  define bs where "bs = take len (cells src)"
  have x0: "0 < alen x" using sz by linarith
  have last: "ok (do { bl \<leftarrow> br_i31_bit_length y 1 n; st y 0 bl }) Q"
    if y: "blk y = blk x" "alen y = alen x" "\<forall>i>n. cells y ! i = cells x ! i" "digits31 (Suc 0) n (cells y)" "i31v n (cells y) = be_val bs" for y
  proof -
    have n': "n < 134217727" using n len(2) by linarith
    show ?thesis
    proof (rule ok_bind, unfold One_nat_def, rule ok_br_i31_bit_length [OF y(4) n'])
      fix r :: u32 assume "unat r = enc31 (nbits (i31v n (cells y)))"
      then show "ok (st y 0 r) Q" using y x0 by (intro wp Q) (auto simp: bs_def)
    qed
  qed
  have fin: "ok (case w of (x, v, acc, acc_len) \<Rightarrow> do {
     (x, v) \<leftarrow> branch (acc_len \<noteq> 0) (do { x \<leftarrow> st x v acc; ret (x, v + 1) }) (ret (x, v));
     bl \<leftarrow> br_i31_bit_length x 1 (v - 1); st x 0 bl }) Q" if i: "dec_inv x bs len w" for w
  proof -
    obtain y v acc l where w: "w = (y, v, acc, l)" by (cases w)
    from i obtain q where q: "v = Suc q" by (cases v) (auto simp: dec_inv_def w)
    from i have y: "blk y = blk x" "alen y = alen x" "\<forall>i\<ge>v. cells y ! i = cells x ! i" "31 * q + l = 8 * len" "l < 31"
        "unat acc < 2 ^ l" "digits31 (Suc 0) q (cells y)" "i31v q (cells y) + unat acc * B31 ^ q = be_val bs"
      by (auto simp: dec_inv_def w q)
    show ?thesis
    proof (cases "l = 0")
      case True
      then have "n = q" using n y(4) by linarith
      then show ?thesis unfolding w prod.case using y True q last [of y]
        by (intro ok_bind ok_branch ok_ret) auto
    next
      case False
      then have nq: "n = Suc q" using n y(4,5) by linarith
      have lv: "v < alen y" using y(2,4) sz q x0 False by linarith
      let ?y = "y\<lparr>cells := (cells y)[v := acc]\<rparr>"
      have "(2::nat) ^ l \<le> 2 ^ 31" using y(5) by (intro power_increasing) auto
      then have "unat acc < B31" using y(6) by simp
      then have "digits31 (Suc 0) n (cells ?y)"
        using y(7) lv by (auto simp: nq q digits31_def less_Suc_eq nth_list_update)
      moreover have "i31v n (cells ?y) = be_val bs" using lv y(8) by (simp add: nq q)
      ultimately have "ok (do { bl \<leftarrow> br_i31_bit_length ?y 1 n; st ?y 0 bl }) Q"
        using y(1-3) by (intro last) (auto simp: nq q)
      then show ?thesis unfolding w prod.case using False q nq lv
        by (intro ok_bind ok_branch ok_st ok_ret) auto
    qed
  qed
  have init: "dec_inv x (drop len bs) (len - len) (x, 1, 0, 0)"
    using x0 by (simp add: dec_inv_def bs_def digits31_def Suc_le_eq)
  show ?thesis
    unfolding br_i31_decode_def
  proof (rule ok_bind, rule ok_for_down [where Inv = "\<lambda>u. dec_inv x (drop u bs) (len - u)", OF init])
    show "ok (decode_step src u w) (dec_inv x (drop u bs) (len - u))"
      if "u < len" "dec_inv x (drop (Suc u) bs) (len - Suc u) w" for u w
      by (rule ok_decode_step [OF that(2) bs_def that(1) len(1) sz])
  qed (rule fin, simp)
qed


section \<open>Decoding below a modulus\<close>

definition emit_word :: "bool \<Rightarrow> u32 arr \<Rightarrow> nat \<Rightarrow> u32 \<Rightarrow> u32 arr \<Rightarrow> u32 \<Rightarrow> nat \<Rightarrow> (u32 arr \<times> u32) cm" where
  "emit_word pass m mlen xw x r v =
     branch (v \<le> mlen)
       (branch pass
         (do { x \<leftarrow> st x v (r AND xw); ret (x, r) })
         (do { mv \<leftarrow> ld m v; let cc = CMP xw mv; ret (x, MUX (EQ cc 0) r cc) }))
       (branch (\<not> pass) (ret (x, MUX (EQ xw 0) r 1)) (ret (x, r)))"

definition decmod_byte :: "bool \<Rightarrow> u8 arr \<Rightarrow> nat \<Rightarrow> u32 arr \<Rightarrow> nat \<Rightarrow> nat \<Rightarrow> u32 arr \<times> u32 \<times> nat \<times> u32 \<times> nat \<Rightarrow>
    (u32 arr \<times> u32 \<times> nat \<times> u32 \<times> nat) cm" where
  "decmod_byte pass src len m mlen u = (\<lambda>(x, r, v, acc, acc_len). do {
     b \<leftarrow> branch (u < len) (ld src (len - 1 - u)) (ret 0);
     let b = ucast b;
     let acc = acc OR shl b acc_len;
     let acc_len = acc_len + 8;
     branch (31 \<le> acc_len)
       (do {
         let xw = acc AND 0x7FFFFFFF;
         let acc_len = acc_len - 31;
         let acc = shr b (8 - acc_len);
         (x, r) \<leftarrow> emit_word pass m mlen xw x r v;
         ret (x, r, v + 1, acc, acc_len) })
       (ret (x, r, v, acc, acc_len)) })"

definition decmod_pass :: "bool \<Rightarrow> u8 arr \<Rightarrow> nat \<Rightarrow> u32 arr \<Rightarrow> nat \<Rightarrow> nat \<Rightarrow> u32 arr \<Rightarrow> u32 \<Rightarrow> (u32 arr \<times> u32) cm" where
  "decmod_pass pass src len m mlen tlen x r = do {
     (x, r, v, acc, acc_len) \<leftarrow> for_loop 0 tlen (decmod_byte pass src len m mlen) (x, r, 1, 0, 0);
     let r = shr r 1;
     ret (x, r OR shl r 1) }"

definition br_i31_decode_mod :: "u32 arr \<Rightarrow> u8 arr \<Rightarrow> nat \<Rightarrow> u32 arr \<Rightarrow> (u32 arr \<times> u32) cm" where
  "br_i31_decode_mod x src len m = do {
     m0 \<leftarrow> ld m 0;
     let mlen = words31 m0;
     tlen \<leftarrow> branch (mlen * 4 < len) (ret len) (ret (mlen * 4));
     let tlen = tlen + 4;
     (x, r) \<leftarrow> decmod_pass False src len m mlen tlen x 0;
     (x, r) \<leftarrow> decmod_pass True src len m mlen tlen x r;
     x \<leftarrow> st x 0 m0;
     ret (x, r AND 1) }"

text \<open>The three-way comparison of two numbers as a word.\<close>

definition cmp_word :: "nat \<Rightarrow> nat \<Rightarrow> u32" where
  "cmp_word a b = (if a = b then 0 else if b < a then 1 else - 1)"

definition dm_acc :: "nat \<Rightarrow> nat \<Rightarrow> nat \<times> u32 \<times> nat \<Rightarrow> bool" where
  "dm_acc V u w \<longleftrightarrow> (case w of (v, acc, l) \<Rightarrow>
     0 < v \<and> 31 * (v - 1) + l = 8 * u \<and> l < 31 \<and> unat acc = (V mod 256 ^ u) div B31 ^ (v - 1))"

lemma mod_div_mod:
  fixes V P Q R :: nat
  assumes "0 < P"
  shows "V mod (P * Q * R) div P mod Q = V div P mod Q"
proof -
  have "V div P = (P * (Q * (R * (V div (P * Q * R)))) + V mod (P * Q * R)) div P"
    using mult_div_mod_eq [of "P * Q * R" V] by (simp only: ac_simps)
  also have "\<dots> = Q * (R * (V div (P * Q * R))) + V mod (P * Q * R) div P" using assms by simp
  finally show ?thesis by (simp only: mod_mult_self4)
qed

lemma dm_acc_step:
  assumes i: "dm_acc (be_val bs) u (v, acc, l)" and a_def: "a = acc OR shl (ucast (be_byte bs u)) l"
  shows "\<not> 31 \<le> l + 8 \<Longrightarrow> dm_acc (be_val bs) (Suc u) (v, a, l + 8)"
    and "31 \<le> l + 8 \<Longrightarrow> unat (a AND 0x7FFFFFFF) = be_val bs div B31 ^ (v - 1) mod B31 \<and>
      dm_acc (be_val bs) (Suc u) (v + 1, shr (ucast (be_byte bs u)) (8 - (l + 8 - 31)), l + 8 - 31)"
proof -
  let ?V = "be_val bs" and ?b = "be_byte bs u"
  from i obtain q where q: "v = Suc q" by (cases v) (auto simp: dm_acc_def)
  from i have v: "31 * q + l = 8 * u" "l < 31" and acc: "unat acc = (?V mod 256 ^ u) div B31 ^ q"
    by (auto simp: dm_acc_def q)
  have pw: "(256 :: nat) ^ u = B31 ^ q * 2 ^ l" using v(1) by (simp add: pow256 flip: power31)
  have "?V mod 256 ^ u < 2 ^ l * B31 ^ q" unfolding pw by (simp add: mult.commute)
  then have al: "unat acc < 2 ^ l" unfolding acc by (rule less_mult_imp_div_less)
  have T: "(?V mod 256 ^ Suc u) div B31 ^ q = unat acc + unat ?b * 2 ^ l"
  proof -
    have "?V mod 256 ^ Suc u = ?V mod 256 ^ u + B31 ^ q * (2 ^ l * unat ?b)"
      unfolding be_val_mod unfolding pw by (simp only: ac_simps)
    then have "?V mod 256 ^ Suc u div B31 ^ q = (?V mod 256 ^ u + B31 ^ q * (2 ^ l * unat ?b)) div B31 ^ q" by (simp only:)
    also have "\<dots> = ?V mod 256 ^ u div B31 ^ q + 2 ^ l * unat ?b" by simp
    finally show ?thesis unfolding acc by (simp only: mult.commute)
  qed
  note A = acc_in [OF al, of ?b, folded a_def]
  show "dm_acc ?V (Suc u) (v, a, l + 8)" if "\<not> 31 \<le> l + 8"
    using A(1) v T that by (simp add: dm_acc_def q)
  show "unat (a AND 0x7FFFFFFF) = ?V div B31 ^ (v - 1) mod B31 \<and>
      dm_acc ?V (Suc u) (v + 1, shr (ucast ?b) (8 - (l + 8 - 31)), l + 8 - 31)" if n: "31 \<le> l + 8"
  proof -
    have sh: "8 - (l + 8 - 31) = 31 - l" using n v(2) by linarith
    define xw where "xw = unat (a AND 0x7FFFFFFF)"
    define na where "na = unat (shr (ucast ?b :: u32) (31 - l))"
    have xl: "xw < B31" by (simp add: xw_def unat_and31)
    have e: "xw + B31 * na = ?V mod 256 ^ Suc u div B31 ^ q"
      unfolding T xw_def na_def using A(2) v(2) by simp
    have x: "xw = ?V mod 256 ^ Suc u div B31 ^ q mod B31" unfolding e [symmetric] using xl by simp
    have "na = ?V mod 256 ^ Suc u div B31 ^ q div B31" unfolding e [symmetric] using xl by simp
    then have na: "na = ?V mod 256 ^ Suc u div B31 ^ Suc q" by (simp add: div_mult2_eq [symmetric] mult.commute)
    have "8 * Suc u = 31 * q + 31 + (l + 8 - 31)" using v(1) n by simp
    then have "(256 :: nat) ^ Suc u = B31 ^ q * B31 * 2 ^ (l + 8 - 31)"
      unfolding pow256 by (simp add: power_add power_mult)
    then have "xw = ?V div B31 ^ q mod B31" unfolding x by (simp only: mod_div_mod zero_less_power zero_less_numeral)
    moreover have "31 * v + (l + 8 - 31) = 8 * Suc u" using v(1) n unfolding q by simp
    ultimately show ?thesis unfolding sh using na v(2) by (simp add: dm_acc_def q xw_def na_def)
  qed
qed

lemma cmp_word_step:
  assumes "(va :: nat) < P" and "vb < P"
  shows "cmp_word (va + unat (a :: u32) * P) (vb + unat b * P) = MUX (EQ (CMP a b) 0) (cmp_word va vb) (CMP a b)"
proof -
  have "va + unat a * P = vb + unat b * P \<longleftrightarrow> va = vb \<and> a = b"
  proof
    assume e: "va + unat a * P = vb + unat b * P"
    have "unat a = unat b" using arg_cong [OF e, of "\<lambda>x. x div P"] assms by simp
    then show "va = vb \<and> a = b" using e by (simp add: word_unat_eq_iff)
  qed simp
  moreover have "vb + unat b * P < va + unat a * P \<longleftrightarrow> unat b < unat a + of_bool (vb < va)"
    by (rule digit_less [OF assms(2,1)])
  ultimately show ?thesis
    by (cases a b rule: linorder_cases) (auto simp: cmp_word_def CMP_eq word_less_nat_alt)
qed


text \<open>The first pass compares the words that have gone out with those of the modulus.\<close>

definition dm_cmp :: "u32 arr \<Rightarrow> nat \<Rightarrow> nat \<Rightarrow> nat \<Rightarrow> u32 arr \<times> u32 \<times> nat \<times> u32 \<times> nat \<Rightarrow> bool" where
  "dm_cmp x V M u w \<longleftrightarrow> (case w of (x', r, v, acc, l) \<Rightarrow>
     dm_acc V u (v, acc, l) \<and> x' = x \<and> r = cmp_word (V mod B31 ^ (v - 1)) (M mod B31 ^ (v - 1)))"

text \<open>The second pass writes them, masked with the result of the first.\<close>

definition dm_put :: "nat \<Rightarrow> u32 arr \<Rightarrow> u32 \<Rightarrow> nat \<Rightarrow> nat \<Rightarrow> u32 arr \<times> u32 \<times> nat \<times> u32 \<times> nat \<Rightarrow> bool" where
  "dm_put n x r V u w \<longleftrightarrow> (case w of (x', r', v, acc, l) \<Rightarrow>
     dm_acc V u (v, acc, l) \<and> r' = r \<and> frame31 n x x' \<and>
     (\<forall>i. 0 < i \<longrightarrow> i < v \<longrightarrow> i \<le> n \<longrightarrow> unat (cells x' ! i) = (if r = 0 then 0 else V div B31 ^ (i - 1) mod B31)))"

lemma mod_B31_Suc: "V mod B31 ^ Suc q = V mod B31 ^ q + V div B31 ^ q mod B31 * B31 ^ q"
proof -
  have "V mod (B31 ^ q * B31) = B31 ^ q * (V div B31 ^ q mod B31) + V mod B31 ^ q" by (rule mod_mult2_eq)
  then show ?thesis by (simp add: ac_simps)
qed

lemma val31_digit:
  assumes m: "digits31 (Suc 0) n (cells m)" and q: "q < n"
  shows "val31 n m div B31 ^ q mod B31 = unat (cells m ! Suc q)"
proof -
  obtain e where e: "n = q + Suc e" using q less_imp_Suc_add by fastforce
  have "val31 n m div B31 ^ q = unat (cells m ! Suc q) + B31 * wsum (Suc (Suc q)) e (cells m)"
    using wsum_div [of "Suc 0" q "Suc e" "cells m"] m by (simp add: e wsum_head)
  then show ?thesis using digits31_1 [OF m, of "Suc q"] q by simp
qed

lemma ok_emit_cmp:
  assumes m: "digits31 (Suc 0) n (cells m)" and v: "0 < v" and xw: "unat xw = V div B31 ^ (v - 1) mod B31"
    and r: "r = cmp_word (V mod B31 ^ (v - 1)) (val31 n m mod B31 ^ (v - 1))"
    and Q: "Q (x, cmp_word (V mod B31 ^ v) (val31 n m mod B31 ^ v))"
  shows "ok (emit_word False m n xw x r v) Q"
proof -
  obtain q where q: "v = Suc q" using v by (cases v) auto
  let ?M = "val31 n m"
  have lt: "V mod B31 ^ q < B31 ^ q" "?M mod B31 ^ q < B31 ^ q" by simp_all
  have V: "V mod B31 ^ v = V mod B31 ^ q + unat xw * B31 ^ q" using xw unfolding q mod_B31_Suc by simp
  show ?thesis
  proof (cases "v \<le> n")
    case True
    then have "?M mod B31 ^ v = ?M mod B31 ^ q + unat (cells m ! v) * B31 ^ q"
      using val31_digit [OF m, of q] unfolding q mod_B31_Suc by simp
    then have "cmp_word (V mod B31 ^ v) (?M mod B31 ^ v) = MUX (EQ (CMP xw (cells m ! v)) 0) r (CMP xw (cells m ! v))"
      unfolding V using cmp_word_step [OF lt] r by (simp add: q)
    then show ?thesis
      using Q True digits31_len [OF m] unfolding emit_word_def Let_def by (intro wp) auto
  next
    case False
    have "?M < B31 ^ n" by (rule wsum_lt [OF m])
    also have "\<dots> \<le> B31 ^ q" using False by (intro power_increasing) (auto simp: q)
    finally have "?M < B31 ^ q" .
    moreover from this have "?M < B31 ^ v" by (simp add: q)
    ultimately have M: "?M mod B31 ^ v = ?M" "?M mod B31 ^ q = ?M" by simp_all
    have "cmp_word (V mod B31 ^ v) (?M mod B31 ^ v) = MUX (EQ xw 0) r 1"
    proof (cases "xw = 0")
      case True
      then show ?thesis unfolding V M r by (simp add: q M)
    next
      case False
      then have "1 * B31 ^ q \<le> unat xw * B31 ^ q" by (intro mult_le_mono1) (simp add: Suc_le_eq unat_gt_0)
      then have "?M < V mod B31 ^ v" unfolding V using \<open>?M < B31 ^ q\<close> by linarith
      then show ?thesis using False by (simp add: cmp_word_def M)
    qed
    then show ?thesis using Q False unfolding emit_word_def by (intro wp) auto
  qed
qed

lemma ok_emit_put:
  assumes i: "dm_put n x r V u (x', r, v, acc, l)" and n: "n < alen x" and r: "r = 0 \<or> r = - 1"
    and xw: "unat xw = V div B31 ^ (v - 1) mod B31" and a: "dm_acc V (Suc u) (v + 1, acc', l')"
    and Q: "\<And>y. dm_put n x r V (Suc u) (y, r, v + 1, acc', l') \<Longrightarrow> Q (y, r)"
  shows "ok (emit_word True m n xw x' r v) Q"
proof (cases "v \<le> n")
  case True
  let ?y = "x'\<lparr>cells := (cells x')[v := r AND xw]\<rparr>"
  from i have f: "frame31 n x x'" and v: "0 < v" by (auto simp: dm_put_def dm_acc_def)
  have l: "v < alen x'" using n True frame31_alen [OF f] by simp
  have "unat (r AND xw) = (if r = 0 then 0 else V div B31 ^ (v - 1) mod B31)" using r xw by auto
  then have "dm_put n x r V (Suc u) (?y, r, v + 1, acc', l')"
    using i a l v True by (auto simp: dm_put_def nth_list_update less_Suc_eq intro: frame31_update)
  then show ?thesis using Q l True unfolding emit_word_def by (intro wp) auto
next
  case False
  then have "dm_put n x r V (Suc u) (x', r, v + 1, acc', l')"
    using i a by (auto simp: dm_put_def less_Suc_eq)
  then show ?thesis using Q False unfolding emit_word_def by (intro wp) auto
qed


lemma ok_decmod_byte:
  assumes len: "len \<le> alen src" and bs: "bs = take len (cells src)" and acc: "dm_acc (be_val bs) u (v, acc, l)"
    and no: "\<And>a. \<not> 31 \<le> l + 8 \<Longrightarrow> dm_acc (be_val bs) (Suc u) (v, a, l + 8) \<Longrightarrow> Q (x, r, v, a, l + 8)"
    and yes: "\<And>a a' l'. unat (a AND 0x7FFFFFFF) = be_val bs div B31 ^ (v - 1) mod B31 \<Longrightarrow> dm_acc (be_val bs) (Suc u) (v + 1, a', l') \<Longrightarrow>
      ok (emit_word pass m n (a AND 0x7FFFFFFF) x r v) (\<lambda>(x, r). Q (x, r, v + 1, a', l'))"
  shows "ok (decmod_byte pass src len m n u (x, r, v, acc, l)) Q"
proof -
  define b where "b = be_byte bs u"
  have read: "ok (branch (u < len) (ld src (len - 1 - u)) (ret 0)) P" if "P b" for P
    using that len by (intro ok_branch ok_ld ok_ret) (auto simp: b_def be_byte_def bs min_absorb2)
  note s = dm_acc_step [OF acc refl, folded b_def]
  show ?thesis
    unfolding decmod_byte_def prod.case
  proof (rule ok_bind, rule read, unfold Let_def, rule ok_branch)
    assume full: "31 \<le> l + 8"
    have "ok (emit_word pass m n ((acc OR shl (ucast b) l) AND 0x7FFFFFFF) x r v)
      (\<lambda>(x, r). Q (x, r, v + 1, shr (ucast b) (8 - (l + 8 - 31)), l + 8 - 31))"
      using s(2) [OF full] by (intro yes) auto
    then have "ok (emit_word pass m n ((acc OR shl (ucast b) l) AND 0x7FFFFFFF) x r v)
      (\<lambda>w. ok (case w of (x, r) \<Rightarrow> ret (x, r, v + 1, shr (ucast b) (8 - (l + 8 - 31)), l + 8 - 31)) Q)"
      by (rule ok_weaken) (auto intro!: ok_ret)
    then show "ok (do { (x, r) \<leftarrow> emit_word pass m n ((acc OR shl (ucast b) l) AND 0x7FFFFFFF) x r v;
       ret (x, r, v + 1, shr (ucast b) (8 - (l + 8 - 31)), l + 8 - 31) }) Q" by (rule ok_bind)
  next
    assume "\<not> 31 \<le> l + 8"
    then show "ok (ret (x, r, v, acc OR shl (ucast b) l, l + 8)) Q" using s(1) by (intro ok_ret no) auto
  qed
qed

lemma ok_byte_cmp:
  assumes m: "digits31 (Suc 0) n (cells m)" and len: "len \<le> alen src" and bs: "bs = take len (cells src)"
    and i: "dm_cmp x (be_val bs) (val31 n m) u w"
  shows "ok (decmod_byte False src len m n u w) (dm_cmp x (be_val bs) (val31 n m) (Suc u))"
proof -
  obtain x' r v acc l where w: "w = (x', r, v, acc, l)" by (cases w)
  from i have j: "dm_acc (be_val bs) u (v, acc, l)" "x' = x"
    "r = cmp_word (be_val bs mod B31 ^ (v - 1)) (val31 n m mod B31 ^ (v - 1))" "0 < v"
    by (auto simp: dm_cmp_def dm_acc_def w)
  show ?thesis
    unfolding w
  proof (rule ok_decmod_byte [OF len bs j(1)])
    fix a a' l' assume "unat (a AND 0x7FFFFFFF :: u32) = be_val bs div B31 ^ (v - 1) mod B31" "dm_acc (be_val bs) (Suc u) (v + 1, a', l')"
    then show "ok (emit_word False m n (a AND 0x7FFFFFFF) x' r v)
      (\<lambda>(x', r). dm_cmp x (be_val bs) (val31 n m) (Suc u) (x', r, v + 1, a', l'))"
      using j by (intro ok_emit_cmp [OF m j(4) _ j(3)]) (auto simp: dm_cmp_def)
  qed (use j in \<open>auto simp: dm_cmp_def\<close>)
qed

lemma ok_byte_put:
  assumes n: "n < alen x" and r: "r = 0 \<or> r = - 1" and len: "len \<le> alen src" and bs: "bs = take len (cells src)"
    and i: "dm_put n x r (be_val bs) u w"
  shows "ok (decmod_byte True src len m n u w) (dm_put n x r (be_val bs) (Suc u))"
proof -
  obtain x' r' v acc l where w: "w = (x', r', v, acc, l)" by (cases w)
  from i have r': "r' = r" and j: "dm_acc (be_val bs) u (v, acc, l)" by (auto simp: dm_put_def w)
  show ?thesis
    unfolding w r'
  proof (rule ok_decmod_byte [OF len bs j])
    fix a a' l' assume "unat (a AND 0x7FFFFFFF :: u32) = be_val bs div B31 ^ (v - 1) mod B31" "dm_acc (be_val bs) (Suc u) (v + 1, a', l')"
    then show "ok (emit_word True m n (a AND 0x7FFFFFFF) x' r v)
      (\<lambda>(x', r'). dm_put n x r (be_val bs) (Suc u) (x', r', v + 1, a', l'))"
      by (intro ok_emit_put [OF i [unfolded w r'] n r]) auto
  qed (use i in \<open>auto simp: dm_put_def w\<close>)
qed

lemma shr_shl_m1: "shr (- 1 :: u32) 1 OR shl (shr (- 1) 1) 1 = - 1"
  by code_simp

text \<open>Once \<open>tlen\<close> bytes are in, everything is out.\<close>

lemma dm_acc_end:
  assumes a: "dm_acc V t (v, acc, l)" and V: "V < 256 ^ (t - 4)" and t: "4 * n + 4 \<le> t"
  shows "V mod B31 ^ (v - 1) = V" and "n < v - 1"
proof -
  from a obtain q where q: "v = Suc q" and s: "31 * q + l = 8 * t" "l < 31" by (cases v) (auto simp: dm_acc_def)
  have "8 * (t - 4) \<le> 31 * q" using s t by linarith
  then have "(2 :: nat) ^ (8 * (t - 4)) \<le> 2 ^ (31 * q)" by (rule power_increasing) simp
  then have "V < 2 ^ (31 * q)" using V unfolding pow256 by (rule less_le_trans [rotated])
  moreover have "(2 :: nat) ^ (31 * q) = B31 ^ q" using power31 [of q 0] by simp
  ultimately have "V < B31 ^ q" by (simp only:)
  then show "V mod B31 ^ (v - 1) = V" by (simp add: q)
  show "n < v - 1" using s t by (simp add: q)
qed

lemma ok_br_i31_decode_mod:
  assumes m: "is_i31 h n m" and len: "len \<le> alen src" and x: "n < alen x"
    and Q: "\<And>x' r. blk x' = blk x \<Longrightarrow> alen x' = alen x \<Longrightarrow> is_i31 h n x' \<Longrightarrow> (\<forall>i>n. cells x' ! i = cells x ! i) \<Longrightarrow>
      r = of_bool (be_val (take len (cells src)) < val31 n m) \<Longrightarrow>
      val31 n x' = (if be_val (take len (cells src)) < val31 n m then be_val (take len (cells src)) else 0) \<Longrightarrow> Q (x', r)"
  shows "ok (br_i31_decode_mod x src len m) Q"
proof -
  note mD = is_i31D [OF m]
  have l: "0 < alen m" using mD(5) by linarith
  define bs V M where d: "bs = take len (cells src)" "V = be_val bs" "M = val31 n m"
  define t where "t = (if n * 4 < len then len else n * 4) + 4"
  have t: "4 * n + 4 \<le> t" "len \<le> t - 4" by (auto simp: t_def)
  have "V < 256 ^ length bs" unfolding d(2) by (rule be_val_less)
  also have "\<dots> \<le> 256 ^ (t - 4)" using len t(2) by (intro power_increasing) (simp_all add: d min_absorb2)
  finally have Vt: "V < 256 ^ (t - 4)" .
  have Mlt: "M < B31 ^ n" unfolding d(3) by (rule wsum_lt [OF mD(4)])
  have init: "dm_cmp x V M 0 (x, 0, 1, 0, 0)" by (simp add: dm_cmp_def dm_acc_def cmp_word_def)
  have pass1: "ok (decmod_pass False src len m n t x 0) (\<lambda>(x', r). x' = x \<and> r = (if V < M then - 1 else 0))"
    unfolding decmod_pass_def
  proof (rule ok_bind, rule ok_for_loop [where Inv = "dm_cmp x V M", OF init])
    fix u w assume "dm_cmp x V M u w"
    then show "ok (decmod_byte False src len m n u w) (dm_cmp x V M (Suc u))"
      unfolding d(2,3) by (rule ok_byte_cmp [OF mD(4) len d(1)])
  next
    fix w assume i: "dm_cmp x V M t w"
    obtain x' r v acc l where w: "w = (x', r, v, acc, l)" by (cases w)
    from i have a: "dm_acc V t (v, acc, l)" "x' = x" "r = cmp_word (V mod B31 ^ (v - 1)) (M mod B31 ^ (v - 1))"
      by (auto simp: dm_cmp_def w)
    note e = dm_acc_end [OF a(1) Vt t(1)]
    have "M < B31 ^ (v - 1)" using Mlt e(2) by (intro less_le_trans [OF _ power_increasing [of n "v - 1" B31]]) auto
    then have "r = cmp_word V M" using a(3) e(1) by simp
    then show "ok (case w of (x, r, v, acc, acc_len) \<Rightarrow> let r = shr r 1 in ret (x, r OR shl r 1))
      (\<lambda>(x', r). x' = x \<and> r = (if V < M then - 1 else 0))"
      unfolding w prod.case Let_def using a(2) shr_shl_m1 by (intro ok_ret) (auto simp: cmp_word_def)
  qed simp
  have pass2: "ok (decmod_pass True src len m n t x r) (\<lambda>(x', r'). r' = r \<and> frame31 n x x' \<and>
      (\<forall>i. 0 < i \<longrightarrow> i \<le> n \<longrightarrow> unat (cells x' ! i) = (if r = 0 then 0 else V div B31 ^ (i - 1) mod B31)))" if r: "r = 0 \<or> r = - 1" for r
    unfolding decmod_pass_def
  proof (rule ok_bind, rule ok_for_loop [where Inv = "dm_put n x r V"])
    show "dm_put n x r V 0 (x, r, 1, 0, 0)" by (auto simp: dm_put_def dm_acc_def)
    fix u w assume "dm_put n x r V u w"
    then show "ok (decmod_byte True src len m n u w) (dm_put n x r V (Suc u))"
      unfolding d(2) by (rule ok_byte_put [OF x r len d(1)])
  next
    fix w assume i: "dm_put n x r V t w"
    obtain x' r' v acc l where w: "w = (x', r', v, acc, l)" by (cases w)
    from i have a: "dm_acc V t (v, acc, l)" "r' = r" by (auto simp: dm_put_def w)
    note e = dm_acc_end [OF a(1) Vt t(1)]
    have "shr r 1 OR shl (shr r 1) 1 = r" using r shr_shl_m1 by auto
    then show "ok (case w of (x, r, v, acc, acc_len) \<Rightarrow> let r = shr r 1 in ret (x, r OR shl r 1))
      (\<lambda>(x', r'). r' = r \<and> frame31 n x x' \<and>
        (\<forall>i. 0 < i \<longrightarrow> i \<le> n \<longrightarrow> unat (cells x' ! i) = (if r = 0 then 0 else V div B31 ^ (i - 1) mod B31)))"
      unfolding w prod.case Let_def using a(2) e(2) i by (intro ok_ret) (auto simp: dm_put_def w)
  qed simp
  have fin: "Q (x'\<lparr>cells := (cells x')[0 := h]\<rparr>, r AND 1)"
    if "r = (if V < M then - 1 else 0)" and f: "frame31 n x x'"
      and c: "\<forall>i. 0 < i \<longrightarrow> i \<le> n \<longrightarrow> unat (cells x' ! i) = (if r = 0 then 0 else V div B31 ^ (i - 1) mod B31)" for x' r
  proof -
    have r: "(r = 0) = (\<not> V < M)" "r AND 1 = of_bool (V < M)" using that(1) by auto
    let ?y = "x'\<lparr>cells := (cells x')[0 := h]\<rparr>"
    have lx: "n < alen x'" using x frame31_alen [OF f] by simp
    have c0: "cells ?y ! 0 = h" using lx by (simp add: le_less_trans [OF le0 lx] flip: length_greater_0_conv)
    have dg: "digits31 (Suc 0) n (cells ?y)" using c lx by (auto simp: digits31_def)
    have "val31 n ?y = (if V < M then V else 0)"
    proof (cases "V < M")
      case True
      have "i31v q (cells ?y) = V mod B31 ^ q" if "q \<le> n" for q
        using that
      proof (induction q)
        case (Suc q)
        then have "unat (cells ?y ! Suc q) = V div B31 ^ q mod B31" using c True r by simp
        then show ?case using Suc unfolding wsum_Suc mod_B31_Suc by simp
      qed simp
      then show ?thesis using True Mlt by simp
    next
      case False
      then show ?thesis using c r by (auto simp: wsum_def)
    qed
    then show ?thesis
      using f m c0 dg by (intro Q) (auto simp: frame31_def is_i31_def r d)
  qed
  have tl: "ok (branch (n * 4 < len) (ret len) (ret (n * 4))) P" if "P (t - 4)" for P
    using that by (intro ok_branch ok_ret) (auto simp: t_def)
  have t4: "t - 4 + 4 = t" using t by simp
  show ?thesis
    unfolding br_i31_decode_mod_def Let_def
  proof (rule ok_bind, rule ok_ld [OF l], unfold mD(1,2), rule ok_bind, rule tl, unfold t4, rule ok_bind, rule ok_weaken [OF pass1],
      rule ok_prod, rule ok_bind)
    fix w x1 and r1 :: u32 assume "case w of (x', r) \<Rightarrow> x' = x \<and> r = (if V < M then - 1 else 0)" and w: "w = (x1, r1)"
    then have e: "x1 = x" "r1 = (if V < M then - 1 else 0)" by auto
    then have r01: "r1 = 0 \<or> r1 = - 1" by auto
    show "ok (decmod_pass True src len m n t x1 r1) (\<lambda>w. ok (case w of (x, r) \<Rightarrow> do { x \<leftarrow> st x 0 h; ret (x, r AND 1) }) Q)"
      unfolding e(1)
    proof (rule ok_weaken [OF pass2 [OF r01]], rule ok_prod)
      fix v x2 and r2 :: u32 assume v: "case v of (x', r') \<Rightarrow> r' = r1 \<and> frame31 n x x' \<and>
        (\<forall>i. 0 < i \<longrightarrow> i \<le> n \<longrightarrow> unat (cells x' ! i) = (if r1 = 0 then 0 else V div B31 ^ (i - 1) mod B31))" and "v = (x2, r2)"
      then have f: "r2 = r1" "frame31 n x x2" by auto
      have "0 < alen x2" using x frame31_alen [OF f(2)] by linarith
      then show "ok (do { x \<leftarrow> st x2 0 h; ret (x, r2 AND 1) }) Q"
        using v \<open>v = (x2, r2)\<close> e f by (intro ok_bind ok_st ok_ret fin) auto
    qed
  qed
qed


section \<open>Encoding\<close>

primrec st_bytes :: "u8 arr \<Rightarrow> nat \<Rightarrow> u8 list \<Rightarrow> u8 arr cm" where
  "st_bytes d o' [] = ret d"
| "st_bytes d o' (b # bs) = do { d \<leftarrow> st d o' b; st_bytes d (Suc o') bs }"

text \<open>The \<open>switch\<close> for the last bytes, with its fall-through.\<close>

definition encode_tail :: "u8 arr \<Rightarrow> nat \<Rightarrow> u32 \<Rightarrow> u8 arr cm" where
  "encode_tail d len z = do {
     d \<leftarrow> branch (len = 3) (st d (len - 3) (ucast (shr z 16))) (ret d);
     d \<leftarrow> branch (2 \<le> len) (st d (len - 2) (ucast (shr z 8))) (ret d);
     st d (len - 1) (ucast z) }"

function encode_loop :: "u32 arr \<Rightarrow> nat \<Rightarrow> u8 arr \<Rightarrow> nat \<Rightarrow> nat \<Rightarrow> u32 \<Rightarrow> nat \<Rightarrow> u8 arr cm" where
  "encode_loop x xlen dst len k acc acc_len =
     branch (len \<noteq> 0) (do {
       w \<leftarrow> branch (k \<le> xlen) (ld x k) (ret 0);
       branch (acc_len = 0)
         (encode_loop x xlen dst len (k + 1) w 31)
         (do {
           let z = acc OR shl w acc_len;
           let acc_len = acc_len - 1;
           let acc = shr w (31 - acc_len);
           branch (4 \<le> len)
             (do {
               dst \<leftarrow> st_bytes dst (len - 4) (br_enc32be z);
               encode_loop x xlen dst (len - 4) (k + 1) acc acc_len })
             (encode_tail dst len z) }) }) (ret dst)"
  by pat_completeness auto
termination
  by (relation "measure (\<lambda>(x, xlen, dst, len, k, acc, acc_len). 2 * len + (if acc_len = 0 then 1 else 0))") auto

declare encode_loop.simps [simp del]

definition br_i31_encode :: "u8 arr \<Rightarrow> nat \<Rightarrow> u32 arr \<Rightarrow> u8 arr cm" where
  "br_i31_encode dst len x = do {
     x0 \<leftarrow> ld x 0;
     let xlen = words31 x0;
     branch (xlen = 0) (memset dst 0 0 len) (encode_loop x xlen dst len 1 0 0) }"

lemma splice_Cons:
  "i < length xs \<Longrightarrow> splice xs i (b # bs) = splice (xs[i := b]) (Suc i) bs"
  by (simp add: splice_def take_Suc_conv_app_nth)

lemma splice_Nil [simp]: "splice xs i [] = xs"
  by (simp add: splice_def)

lemma ok_st_bytes:
  "o' + length bs \<le> alen d \<Longrightarrow> Q (d\<lparr>cells := splice (cells d) o' bs\<rparr>) \<Longrightarrow> ok (st_bytes d o' bs) Q"
proof (induction bs arbitrary: d o')
  case (Cons b bs)
  then show ?case by (auto simp: splice_Cons intro!: ok_bind ok_st Cons.IH)
qed (simp add: ok_ret)

text \<open>With \<open>j\<close> bytes out, \<open>k\<close> words in and \<open>l\<close> bits waiting, \<open>acc\<close> holds the bits \<open>8 j\<close> to \<open>8 j + l\<close> of the value \<open>V\<close>.\<close>

definition enc_acc :: "nat \<Rightarrow> nat \<Rightarrow> nat \<Rightarrow> u32 \<Rightarrow> nat \<Rightarrow> bool" where
  "enc_acc V j k acc l \<longleftrightarrow> 31 * k = 8 * j + l \<and> l < 32 \<and> unat acc = V div 256 ^ j mod 2 ^ l"

lemma enc_word:
  assumes a: "enc_acc V j k acc l" and l: "0 < l" and w: "unat w = V div B31 ^ k mod B31"
  shows "unat (acc OR shl w l) = V div 256 ^ j mod 4294967296"
    and "enc_acc V (j + 4) (k + 1) (shr w (31 - (l - 1))) (l - 1)"
proof -
  from a have s: "31 * k = 8 * j + l" "l < 32" and acc: "unat acc = V div 256 ^ j mod 2 ^ l" by (auto simp: enc_acc_def)
  define T where "T = V div 256 ^ j"
  have pw: "B31 ^ k = 256 ^ j * 2 ^ l"
    using power31 [of k 0] by (simp add: pow256 s(1) power_add)
  have wT: "unat w = T div 2 ^ l mod B31" unfolding w pw by (simp add: T_def div_mult2_eq)
  define e where "e = 32 - l"
  have e: "l + e = 32" "e + (l - 1) = 31" "e = 31 - (l - 1)" using s(2) l by (simp_all add: e_def)
  have p32: "(4294967296 :: nat) = 2 ^ l * 2 ^ e" unfolding power_add [symmetric] e(1) by simp
  have pB: "B31 = 2 ^ e * 2 ^ (l - 1)" unfolding power_add [symmetric] e(2) by simp
  have "unat (shl w l) = 2 ^ l * (unat w mod 2 ^ e)" unfolding unat_shl32 p32 by (simp only: mult_mod_right mult.commute)
  moreover have "unat w mod 2 ^ e = T div 2 ^ l mod 2 ^ e" unfolding wT pB by (rule mod_mod_cancel) simp
  ultimately have sh: "unat (shl w l) = 2 ^ l * (T div 2 ^ l mod 2 ^ e)" by simp
  then have "2 ^ l dvd unat (shl w l)" by simp
  moreover have "unat acc < 2 ^ l" unfolding acc by simp
  ultimately have "unat (shl w l OR acc) = unat (shl w l) + unat acc" by (rule or_disjoint(2))
  then have "unat (acc OR shl w l) = 2 ^ l * (T div 2 ^ l mod 2 ^ e) + T mod 2 ^ l"
    unfolding sh acc T_def [symmetric] by (simp add: or.commute)
  also have "\<dots> = T mod (2 ^ l * 2 ^ e)" by (rule mod_mult2_eq [symmetric])
  finally show "unat (acc OR shl w l) = V div 256 ^ j mod 4294967296" unfolding p32 T_def .
  have "unat (shr w e) = T div 2 ^ l mod B31 div 2 ^ e" by (simp add: unat_drop_bit wT)
  also have "\<dots> = T div 2 ^ l div 2 ^ e mod 2 ^ (l - 1)"
  proof -
    have "X mod (2 ^ e * 2 ^ (l - 1)) div 2 ^ e = X div 2 ^ e mod 2 ^ (l - 1)" for X :: nat
      unfolding mod_mult2_eq by simp
    then show ?thesis unfolding pB .
  qed
  also have "T div 2 ^ l div 2 ^ e = V div 256 ^ (j + 4)"
  proof -
    have "(256 :: nat) ^ (j + 4) = 256 ^ j * (2 ^ l * 2 ^ e)" unfolding p32 [symmetric] by (simp add: power_add)
    then show ?thesis by (simp only: T_def div_mult2_eq)
  qed
  finally show "enc_acc V (j + 4) (k + 1) (shr w (31 - (l - 1))) (l - 1)"
    unfolding e(3) [symmetric] enc_acc_def using s l by simp
qed


lemma be_val_drop: "k \<le> length bs \<Longrightarrow> be_val (drop (length bs - k) bs) = be_val bs mod 256 ^ k"
proof -
  assume k: "k \<le> length bs"
  have "be_val bs = be_val (take (length bs - k) bs) * 256 ^ k + be_val (drop (length bs - k) bs)"
    using be_val_append [of "take (length bs - k) bs" "drop (length bs - k) bs"] k by simp
  moreover have "be_val (drop (length bs - k) bs) < 256 ^ k" using be_val_less [of "drop (length bs - k) bs"] k by simp
  ultimately show ?thesis by simp
qed

lemma two_Suc: "xs[2 := b] = xs[Suc (Suc 0) := b]"
  by (simp add: numeral_2_eq_2)

lemma ok_encode_tail:
  assumes l: "0 < l" "l < 4" "l \<le> alen d"
    and Q: "Q (d\<lparr>cells := splice (cells d) 0 (drop (4 - l) (br_enc32be z))\<rparr>)"
  shows "ok (encode_tail d l z) Q"
proof -
  have "l = 1 \<or> l = 2 \<or> l = 3" "cells d \<noteq> []" using l by auto
  then show ?thesis
    unfolding encode_tail_def using l(3) Q
    by (elim disjE) (auto intro!: ok_bind ok_branch ok_ret ok_st simp: br_enc32be_def splice_Cons two_Suc)
qed

lemma enc_digit:
  assumes x: "digits31 (Suc 0) n (cells x)" and k: "0 < k" and P: "\<And>w. unat w = val31 n x div B31 ^ (k - 1) mod B31 \<Longrightarrow> ok (f w) Q"
  shows "ok (do { w \<leftarrow> branch (k \<le> n) (ld x k) (ret 0); f w }) Q"
proof (rule ok_bind, rule ok_branch)
  assume kn: "k \<le> n"
  obtain q where q: "k = Suc q" using k by (cases k) auto
  show "ok (ld x k) (\<lambda>w. ok (f w) Q)"
    using digits31_len [OF x] kn val31_digit [OF x, of q] by (intro ok_ld P) (auto simp: q)
next
  assume kn: "\<not> k \<le> n"
  have "val31 n x < B31 ^ n" by (rule wsum_lt [OF x])
  also have "\<dots> \<le> B31 ^ (k - 1)" using kn by (intro power_increasing) auto
  finally have "val31 n x div B31 ^ (k - 1) = 0" by simp
  then show "ok (ret 0) (\<lambda>w. ok (f w) Q)" by (intro ok_ret P) simp
qed

lemma mod_horner256: "V mod 256 ^ (j + i) = V div 256 ^ j mod 256 ^ i * 256 ^ j + V mod (256 :: nat) ^ j"
  unfolding power_add mod_mult2_eq by (simp only: mult.commute)

definition enc_out :: "nat \<Rightarrow> u8 arr \<Rightarrow> u8 arr \<Rightarrow> nat \<Rightarrow> nat \<Rightarrow> bool" where
  "enc_out L d d' len V \<longleftrightarrow> blk d' = blk d \<and> alen d' = alen d \<and> (\<forall>i\<ge>L. cells d' ! i = cells d ! i) \<and>
     be_val (drop len (take L (cells d'))) = V mod 256 ^ (L - len)"

lemma enc_out_splice:
  assumes o: "enc_out L d d' len V" and L: "len \<le> L" "L \<le> alen d" and bs: "length bs \<le> len"
    and v: "be_val bs = V div 256 ^ (L - len) mod 256 ^ length bs"
  shows "enc_out L d (d'\<lparr>cells := splice (cells d') (len - length bs) bs\<rparr>) (len - length bs) V"
proof -
  obtain q where q: "len = q + length bs" using bs by (metis add.commute le_Suc_ex)
  let ?c = "splice (cells d') q bs"
  from o have d': "blk d' = blk d" "alen d' = alen d" "\<forall>i\<ge>L. cells d' ! i = cells d ! i"
    "be_val (drop len (take L (cells d'))) = V mod 256 ^ (L - len)" by (auto simp: enc_out_def)
  have l: "length ?c = alen d" using L d'(2) by (simp add: q)
  have "take L ?c = take q (cells d') @ bs @ take (L - len) (drop len (cells d'))"
    using L d'(2) by (simp add: splice_def q min_absorb2)
  then have "drop q (take L ?c) = bs @ drop len (take L (cells d'))"
    using L d'(2) by (simp add: drop_take q min_absorb2)
  then have "be_val (drop q (take L ?c)) = be_val bs * 256 ^ (L - len) + V mod 256 ^ (L - len)"
    using d' L by (simp add: be_val_append min_absorb2)
  also have "\<dots> = V mod 256 ^ (L - len + length bs)" unfolding v mod_horner256 ..
  finally have "be_val (drop q (take L ?c)) = V mod 256 ^ (L - q)" using L by (simp add: q)
  moreover have "?c ! i = cells d ! i" if "L \<le> i" for i
    using d' L that nth_splice [of q bs "cells d'" i] by (simp add: q)
  ultimately show ?thesis using d' l by (simp add: enc_out_def q)
qed

lemma ok_encode_loop:
  "digits31 (Suc 0) n (cells x) \<Longrightarrow> L \<le> alen d \<Longrightarrow> (\<And>d'. enc_out L d d' 0 (val31 n x) \<Longrightarrow> Q d') \<Longrightarrow>
    enc_acc (val31 n x) (L - len) (k - 1) acc l \<Longrightarrow> 0 < k \<Longrightarrow> len \<le> L \<Longrightarrow> enc_out L d d' len (val31 n x) \<Longrightarrow>
    ok (encode_loop x n d' len k acc l) Q"
proof (induction x n d' len k acc l rule: encode_loop.induct)
  case (1 x n d' len k acc l)
  let ?V = "val31 n x"
  note x = "1.prems"(1) and Q = "1.prems"(3) and acc = "1.prems"(4) and k = "1.prems"(5) and L = "1.prems"(6) and o = "1.prems"(7)
  have dl: "alen d' = alen d" using o by (simp add: enc_out_def)
  have body: "ok (do { w \<leftarrow> branch (k \<le> n) (ld x k) (ret 0);
       branch (l = 0) (encode_loop x n d' len (k + 1) w 31)
         (do { let z = acc OR shl w l; let acc_len = l - 1; let acc = shr w (31 - acc_len);
           branch (4 \<le> len)
             (do { dst \<leftarrow> st_bytes d' (len - 4) (br_enc32be z); encode_loop x n dst (len - 4) (k + 1) acc acc_len })
             (encode_tail d' len z) }) }) Q" if len: "len \<noteq> 0"
  proof (rule enc_digit [OF x k], unfold Let_def, rule ok_branch)
    fix w :: u32 assume w: "unat w = ?V div B31 ^ (k - 1) mod B31" and l: "l = 0"
    have s: "31 * (k - 1) = 8 * (L - len)" using acc l by (simp add: enc_acc_def)
    then have "B31 ^ (k - 1) = 256 ^ (L - len)" using power31 [of "k - 1" 0] by (simp add: pow256)
    then have "enc_acc ?V (L - len) (k + 1 - 1) w 31"
      using s k w by (simp add: enc_acc_def algebra_simps)
    then show "ok (encode_loop x n d' len (k + 1) w 31) Q"
      using len l x "1.prems"(2) Q L o by (intro "1.IH"(1)) auto
  next
    fix w :: u32 assume w: "unat w = ?V div B31 ^ (k - 1) mod B31" and l: "l \<noteq> 0"
    define z where "z = acc OR shl w l"
    note e = enc_word [OF acc _ w, folded z_def]
    have z: "unat z = ?V div 256 ^ (L - len) mod 4294967296" using e(1) l by simp
    show "ok (branch (4 \<le> len) (do { dst \<leftarrow> st_bytes d' (len - 4) (br_enc32be (acc OR shl w l));
        encode_loop x n dst (len - 4) (k + 1) (shr w (31 - (l - 1))) (l - 1) }) (encode_tail d' len (acc OR shl w l))) Q"
      unfolding z_def [symmetric]
    proof (rule ok_branch, rule ok_bind, rule ok_st_bytes)
      assume len4: "4 \<le> len"
      let ?d = "d'\<lparr>cells := splice (cells d') (len - 4) (br_enc32be z)\<rparr>"
      have "enc_out L d ?d (len - 4) ?V"
        using enc_out_splice [OF o L "1.prems"(2), of "br_enc32be z"] len4 z by (simp add: be_val_enc32be)
      moreover have "enc_acc ?V (L - (len - 4)) (k + 1 - 1) (shr w (31 - (l - 1))) (l - 1)"
        using e(2) l len4 L k by (simp add: Suc_diff_le)
      ultimately show "ok (encode_loop x n ?d (len - 4) (k + 1) (shr w (31 - (l - 1))) (l - 1)) Q"
        using len l len4 x "1.prems"(2) Q L by (intro "1.IH"(2)) auto
    next
      assume len4: "\<not> 4 \<le> len"
      let ?t = "drop (4 - len) (br_enc32be z)"
      have "be_val ?t = unat z mod 256 ^ len" using be_val_drop [of len "br_enc32be z"] len4 by (simp add: be_val_enc32be)
      also have "\<dots> = ?V div 256 ^ (L - len) mod 256 ^ len"
      proof -
        have "4294967296 = 256 ^ len * (256 :: nat) ^ (4 - len)" unfolding power_add [symmetric] using len4 by simp
        then show ?thesis unfolding z by (simp only: mod_mod_cancel dvd_triv_left)
      qed
      finally have "enc_out L d (d'\<lparr>cells := splice (cells d') 0 ?t\<rparr>) 0 ?V"
        using enc_out_splice [OF o L "1.prems"(2), of ?t] len4 by simp
      then show "ok (encode_tail d' len z) Q"
        using len len4 L "1.prems"(2) dl Q by (intro ok_encode_tail) auto
    qed (use L "1.prems"(2) dl in auto)
  qed
  show ?case
  proof (subst encode_loop.simps, rule ok_branch)
    assume "len \<noteq> 0" then show "ok (do { w \<leftarrow> branch (k \<le> n) (ld x k) (ret 0);
       branch (l = 0) (encode_loop x n d' len (k + 1) w 31)
         (do { let z = acc OR shl w l; let acc_len = l - 1; let acc = shr w (31 - acc_len);
           branch (4 \<le> len)
             (do { dst \<leftarrow> st_bytes d' (len - 4) (br_enc32be z); encode_loop x n dst (len - 4) (k + 1) acc acc_len })
             (encode_tail d' len z) }) }) Q" by (rule body)
  next
    assume "\<not> len \<noteq> 0" then show "ok (ret d') Q" using Q o by (intro ok_ret) simp
  qed
qed

lemma be_val_zeros: "be_val (replicate n 0) = 0"
  by (induction n) (simp_all add: be_val_Cons)

lemma ok_br_i31_encode:
  assumes x: "digits31 (Suc 0) n (cells x)" "words31 (cells x ! 0) = n" and len: "len \<le> alen d"
    and Q: "\<And>d'. blk d' = blk d \<Longrightarrow> alen d' = alen d \<Longrightarrow> (\<forall>i\<ge>len. cells d' ! i = cells d ! i) \<Longrightarrow>
      be_val (take len (cells d')) = val31 n x mod 256 ^ len \<Longrightarrow> Q d'"
  shows "ok (br_i31_encode d len x) Q"
  unfolding br_i31_encode_def
proof (rule ok_bind, rule ok_ld)
  show "0 < alen x" using digits31_len [OF x(1)] by linarith
  show "ok (do { let xlen = words31 (cells x ! 0);
      branch (xlen = 0) (memset d 0 0 len) (encode_loop x xlen d len 1 0 0) }) Q"
    unfolding Let_def x(2)
  proof (rule ok_branch)
    assume n: "n = 0"
    show "ok (memset d 0 0 len) Q"
      using len n by (intro ok_memset Q) (auto simp: splice_def nth_append be_val_zeros min_absorb2)
  next
    assume n: "n \<noteq> 0"
    show "ok (encode_loop x n d len 1 0 0) Q"
      by (rule ok_encode_loop [OF x(1) len, where d' = d and len = len])
        (use len in \<open>auto simp: enc_out_def enc_acc_def intro!: Q\<close>)
  qed
qed

section \<open>Properties\<close>

lemma be_val_inj: "length a = length b \<Longrightarrow> be_val a = be_val b \<Longrightarrow> a = b"
proof (induction a b rule: list_induct2)
  case (Cons x xs y ys)
  then have "(unat x * 256 ^ length ys + be_val xs) div 256 ^ length ys = (unat y * 256 ^ length ys + be_val ys) div 256 ^ length ys"
    by (simp add: be_val_Cons)
  then have "unat x = unat y" using be_val_less [of xs] be_val_less [of ys] Cons.hyps by simp
  then show ?case using Cons by (simp add: be_val_Cons word_unat_eq_iff)
qed simp

text \<open>A header that holds the bit length announces just the words that the value needs.\<close>

lemma words31_enc31:
  assumes "unat h = enc31 (nbits V)" and "V < B31 ^ n" and "n < 134217727"
  shows "words31 h \<le> n" and "V < B31 ^ words31 h"
proof -
  have nb: "nbits V \<le> 31 * n" using assms(2) by (simp add: nbits_le_iff power_mult)
  have w: "words31 h = (nbits V + 30) div 31"
  proof (cases "nbits V")
    case 0 then show ?thesis using assms(1) by (simp add: words31_def enc31_def unat_drop_bit unat_word_ariths)
  next
    case (Suc k)
    have "k div 31 \<le> n" using Suc nb by linarith
    moreover have "(32 + (32 * (k div 31) + k mod 31)) div 32 = (31 + k) div 31"
    proof -
      have e: "32 + (32 * q + r) = 32 * (q + 1) + r" for q r :: nat by simp
      have "k mod 31 < 32" by (rule order.strict_trans [OF mod_less_divisor]) simp_all
      then have "(32 * (k div 31 + 1) + k mod 31) div 32 = k div 31 + 1" by (subst div_mult_self4) simp_all
      then show ?thesis unfolding e by (simp add: div_add_self1)
    qed
    ultimately show ?thesis
      using assms(1,3) Suc by (simp add: words31_def enc31_def unat_drop_bit unat_word_ariths)
  qed
  show "words31 h \<le> n" using nb unfolding w by linarith
  have "nbits V \<le> 31 * words31 h" unfolding w by linarith
  then show "V < B31 ^ words31 h" by (simp add: nbits_le_iff power_mult)
qed

text \<open>C31. \<^bold>\<open>Decode, then encode.\<close> \<open>br_i31_decode\<close> reads a big-endian byte string of any length as an integer of that value whose
  header word is the announced bit length; \<open>br_i31_encode\<close> of it into a buffer of the same length gives the bytes back, leaves
  the rest of the buffer alone, and neither leaves its arrays.\<close>

theorem br_i31_decode_encode:
  assumes "len \<le> alen src" and "len < 500000000" and "8 * len + 31 \<le> 31 * alen x" and "len \<le> alen d"
  shows "ok (do { x' \<leftarrow> br_i31_decode x src len; d' \<leftarrow> br_i31_encode d len x'; ret (x', d') })
    (\<lambda>(x', d'). i31v ((8 * len + 30) div 31) (cells x') = be_val (take len (cells src)) \<and>
       unat (cells x' ! 0) = enc31 (nbits (be_val (take len (cells src)))) \<and>
       cells d' = take len (cells src) @ drop len (cells d))"
proof -
  define n where "n = (8 * len + 30) div 31"
  let ?V = "be_val (take len (cells src))"
  have n: "n < 134217727" using assms(2) unfolding n_def by linarith
  show ?thesis unfolding n_def [symmetric]
  proof (rule ok_bind, rule ok_br_i31_decode [OF assms(1,2,3) n_def], rule ok_bind)
    fix x' :: "u32 arr" assume x: "digits31 (Suc 0) n (cells x')" "i31v n (cells x') = ?V" "unat (cells x' ! 0) = enc31 (nbits ?V)"
    let ?k = "words31 (cells x' ! 0)"
    have "?V < B31 ^ n" using wsum_lt [OF x(1)] x(2) by simp
    note k = words31_enc31 [OF x(3) this n]
    obtain r where r: "n = ?k + r" using k(1) le_Suc_ex by blast
    have "i31v n (cells x') = i31v ?k (cells x') + B31 ^ ?k * wsum (Suc 0 + ?k) r (cells x')" by (subst r, rule wsum_split)
    then have "i31v ?k (cells x') mod B31 ^ ?k = ?V mod B31 ^ ?k" by (simp add: x(2))
    then have v: "i31v ?k (cells x') = ?V" using k(2) wsum_lt [OF digits31_prefix [OF x(1) k(1)]] by simp
    show "ok (br_i31_encode d len x') (\<lambda>d'. ok (ret (x', d')) (\<lambda>(x', d'). i31v n (cells x') = ?V \<and>
        unat (cells x' ! 0) = enc31 (nbits ?V) \<and> cells d' = take len (cells src) @ drop len (cells d)))"
    proof (rule ok_br_i31_encode [OF digits31_prefix [OF x(1) k(1)] refl assms(4)])
      fix d' :: "u8 arr" assume d': "alen d' = alen d" "\<forall>i\<ge>len. cells d' ! i = cells d ! i"
        "be_val (take len (cells d')) = i31v ?k (cells x') mod 256 ^ len"
      have "?V < 256 ^ len" using be_val_less [of "take len (cells src)"] assms(1) by (simp add: min_absorb2)
      then have "take len (cells d') = take len (cells src)" using d' assms v by (intro be_val_inj) auto
      moreover have "drop len (cells d') = drop len (cells d)" using d' by (intro nth_equalityI) auto
      ultimately have "cells d' = take len (cells src) @ drop len (cells d)" by (metis append_take_drop_id)
      then show "ok (ret (x', d')) (\<lambda>(x', d'). i31v n (cells x') = ?V \<and>
        unat (cells x' ! 0) = enc31 (nbits ?V) \<and> cells d' = take len (cells src) @ drop len (cells d))"
        using x by (intro ok_ret) simp
    qed
  qed
qed

theorem br_i31_decode_encode_witness:
  "ok (do { x' \<leftarrow> br_i31_decode (ex_t 1) \<lparr>blk = 2, cells = [0x80, 0, 7]\<rparr> 3; d' \<leftarrow> br_i31_encode \<lparr>blk = 3, cells = [1, 2, 3, 9]\<rparr> 3 x'; ret (x', d') })
    (\<lambda>(x', d'). cells d' = [0x80, 0, 7, 9])"
  by (rule ok_weaken [OF br_i31_decode_encode]) auto

text \<open>C32. \<^bold>\<open>Modular decoding.\<close> \<open>br_i31_decode_mod\<close> compares the number in the bytes with the modulus and, in the same two passes, reads
  it: it returns 1 and the number when it is below the modulus, 0 and zero otherwise, with the header of the modulus,
  whatever the relative lengths of the bytes and of the modulus.\<close>

theorem br_i31_decode_mod_correct:
  assumes "is_i31 h n m" and "len \<le> alen src" and "n < alen x"
  shows "ok (br_i31_decode_mod x src len m) (\<lambda>(x', r). is_i31 h n x' \<and> r = of_bool (be_val (take len (cells src)) < val31 n m) \<and>
    val31 n x' = (if be_val (take len (cells src)) < val31 n m then be_val (take len (cells src)) else 0))"
  by (rule ok_br_i31_decode_mod [OF assms]) auto

theorem br_i31_decode_mod_correct_witness:
  "ok (br_i31_decode_mod (ex_t 3) \<lparr>blk = 4, cells = [0x80, 0, 0, 10]\<rparr> 4 ex_m) (\<lambda>(x', r). r = 1 \<and> val31 2 x' = 2147483658)"
proof -
  have "be_val [0x80, 0, 0, 10] = 2147483658" by (simp add: be_val_Cons)
  then show ?thesis using ex_modulus(1)
    by (intro ok_weaken [OF br_i31_decode_mod_correct [of 33 2]]) (auto simp: modulus31_def ex_vals)
qed

end
