(* ===== verification/I31_Wide.thy ===== *)
theory I31_Wide
  imports I31_Codec
begin

text \<open>
  Integers that are wider than a modulus: the product that is added to an integer, \<^verbatim>\<open>src/int/i31_mulacc.c\<close>, the reduction of a byte
  string of any length, \<^verbatim>\<open>src/int/i31_decred.c\<close>, and the shift to the right that it needs, \<^verbatim>\<open>src/int/i31_rshift.c\<close>.
\<close>

section \<open>Operations\<close>

definition mulacc_row :: "u32 \<Rightarrow> u32 arr \<Rightarrow> nat \<Rightarrow> nat \<Rightarrow> u32 arr \<Rightarrow> u32 arr cm" where
  "mulacc_row f a an u d = do {
     (d, cc) \<leftarrow> for_loop 0 an (\<lambda>v (d, cc). do {
       dv \<leftarrow> ld d (1 + u + v);
       av \<leftarrow> ld a (1 + v);
       let z = ucast dv + MUL31 f av + cc;
       d \<leftarrow> st d (1 + u + v) (ucast z AND 0x7FFFFFFF);
       ret (d, shr z 31) }) (d, 0 :: u64);
     st d (1 + u + an) (ucast cc) }"

definition br_i31_mulacc :: "u32 arr \<Rightarrow> u32 arr \<Rightarrow> u32 arr \<Rightarrow> u32 arr cm" where
  "br_i31_mulacc d a b = do {
     a0 \<leftarrow> ld a 0;
     b0 \<leftarrow> ld b 0;
     let alen = words31 a0;
     let blen = words31 b0;
     let dl = (a0 AND 31) + (b0 AND 31);
     let dh = shr a0 5 + shr b0 5;
     d \<leftarrow> st d 0 (shl dh 5 + dl + shr (NOT (dl - 31)) 31);
     for_loop 0 blen (\<lambda>u d. do {
       f \<leftarrow> ld b (1 + u);
       mulacc_row f a alen u d }) d }"

text \<open>One byte more: a full word of 31 bits goes into \<open>x\<close>, or the byte goes to the \<open>acc_len\<close> bits that are waiting.\<close>

definition decred_byte :: "u8 arr \<Rightarrow> u32 arr \<Rightarrow> nat \<Rightarrow> u32 arr \<times> u32 \<times> nat \<Rightarrow> (u32 arr \<times> u32 \<times> nat) cm" where
  "decred_byte src m k = (\<lambda>(x, acc, acc_len). do {
     b \<leftarrow> ld src k;
     let v = ucast b;
     branch (23 \<le> acc_len)
       (do {
         let acc_len = acc_len - 23;
         let acc = shl acc (8 - acc_len) OR shr v acc_len;
         x \<leftarrow> br_i31_muladd_small x acc m;
         ret (x, v AND shr 0xFF (8 - acc_len), acc_len) })
       (ret (x, shl acc 8 OR v, acc_len + 8)) })"

definition br_i31_decode_reduce :: "u32 arr \<Rightarrow> u8 arr \<Rightarrow> nat \<Rightarrow> u32 arr \<Rightarrow> u32 arr cm" where
  "br_i31_decode_reduce x src len m = do {
     m_ebitlen \<leftarrow> ld m 0;
     branch (m_ebitlen = 0) (st x 0 0) (do {
       x \<leftarrow> br_i31_zero x m_ebitlen;
       let m_rbitlen = shr m_ebitlen 5;
       let m_rbitlen = (m_ebitlen AND 31) + shl m_rbitlen 5 - m_rbitlen;
       let mblen = unat (shr (m_rbitlen + 7) 3);
       let k = mblen - 1;
       branch (len \<le> k)
         (do { x \<leftarrow> br_i31_decode x src len; st x 0 m_ebitlen })
         (do {
           x \<leftarrow> br_i31_decode x src k;
           x \<leftarrow> st x 0 m_ebitlen;
           (x, acc, acc_len) \<leftarrow> for_loop k len (decred_byte src m) (x, 0, 0);
           branch (acc_len \<noteq> 0)
             (do {
               x1 \<leftarrow> ld x 1;
               let acc = (acc OR shl x1 acc_len) AND 0x7FFFFFFF;
               x \<leftarrow> br_i31_rshift x (31 - acc_len);
               br_i31_muladd_small x acc m })
             (ret x) }) }) }"

section \<open>The shift to the right\<close>

text \<open>After the words below \<open>u\<close>: word \<open>i\<close> of the result is word \<open>i\<close> of the quotient, and \<open>r\<close> is what is left of word \<open>u - 1\<close>.\<close>

lemma rshift_word:
  assumes "unat (w :: u32) < B31" and "unat r < 2 ^ (31 - c)" and "c \<le> 31"
  shows "unat ((shl w (31 - c) OR r) AND 0x7FFFFFFF) = (unat w mod 2 ^ c) * 2 ^ (31 - c) + unat r"
    and "unat (shr w c) < 2 ^ (31 - c)" and "unat (shr w c) = unat w div 2 ^ c"
proof -
  have p: "B31 = 2 ^ (31 - c) * 2 ^ c" using assms(3) by (simp flip: power_add)
  have dv: "2 ^ (31 - c) dvd unat (shl w (31 - c))"
  proof -
    have "(2 :: nat) ^ (31 - c) dvd 4294967296" using le_imp_power_dvd [of "31 - c" 32 "2 :: nat"] by simp
    then show ?thesis by (simp add: unat_shl32 dvd_mod)
  qed
  have "unat (shl w (31 - c) OR r) = unat (shl w (31 - c)) + unat r" by (rule or_disjoint(2) [OF dv assms(2)])
  also have "\<dots> mod B31 = (unat w * 2 ^ (31 - c) + unat r) mod B31"
  proof -
    have "unat (shl w (31 - c)) mod B31 = unat w * 2 ^ (31 - c) mod B31" unfolding unat_shl32 by (rule mod_mod_cancel) simp
    then show ?thesis by (rule mod_add_cong) simp
  qed
  also have "\<dots> = (unat w mod 2 ^ c) * 2 ^ (31 - c) + unat r"
  proof -
    have "unat w * 2 ^ (31 - c) + unat r = 2 ^ (31 - c) * unat w + unat r" by simp
    also have "\<dots> mod (2 ^ (31 - c) * 2 ^ c) = 2 ^ (31 - c) * (unat w mod 2 ^ c) + unat r"
      using assms(2) by (simp add: mod_mult2_eq)
    finally show ?thesis unfolding p by (simp add: mult.commute)
  qed
  finally show "unat ((shl w (31 - c) OR r) AND 0x7FFFFFFF) = (unat w mod 2 ^ c) * 2 ^ (31 - c) + unat r"
    by (simp add: unat_and31)
  show "unat (shr w c) = unat w div 2 ^ c" by (rule unat_drop_bit)
  then show "unat (shr w c) < 2 ^ (31 - c)" using assms(1) unfolding p by (simp add: less_mult_imp_div_less)
qed

definition rshift_inv :: "u32 arr \<Rightarrow> nat \<Rightarrow> nat \<Rightarrow> u32 arr \<times> u32 \<Rightarrow> bool" where
  "rshift_inv x c u w \<longleftrightarrow> (case w of (x', r) \<Rightarrow>
     blk x' = blk x \<and> alen x' = alen x \<and> cells x' ! 0 = cells x ! 0 \<and> (\<forall>i\<ge>u - 1. cells x' ! i = cells x ! i) \<and>
     digits31 (Suc 0) (u - 2) (cells x') \<and> unat r < 2 ^ (31 - c) \<and>
     wsum (Suc 0) (u - 2) (cells x') + unat r * B31 ^ (u - 2) = wsum (Suc 0) (u - 1) (cells x) div 2 ^ c)"

lemma rshift_inv_step:
  assumes I: "rshift_inv x c (Suc (Suc j)) (x', r)" and c: "c \<le> 31" and d: "digits31 (Suc 0) n (cells x)" and j: "Suc (Suc j) \<le> n"
  defines "w \<equiv> cells x' ! Suc (Suc j)"
  shows "rshift_inv x c (Suc (Suc (Suc j))) (x'\<lparr>cells := (cells x')[Suc j := (shl w (31 - c) OR r) AND 0x7FFFFFFF]\<rparr>, shr w c)"
proof -
  let ?y = "(shl w (31 - c) OR r) AND 0x7FFFFFFF"
  have i: "blk x' = blk x" "alen x' = alen x" "cells x' ! 0 = cells x ! 0" "\<forall>i\<ge>Suc j. cells x' ! i = cells x ! i"
    "digits31 (Suc 0) j (cells x')" "unat r < 2 ^ (31 - c)" "wsum (Suc 0) j (cells x') + unat r * B31 ^ j = wsum (Suc 0) (Suc j) (cells x) div 2 ^ c"
    using I by (auto simp: rshift_inv_def)
  have wx: "w = cells x ! Suc (Suc j)" using i(4) by (simp add: w_def)
  have lw: "unat w < B31" unfolding wx using j by (intro digits31_1 [OF d]) auto
  note W = rshift_word [OF lw i(6) c]
  have lj: "Suc j < alen x'" using digits31_len [OF d] j i(2) by simp
  have y: "unat ?y < B31"
    by (simp add: unat_and31)
  have dg: "digits31 (Suc 0) (Suc j) ((cells x')[Suc j := ?y])"
    using i(5) lj y by (auto simp: digits31_def nth_list_update less_Suc_eq)
  define P where "P = B31 ^ j"
  define C where "C = (2 :: nat) ^ c"
  define D where "D = (2 :: nat) ^ (31 - c)"
  have CD: "B31 = C * D" using c by (simp add: C_def D_def flip: power_add)
  have C0: "0 < C" by (simp add: C_def)
  have "wsum (Suc 0) (Suc (Suc j)) (cells x) div C = (wsum (Suc 0) (Suc j) (cells x) + (unat w * (D * P)) * C) div C"
  proof -
    have "B31 * P = C * D * P" by (rule arg_cong [OF CD])
    then have "B31 ^ Suc j = D * P * C" unfolding power_Suc P_def [symmetric] by (simp only: mult.commute mult.left_commute)
    then have e: "unat w * B31 ^ Suc j = unat w * (D * P) * C" by (simp only: mult.assoc)
    have "Suc 0 + Suc j = Suc (Suc j)" by simp
    then show ?thesis by (simp only: wsum_Suc [of "Suc 0" "Suc j"] wx [symmetric] e)
  qed
  also have "\<dots> = wsum (Suc 0) (Suc j) (cells x) div C + unat w * (D * P)" using C0 by simp
  also have "\<dots> = wsum (Suc 0) j (cells x') + unat r * P + unat w * (D * P)" using i(7) by (simp add: P_def C_def)
  finally have v0: "wsum (Suc 0) (Suc (Suc j)) (cells x) div C = wsum (Suc 0) j (cells x') + unat r * P + unat w * (D * P)" .
  define a b where ab: "a = unat w mod C" "b = unat w div C"
  have "unat w = a + C * b" by (simp add: ab)
  then have "unat r * P + unat w * (D * P) = (a * D + unat r) * P + b * (C * D * P)" by (simp add: algebra_simps)
  then have v: "wsum (Suc 0) (Suc (Suc j)) (cells x) div C = wsum (Suc 0) j (cells x') + ((unat w mod C) * D + unat r) * P + (unat w div C) * (C * D * P)"
    unfolding v0 ab by simp
  have "wsum (Suc 0) (Suc j) ((cells x')[Suc j := ?y]) = wsum (Suc 0) j (cells x') + ((unat w mod C) * D + unat r) * P"
    using lj W(1) by (simp add: wsum_Suc C_def D_def P_def)
  then have "wsum (Suc 0) (Suc j) ((cells x')[Suc j := ?y]) + unat (shr w c) * B31 ^ Suc j = wsum (Suc 0) (Suc (Suc j)) (cells x) div 2 ^ c"
    using v W(3) CD [symmetric] by (simp add: C_def P_def)
  then show ?thesis using i dg W(2) by (auto simp: rshift_inv_def)
qed

lemma ok_br_i31_rshift:
  assumes x: "is_i31 h n x" and c: "c \<le> 31"
    and Q: "\<And>x'. alen x' = alen x \<Longrightarrow> is_i31 h n x' \<Longrightarrow> val31 n x' = val31 n x div 2 ^ c \<Longrightarrow> Q x'"
  shows "ok (br_i31_rshift x c) Q"
proof -
  note xD = is_i31D [OF x]
  have l: "0 < alen x" using xD(5) by linarith
  show ?thesis
    unfolding br_i31_rshift_def
  proof (rule ok_bind, rule ok_ld [OF l], unfold Let_def xD(1,2), rule ok_branch)
    assume "n = 0"
    then show "ok (ret x) Q" using x by (intro ok_ret Q) auto
  next
    assume n: "n \<noteq> 0"
    then obtain k where k: "n = Suc k" by (cases n) auto
    have l1: "1 < alen x" using xD(5) k by simp
    let ?r = "shr (cells x ! 1) c"
    have d1: "unat (cells x ! 1) < B31" using xD(4) k by (intro digits31_1 [OF xD(4)]) auto
    have I0: "rshift_inv x c 2 (x, ?r)"
      using rshift_word(2,3) [OF d1 _ c, of 0] l1 by (simp add: rshift_inv_def digits31_def wsum_Suc)
    show "ok (do { x1 \<leftarrow> ld x 1;
       (x, r) \<leftarrow> for_loop 2 (Suc n) (\<lambda>u (x, r). do {
         w \<leftarrow> ld x u;
         x \<leftarrow> st x (u - 1) ((shl w (31 - c) OR r) AND 0x7FFFFFFF);
         ret (x, shr w c) }) (x, shr x1 c);
       st x n r }) Q"
    proof (rule ok_bind, rule ok_ld [OF l1], rule ok_bind, rule ok_for_loop [where Inv = "rshift_inv x c", OF I0])
      fix u w assume u: "2 \<le> u" "u < Suc n" and I: "rshift_inv x c u w"
      obtain x' r where w: "w = (x', r)" by (cases w)
      obtain j where j: "u = Suc (Suc j)" using u(1) by (cases u; cases "u - 1") auto
      have "alen x' = alen x" using I by (simp add: rshift_inv_def w)
      then have "u < alen x'" using u(2) xD(5) by simp
      then show "ok (case w of (x, r) \<Rightarrow> do { w \<leftarrow> ld x u; x \<leftarrow> st x (u - 1) ((shl w (31 - c) OR r) AND 0x7FFFFFFF); ret (x, shr w c) }) (rshift_inv x c (Suc u))"
        using rshift_inv_step [OF I [unfolded w j] c xD(4)] u(2) unfolding w prod.case by (intro wp) (auto simp: j)
    next
      fix w assume I: "rshift_inv x c (Suc n) w"
      obtain x' r where w: "w = (x', r)" by (cases w)
      have i: "alen x' = alen x" "cells x' ! 0 = h" "digits31 (Suc 0) k (cells x')" "unat r < 2 ^ (31 - c)"
        "wsum (Suc 0) k (cells x') + unat r * B31 ^ k = val31 n x div 2 ^ c"
        using I xD(1) by (auto simp: rshift_inv_def w k)
      have ln: "n < alen x'" using xD(5) i(1) by simp
      have "unat r < B31" using i(4) power_increasing [of "31 - c" 31 "2 :: nat"] by simp
      then have "is_i31 h n (x'\<lparr>cells := (cells x')[n := r]\<rparr>)"
        using i(2,3) ln x by (auto simp: is_i31_def k digits31_def nth_list_update less_Suc_eq)
      moreover have "val31 n (x'\<lparr>cells := (cells x')[n := r]\<rparr>) = val31 n x div 2 ^ c" using i(5) ln by (simp add: k wsum_Suc)
      ultimately show "ok (case w of (x, r) \<Rightarrow> st x n r) Q" unfolding w prod.case using ln i(1) by (intro ok_st Q) auto
    qed (use k in simp)
  qed
qed

section \<open>Multiply and accumulate\<close>

text \<open>After \<open>v\<close> steps of a row: the words from \<open>u + 1\<close> on have taken \<open>f\<close> times the low \<open>v\<close> words of \<open>a\<close>.\<close>

definition row_inv :: "u32 \<Rightarrow> u32 arr \<Rightarrow> nat \<Rightarrow> u32 arr \<Rightarrow> nat \<Rightarrow> u32 arr \<times> u64 \<Rightarrow> bool" where
  "row_inv f a u d v w \<longleftrightarrow> (case w of (d', cc) \<Rightarrow>
     blk d' = blk d \<and> alen d' = alen d \<and> (\<forall>i. i \<le> u \<or> u + v < i \<longrightarrow> cells d' ! i = cells d ! i) \<and>
     digits31 (Suc u) v (cells d') \<and> unat cc < B31 \<and>
     wsum (Suc u) v (cells d') + unat cc * B31 ^ v = wsum (Suc u) v (cells d) + unat f * wsum (Suc 0) v (cells a))"

lemma row_word:
  assumes "unat (dv :: u32) < B31" and "unat (f :: u32) < B31" and "unat (av :: u32) < B31" and "unat cc < B31"
  shows "unat (ucast dv + MUL31 f av + cc) = unat dv + unat f * unat av + unat cc"
    and "unat dv + unat f * unat av + unat cc < B31 * B31"
proof -
  have "unat f * unat av \<le> 2147483647 * 2147483647" using assms by (intro mult_le_mono; simp)
  then show "unat (ucast dv + MUL31 f av + cc) = unat dv + unat f * unat av + unat cc"
    and "unat dv + unat f * unat av + unat cc < B31 * B31"
    using assms by (simp_all add: unat_word_ariths unat_MUL31)
qed

lemma row_inv_step:
  assumes I: "row_inv f a u d v (d', cc)" and f: "unat f < B31" and a: "digits31 (Suc 0) n (cells a)" and v: "v < n"
    and d: "digits31 (Suc u) n (cells d)"
  defines "z \<equiv> ucast (cells d' ! (1 + u + v)) + MUL31 f (cells a ! (1 + v)) + cc"
  shows "row_inv f a u d (Suc v) (d'\<lparr>cells := (cells d')[1 + u + v := ucast z AND 0x7FFFFFFF]\<rparr>, shr z 31)"
proof -
  have i: "blk d' = blk d" "alen d' = alen d" "\<And>i. i \<le> u \<or> u + v < i \<Longrightarrow> cells d' ! i = cells d ! i"
    "digits31 (Suc u) v (cells d')" "unat cc < B31"
    "wsum (Suc u) v (cells d') + unat cc * B31 ^ v = wsum (Suc u) v (cells d) + unat f * wsum (Suc 0) v (cells a)"
    using I by (auto simp: row_inv_def)
  define e where "e = cells d ! (Suc u + v)"
  define g where "g = cells a ! (Suc 0 + v)"
  have ed: "cells d' ! (1 + u + v) = e" unfolding e_def using i(3) by simp
  have b: "unat e < B31" "unat g < B31" unfolding e_def g_def using digits31_D [OF d v] digits31_D [OF a v] by auto
  note Z = row_word [OF b(1) f b(2) i(5)]
  have z: "unat z = unat e + unat f * unat g + unat cc" unfolding z_def ed using Z(1) by (simp add: g_def)
  have lv: "1 + u + v < alen d'" using digits31_len [OF d] v i(2) by simp
  let ?c = "(cells d')[1 + u + v := ucast z AND 0x7FFFFFFF]"
  have y: "unat (ucast z AND 0x7FFFFFFF :: u32) = unat z mod B31" by (rule unat_ucast_and31)
  have c: "unat (shr z 31) = unat z div B31" by (simp add: unat_drop_bit)
  have "unat z div B31 < B31" using Z(2) unfolding z by (simp add: less_mult_imp_div_less)
  moreover have "digits31 (Suc u) (Suc v) ?c"
    using i(4) lv by (auto simp: digits31_def less_Suc_eq nth_list_update y)
  moreover have "wsum (Suc u) (Suc v) ?c + unat (shr z 31) * B31 ^ Suc v
      = wsum (Suc u) (Suc v) (cells d) + unat f * wsum (Suc 0) (Suc v) (cells a)"
  proof -
    define q p where qp: "q = unat z div B31" "p = unat z mod B31"
    have "wsum (Suc u) (Suc v) ?c = wsum (Suc u) v (cells d') + p * B31 ^ v" using lv y by (simp add: wsum_Suc qp)
    then have "wsum (Suc u) (Suc v) ?c + unat (shr z 31) * B31 ^ Suc v = wsum (Suc u) v (cells d') + (q * B31 + p) * B31 ^ v"
      unfolding c qp(1) [symmetric] by (simp add: algebra_simps)
    also have "q * B31 + p = unat e + unat f * unat g + unat cc" unfolding qp z [symmetric] by (rule div_mult_mod_eq)
    finally show ?thesis using i(6) by (simp add: wsum_Suc e_def g_def algebra_simps)
  qed
  ultimately show ?thesis using i(1-3) c by (auto simp: row_inv_def)
qed

lemma ok_mulacc_row:
  assumes f: "unat f < B31" and a: "digits31 (Suc 0) n (cells a)" and d: "digits31 (Suc u) n (cells d)" and l: "1 + u + n < alen d"
    and Q: "\<And>d'. blk d' = blk d \<Longrightarrow> alen d' = alen d \<Longrightarrow> (\<And>i. i \<le> u \<or> 1 + u + n < i \<Longrightarrow> cells d' ! i = cells d ! i) \<Longrightarrow>
      digits31 (Suc u) (Suc n) (cells d') \<Longrightarrow>
      wsum (Suc u) (Suc n) (cells d') = wsum (Suc u) n (cells d) + unat f * wsum (Suc 0) n (cells a) \<Longrightarrow> Q d'"
  shows "ok (mulacc_row f a n u d) Q"
  unfolding mulacc_row_def
proof (rule ok_bind, rule ok_for_loop [where Inv = "row_inv f a u d"])
  show "row_inv f a u d 0 (d, 0)" using l by (simp add: row_inv_def digits31_def)
next
  fix v w assume v: "0 \<le> v" "v < n" and I: "row_inv f a u d v w"
  obtain d' cc where w: "w = (d', cc)" by (cases w)
  have "alen d' = alen d" using I by (simp add: row_inv_def w)
  then have "1 + u + v < alen d'" "1 + v < alen a" using l v digits31_len [OF a] by auto
  then show "ok (case w of (d, cc) \<Rightarrow> do { dv \<leftarrow> ld d (1 + u + v); av \<leftarrow> ld a (1 + v); let z = ucast dv + MUL31 f av + cc;
      d \<leftarrow> st d (1 + u + v) (ucast z AND 0x7FFFFFFF); ret (d, shr z 31) }) (row_inv f a u d (Suc v))"
    using row_inv_step [OF I [unfolded w] f a v(2) d] unfolding w prod.case Let_def by (intro wp) auto
next
  fix w assume I: "row_inv f a u d n w"
  obtain d' cc where w: "w = (d', cc)" by (cases w)
  have i: "blk d' = blk d" "alen d' = alen d" "\<And>i. i \<le> u \<or> u + n < i \<Longrightarrow> cells d' ! i = cells d ! i"
    "digits31 (Suc u) n (cells d')" "unat cc < B31"
    "wsum (Suc u) n (cells d') + unat cc * B31 ^ n = wsum (Suc u) n (cells d) + unat f * wsum (Suc 0) n (cells a)"
    using I by (auto simp: row_inv_def w)
  have cc: "unat (ucast cc :: u32) = unat cc" using i(5) by (simp add: unsigned_ucast_eq take_bit_nat_eq_self)
  let ?d = "d'\<lparr>cells := (cells d')[1 + u + n := ucast cc]\<rparr>"
  have "digits31 (Suc u) (Suc n) (cells ?d)" using i(2,4,5) l cc by (auto simp: digits31_def less_Suc_eq nth_list_update)
  moreover have "wsum (Suc u) (Suc n) (cells ?d) = wsum (Suc u) n (cells d) + unat f * wsum (Suc 0) n (cells a)"
    using i(2,6) l cc by (simp add: wsum_Suc)
  ultimately show "ok (case w of (d, cc) \<Rightarrow> st d (1 + u + n) (ucast cc)) Q"
    unfolding w prod.case using i(1-3) l by (intro ok_st Q) auto
qed simp

text \<open>The header of the product: the two encoded bit lengths are added.\<close>

lemma mulacc_header:
  fixes a b :: u32
  assumes "unat a + unat b + 64 < 4294967296"
  defines "dl \<equiv> (a AND 31) + (b AND 31)"
  shows "bits31 (shl (shr a 5 + shr b 5) 5 + dl + shr (NOT (dl - 31)) 31) = bits31 a + bits31 b"
    and "unat (shl (shr a 5 + shr b 5) 5 + dl + shr (NOT (dl - 31)) 31) \<le> unat a + unat b + 1"
proof -
  define qa qb ra rb where d: "qa = unat a div 32" "qb = unat b div 32" "ra = unat a mod 32" "rb = unat b mod 32"
  have dl: "unat dl = ra + rb" unfolding dl_def d by (simp add: unat_word_ariths unat_and5)
  have r: "ra < 32" "rb < 32" by (simp_all add: d)
  have hi: "shr (NOT (dl - 31)) 31 = of_bool (31 \<le> ra + rb)"
  proof -
    have "unat (dl - 31) = (if 31 \<le> ra + rb then ra + rb - 31 else 4294967296 + (ra + rb) - 31)"
      using dl by (auto simp: unat_sub32 word_le_nat_alt)
    then have "2147483648 \<le> unat (dl - 31) \<longleftrightarrow> \<not> 31 \<le> ra + rb" using r by auto
    then have "bit (dl - 31) 31 \<longleftrightarrow> \<not> 31 \<le> ra + rb" by (simp add: bit31)
    then show ?thesis by (simp add: shr31 bit_not_iff)
  qed
  have ab: "unat a = 32 * qa + ra" "unat b = 32 * qb + rb" by (simp_all add: d)
  have s: "unat (shl (shr a 5 + shr b 5) 5) = 32 * (qa + qb)"
    using assms(1) unfolding ab by (simp add: unat_shl32 unat_word_ariths unat_drop_bit d(1,2) [symmetric] mult.commute)
  have H: "unat (shl (shr a 5 + shr b 5) 5 + dl + shr (NOT (dl - 31)) 31) = 32 * (qa + qb) + (ra + rb) + of_bool (31 \<le> ra + rb)"
    using assms(1) unfolding hi ab by (simp add: unat_word_ariths s dl)
  then show "unat (shl (shr a 5 + shr b 5) 5 + dl + shr (NOT (dl - 31)) 31) \<le> unat a + unat b + 1" by (simp add: ab)
  have q: "(32 * k + t) div 32 = k + t div 32" "(32 * k + t) mod 32 = t mod 32" for k t :: nat by simp_all
  define t where "t = ra + rb + of_bool (31 \<le> ra + rb)"
  have t: "31 * (t div 32) + t mod 32 = ra + rb"
  proof (cases "31 \<le> ra + rb")
    case True
    then have "t div 32 = 1" "t mod 32 = ra + rb + 1 - 32" using r by (auto simp: t_def div_if mod_if)
    then show ?thesis using True by simp
  next
    case False
    then show ?thesis by (simp add: t_def)
  qed
  have "bits31 (shl (shr a 5 + shr b 5) 5 + dl + shr (NOT (dl - 31)) 31) = 31 * (qa + qb + t div 32) + t mod 32"
    unfolding bits31_def H by (simp add: q t_def add.assoc)
  also have "\<dots> = bits31 a + bits31 b" using t by (simp add: bits31_def d algebra_simps)
  finally show "bits31 (shl (shr a 5 + shr b 5) 5 + dl + shr (NOT (dl - 31)) 31) = bits31 a + bits31 b" .
qed

lemma bits31_fit: "hdr31 h n \<Longrightarrow> bits31 h \<le> 31 * n"
proof -
  assume h: "hdr31 h n"
  define q r where d: "q = unat h div 32" "r = unat h mod 32"
  then have e: "unat h = 32 * q + r" "r < 32" by simp_all
  have "n = (32 * q + (r + 31)) div 32" using h e(1) by (simp add: hdr31_def add.assoc)
  then have "n = q + (r + 31) div 32" by simp
  then have "n = (if r = 0 then q else q + 1)" using e(2) by (auto simp: div_if)
  moreover have "bits31 h = 31 * q + r" by (simp add: bits31_def d)
  ultimately show ?thesis using e(2) by auto
qed

lemma words31_bits31:
  assumes "unat h + 31 < 4294967296" and "bits31 h \<le> 31 * n"
  shows "words31 h \<le> n" and "(2 :: nat) ^ bits31 h \<le> B31 ^ words31 h"
proof -
  define q r where d: "q = unat h div 32" "r = unat h mod 32"
  then have e: "unat h = 32 * q + r" "r < 32" by simp_all
  have w: "words31 h = q + (r + 31) div 32" using assms(1) e(1) by (simp add: words31_def unat_drop_bit unat_word_ariths add.assoc)
  have w2: "words31 h = (if r = 0 then q else q + 1)" using e(2) unfolding w by (auto simp: div_if)
  have b: "bits31 h = 31 * q + r" by (simp add: bits31_def d)
  show "words31 h \<le> n" using assms(2) unfolding w2 b by auto
  have "bits31 h \<le> 31 * words31 h" using e(2) unfolding w2 b by auto
  then have "(2 :: nat) ^ bits31 h \<le> 2 ^ (31 * words31 h)" by (intro power_increasing) simp_all
  then show "(2 :: nat) ^ bits31 h \<le> B31 ^ words31 h" by (simp add: power_mult)
qed

lemma ok_br_i31_mulacc:
  assumes a: "is_i31 ha na a" and b: "is_i31 hb nb b" and d: "digits31 (Suc 0) na (cells d)" and l: "na + nb < alen d"
    and h: "unat ha + unat hb + 64 < 4294967296"
    and Q: "\<And>d'. blk d' = blk d \<Longrightarrow> alen d' = alen d \<Longrightarrow> digits31 (Suc 0) (na + nb) (cells d') \<Longrightarrow>
      i31v (na + nb) (cells d') = i31v na (cells d) + val31 na a * val31 nb b \<Longrightarrow>
      bits31 (cells d' ! 0) = bits31 ha + bits31 hb \<Longrightarrow> unat (cells d' ! 0) \<le> unat ha + unat hb + 1 \<Longrightarrow> Q d'"
  shows "ok (br_i31_mulacc d a b) Q"
proof -
  note aD = is_i31D [OF a] and bD = is_i31D [OF b]
  have l0: "0 < alen a" "0 < alen b" "0 < alen d" using aD(5) bD(5) l by linarith+
  let ?h = "shl (shr ha 5 + shr hb 5) 5 + ((ha AND 31) + (hb AND 31)) + shr (NOT ((ha AND 31) + (hb AND 31) - 31)) 31"
  let ?I = "\<lambda>u e. blk e = blk d \<and> alen e = alen d \<and> cells e ! 0 = ?h \<and> digits31 (Suc 0) (na + u) (cells e) \<and>
    i31v (na + u) (cells e) = i31v na (cells d) + val31 na a * wsum (Suc 0) u (cells b)"
  note H = mulacc_header [OF h]
  show ?thesis
    unfolding br_i31_mulacc_def
  proof (rule ok_bind, rule ok_ld [OF l0(1)], rule ok_bind, rule ok_ld [OF l0(2)], unfold Let_def aD(1,2) bD(1,2), rule ok_bind,
      rule ok_st [OF l0(3)], rule ok_for_loop [where Inv = ?I])
    show "?I 0 (d\<lparr>cells := (cells d)[0 := ?h]\<rparr>)" using d l0(3) by simp
  next
    fix u and e :: "u32 arr" assume u: "0 \<le> u" "u < nb" and I: "?I u e"
    have lu: "1 + u < alen b" "1 + u + na < alen e" using bD(5) u l I by auto
    let ?f = "cells b ! (1 + u)"
    have f: "unat ?f < B31" using u by (intro digits31_1 [OF bD(4)]) auto
    have de: "digits31 (Suc 0) (u + na) (cells e)" using I by (simp add: add.commute)
    then have du: "digits31 (Suc u) na (cells e)" by (auto simp: digits31_def)
    show "ok (do { f \<leftarrow> ld b (1 + u); mulacc_row f a na u e }) (?I (Suc u))"
    proof (rule ok_bind, rule ok_ld [OF lu(1)], rule ok_mulacc_row [OF f aD(4) du lu(2)])
      fix e' assume e': "blk e' = blk e" "alen e' = alen e" "\<And>i. i \<le> u \<or> 1 + u + na < i \<Longrightarrow> cells e' ! i = cells e ! i"
        "digits31 (Suc u) (Suc na) (cells e')" "wsum (Suc u) (Suc na) (cells e') = wsum (Suc u) na (cells e) + unat ?f * wsum (Suc 0) na (cells a)"
      have low: "wsum (Suc 0) u (cells e') = wsum (Suc 0) u (cells e)" using e'(3) by (intro wsum_nth_cong) auto
      have dg: "digits31 (Suc 0) (na + Suc u) (cells e')"
        unfolding digits31_def
      proof (intro conjI allI impI)
        show "Suc 0 + (na + Suc u) \<le> alen e'" using lu(2) e'(2) by simp
        fix j assume j: "j < na + Suc u"
        show "unat (cells e' ! (Suc 0 + j)) < B31"
        proof (cases "j < u")
          case True
          then show ?thesis using e'(3) [of "Suc 0 + j"] digits31_D [OF de, of j] by simp
        next
          case False
          then show ?thesis using digits31_D [OF e'(4), of "j - u"] j by simp
        qed
      qed
      have "i31v (na + Suc u) (cells e') = i31v (u + Suc na) (cells e')" by (simp only: add_Suc_right add.commute)
      also have "\<dots> = wsum (Suc 0) u (cells e') + B31 ^ u * wsum (Suc 0 + u) (Suc na) (cells e')" by (rule wsum_split)
      also have "\<dots> = (wsum (Suc 0) u (cells e) + B31 ^ u * wsum (Suc 0 + u) na (cells e)) + B31 ^ u * (unat ?f * wsum (Suc 0) na (cells a))"
        using low e'(5) by (simp add: algebra_simps)
      also have "wsum (Suc 0) u (cells e) + B31 ^ u * wsum (Suc 0 + u) na (cells e) = i31v (na + u) (cells e)"
        unfolding add.commute [of na u] by (rule wsum_split [symmetric])
      finally show "?I (Suc u) e'"
        using I e'(1-3) dg by (simp add: wsum_Suc algebra_simps)
    qed
  next
    fix e :: "u32 arr" assume I: "?I nb e"
    then show "Q e" using H by (intro Q) simp_all
  qed simp
qed

text \<open>What encoding the result finds in the words that its header announces.\<close>

lemma product_words:
  assumes "digits31 (Suc 0) k (cells d)" and "i31v k (cells d) < 2 ^ bits31 (cells d ! 0)" and "bits31 (cells d ! 0) \<le> 31 * k"
    and "unat (cells d ! 0) + 31 < 4294967296"
  shows "digits31 (Suc 0) (words31 (cells d ! 0)) (cells d)" and "i31v (words31 (cells d ! 0)) (cells d) = i31v k (cells d)"
proof -
  let ?w = "words31 (cells d ! 0)"
  note w = words31_bits31 [OF assms(4,3)]
  show "digits31 (Suc 0) ?w (cells d)" by (rule digits31_prefix [OF assms(1) w(1)])
  then have lt: "i31v ?w (cells d) < B31 ^ ?w" by (rule wsum_lt)
  obtain r where r: "k = ?w + r" using w(1) le_Suc_ex by blast
  have "i31v k (cells d) = i31v ?w (cells d) + B31 ^ ?w * wsum (Suc 0 + ?w) r (cells d)" by (subst r, rule wsum_split)
  moreover have "i31v k (cells d) < B31 ^ ?w" using assms(2) w(2) by linarith
  ultimately show "i31v ?w (cells d) = i31v k (cells d)" using lt by (cases "wsum (Suc 0 + ?w) r (cells d)") auto
qed

section \<open>Reduction of a byte string\<close>

lemma mask8: "j < 8 \<Longrightarrow> unat (ucast (b :: u8) AND shr 0xFF (8 - j) :: u32) = unat b mod 2 ^ j"
proof -
  assume j: "j < 8"
  have "shr 0xFF (8 - j) = (mask j :: u32)"
  proof -
    have "j = 0 \<or> j = 1 \<or> j = 2 \<or> j = 3 \<or> j = 4 \<or> j = 5 \<or> j = 6 \<or> j = 7" using j by auto
    then show ?thesis by (elim disjE) (simp_all add: mask_eq_exp_minus_1)
  qed
  then have "unat (ucast b AND shr 0xFF (8 - j) :: u32) = take_bit j (unat (ucast b :: u32))"
    by (simp add: unsigned_take_bit_eq flip: take_bit_eq_mask)
  then show ?thesis by (simp add: take_bit_eq_mod unsigned_ucast_eq take_bit_nat_eq_self unat_lt8 less_trans [OF unat_lt8])
qed

lemma unat_byte32: "unat (ucast (b :: u8) :: u32) = unat b"
  using unat_lt8 [of b] by (simp add: unsigned_ucast_eq take_bit_nat_eq_self)

definition dr_inv :: "u32 \<Rightarrow> nat \<Rightarrow> nat \<Rightarrow> nat \<Rightarrow> u8 arr \<Rightarrow> nat \<Rightarrow> u32 arr \<times> u32 \<times> nat \<Rightarrow> bool" where
  "dr_inv h n M l src k w \<longleftrightarrow> (case w of (x, acc, al) \<Rightarrow>
     is_i31 h n x \<and> alen x = l \<and> al < 31 \<and> unat acc = be_val (take k (cells src)) mod 2 ^ al \<and>
     val31 n x = be_val (take k (cells src)) div 2 ^ al mod M)"

lemma pow_split: "j \<le> k \<Longrightarrow> (2 :: nat) ^ k = 2 ^ j * 2 ^ (k - j)"
  by (simp flip: power_add)

lemma ok_decred_byte:
  assumes m: "modulus31 h n m" and M: "0 < val31 n m" and k: "k < alen src" and I: "dr_inv h n (val31 n m) l src k w"
  shows "ok (decred_byte src m k w) (dr_inv h n (val31 n m) l src (Suc k))"
proof -
  obtain x acc al where w: "w = (x, acc, al)" by (cases w)
  let ?M = "val31 n m"
  define V b where d: "V = be_val (take k (cells src))" "b = cells src ! k"
  have i: "is_i31 h n x" "alen x = l" "al < 31" "unat acc = V mod 2 ^ al" "val31 n x = V div 2 ^ al mod ?M"
    using I by (auto simp: dr_inv_def w d)
  have V': "be_val (take (Suc k) (cells src)) = V * 256 + unat b" using k by (simp add: take_Suc_conv_app_nth be_val_snoc d)
  have b8: "unat b < 256" by (rule unat_lt8)
  have la: "unat acc < 2 ^ al" using i(4) by simp
  show ?thesis
    unfolding decred_byte_def w prod.case Let_def
  proof (rule ok_bind, rule ok_ld [OF k], unfold d(2) [symmetric], rule ok_branch)
    assume al: "23 \<le> al"
    define j where "j = al - 23"
    have j: "al = 23 + j" "j < 8" using al i(3) by (auto simp: j_def)
    define z where "z = shl acc (8 - j) OR shr (ucast b) j"
    have p: "(256 :: nat) = 2 ^ (8 - j) * 2 ^ j" using pow_split [of j 8] j(2) by (simp add: mult.commute)
    have sh: "unat (shr (ucast b :: u32) j) = unat b div 2 ^ j" by (simp add: unat_drop_bit unat_byte32)
    have bl: "unat b div 2 ^ j < 2 ^ (8 - j)" using b8 unfolding p by (simp add: less_mult_imp_div_less)
    have pa: "(2 :: nat) ^ al * 2 ^ (8 - j) = B31" unfolding power_add [symmetric] using j by simp
    have "unat acc * 2 ^ (8 - j) < 2 ^ al * 2 ^ (8 - j)" using la by simp
    then have sl: "unat (shl acc (8 - j)) = unat acc * 2 ^ (8 - j)" unfolding pa by (simp add: unat_shl32)
    have z: "unat z = unat acc * 2 ^ (8 - j) + unat b div 2 ^ j"
      unfolding z_def using or_disjoint(2) [of "8 - j" "shl acc (8 - j)" "shr (ucast b) j"] sl sh bl by simp
    have zl: "unat z < B31"
    proof -
      have "unat z < (unat acc + 1) * 2 ^ (8 - j)" unfolding z using bl by (simp add: algebra_simps)
      also have "\<dots> \<le> 2 ^ al * 2 ^ (8 - j)" using la by (intro mult_le_mono1) simp
      finally show ?thesis unfolding pa .
    qed
    have D: "(V * 256 + unat b) div 2 ^ j = V div 2 ^ al * B31 + unat z"
    proof -
      have "(V * 256 + unat b) div 2 ^ j = (unat b + (V * 2 ^ (8 - j)) * 2 ^ j) div 2 ^ j" unfolding p by (simp add: ac_simps)
      also have "\<dots> = V * 2 ^ (8 - j) + unat b div 2 ^ j" by simp
      also have "V * 2 ^ (8 - j) = (V div 2 ^ al * 2 ^ al + unat acc) * 2 ^ (8 - j)" by (simp only: i(4) div_mult_mod_eq)
      also have "(V div 2 ^ al * 2 ^ al + unat acc) * 2 ^ (8 - j) + unat b div 2 ^ j = V div 2 ^ al * (2 ^ al * 2 ^ (8 - j)) + unat z"
        unfolding z by (simp add: algebra_simps)
      finally show ?thesis unfolding pa .
    qed
    have R: "(V * 256 + unat b) mod 2 ^ j = unat b mod 2 ^ j"
    proof -
      have "V * 256 + unat b = unat b + (V * 2 ^ (8 - j)) * 2 ^ j" unfolding p by (simp only: ac_simps)
      then show ?thesis by (simp only: mod_mult_self1)
    qed
    have lt: "val31 n x < ?M" using i(5) M by simp
    show "ok (do { x \<leftarrow> br_i31_muladd_small x (shl acc (8 - (al - 23)) OR shr (ucast b) (al - 23)) m;
        ret (x, ucast b AND shr 0xFF (8 - (al - 23)), al - 23) }) (dr_inv h n ?M l src (Suc k))"
      unfolding j_def [symmetric] z_def [symmetric]
    proof (rule ok_bind, rule ok_br_i31_muladd_small [OF m i(1) lt zl], rule ok_ret)
      fix x' assume x': "frame31 n x x'" "digits31 (Suc 0) n (cells x')" "val31 n x' = (val31 n x * B31 + unat z) mod ?M"
      have "val31 n x' = (V * 256 + unat b) div 2 ^ j mod ?M" unfolding x'(3) D i(5) by (rule mod_horner)
      then show "dr_inv h n ?M l src (Suc k) (x', ucast b AND shr 0xFF (8 - j), j)"
        using is_i31_frame [OF i(1) x'(1,2)] frame31_alen [OF x'(1)] i(2) j(2) mask8 [OF j(2), of b] R by (simp add: dr_inv_def V')
    qed
  next
    assume al: "\<not> 23 \<le> al"
    have a: "unat (shl acc 8 OR ucast b) = unat acc * 256 + unat b"
    proof -
      have "unat acc < 2 ^ 23" using la al power_increasing [of al 23 "2 :: nat"] by simp
      then have "unat (shl acc 8) = unat acc * 256" by (simp add: unat_shl32)
      then show ?thesis using or_disjoint(2) [of 8 "shl acc 8" "ucast b"] b8 by (simp add: unat_byte32)
    qed
    have "(V * 256 + unat b) mod 2 ^ (al + 8) = V mod 2 ^ al * 256 + unat b"
    proof -
      have "(V * 256 + unat b) mod (256 * 2 ^ al) = 256 * ((V * 256 + unat b) div 256 mod 2 ^ al) + (V * 256 + unat b) mod 256"
        by (rule mod_mult2_eq)
      then show ?thesis using b8 by (simp add: power_add mult.commute)
    qed
    moreover have "(V * 256 + unat b) div 2 ^ (al + 8) = V div 2 ^ al"
    proof -
      have "(V * 256 + unat b) div (256 * 2 ^ al) = (V * 256 + unat b) div 256 div 2 ^ al" by (rule div_mult2_eq)
      then show ?thesis using b8 by (simp add: power_add mult.commute)
    qed
    ultimately show "ok (ret (x, shl acc 8 OR ucast b, al + 8)) (dr_inv h n ?M l src (Suc k))"
      using i al a by (intro ok_ret) (simp add: dr_inv_def V')
  qed
qed

lemma ok_decode_under:
  assumes z: "digits31 (Suc 0) n (cells x)" "val31 n x = 0" "n < alen x" and h: "hdr31 h n"
    and len: "len \<le> alen src" "8 * len \<le> 31 * n" "n < 100000000"
    and Q: "\<And>x'. alen x' = alen x \<Longrightarrow> is_i31 h n x' \<Longrightarrow> val31 n x' = be_val (take len (cells src)) \<Longrightarrow> Q x'"
  shows "ok (do { x \<leftarrow> br_i31_decode x src len; st x 0 h }) Q"
proof (rule ok_bind, rule ok_br_i31_decode [OF len(1) _ _ refl])
  show "len < 500000000" using len by linarith
  show "8 * len + 31 \<le> 31 * alen x" using len(2) z(3) by linarith
  fix x' :: "u32 arr"
  define k where "k = (8 * len + 30) div 31"
  assume a: "alen x' = alen x" "digits31 (Suc 0) ((8 * len + 30) div 31) (cells x')"
    "\<forall>i>(8 * len + 30) div 31. cells x' ! i = cells x ! i" "i31v ((8 * len + 30) div 31) (cells x') = be_val (take len (cells src))"
  note a = a [folded k_def]
  have kn: "k \<le> n" using len(2) unfolding k_def by linarith
  then obtain r where r: "n = k + r" using le_Suc_ex by blast
  have zero: "cells x ! Suc j = 0" if "j < n" for j using z(2) that by (simp add: wsum_zero)
  have hi: "cells x' ! (Suc 0 + k + j) = 0" if "j < r" for j
    using a(3) zero [of "k + j"] that by (simp add: r)
  have "digits31 (Suc 0) n (cells x')"
    unfolding digits31_def
  proof (intro conjI allI impI)
    show "Suc 0 + n \<le> alen x'" using z(3) a(1) by simp
    fix j assume "j < n"
    then show "unat (cells x' ! (Suc 0 + j)) < B31"
      using digits31_D [OF a(2), of j] hi [of "j - k"] by (cases "j < k") (auto simp: r)
  qed
  moreover have "val31 n x' = be_val (take len (cells src))"
    using a(4) hi wsum_zero [of "Suc 0 + k" r "cells x'"] unfolding r wsum_split by simp
  moreover have "0 < alen x'" using a(1) z(3) by linarith
  ultimately show "ok (st x' 0 h) Q"
    using h a(1) by (intro ok_st Q) (auto simp: is_i31_def)
qed

lemma rbitlen: "unat ((h AND 31) + shl (shr h 5) 5 - shr h 5 :: u32) = bits31 h"
proof -
  define q r where d: "q = unat h div 32" "r = unat h mod 32"
  have e: "unat h = 32 * q + r" "r < 32" by (simp_all add: d)
  have lt: "32 * q + r < 4294967296" using unat_lt32 [of h] e by simp
  have s: "unat (shr h 5) = q" by (simp add: unat_drop_bit d)
  have "unat (shl (shr h 5) 5) = 32 * q" using lt by (simp add: unat_shl32 s mult.commute)
  then have u: "unat ((h AND 31) + shl (shr h 5) 5) = r + 32 * q" using lt by (simp add: unat_word_ariths unat_and5 d(2) [symmetric])
  have "shr h 5 \<le> (h AND 31) + shl (shr h 5) 5" unfolding word_le_nat_alt u s by simp
  then have "unat ((h AND 31) + shl (shr h 5) 5 - shr h 5 :: u32) = r + 32 * q - q" by (simp only: unat_sub u s)
  then show ?thesis unfolding bits31_def d [symmetric] by linarith
qed

lemma ok_br_i31_decode_reduce:
  assumes m: "modulus31 h n m" and n: "0 < n" "n < 100000000" and x: "n < alen x" and len: "len \<le> alen src"
    and Q: "\<And>x'. alen x' = alen x \<Longrightarrow> is_i31 h n x' \<Longrightarrow> val31 n x' = be_val (take len (cells src)) mod val31 n m \<Longrightarrow> Q x'"
  shows "ok (br_i31_decode_reduce x src len m) Q"
proof -
  let ?M = "val31 n m"
  have m': "is_i31 h n m" and nb: "nbits ?M = bits31 h" using m by (auto simp: modulus31_def)
  note mD = is_i31D [OF m']
  have hn: "hdr31 h n" using m' by (simp add: is_i31_def)
  have l: "0 < alen m" using mD(5) by linarith
  have b0: "31 * (n - 1) < bits31 h" "bits31 h \<le> 31 * n" by (rule bits31_words [OF hn n(1)], rule bits31_fit [OF hn])
  have h0: "h \<noteq> 0" using b0(1) by (auto simp: bits31_def)
  have "\<not> nbits ?M \<le> bits31 h - 1" using nb b0(1) by simp
  then have Mb: "2 ^ (bits31 h - 1) \<le> ?M" by (simp add: nbits_le_iff)
  have M: "0 < ?M" using Mb by (intro gr0I) simp
  have mb: "unat (shr ((h AND 31) + shl (shr h 5) 5 - shr h 5 + 7) 3) = (bits31 h + 7) div 8"
    using b0(2) n(2) by (simp add: unat_drop_bit unat_word_ariths rbitlen)
  define k where "k = (bits31 h + 7) div 8 - 1"
  have k: "8 * k \<le> bits31 h - 1" using b0(1) unfolding k_def by linarith
  have small: "be_val (take t (cells src)) < ?M" if "t \<le> k" "t \<le> alen src" for t
  proof -
    have "be_val (take t (cells src)) < 256 ^ t" using be_val_less [of "take t (cells src)"] that(2) by (simp add: min_absorb2)
    also have "(256 :: nat) ^ t \<le> 2 ^ (bits31 h - 1)" unfolding pow256 using that(1) k by (intro power_increasing) auto
    finally show ?thesis using Mb by simp
  qed
  have fit: "8 * t \<le> 31 * n" if "t \<le> k" for t using that k b0(2) by linarith
  show ?thesis
    unfolding br_i31_decode_reduce_def
  proof (rule ok_bind, rule ok_ld [OF l], unfold mD(1), rule ok_branch)
    show "ok (st x 0 0) Q" if "h = 0" using that h0 by simp
    show "ok (do {
       x \<leftarrow> br_i31_zero x h;
       let m_rbitlen = shr h 5;
       let m_rbitlen = (h AND 31) + shl m_rbitlen 5 - m_rbitlen;
       let mblen = unat (shr (m_rbitlen + 7) 3);
       let k = mblen - 1;
       branch (len \<le> k)
         (do { x \<leftarrow> br_i31_decode x src len; st x 0 h })
         (do {
           x \<leftarrow> br_i31_decode x src k;
           x \<leftarrow> st x 0 h;
           (x, acc, acc_len) \<leftarrow> for_loop k len (decred_byte src m) (x, 0, 0);
           branch (acc_len \<noteq> 0)
             (do {
               x1 \<leftarrow> ld x 1;
               let acc = (acc OR shl x1 acc_len) AND 0x7FFFFFFF;
               x \<leftarrow> br_i31_rshift x (31 - acc_len);
               br_i31_muladd_small x acc m })
             (ret x) }) }) Q"
    proof (rule ok_bind, rule ok_br_i31_zero, unfold mD(2) Let_def mb k_def [symmetric])
      show "Suc n \<le> alen x" using x by simp
      fix z assume z: "alen z = alen x" "digits31 (Suc 0) n (cells z)" "val31 n z = 0"
      have lz: "n < alen z" using z(1) x by simp
      show "ok (branch (len \<le> k) (do { x \<leftarrow> br_i31_decode z src len; st x 0 h })
         (do { x \<leftarrow> br_i31_decode z src k; x \<leftarrow> st x 0 h; (x, acc, acc_len) \<leftarrow> for_loop k len (decred_byte src m) (x, 0, 0);
           branch (acc_len \<noteq> 0) (do { x1 \<leftarrow> ld x 1; x \<leftarrow> br_i31_rshift x (31 - acc_len);
               br_i31_muladd_small x ((acc OR shl x1 acc_len) AND 0x7FFFFFFF) m }) (ret x) })) Q"
      proof (rule ok_branch)
        assume lk: "len \<le> k"
        show "ok (do { x \<leftarrow> br_i31_decode z src len; st x 0 h }) Q"
          by (rule ok_decode_under [OF z(2,3) lz hn len fit [OF lk] n(2)], rule Q) (use z(1) small [OF lk len] in auto)
      next
        assume lk: "\<not> len \<le> k"
        then have kl: "k \<le> len" "k \<le> alen src" using len by auto
        have d: "ok (do { x \<leftarrow> br_i31_decode z src k; st x 0 h }) (\<lambda>x. alen x = alen z \<and> is_i31 h n x \<and> val31 n x = be_val (take k (cells src)))"
          by (rule ok_decode_under [OF z(2,3) lz hn kl(2) fit [OF order_refl] n(2)]) simp
        have rest: "ok (do { (x, acc, acc_len) \<leftarrow> for_loop k len (decred_byte src m) (y, 0, 0);
           branch (acc_len \<noteq> 0) (do { x1 \<leftarrow> ld x 1; x \<leftarrow> br_i31_rshift x (31 - acc_len);
               br_i31_muladd_small x ((acc OR shl x1 acc_len) AND 0x7FFFFFFF) m }) (ret x) }) Q"
          if y: "alen y = alen z \<and> is_i31 h n y \<and> val31 n y = be_val (take k (cells src))" for y
        proof (rule ok_bind, rule ok_for_loop [where Inv = "dr_inv h n ?M (alen x) src"])
          show "dr_inv h n ?M (alen x) src k (y, 0, 0)" using y z(1) small [OF order_refl kl(2)] by (simp add: dr_inv_def)
          show "ok (decred_byte src m j w) (dr_inv h n ?M (alen x) src (Suc j))"
            if "k \<le> j" "j < len" "dr_inv h n ?M (alen x) src j w" for j w
            by (rule ok_decred_byte [OF m M _ that(3)]) (use that(2) len in simp)
        next
          fix w assume I: "dr_inv h n ?M (alen x) src len w"
          obtain y acc al where w: "w = (y, acc, al)" by (cases w)
          define V where "V = be_val (take len (cells src))"
          have i: "is_i31 h n y" "alen y = alen x" "al < 31" "unat acc = V mod 2 ^ al" "val31 n y = V div 2 ^ al mod ?M"
            using I by (auto simp: dr_inv_def w V_def)
          have V: "V = V div 2 ^ al * 2 ^ al + unat acc" unfolding i(4) by (rule div_mult_mod_eq [symmetric])
          show "ok (case w of (x, acc, acc_len) \<Rightarrow> branch (acc_len \<noteq> 0) (do { x1 \<leftarrow> ld x 1; x \<leftarrow> br_i31_rshift x (31 - acc_len);
               br_i31_muladd_small x ((acc OR shl x1 acc_len) AND 0x7FFFFFFF) m }) (ret x)) Q"
            unfolding w prod.case
          proof (rule ok_branch)
            assume "\<not> al \<noteq> 0"
            then show "ok (ret y) Q" using i by (intro ok_ret Q) (auto simp: V_def)
          next
            assume al: "al \<noteq> 0"
            have l1: "1 < alen y" using is_i31D(5) [OF i(1)] n(1) by simp
            define c where "c = 31 - al"
            have c: "c \<le> 31" "31 - c = al" using i(3) by (auto simp: c_def)
            let ?x1 = "cells y ! 1"
            let ?a = "(acc OR shl ?x1 al) AND 0x7FFFFFFF"
            have x1: "unat ?x1 < B31" using n(1) by (intro digits31_1 [OF is_i31D(4) [OF i(1)]]) auto
            have "unat acc < 2 ^ (31 - c)" using i(4) c(2) by simp
            note W = rshift_word(1) [OF x1 this c(1), unfolded c(2)]
            have a: "unat ?a = (unat ?x1 mod 2 ^ c) * 2 ^ al + unat acc" using W by (simp add: or.commute)
            have "al + c = 31" using i(3) by (simp add: c_def)
            then have p: "B31 = 2 ^ al * 2 ^ c" by (simp flip: power_add)
            have vm: "val31 n y mod 2 ^ c = unat ?x1 mod 2 ^ c"
            proof -
              obtain j where "n = Suc j" using n(1) by (cases n) auto
              then have "val31 n y = unat ?x1 + (2 ^ al * wsum (Suc (Suc 0)) j (cells y)) * 2 ^ c" by (simp add: wsum_head p ac_simps)
              then show ?thesis by simp
            qed
            have "unat ?a < (unat ?x1 mod 2 ^ c + 1) * 2 ^ al" using i(4) unfolding a by (simp add: algebra_simps)
            also have "\<dots> \<le> 2 ^ c * 2 ^ al" by (intro mult_le_mono1) (simp add: Suc_le_eq)
            finally have al31: "unat ?a < B31" unfolding p by (simp add: mult.commute)
            show "ok (do { x1 \<leftarrow> ld y 1; x \<leftarrow> br_i31_rshift y (31 - al); br_i31_muladd_small x ((acc OR shl x1 al) AND 0x7FFFFFFF) m }) Q"
              unfolding c_def [symmetric]
            proof (rule ok_bind, rule ok_ld [OF l1], rule ok_bind, rule ok_br_i31_rshift [OF i(1) c(1)])
              fix u assume u: "alen u = alen y" "is_i31 h n u" "val31 n u = val31 n y div 2 ^ c"
              have "val31 n y < ?M" using i(5) M by simp
              then have lt: "val31 n u < ?M" using u(3) div_le_dividend [of "val31 n y" "2 ^ c"] by linarith
              show "ok (br_i31_muladd_small u ?a m) Q"
              proof (rule ok_br_i31_muladd_small [OF m u(2) lt al31], rule Q)
                fix x' assume x': "frame31 n u x'" "digits31 (Suc 0) n (cells x')" "val31 n x' = (val31 n u * B31 + unat ?a) mod ?M"
                show "alen x' = alen x" using frame31_alen [OF x'(1)] u(1) i(2) by simp
                show "is_i31 h n x'" by (rule is_i31_frame [OF u(2) x'(1,2)])
                have "val31 n u * B31 + unat ?a = (val31 n y div 2 ^ c * 2 ^ c + val31 n y mod 2 ^ c) * 2 ^ al + unat acc"
                  unfolding u(3) a p vm by (simp add: algebra_simps)
                also have "\<dots> = val31 n y * 2 ^ al + unat acc" by (simp only: div_mult_mod_eq)
                finally have "val31 n x' = ((V div 2 ^ al) mod ?M * 2 ^ al + unat acc) mod ?M" using x'(3) i(5) by simp
                also have "\<dots> = V mod ?M" unfolding mod_horner V [symmetric] ..
                finally show "val31 n x' = be_val (take len (cells src)) mod ?M" by (simp add: V_def)
              qed
            qed
          qed
        qed (rule kl(1))
        have bind3: "(do { x \<leftarrow> br_i31_decode z src k; x \<leftarrow> st x 0 h; f x }) = (do { y \<leftarrow> (do { x \<leftarrow> br_i31_decode z src k; st x 0 h }); f y })"
          for f :: "u32 arr \<Rightarrow> u32 arr cm" by simp
        show "ok (do { x \<leftarrow> br_i31_decode z src k; x \<leftarrow> st x 0 h; (x, acc, acc_len) \<leftarrow> for_loop k len (decred_byte src m) (x, 0, 0);
           branch (acc_len \<noteq> 0) (do { x1 \<leftarrow> ld x 1; x \<leftarrow> br_i31_rshift x (31 - acc_len);
               br_i31_muladd_small x ((acc OR shl x1 acc_len) AND 0x7FFFFFFF) m }) (ret x) }) Q"
          unfolding bind3 by (rule ok_bind, rule ok_weaken [OF d], rule rest)
      qed
    qed
  qed
qed

section \<open>Properties\<close>

text \<open>C33. \<^bold>\<open>Bytes of any number modulo \<open>m\<close>.\<close> \<open>br_i31_decode_reduce\<close> stays in its arrays and leaves in \<open>x\<close>, under the header of the modulus, the big-endian
  number in the string modulo \<open>m\<close>: for a string of any length, shorter than the modulus or longer, for every size of the modulus,
  and whatever \<open>x\<close> held before.\<close>

theorem br_i31_decode_reduce_correct:
  assumes "modulus31 h n m" and "0 < n" and "n < 100000000" and "n < alen x" and "len \<le> alen src"
  shows "ok (br_i31_decode_reduce x src len m) (\<lambda>x'.
    alen x' = alen x \<and> is_i31 h n x' \<and> val31 n x' = be_val (take len (cells src)) mod val31 n m)"
  by (rule ok_br_i31_decode_reduce [OF assms]) simp

theorem br_i31_decode_reduce_correct_witness:
  "ok (br_i31_decode_reduce \<lparr>blk = 0, cells = [5, 6, 7]\<rparr> \<lparr>blk = 1, cells = [1, 2, 3, 4, 5, 6, 7]\<rparr> 7 \<lparr>blk = 2, cells = [8, 143]\<rparr>)
    (\<lambda>x'. cells x' ! 1 = 140)"
proof -
  have m: "modulus31 8 1 \<lparr>blk = 2, cells = [8, 143]\<rparr>"
  proof -
    have "digits31 (Suc 0) 1 [8, 143 :: u32]" by (simp add: digits31_def)
    moreover have "nbits 143 = 8" using nbits_eqI [of 7 143] by simp
    ultimately show ?thesis by (simp add: modulus31_def is_i31_def hdr31_def words31_def words63_def bits31_def wsum_head)
  qed
  have "x = 140" if "unat (x :: u32) = 140" for x using that by (simp add: word_unat_eq_iff)
  then show ?thesis
    by (intro ok_weaken [OF br_i31_decode_reduce_correct [OF m]]) (auto simp: be_val_Cons wsum_head)
qed

text \<open>\<^bold>\<open>The product that is added.\<close> \<open>br_i31_mulacc\<close> stays in its arrays and leaves \<open>d + a * b\<close> in \<open>d\<close>, over as many words as both factors have,
  whatever the words of \<open>d\<close> above those of \<open>a\<close> held; the header that it writes announces the sum of the two bit lengths.\<close>

theorem br_i31_mulacc_correct:
  assumes "is_i31 ha na a" and "is_i31 hb nb b" and "digits31 (Suc 0) na (cells d)" and "na + nb < alen d"
    and "unat ha + unat hb + 64 < 4294967296"
  shows "ok (br_i31_mulacc d a b) (\<lambda>d'. alen d' = alen d \<and> digits31 (Suc 0) (na + nb) (cells d') \<and>
    val31 (na + nb) d' = val31 na d + val31 na a * val31 nb b \<and> bits31 (cells d' ! 0) = bits31 ha + bits31 hb)"
  by (rule ok_br_i31_mulacc [OF assms]) simp

theorem br_i31_mulacc_correct_witness:
  "ok (br_i31_mulacc \<lparr>blk = 0, cells = [8, 5, 0xFFFFFFFF]\<rparr> \<lparr>blk = 1, cells = [8, 200]\<rparr> \<lparr>blk = 2, cells = [7, 100]\<rparr>)
    (\<lambda>d'. val31 2 d' = 20005 \<and> bits31 (cells d' ! 0) = 15)"
proof -
  have i: "is_i31 8 1 \<lparr>blk = 1, cells = [8, 200]\<rparr>" "is_i31 7 1 \<lparr>blk = 2, cells = [7, 100]\<rparr>"
    by (simp_all add: digits31_def is_i31_def hdr31_def words31_def words63_def)
  have b: "bits31 8 = 8" "bits31 7 = 7" by (simp_all add: bits31_def)
  have "(2 :: nat) = 1 + 1" by simp
  then show ?thesis
    by (intro ok_weaken [OF br_i31_mulacc_correct [OF i]]) (simp_all only: b, simp_all add: digits31_def wsum_head)
qed

end
