(* ===== verification/I31_Modpow2.thy ===== *)
theory I31_Modpow2
  imports I31_Modpow
begin

text \<open>
  The exponentiation with windows, \<^verbatim>\<open>src/int/i31_modpow2.c\<close>, which the RSA functions call. The caller's array
  \<open>tmp\<close> is cut into areas of \<open>mwlen\<close> words: \<open>t1\<close> is area 0, \<open>t2\<close> is area 1, and the window entry \<open>t2[k]\<close>, the
  power \<open>x ^ k\<close>, is area \<open>k + 1\<close>. The two \<open>printf\<close> calls of the source are events of the trace.
\<close>

section \<open>Operations\<close>

text \<open>An area of \<open>tmp\<close> is an array with a block number of its own, counted from that of \<open>tmp\<close>.\<close>

definition tmp_area :: "u32 arr \<Rightarrow> nat \<Rightarrow> nat \<Rightarrow> u32 arr" where
  "tmp_area tmp mwlen k = \<lparr>blk = blk tmp + k, cells = take mwlen (drop (k * mwlen) (cells tmp))\<rparr>"

definition tmp_areas :: "u32 arr \<Rightarrow> nat \<Rightarrow> nat \<Rightarrow> u32 arr list" where
  "tmp_areas tmp mwlen n = map (tmp_area tmp mwlen) [0..<n]"

definition tmp_join :: "u32 arr \<Rightarrow> u32 arr list \<Rightarrow> u32 arr" where
  "tmp_join tmp ts = tmp\<lparr>cells := splice (cells tmp) 0 (concat (map cells ts))\<rparr>"

text \<open>\<open>for (win_len = w; win_len > 1; win_len --) if ((2^win_len + 1) * mwlen <= twlen) break;\<close>\<close>

primrec opt_win_len :: "nat \<Rightarrow> nat \<Rightarrow> nat \<Rightarrow> nat cm" where
  "opt_win_len 0 mwlen twlen = ret 0"
| "opt_win_len (Suc w) mwlen twlen = branch (1 < Suc w)
     (branch ((2 ^ Suc w + 1) * mwlen \<le> twlen) (ret (Suc w)) (opt_win_len w mwlen twlen)) (ret (Suc w))"

definition opt_window :: "u32 arr \<Rightarrow> u32 arr \<Rightarrow> u32 \<Rightarrow> nat \<Rightarrow> nat \<Rightarrow> u32 arr list \<Rightarrow> u32 arr list cm" where
  "opt_window x m m0i mlen win_len ts = branch (win_len = 1)
     (do { t \<leftarrow> memcpy32 (ts ! 1) x mlen; ret (ts[1 := t]) })
     (do {
        t \<leftarrow> memcpy32 (ts ! 2) x mlen;
        for_loop 2 (2 ^ win_len) (\<lambda>u ts. do {
          t \<leftarrow> br_i31_montymul (ts ! (u + 1)) (ts ! u) x m m0i;
          ret (ts[u + 1 := t]) }) (ts[2 := t]) })"

text \<open>The number 1 in Montgomery representation.\<close>

definition opt_one :: "u32 arr \<Rightarrow> u32 arr \<Rightarrow> u32 \<Rightarrow> u32 arr cm" where
  "opt_one x m m0 = do {
     x \<leftarrow> br_i31_zero x m0;
     x \<leftarrow> st x (words31 m0) 1;
     br_i31_muladd_small x 0 m }"

text \<open>The exponent: \<open>e_off\<close> bytes are consumed and \<open>e_len\<close> are left.\<close>

record opt_bits =
  e_off :: nat
  e_len :: nat
  e_acc :: u32
  e_acc_len :: nat

definition opt_next :: "nat \<Rightarrow> u8 arr \<Rightarrow> opt_bits \<Rightarrow> (nat \<times> opt_bits) cm" where
  "opt_next win_len e s = branch (e_acc_len s < win_len)
     (branch (0 < e_len s)
        (do { b \<leftarrow> ld e (e_off s);
              ret (win_len, \<lparr>e_off = e_off s + 1, e_len = e_len s - 1, e_acc = shl (e_acc s) 8 OR ucast b, e_acc_len = e_acc_len s + 8\<rparr>) })
        (ret (e_acc_len s, s)))
     (ret (win_len, s))"

definition opt_lookup :: "nat \<Rightarrow> nat \<Rightarrow> nat \<Rightarrow> u32 \<Rightarrow> u32 \<Rightarrow> u32 arr list \<Rightarrow> u32 arr list cm" where
  "opt_lookup win_len mwlen k bits m0 ts = branch (1 < win_len)
     (do {
        t2 \<leftarrow> br_i31_zero (ts ! 1) m0;
        t2 \<leftarrow> for_loop 1 (2 ^ k) (\<lambda>u t2.
          let msk = - EQ (of_nat u) bits in
          for_loop 1 mwlen (\<lambda>v t2. do {
            t \<leftarrow> ld t2 v;
            b \<leftarrow> ld (ts ! (u + 1)) v;
            st t2 v (t OR (msk AND b)) }) t2) t2;
        ret (ts[1 := t2]) })
     (ret ts)"

text \<open>A round, once its \<open>k\<close> bits are known to be there.\<close>

definition opt_apply :: "u32 arr \<Rightarrow> u32 \<Rightarrow> u32 \<Rightarrow> nat \<Rightarrow> nat \<Rightarrow> nat \<Rightarrow> nat \<Rightarrow> opt_bits \<Rightarrow> u32 arr \<Rightarrow> u32 arr list \<Rightarrow>
    (opt_bits \<times> u32 arr \<times> u32 arr list) cm" where
  "opt_apply m m0 m0i mlen mwlen win_len k s x ts = do {
     let bits = shr (e_acc s) (e_acc_len s - k) AND (shl 1 k - 1);
     let s = s\<lparr>e_acc_len := e_acc_len s - k\<rparr>;
     (x, t1) \<leftarrow> for_loop 0 k (\<lambda>_ (x, t1). do {
       t1 \<leftarrow> br_i31_montymul t1 x x m m0i;
       x \<leftarrow> memcpy32 x t1 mlen;
       ret (x, t1) }) (x, ts ! 0);
     tick (Out ''bits'' (unat bits));
     ts \<leftarrow> opt_lookup win_len mwlen k bits m0 (ts[0 := t1]);
     t1 \<leftarrow> br_i31_montymul (ts ! 0) x (ts ! 1) m m0i;
     x \<leftarrow> CCOPY (NEQ bits 0) x t1 mlen;
     ret (s, x, ts[0 := t1]) }"

definition opt_round :: "u8 arr \<Rightarrow> u32 arr \<Rightarrow> u32 \<Rightarrow> u32 \<Rightarrow> nat \<Rightarrow> nat \<Rightarrow> nat \<Rightarrow> opt_bits \<times> u32 arr \<times> u32 arr list \<Rightarrow>
    (opt_bits \<times> u32 arr \<times> u32 arr list) cm" where
  "opt_round e m m0 m0i mlen mwlen win_len = (\<lambda>(s, x, ts). do {
     (k, s) \<leftarrow> opt_next win_len e s;
     opt_apply m m0 m0i mlen mwlen win_len k s x ts })"

text \<open>\<open>while (acc_len > 0 || elen > 0)\<close>. The recursion is bounded by \<open>fuel\<close>, and running out of it counts as
  leaving an array, so that a proof of \<open>ok\<close> shows that the loop ends.\<close>

definition no_fuel :: "'a \<Rightarrow> 'a cm" where
  "no_fuel x = State (\<lambda>_. (x, None))"

primrec opt_loop :: "nat \<Rightarrow> u8 arr \<Rightarrow> u32 arr \<Rightarrow> u32 \<Rightarrow> u32 \<Rightarrow> nat \<Rightarrow> nat \<Rightarrow> nat \<Rightarrow> opt_bits \<times> u32 arr \<times> u32 arr list \<Rightarrow>
    (opt_bits \<times> u32 arr \<times> u32 arr list) cm" where
  "opt_loop 0 e m m0 m0i mlen mwlen win_len w = no_fuel w"
| "opt_loop (Suc fuel) e m m0 m0i mlen mwlen win_len w =
     branch (0 < e_acc_len (fst w))
       (do { w \<leftarrow> opt_round e m m0 m0i mlen mwlen win_len w; opt_loop fuel e m m0 m0i mlen mwlen win_len w })
       (branch (0 < e_len (fst w))
         (do { w \<leftarrow> opt_round e m m0 m0i mlen mwlen win_len w; opt_loop fuel e m m0 m0i mlen mwlen win_len w })
         (ret w))"

text \<open>Everything before the loop: the window size, \<open>x\<close> in Montgomery representation, the window, and the start value 1.\<close>

definition opt_setup :: "u32 arr \<Rightarrow> u32 arr \<Rightarrow> u32 \<Rightarrow> u32 \<Rightarrow> nat \<Rightarrow> nat \<Rightarrow> u32 arr \<Rightarrow> nat \<Rightarrow> (nat \<times> u32 arr \<times> u32 arr list) cm" where
  "opt_setup x m m0 m0i mlen mwlen tmp twlen = do {
     win_len \<leftarrow> opt_win_len 5 mwlen twlen;
     tick (Out ''win_len'' win_len);
     x \<leftarrow> br_i31_to_monty x m;
     ts \<leftarrow> opt_window x m m0i mlen win_len (tmp_areas tmp mwlen (if win_len = 1 then 2 else 2 ^ win_len + 1));
     x \<leftarrow> opt_one x m m0;
     ret (win_len, x, ts) }"

definition br_i31_modpow_opt :: "u32 arr \<Rightarrow> u8 arr \<Rightarrow> nat \<Rightarrow> u32 arr \<Rightarrow> u32 \<Rightarrow> u32 arr \<Rightarrow> nat \<Rightarrow> (u32 \<times> u32 arr \<times> u32 arr) cm" where
  "br_i31_modpow_opt x e elen m m0i tmp twlen = do {
     m0 \<leftarrow> ld m 0;
     let mlen = words63 m0 * 4;
     let mwlen = words63 m0 + words63 m0 mod 2;
     branch (twlen < mwlen * 2) (ret (0, x, tmp)) (do {
       (win_len, x, ts) \<leftarrow> opt_setup x m m0 m0i mlen mwlen tmp twlen;
       (s, x, ts) \<leftarrow> opt_loop (8 * elen + 1) e m m0 m0i mlen mwlen win_len (\<lparr>e_off = 0, e_len = elen, e_acc = 0, e_acc_len = 0\<rparr>, x, ts);
       x \<leftarrow> br_i31_from_monty x m m0i;
       ret (1, x, tmp_join tmp ts) }) }"

section \<open>Numbers in Montgomery representation\<close>

text \<open>\<open>x\<close> holds \<open>v * R mod M\<close>, with \<open>R = 2 ^ (31 * n)\<close>.\<close>

definition mont31 :: "u32 \<Rightarrow> nat \<Rightarrow> nat \<Rightarrow> nat \<Rightarrow> u32 arr \<Rightarrow> bool" where
  "mont31 h n M v x \<longleftrightarrow> is_i31 h n x \<and> val31 n x = (v * B31 ^ n) mod M"

lemma mont31D: "mont31 h n M v x \<Longrightarrow> is_i31 h n x" "mont31 h n M v x \<Longrightarrow> val31 n x = (v * B31 ^ n) mod M"
  by (simp_all add: mont31_def)

text \<open>What every step needs of the modulus.\<close>

definition odd31 :: "u32 \<Rightarrow> nat \<Rightarrow> u32 arr \<Rightarrow> u32 \<Rightarrow> bool" where
  "odd31 h n m m0i \<longleftrightarrow> modulus31 h n m \<and> odd (val31 n m) \<and> 1 < val31 n m \<and> (unat m0i * unat (cells m ! 1) + 1) mod B31 = 0"

lemma odd31D:
  assumes "odd31 h n m m0i"
  shows "modulus31 h n m" "is_i31 h n m" "odd (val31 n m)" "1 < val31 n m" "(unat m0i * unat (cells m ! 1) + 1) mod B31 = 0"
    "0 < n" "n < alen m" "hdr31 h n" "cells m ! 0 = h"
proof -
  show "modulus31 h n m" "is_i31 h n m" "odd (val31 n m)" and one: "1 < val31 n m" "(unat m0i * unat (cells m ! 1) + 1) mod B31 = 0"
    using assms by (auto simp: odd31_def modulus31_def)
  then show "n < alen m" "hdr31 h n" "cells m ! 0 = h" using is_i31D(5) by (auto simp: is_i31_def)
  show "0 < n" using one by (intro gr0I) simp
qed

lemma ok_mont_mul:
  assumes m: "odd31 h n m m0i" and d: "n < alen d" and x: "mont31 h n (val31 n m) v x" and y: "mont31 h n (val31 n m) w y"
    and Q: "\<And>d'. alen d' = alen d \<Longrightarrow> blk d' = blk d \<Longrightarrow> mont31 h n (val31 n m) (v * w) d' \<Longrightarrow> Q d'"
  shows "ok (br_i31_montymul d x y m m0i) Q"
proof (rule ok_br_i31_montymul [OF odd31D(2) [OF m] _ _ d])
  note mD = odd31D [OF m] and X = mont31D [OF x] and Y = mont31D [OF y]
  show "digits31 (Suc 0) n (cells x)" "digits31 (Suc 0) n (cells y)" using X Y is_i31D(4) by auto
  show "val31 n y < val31 n m" using Y(2) mD(4) by simp
  show "(unat m0i * unat (cells m ! 1) + 1) mod B31 = 0" by (rule mD(5))
  fix d'
  assume d': "blk d' = blk d" "alen d' = alen d" "is_i31 h n d'" "val31 n d' < val31 n m"
    "val31 n d' * B31 ^ n mod val31 n m = val31 n x * val31 n y mod val31 n m"
  have "val31 n d' = (v * B31 ^ n * w) mod val31 n m"
    by (rule mont_product [OF d'(5) X(2) Y(2) coprime_B31 [OF mD(3)] d'(4)])
  then show "Q d'" using d' by (intro Q) (simp_all add: mont31_def ac_simps)
qed

lemma mont31_put:
  assumes "mont31 h n M v t" and "n < alen d"
  shows "mont31 h n M v (put d t (Suc n)) \<and> alen (put d t (Suc n)) = alen d \<and> blk (put d t (Suc n)) = blk d"
proof -
  have "n < alen t" using mont31D(1) [OF assms(1)] by (rule is_i31D(5))
  then show ?thesis using assms is_i31_put [of h n t d] by (auto simp: mont31_def alen_put Suc_le_eq) (simp_all add: put_def)
qed

section \<open>The window\<close>

lemma ok_opt_win_len:
  assumes "0 < w" and "\<And>r. 0 < r \<Longrightarrow> r \<le> w \<Longrightarrow> r = 1 \<or> (2 ^ r + 1) * mwlen \<le> twlen \<Longrightarrow> Q r"
  shows "ok (opt_win_len w mwlen twlen) Q"
  using assms
proof (induction w)
  case (Suc w)
  show ?case
  proof (cases "0 < w")
    case True
    have "ok (opt_win_len w mwlen twlen) Q" by (rule Suc.IH [OF True]) (use Suc.prems(2) in auto)
    then show ?thesis using Suc.prems True unfolding opt_win_len.simps by (intro wp) auto
  next
    case False
    then show ?thesis using Suc.prems unfolding opt_win_len.simps by (intro wp) auto
  qed
qed simp

definition opt_areas :: "nat \<Rightarrow> nat" where
  "opt_areas win_len = (if win_len = 1 then 2 else 2 ^ win_len + 1)"

definition opt_tmp :: "nat \<Rightarrow> nat \<Rightarrow> u32 arr list \<Rightarrow> bool" where
  "opt_tmp mwlen win_len ts \<longleftrightarrow> length ts = opt_areas win_len \<and> (\<forall>k<length ts. alen (ts ! k) = mwlen)"

lemma opt_tmp_upd: "opt_tmp mwlen win_len ts \<Longrightarrow> alen t = mwlen \<Longrightarrow> opt_tmp mwlen win_len (ts[k := t])"
  by (cases "k < length ts") (auto simp: opt_tmp_def nth_list_update)

definition opt_table :: "u32 \<Rightarrow> nat \<Rightarrow> nat \<Rightarrow> nat \<Rightarrow> nat \<Rightarrow> u32 arr list \<Rightarrow> bool" where
  "opt_table h n M X win_len ts \<longleftrightarrow>
     (if win_len = 1 then mont31 h n M X (ts ! 1) else \<forall>u. 0 < u \<and> u < 2 ^ win_len \<longrightarrow> mont31 h n M (X ^ u) (ts ! (u + 1)))"

lemma two_le_pow: "1 < w \<Longrightarrow> (4::nat) \<le> 2 ^ w"
  using power_increasing [of 2 w "2::nat"] by simp

lemma ok_opt_window:
  assumes m: "odd31 h n m m0i" and x: "mont31 h n (val31 n m) X x" and w: "0 < win_len" and mw: "n < mwlen"
    and ts: "opt_tmp mwlen win_len ts"
    and Q: "\<And>ts'. opt_tmp mwlen win_len ts' \<Longrightarrow> opt_table h n (val31 n m) X win_len ts' \<Longrightarrow> Q ts'"
  shows "ok (opt_window x m m0i (4 * Suc n) win_len ts) Q"
proof -
  have lx: "Suc n \<le> alen x" using is_i31D(5) [OF mont31D(1) [OF x]] by simp
  show ?thesis
  proof (cases "win_len = 1")
    case True
    have l: "length ts = 2" "alen (ts ! 1) = mwlen" using ts True by (auto simp: opt_tmp_def opt_areas_def)
    note p = mont31_put [OF x, of "ts ! 1"]
    show ?thesis using l mw p lx ts True
      unfolding opt_window_def by (intro wp ok_memcpy32 [OF _ _ refl] Q) (auto simp: opt_table_def intro: opt_tmp_upd)
  next
    case False
    with w have w1: "1 < win_len" by simp
    have len: "length ts = 2 ^ win_len + 1" using ts False by (simp add: opt_tmp_def opt_areas_def)
    have l: "4 < length ts" "alen (ts ! 2) = mwlen"
      using ts two_le_pow [OF w1] len by (auto simp: opt_tmp_def)
    define Inv where "Inv j ts \<longleftrightarrow> opt_tmp mwlen win_len ts \<and>
      (\<forall>u. 0 < u \<and> u < j \<longrightarrow> mont31 h n (val31 n m) (X ^ u) (ts ! (u + 1)))" for j ts
    let ?t = "put (ts ! 2) x (Suc n)"
    have t: "mont31 h n (val31 n m) X ?t" "alen ?t = mwlen" using mont31_put [OF x, of "ts ! 2"] l(2) mw by auto
    have step: "ok (do { t \<leftarrow> br_i31_montymul (ts ! (j + 1)) (ts ! j) x m m0i; ret (ts[j + 1 := t]) }) (Inv (Suc j))"
      if j: "2 \<le> j" "j < 2 ^ win_len" and I: "Inv j ts" for j and ts :: "u32 arr list"
    proof -
      have lt: "length ts = 2 ^ win_len + 1" "alen (ts ! (j + 1)) = mwlen"
        using I j False by (auto simp: Inv_def opt_tmp_def opt_areas_def)
      have "0 < j - 1 \<and> j - 1 < j" using j by simp
      then have "mont31 h n (val31 n m) (X ^ (j - 1)) (ts ! (j - 1 + 1))" using I unfolding Inv_def by blast
      then have y: "mont31 h n (val31 n m) (X ^ (j - 1)) (ts ! j)" using j by simp
      have e: "X ^ (j - 1) * X = X ^ j" using j by (cases j) (auto simp: mult.commute)
      show ?thesis
      proof (rule ok_bind, rule ok_mont_mul [OF m _ y x], unfold e)
        show "n < alen (ts ! (j + 1))" using lt mw by simp
        fix d' assume d: "alen d' = alen (ts ! (j + 1))" "mont31 h n (val31 n m) (X ^ j) d'"
        have "ts[j + 1 := d'] ! (j + 1) = d'" using lt(1) j(2) by simp
        then have "Inv (Suc j) (ts[j + 1 := d'])"
          using I d lt(2) by (auto simp: Inv_def less_Suc_eq opt_tmp_upd)
        then show "ok (ret (ts[j + 1 := d'])) (Inv (Suc j))" by (rule ok_ret)
      qed
    qed
    have I0: "Inv 2 (ts[2 := ?t])" using ts t l by (auto simp: Inv_def less_Suc_eq numeral_2_eq_2 intro: opt_tmp_upd)
    have fin: "Q ts" if "Inv (2 ^ win_len) ts" for ts
      using that False by (intro Q) (auto simp: Inv_def opt_table_def)
    show ?thesis unfolding opt_window_def
      by (rule ok_branch, use False in simp, rule ok_bind, rule ok_memcpy32 [OF _ lx refl], use l mw in simp,
          rule ok_for_loop [where Inv = Inv, OF I0]) (use two_le_pow [OF w1] step fin in auto)
  qed
qed

text \<open>The start value.\<close>

lemma ok_opt_one:
  assumes m: "odd31 h n m m0i" and x: "n < alen x"
    and Q: "\<And>x'. alen x' = alen x \<Longrightarrow> blk x' = blk x \<Longrightarrow> mont31 h n (val31 n m) 1 x' \<Longrightarrow> Q x'"
  shows "ok (opt_one x m h) Q"
proof -
  note mD = odd31D [OF m]
  have w: "words31 h = n" using hdr31D [OF mD(8)] by simp
  obtain k where k: "n = Suc k" using mD(6) by (cases n) auto
  have M: "B31 ^ k < val31 n m"
  proof (cases k)
    case 0
    then show ?thesis using mD(4) by simp
  next
    case (Suc i)
    have "31 * k < nbits (val31 n m)" using bits31_words [OF mD(8,6)] mD(1) by (simp add: modulus31_def k)
    then have "\<not> nbits (val31 n m) \<le> 31 * k" by simp
    then have "2 ^ (31 * k) \<le> val31 n m" by (simp add: nbits_le_iff)
    moreover have "even ((2::nat) ^ (31 * k))" using Suc by simp
    ultimately have "2 ^ (31 * k) < val31 n m" using mD(3) by (metis le_neq_implies_less)
    then show ?thesis by (simp add: power_mult)
  qed
  show ?thesis
    unfolding opt_one_def w
  proof (rule ok_bind, rule ok_br_i31_zero, unfold w)
    show "Suc n \<le> alen x" using x by simp
    fix z assume z: "blk z = blk x" "alen z = alen x" "cells z ! 0 = h" "digits31 (Suc 0) n (cells z)" "val31 n z = 0"
    let ?z = "z\<lparr>cells := (cells z)[n := 1]\<rparr>"
    have lz: "n < alen z" using x z(2) by simp
    have d: "is_i31 h n ?z" using z mD(6,8) by (simp add: is_i31_def digits31_update)
    have v: "val31 n ?z = B31 ^ k"
    proof -
      have "wsum (Suc 0) k (cells z) = 0" using z(5) by (simp add: k wsum_Suc)
      then show ?thesis using lz by (simp add: k wsum_Suc)
    qed
    show "ok (do { x \<leftarrow> st z n 1; br_i31_muladd_small x 0 m }) Q"
    proof (rule ok_bind, rule ok_st [OF lz], rule ok_br_i31_muladd_small [OF mD(1) d])
      fix x' assume x': "frame31 n ?z x'" "digits31 (Suc 0) n (cells x')" "val31 n x' = (val31 n ?z * B31 + unat (0 :: u32)) mod val31 n m"
      have "is_i31 h n x'" by (rule is_i31_frame [OF d x'(1,2)])
      moreover have "val31 n x' = (1 * B31 ^ n) mod val31 n m" using x'(3) unfolding v by (simp add: k mult.commute)
      ultimately show "Q x'" using x'(1) z(1,2) by (intro Q) (auto simp: mont31_def frame31_def)
    qed (use v M in auto)
  qed
qed

section \<open>Reading the exponent\<close>

text \<open>The first \<open>e_off\<close> bytes of the exponent are in \<open>V\<close>, but for the last \<open>e_acc_len\<close> bits, which are still in \<open>e_acc\<close>.\<close>

definition bits_inv :: "u8 arr \<Rightarrow> nat \<Rightarrow> opt_bits \<Rightarrow> bool" where
  "bits_inv e elen s \<longleftrightarrow> e_off s + e_len s = elen \<and> elen \<le> alen e \<and> e_acc_len s \<le> 8 * e_off s \<and> e_acc_len s < 13 \<and>
     unat (e_acc s) mod 2 ^ e_acc_len s = be_val (take (e_off s) (cells e)) mod 2 ^ e_acc_len s"

abbreviation bits_read :: "u8 arr \<Rightarrow> opt_bits \<Rightarrow> nat" where
  "bits_read e s \<equiv> be_val (take (e_off s) (cells e))"

text \<open>The number made of the bits that are done.\<close>

abbreviation bits_done :: "u8 arr \<Rightarrow> opt_bits \<Rightarrow> nat" where
  "bits_done e s \<equiv> bits_read e s div 2 ^ e_acc_len s"

abbreviation bits_left :: "opt_bits \<Rightarrow> nat" where
  "bits_left s \<equiv> 8 * e_len s + e_acc_len s"

lemma mod_pow_add8: "a mod 2 ^ k = c mod 2 ^ k \<Longrightarrow> (a * 256 + b) mod 2 ^ (k + 8) = (c * 256 + b) mod (2 :: nat) ^ (k + 8)"
proof -
  have p: "(2 :: nat) ^ (k + 8) = 2 ^ k * 256" by (simp add: power_add)
  assume "a mod 2 ^ k = c mod 2 ^ k"
  then have "a * 256 mod 2 ^ (k + 8) = c * 256 mod 2 ^ (k + 8)" unfolding p by (simp flip: mult_mod_left)
  then show ?thesis by (rule mod_add_cong) simp
qed

lemma unat_acc_in: "unat (shl a 8 OR ucast (b :: u8) :: u32) mod 2 ^ k = (unat a * 256 + unat b) mod 2 ^ k" if "k \<le> 32"
proof -
  have "shl a 8 OR ucast b = shl a 8 + ucast b"
    by (rule disjunctive_add [symmetric]) (auto simp: bit_simps dest: bit_imp_le_length)
  moreover have "unat (shl a 8 + ucast b :: u32) = (unat a * 256 + unat b) mod 4294967296"
    by (simp add: unat_word_ariths unat_shl32 unsigned_ucast_eq take_bit_eq_mod mod_simps)
  moreover have "(2 :: nat) ^ k dvd 4294967296" using le_imp_power_dvd [OF that, of "2::nat"] by simp
  ultimately show ?thesis by (simp add: mod_mod_cancel)
qed

lemma ok_opt_next:
  assumes I: "bits_inv e elen s" and more: "0 < bits_left s" and w: "0 < win_len" "win_len \<le> 5"
    and Q: "\<And>k s'. bits_inv e elen s' \<Longrightarrow> 0 < k \<Longrightarrow> k \<le> win_len \<Longrightarrow> k \<le> e_acc_len s' \<Longrightarrow> bits_left s' = bits_left s \<Longrightarrow>
      bits_done e s' = bits_done e s \<Longrightarrow> Q (k, s')"
  shows "ok (opt_next win_len e s) Q"
  unfolding opt_next_def
proof (intro ok_branch ok_bind ok_ld ok_ret)
  assume c: "e_acc_len s < win_len" "0 < e_len s"
  have o: "e_off s < alen e" using I c(2) by (simp add: bits_inv_def)
  then show "e_off s < alen e" .
  let ?b = "cells e ! e_off s"
  let ?s = "\<lparr>e_off = e_off s + 1, e_len = e_len s - 1, e_acc = shl (e_acc s) 8 OR ucast ?b, e_acc_len = e_acc_len s + 8\<rparr>"
  have V: "bits_read e ?s = bits_read e s * 256 + unat ?b" using o by (simp add: take_Suc_conv_app_nth be_val_snoc)
  have "unat (e_acc ?s) mod 2 ^ (e_acc_len s + 8) = (unat (e_acc s) * 256 + unat ?b) mod 2 ^ (e_acc_len s + 8)"
    using I by (simp add: unat_acc_in bits_inv_def)
  also have "\<dots> = bits_read e ?s mod 2 ^ (e_acc_len s + 8)"
    unfolding V using I by (intro mod_pow_add8) (simp add: bits_inv_def)
  finally have a: "unat (e_acc ?s) mod 2 ^ e_acc_len ?s = bits_read e ?s mod 2 ^ e_acc_len ?s" by simp
  have p: "(2 :: nat) ^ (e_acc_len s + 8) = 256 * 2 ^ e_acc_len s" by (simp add: power_add)
  have "bits_done e ?s = (bits_read e s * 256 + unat ?b) div 256 div 2 ^ e_acc_len s"
    unfolding V by (simp only: opt_bits.simps p div_mult2_eq)
  also have "\<dots> = bits_done e s" using unat_lt8 [of ?b] by simp
  finally have v: "bits_done e ?s = bits_done e s" .
  show "Q (win_len, ?s)"
  proof (rule Q)
    show "bits_inv e elen ?s" using I a c w unfolding bits_inv_def by simp
  qed (use v w c in simp_all)
qed (use assms in \<open>auto simp: bits_inv_def intro!: Q\<close>)

lemma bits_take:
  fixes s :: opt_bits
  assumes I: "bits_inv e elen s" and k: "k \<le> e_acc_len s"
  defines "b \<equiv> shr (e_acc s) (e_acc_len s - k) AND (shl 1 k - 1)" and "s' \<equiv> s\<lparr>e_acc_len := e_acc_len s - k\<rparr>"
  shows "bits_inv e elen s'" and "bits_done e s' = bits_done e s * 2 ^ k + unat b" and "unat b < 2 ^ k"
proof -
  define a where "a = e_acc_len s"
  have a: "unat (e_acc s) mod 2 ^ a = bits_read e s mod 2 ^ a" "k \<le> a" "a < 13" using I k by (auto simp: bits_inv_def a_def)
  have b: "unat b = bits_read e s div 2 ^ (a - k) mod 2 ^ k"
  proof -
    have "b = take_bit k (drop_bit (a - k) (e_acc s))"
      by (simp add: b_def a_def take_bit_eq_mask mask_eq_exp_minus_1)
    then have "unat b = take_bit k (drop_bit (a - k) (unat (e_acc s)))"
      using a(2,3) by (simp add: unsigned_take_bit_eq unsigned_drop_bit_eq take_bit_drop_bit min_absorb2)
    also have "\<dots> = drop_bit (a - k) (take_bit a (unat (e_acc s)))" using a(2) by (simp add: drop_bit_take_bit)
    also have "\<dots> = drop_bit (a - k) (take_bit a (bits_read e s))" using a(1) by (simp add: take_bit_eq_mod)
    also have "\<dots> = take_bit k (drop_bit (a - k) (bits_read e s))" using a(2) by (simp add: drop_bit_take_bit)
    finally show ?thesis by (simp add: take_bit_eq_mod drop_bit_eq_div)
  qed
  then show "unat b < 2 ^ k" by simp
  have "(2 :: nat) ^ (a - k) dvd 2 ^ a" by (rule le_imp_power_dvd) simp
  then have "unat (e_acc s) mod 2 ^ (a - k) = bits_read e s mod 2 ^ (a - k)"
    using arg_cong [OF a(1), of "\<lambda>v. v mod 2 ^ (a - k)"] by (simp add: mod_mod_cancel)
  then show "bits_inv e elen s'" using I by (auto simp: bits_inv_def s'_def a_def)
  have p: "(2 :: nat) ^ a = 2 ^ (a - k) * 2 ^ k" using a(2) by (simp flip: power_add)
  have "bits_done e s' = bits_read e s div 2 ^ (a - k)" by (simp add: s'_def a_def)
  also have "\<dots> = bits_read e s div 2 ^ a * 2 ^ k + bits_read e s div 2 ^ (a - k) mod 2 ^ k"
    unfolding p div_mult2_eq by (rule div_mult_mod_eq [symmetric])
  finally show "bits_done e s' = bits_done e s * 2 ^ k + unat b" by (simp add: b a_def)
qed

section \<open>One round\<close>

lemma ok_opt_squares:
  assumes m: "odd31 h n m m0i" and x: "mont31 h n (val31 n m) v x" and t: "n < alen t"
    and Q: "\<And>x' t'. mont31 h n (val31 n m) (v ^ 2 ^ k) x' \<Longrightarrow> alen x' = alen x \<Longrightarrow> alen t' = alen t \<Longrightarrow> Q (x', t')"
  shows "ok (for_loop 0 k (\<lambda>_ (x, t1). do {
       t1 \<leftarrow> br_i31_montymul t1 x x m m0i;
       x \<leftarrow> memcpy32 x t1 (4 * Suc n);
       ret (x, t1) }) (x, t)) Q"
proof (rule ok_for_loop [where Inv = "\<lambda>j (x', t'). mont31 h n (val31 n m) (v ^ 2 ^ j) x' \<and> alen x' = alen x \<and> alen t' = alen t"])
  fix j and w :: "u32 arr \<times> u32 arr"
  assume I: "case w of (x', t') \<Rightarrow> mont31 h n (val31 n m) (v ^ 2 ^ j) x' \<and> alen x' = alen x \<and> alen t' = alen t"
  obtain x' t' where w: "w = (x', t')" by (cases w)
  from I have i: "mont31 h n (val31 n m) (v ^ 2 ^ j) x'" "alen x' = alen x" "n < alen t'" "alen t' = alen t" using t by (auto simp: w)
  have lx: "n < alen x'" using mont31D(1) [OF i(1)] by (rule is_i31D(5))
  have sq: "v ^ 2 ^ j * v ^ 2 ^ j = v ^ 2 ^ Suc j" by (simp add: mult_2 flip: power_add)
  show "ok (case w of (x, t1) \<Rightarrow> do { t1 \<leftarrow> br_i31_montymul t1 x x m m0i; x \<leftarrow> memcpy32 x t1 (4 * Suc n); ret (x, t1) })
    (\<lambda>(x', t'). mont31 h n (val31 n m) (v ^ 2 ^ Suc j) x' \<and> alen x' = alen x \<and> alen t' = alen t)"
    unfolding w prod.case
  proof (rule ok_bind, rule ok_mont_mul [OF m i(3) i(1) i(1)], unfold sq)
    fix d assume d: "alen d = alen t'" "mont31 h n (val31 n m) (v ^ 2 ^ Suc j) d"
    note p = mont31_put [OF d(2) lx]
    show "ok (do { x \<leftarrow> memcpy32 x' d (4 * Suc n); ret (x, d) })
      (\<lambda>(x', t'). mont31 h n (val31 n m) (v ^ 2 ^ Suc j) x' \<and> alen x' = alen x \<and> alen t' = alen t)"
      by (rule ok_bind, rule ok_memcpy32 [OF _ _ refl], use lx in simp, use d i(3) in simp, rule ok_ret) (use p d i in simp)
  qed
qed (use assms in auto)

definition looked_up :: "u32 \<Rightarrow> nat \<Rightarrow> nat \<Rightarrow> u32 arr list \<Rightarrow> nat \<Rightarrow> nat \<Rightarrow> u32 arr \<Rightarrow> bool" where
  "looked_up h n mwlen ts b u t \<longleftrightarrow> alen t = mwlen \<and> cells t ! 0 = h \<and>
     (\<forall>j. 0 < j \<and> j \<le> n \<longrightarrow> cells t ! j = (if 0 < b \<and> b < u then cells (ts ! (b + 1)) ! j else 0))"

lemma ok_lookup_row:
  fixes t b :: "u32 arr"
  assumes t: "alen t = mwlen" and b: "alen b = mwlen"
    and Q: "\<And>t'. alen t' = mwlen \<Longrightarrow> cells t' ! 0 = cells t ! 0 \<Longrightarrow>
      (\<And>j. 0 < j \<Longrightarrow> j < mwlen \<Longrightarrow> cells t' ! j = cells t ! j OR (msk AND cells b ! j)) \<Longrightarrow> Q t'"
    and "0 < mwlen"
  shows "ok (for_loop 1 mwlen (\<lambda>v t2. do { t \<leftarrow> ld t2 v; b \<leftarrow> ld b v; st t2 v (t OR (msk AND b)) }) t) Q"
proof (rule ok_for_loop [where Inv = "\<lambda>v t'. alen t' = mwlen \<and>
      (\<forall>j<mwlen. cells t' ! j = (if 0 < j \<and> j < v then cells t ! j OR (msk AND cells b ! j) else cells t ! j))"])
  fix v and t' :: "u32 arr" assume v: "1 \<le> v" "v < mwlen" and I: "alen t' = mwlen \<and>
      (\<forall>j<mwlen. cells t' ! j = (if 0 < j \<and> j < v then cells t ! j OR (msk AND cells b ! j) else cells t ! j))"
  then show "ok (do { t \<leftarrow> ld t' v; b \<leftarrow> ld b v; st t' v (t OR (msk AND b)) }) (\<lambda>t'. alen t' = mwlen \<and>
      (\<forall>j<mwlen. cells t' ! j = (if 0 < j \<and> j < Suc v then cells t ! j OR (msk AND cells b ! j) else cells t ! j)))"
    using b by (intro wp) (auto simp: nth_list_update)
next
  fix t' :: "u32 arr" assume "alen t' = mwlen \<and>
      (\<forall>j<mwlen. cells t' ! j = (if 0 < j \<and> j < mwlen then cells t ! j OR (msk AND cells b ! j) else cells t ! j))"
  then show "Q t'" using \<open>0 < mwlen\<close> by (intro Q) auto
qed (use assms in auto)

lemma ok_opt_lookup:
  assumes hn: "hdr31 h n" and mw: "n < mwlen" and ts: "opt_tmp mwlen win_len ts" and tb: "opt_table h n M X win_len ts"
    and k: "0 < k" "k \<le> win_len" "win_len \<le> 5" and b: "unat bits < 2 ^ k"
    and Q: "\<And>ts' w. opt_tmp mwlen win_len ts' \<Longrightarrow> opt_table h n M X win_len ts' \<Longrightarrow> ts' ! 0 = ts ! 0 \<Longrightarrow>
      mont31 h n M w (ts' ! 1) \<Longrightarrow> (bits \<noteq> 0 \<Longrightarrow> w = X ^ unat bits) \<Longrightarrow> Q ts'"
  shows "ok (opt_lookup win_len mwlen k bits h ts) Q"
proof (cases "win_len = 1")
  case True
  then have "k = 1" using k by simp
  then have "bits \<noteq> 0 \<Longrightarrow> unat bits = 1" using b by (simp add: less_2_cases_iff unat_eq_zero)
  then show ?thesis using True tb unfolding opt_lookup_def
    by (intro ok_branch ok_ret Q [OF ts tb refl]) (auto simp: opt_table_def)
next
  case False
  with k have w1: "1 < win_len" by simp
  have w: "words31 h = n" using hdr31D [OF hn] by simp
  have pk: "(2::nat) ^ k \<le> 2 ^ win_len" "(2::nat) ^ k \<le> 32" using k power_increasing [of k _ "2::nat"] power_increasing [of k 5 "2::nat"] by auto
  have len: "length ts = 2 ^ win_len + 1" "1 < length ts" "\<And>j. j < length ts \<Longrightarrow> alen (ts ! j) = mwlen"
    using ts False two_le_pow [OF w1] by (auto simp: opt_tmp_def opt_areas_def)
  let ?B = "unat bits"
  have row: "ok (let msk = - EQ (of_nat u) bits in
          for_loop 1 mwlen (\<lambda>v t2. do { t \<leftarrow> ld t2 v; b \<leftarrow> ld (ts ! (u + 1)) v; st t2 v (t OR (msk AND b)) }) t)
        (looked_up h n mwlen ts ?B (Suc u))"
    if u: "1 \<le> u" "u < 2 ^ k" and I: "looked_up h n mwlen ts ?B u t" for u t
  proof -
    have eq: "of_nat u = bits \<longleftrightarrow> u = ?B"
    proof -
      have "unat (of_nat u :: u32) = u" using u pk(2) by (simp add: unsigned_of_nat take_bit_nat_eq_self)
      then show ?thesis by (metis word_unat_eq_iff)
    qed
    have "u + 1 < length ts" using u pk(1) len(1) by linarith
    then have lt: "alen t = mwlen" "alen (ts ! (u + 1)) = mwlen" "0 < mwlen" using I len(3) mw by (auto simp: looked_up_def)
    show ?thesis unfolding Let_def
      by (rule ok_lookup_row [OF lt(1,2) _ lt(3)]) (use I u mw in \<open>auto simp: looked_up_def eq less_Suc_eq\<close>)
  qed
  have fin: "Q (ts[1 := t])" if I: "looked_up h n mwlen ts ?B (2 ^ k) t" for t
  proof (rule Q [where w = "if bits = 0 then 0 else X ^ ?B"])
    show "opt_tmp mwlen win_len (ts[1 := t])" using I ts by (simp add: opt_tmp_upd looked_up_def)
    show "opt_table h n M X win_len (ts[1 := t])" using tb False by (simp add: opt_table_def)
    show "mont31 h n M (if bits = 0 then 0 else X ^ ?B) (ts[1 := t] ! 1)"
    proof (cases "bits = 0")
      case True
      have z: "\<And>j. 0 < j \<Longrightarrow> j \<le> n \<Longrightarrow> cells t ! j = 0" using I True by (simp add: looked_up_def)
      have "is_i31 h n t" using I z hn mw by (auto simp: is_i31_def looked_up_def digits31_def)
      moreover have "val31 n t = 0" using z by (simp add: wsum_zero)
      ultimately show ?thesis using True len(2) by (simp add: mont31_def)
    next
      case False
      have B: "0 < ?B" "?B < 2 ^ win_len" using False less_le_trans [OF b pk(1)] by (auto simp: unat_gt_0)
      have E: "mont31 h n M (X ^ ?B) (ts ! (?B + 1))" using tb B \<open>win_len \<noteq> 1\<close> by (simp add: opt_table_def)
      have c: "\<And>j. 0 < j \<Longrightarrow> j \<le> n \<Longrightarrow> cells t ! j = cells (ts ! (?B + 1)) ! j" using I B(1) b by (simp add: looked_up_def)
      have "val31 n t = val31 n (ts ! (?B + 1))" using c by (intro wsum_cong) simp
      moreover have "is_i31 h n t" using I mw c is_i31D(4) [OF mont31D(1) [OF E]] hn
        by (auto simp: is_i31_def looked_up_def digits31_def)
      ultimately show ?thesis using E False len(2) by (simp add: mont31_def)
    qed
  qed (use len in simp_all)
  show ?thesis unfolding opt_lookup_def
  proof (rule ok_branch, rule ok_bind, rule ok_br_i31_zero, unfold w)
    show "Suc n \<le> alen (ts ! 1)" using len mw by simp
    fix z assume z: "alen z = alen (ts ! 1)" "cells z ! 0 = h" "digits31 (Suc 0) n (cells z)" "val31 n z = 0"
    have I0: "looked_up h n mwlen ts ?B 1 z" using z len
      by (auto simp: looked_up_def wsum_zero gr0_conv_Suc) 
    show "ok (do { t2 \<leftarrow> for_loop 1 (2 ^ k) (\<lambda>u t2. let msk = - EQ (of_nat u) bits in
          for_loop 1 mwlen (\<lambda>v t2. do { t \<leftarrow> ld t2 v; b \<leftarrow> ld (ts ! (u + 1)) v; st t2 v (t OR (msk AND b)) }) t2) z;
        ret (ts[1 := t2]) }) Q"
      by (rule ok_bind, rule ok_for_loop [where Inv = "looked_up h n mwlen ts ?B", OF I0]) (use row fin in \<open>auto intro: ok_ret\<close>)
  qed (use w1 in simp)
qed

definition opt_inv :: "u32 \<Rightarrow> nat \<Rightarrow> u32 arr \<Rightarrow> nat \<Rightarrow> u8 arr \<Rightarrow> nat \<Rightarrow> nat \<Rightarrow> nat \<Rightarrow> u32 arr \<Rightarrow> opt_bits \<times> u32 arr \<times> u32 arr list \<Rightarrow> bool" where
  "opt_inv h n m X e elen mwlen win_len x0 w \<longleftrightarrow> (case w of (s, x, ts) \<Rightarrow>
     bits_inv e elen s \<and> mont31 h n (val31 n m) (X ^ bits_done e s) x \<and> alen x = alen x0 \<and>
     opt_tmp mwlen win_len ts \<and> opt_table h n (val31 n m) X win_len ts)"

lemma ok_opt_round:
  assumes m: "odd31 h n m m0i" and w: "0 < win_len" "win_len \<le> 5" and mw: "n < mwlen"
    and I: "opt_inv h n m X e elen mwlen win_len x0 z" and more: "0 < bits_left (fst z)"
  shows "ok (opt_round e m h m0i (4 * Suc n) mwlen win_len z)
    (\<lambda>z'. opt_inv h n m X e elen mwlen win_len x0 z' \<and> bits_left (fst z') < bits_left (fst z))"
proof -
  obtain s x ts where z: "z = (s, x, ts)" by (cases z)
  from I have i: "bits_inv e elen s" "mont31 h n (val31 n m) (X ^ bits_done e s) x" "alen x = alen x0"
    "opt_tmp mwlen win_len ts" "opt_table h n (val31 n m) X win_len ts" by (auto simp: opt_inv_def z)
  have l: "0 < length ts" "1 < length ts" "\<And>j. j < length ts \<Longrightarrow> alen (ts ! j) = mwlen"
    using i(4) w by (auto simp: opt_tmp_def opt_areas_def)
  show ?thesis
    unfolding opt_round_def opt_apply_def z prod.case fst_conv
  proof (rule ok_bind, rule ok_opt_next [OF i(1) more [unfolded z fst_conv] w], unfold prod.case Let_def)
    fix k s1
    assume s1: "bits_inv e elen s1" "0 < k" "k \<le> win_len" "k \<le> e_acc_len s1" "bits_left s1 = bits_left s" "bits_done e s1 = bits_done e s"
    define b where "b = shr (e_acc s1) (e_acc_len s1 - k) AND (shl 1 k - 1)"
    define s2 where "s2 = s1\<lparr>e_acc_len := e_acc_len s1 - k\<rparr>"
    note B = bits_take [OF s1(1,4), folded b_def s2_def]
    have dec: "bits_left s2 < bits_left s" using s1(2,4,5) by (simp add: s2_def)
    have pw: "(X ^ bits_done e s) ^ 2 ^ k = X ^ (bits_done e s * 2 ^ k)" by (simp flip: power_mult)
    show "ok (do {
       (x, t1) \<leftarrow> for_loop 0 k (\<lambda>_ (x, t1). do {
         t1 \<leftarrow> br_i31_montymul t1 x x m m0i;
         x \<leftarrow> memcpy32 x t1 (4 * Suc n);
         ret (x, t1) }) (x, ts ! 0);
       tick (Out ''bits'' (unat (shr (e_acc s1) (e_acc_len s1 - k) AND (shl 1 k - 1))));
       ts \<leftarrow> opt_lookup win_len mwlen k (shr (e_acc s1) (e_acc_len s1 - k) AND (shl 1 k - 1)) h (ts[0 := t1]);
       t1 \<leftarrow> br_i31_montymul (ts ! 0) x (ts ! 1) m m0i;
       x \<leftarrow> CCOPY (NEQ (shr (e_acc s1) (e_acc_len s1 - k) AND (shl 1 k - 1)) 0) x t1 (4 * Suc n);
       ret (s1\<lparr>e_acc_len := e_acc_len s1 - k\<rparr>, x, ts[0 := t1]) })
      (\<lambda>z'. opt_inv h n m X e elen mwlen win_len x0 z' \<and> bits_left (fst z') < bits_left s)"
      unfolding b_def [symmetric] s2_def [symmetric]
    proof (rule ok_bind, rule ok_opt_squares [OF m i(2)], unfold prod.case pw)
      show "n < alen (ts ! 0)" using l mw by simp
      fix x' t' :: "u32 arr" assume x': "mont31 h n (val31 n m) (X ^ (bits_done e s * 2 ^ k)) x'" "alen x' = alen x" "alen t' = alen (ts ! 0)"
      have ts': "opt_tmp mwlen win_len (ts[0 := t'])" "opt_table h n (val31 n m) X win_len (ts[0 := t'])"
        using i(4,5) x'(3) l by (auto simp: opt_tmp_upd opt_table_def)
      show "ok (do { _ \<leftarrow> tick (Out ''bits'' (unat b)); ts \<leftarrow> opt_lookup win_len mwlen k b h (ts[0 := t']);
          t1 \<leftarrow> br_i31_montymul (ts ! 0) x' (ts ! 1) m m0i; x \<leftarrow> CCOPY (NEQ b 0) x' t1 (4 * Suc n);
          ret (s2, x, ts[0 := t1]) })
        (\<lambda>z'. opt_inv h n m X e elen mwlen win_len x0 z' \<and> bits_left (fst z') < bits_left s)"
      proof (rule ok_bind, rule ok_tick, rule ok_bind, rule ok_opt_lookup [OF odd31D(8) [OF m] mw ts' s1(2,3) w(2) B(3)])
        fix us v
        assume us: "opt_tmp mwlen win_len us" "opt_table h n (val31 n m) X win_len us" "us ! 0 = ts[0 := t'] ! 0"
          "mont31 h n (val31 n m) v (us ! 1)" "b \<noteq> 0 \<Longrightarrow> v = X ^ unat b"
        have l0: "n < alen (us ! 0)" "n < alen x'" using us(3) x'(3) l mw is_i31D(5) [OF mont31D(1) [OF x'(1)]] by auto
        show "ok (do { t1 \<leftarrow> br_i31_montymul (us ! 0) x' (us ! 1) m m0i; x \<leftarrow> CCOPY (NEQ b 0) x' t1 (4 * Suc n);
            ret (s2, x, us[0 := t1]) })
          (\<lambda>z'. opt_inv h n m X e elen mwlen win_len x0 z' \<and> bits_left (fst z') < bits_left s)"
        proof (rule ok_bind, rule ok_mont_mul [OF m l0(1) x'(1) us(4)], rule ok_bind, unfold NEQ_eq, rule ok_CCOPY, rule_tac [3] ok_ret)
          fix d assume d: "alen d = alen (us ! 0)" "mont31 h n (val31 n m) (X ^ (bits_done e s * 2 ^ k) * v) d"
          show "Suc n \<le> alen x'" "Suc n \<le> alen d" using l0 d by auto
          have "mont31 h n (val31 n m) (X ^ bits_done e s2) (if b \<noteq> 0 then put x' d (Suc n) else x') \<and>
            alen (if b \<noteq> 0 then put x' d (Suc n) else x') = alen x0"
            using B(2) s1(6) mont31_put [OF d(2) l0(2)] us(5) x'(1,2) i(3) by (auto simp: power_add)
          moreover have "alen d = mwlen" using d(1) us(3) x'(3) l by simp
          moreover have "opt_tmp mwlen win_len (us[0 := d])" "opt_table h n (val31 n m) X win_len (us[0 := d])"
            using us(1,2) \<open>alen d = mwlen\<close> by (auto simp: opt_tmp_upd opt_table_def)
          ultimately show "opt_inv h n m X e elen mwlen win_len x0 (s2, if b \<noteq> 0 then put x' d (Suc n) else x', us[0 := d]) \<and>
            bits_left (fst (s2, if b \<noteq> 0 then put x' d (Suc n) else x', us[0 := d])) < bits_left s"
            using B(1) dec by (simp add: opt_inv_def)
        qed
      qed
    qed
  qed
qed

lemma ok_opt_loop:
  assumes m: "odd31 h n m m0i" and w: "0 < win_len" "win_len \<le> 5" and mw: "n < mwlen"
    and I: "opt_inv h n m X e elen mwlen win_len x0 z" and fuel: "bits_left (fst z) < fuel"
    and Q: "\<And>z. opt_inv h n m X e elen mwlen win_len x0 z \<Longrightarrow> bits_left (fst z) = 0 \<Longrightarrow> Q z"
  shows "ok (opt_loop fuel e m h m0i (4 * Suc n) mwlen win_len z) Q"
  using I fuel
proof (induction fuel arbitrary: z)
  case (Suc fuel)
  have round: "ok (do { w \<leftarrow> opt_round e m h m0i (4 * Suc n) mwlen win_len z; opt_loop fuel e m h m0i (4 * Suc n) mwlen win_len w }) Q"
    if "0 < bits_left (fst z)"
    by (rule ok_bind, rule ok_weaken [OF ok_opt_round [OF m w mw Suc.prems(1) that]], rule Suc.IH) (use Suc.prems(2) in auto)
  show ?case unfolding opt_loop.simps
    by (intro ok_branch ok_ret) (use round Q Suc.prems in \<open>auto simp del: mult_Suc_right\<close>)
qed simp

section \<open>The whole exponentiation\<close>

abbreviation mwlen31 :: "nat \<Rightarrow> nat" where
  "mwlen31 n \<equiv> Suc n + Suc n mod 2"

lemma mwlen31_gt: "n < mwlen31 n"
  by simp

lemma areas_fit:
  assumes "win_len = 1 \<or> (2 ^ win_len + 1) * mw \<le> twlen" and "mw * 2 \<le> twlen" and "twlen \<le> alen tmp"
  shows "opt_areas win_len * mw \<le> alen tmp"
  using assms by (auto simp: opt_areas_def)

lemma opt_tmp_areas:
  assumes fit: "opt_areas win_len * mw \<le> alen tmp"
  shows "opt_tmp mw win_len (tmp_areas tmp mw (if win_len = 1 then 2 else 2 ^ win_len + 1))"
proof -
  have "alen (tmp_area tmp mw k) = mw" if "k < opt_areas win_len" for k
  proof -
    have "Suc k * mw \<le> opt_areas win_len * mw" using that by (intro mult_le_mono1) simp
    then show ?thesis using fit by (simp add: tmp_area_def)
  qed
  then show ?thesis by (auto simp: opt_tmp_def tmp_areas_def opt_areas_def)
qed

lemma alen_join:
  assumes "opt_tmp mw win_len ts" and "opt_areas win_len * mw \<le> alen tmp"
  shows "alen (tmp_join tmp ts) = alen tmp"
proof -
  have "length (concat (map cells ts)) = sum_list (map (\<lambda>t. mw) ts)"
    using assms(1) by (simp add: length_concat opt_tmp_def in_set_conv_nth comp_def cong: map_cong)
      (intro arg_cong [of _ _ sum_list] map_cong refl, auto simp: in_set_conv_nth)
  then have "length (concat (map cells ts)) = opt_areas win_len * mw" using assms(1) by (simp add: opt_tmp_def sum_list_triv)
  then show ?thesis using assms(2) by (simp add: tmp_join_def)
qed

lemma ok_opt_setup:
  assumes m: "odd31 h n m m0i" and x: "is_i31 h n x" "val31 n x < val31 n m" and t: "2 * mwlen31 n \<le> twlen" "twlen \<le> alen tmp"
    and Q: "\<And>w y ts. 0 < w \<Longrightarrow> w \<le> 5 \<Longrightarrow> opt_areas w * mwlen31 n \<le> alen tmp \<Longrightarrow> opt_tmp (mwlen31 n) w ts \<Longrightarrow>
      opt_table h n (val31 n m) (val31 n x) w ts \<Longrightarrow> alen y = alen x \<Longrightarrow> mont31 h n (val31 n m) 1 y \<Longrightarrow> Q (w, y, ts)"
  shows "ok (opt_setup x m h m0i (4 * Suc n) (mwlen31 n) tmp twlen) Q"
  unfolding opt_setup_def
proof (rule ok_bind, rule ok_opt_win_len, simp, rule ok_bind, rule ok_tick, rule ok_bind, rule ok_br_i31_to_monty [OF odd31D(1) [OF m] x])
  fix w x1
  let ?X = "val31 n x" and ?M = "val31 n m"
  assume w: "0 < w" "w \<le> 5" "w = 1 \<or> (2 ^ w + 1) * mwlen31 n \<le> twlen"
    and x1: "frame31 n x x1" "digits31 (Suc 0) n (cells x1)" "val31 n x1 = ?X * B31 ^ n mod ?M"
  have fit: "opt_areas w * mwlen31 n \<le> alen tmp" by (rule areas_fit [OF w(3) _ t(2)]) (use t(1) in simp)
  note areas = opt_tmp_areas [OF fit]
  have X1: "mont31 h n ?M ?X x1" "alen x1 = alen x"
    using is_i31_frame [OF x(1) x1(1,2)] x1 by (auto simp: mont31_def frame31_def)
  have lx: "n < alen x1" using is_i31D(5) [OF x(1)] X1(2) by simp
  show "ok (do {
     ts \<leftarrow> opt_window x1 m m0i (4 * Suc n) w (tmp_areas tmp (mwlen31 n) (if w = 1 then 2 else 2 ^ w + 1));
     x \<leftarrow> opt_one x1 m h;
     ret (w, x, ts) }) Q"
    by (rule ok_bind, rule ok_opt_window [OF m X1(1) w(1) mwlen31_gt areas], rule ok_bind, rule ok_opt_one [OF m lx], rule ok_ret)
      (use w(1,2) fit X1(2) in \<open>auto intro!: Q simp del: mult_Suc mult_Suc_right\<close>)
qed

lemma ok_br_i31_modpow_opt:
  assumes m: "odd31 h n m m0i" and x: "is_i31 h n x" "val31 n x < val31 n m" and e: "elen \<le> alen e" and t: "twlen \<le> alen tmp"
    and small: "twlen < 2 * mwlen31 n \<Longrightarrow> Q (0, x, tmp)"
    and Q: "\<And>x' tmp'. 2 * mwlen31 n \<le> twlen \<Longrightarrow> alen x' = alen x \<Longrightarrow> alen tmp' = alen tmp \<Longrightarrow> is_i31 h n x' \<Longrightarrow>
      val31 n x' = val31 n x ^ be_val (take elen (cells e)) mod val31 n m \<Longrightarrow> Q (1, x', tmp')"
  shows "ok (br_i31_modpow_opt x e elen m m0i tmp twlen) Q"
proof -
  note mD = odd31D [OF m]
  have h: "words63 h = Suc n" using hdr31D [OF mD(8)] by simp
  have l: "0 < alen m" using mD(7) by linarith
  let ?X = "val31 n x" and ?M = "val31 n m" and ?s = "\<lparr>e_off = 0, e_len = elen, e_acc = 0, e_acc_len = 0\<rparr>"
  show ?thesis
    unfolding br_i31_modpow_opt_def
  proof (rule ok_bind, rule ok_ld [OF l], unfold Let_def mD(9) h mult.commute [of "Suc n" 4] mult.commute [of "mwlen31 n" 2], rule ok_branch)
    assume "twlen < 2 * mwlen31 n"
    then show "ok (ret (0, x, tmp)) Q" using small by (intro ok_ret)
  next
    assume "\<not> twlen < 2 * mwlen31 n"
    then have big: "2 * mwlen31 n \<le> twlen" by simp
    show "ok (do {
       (win_len, x, ts) \<leftarrow> opt_setup x m h m0i (4 * Suc n) (mwlen31 n) tmp twlen;
       (s, x, ts) \<leftarrow> opt_loop (8 * elen + 1) e m h m0i (4 * Suc n) (mwlen31 n) win_len (?s, x, ts);
       x \<leftarrow> br_i31_from_monty x m m0i;
       ret (1, x, tmp_join tmp ts) }) Q"
    proof (rule ok_bind, rule ok_opt_setup [OF m x big t], unfold prod.case, rule ok_bind)
      fix w x2 ts
      assume w: "0 < w" "w \<le> 5" and fit: "opt_areas w * mwlen31 n \<le> alen tmp" and ts: "opt_tmp (mwlen31 n) w ts" "opt_table h n ?M ?X w ts"
        and x2: "alen x2 = alen x" "mont31 h n ?M 1 x2"
      have I: "opt_inv h n m ?X e elen (mwlen31 n) w x2 (?s, x2, ts)" using ts x2(2) e by (simp add: opt_inv_def bits_inv_def)
      show "ok (opt_loop (8 * elen + 1) e m h m0i (4 * Suc n) (mwlen31 n) w (?s, x2, ts))
        (\<lambda>a. ok (case a of (s, x, ts) \<Rightarrow> do { x \<leftarrow> br_i31_from_monty x m m0i; ret (1, x, tmp_join tmp ts) }) Q)"
      proof (rule ok_opt_loop [OF m w mwlen31_gt I])
        fix z
        assume z: "opt_inv h n m ?X e elen (mwlen31 n) w x2 z" "bits_left (fst z) = 0"
        obtain s x3 us where zz: "z = (s, x3, us)" by (cases z)
        from z have s: "mont31 h n ?M (?X ^ be_val (take elen (cells e))) x3" "alen x3 = alen x2" "opt_tmp (mwlen31 n) w us"
          by (auto simp: zz opt_inv_def bits_inv_def)
        have lt: "val31 n x3 < ?M" using mont31D(2) [OF s(1)] mD(4) by simp
        show "ok (case z of (s, x, ts) \<Rightarrow> do { x \<leftarrow> br_i31_from_monty x m m0i; ret (1, x, tmp_join tmp ts) }) Q"
          unfolding zz prod.case
        proof (rule ok_bind, rule ok_br_i31_from_monty [OF mD(2) mont31D(1) [OF s(1)] mD(6,5) lt])
          fix x' assume x': "frame31 n x3 x'" "digits31 (Suc 0) n (cells x')" "val31 n x' < ?M" "val31 n x' * B31 ^ n mod ?M = val31 n x3"
          have "val31 n x' mod ?M = ?X ^ be_val (take elen (cells e)) mod ?M"
            by (rule mod_cancel [OF trans [OF x'(4) mont31D(2) [OF s(1)]] coprime_B31 [OF mD(3)]])
          then have "val31 n x' = ?X ^ be_val (take elen (cells e)) mod ?M" using x'(3) by simp
          moreover have "is_i31 h n x'" by (rule is_i31_frame [OF mont31D(1) [OF s(1)] x'(1,2)])
          moreover have "alen x' = alen x" using frame31_alen [OF x'(1)] s(2) x2(1) by simp
          ultimately show "ok (ret (1, x', tmp_join tmp us)) Q"
            using alen_join [OF s(3) fit] big by (intro ok_ret Q) assumption+
        qed
      qed simp
    qed
  qed
qed

section \<open>What the exponentiation leaks\<close>

abbreviation shapes :: "u32 arr list \<Rightarrow> u32 arr list \<Rightarrow> bool" where
  "shapes \<equiv> list_all2 shape"

lemma ct_opt_win_len: "(\<And>r. 0 < r \<Longrightarrow> r \<le> w \<Longrightarrow> r = 1 \<or> (2 ^ r + 1) * mwlen \<le> twlen \<Longrightarrow> R r r) \<Longrightarrow> 0 < w \<Longrightarrow>
    ct (opt_win_len w mwlen twlen) (opt_win_len w mwlen twlen) R"
proof (induction w)
  case (Suc w)
  show ?case unfolding opt_win_len.simps by (intro ctr) (use Suc in auto)
qed simp

text \<open>Two arrays with the header \<open>h\<close> and the same shape.\<close>

definition same31 :: "u32 \<Rightarrow> nat \<Rightarrow> u32 arr \<Rightarrow> u32 arr \<Rightarrow> bool" where
  "same31 h n x x' \<longleftrightarrow> pub x x' \<and> cells x ! 0 = h \<and> n < alen x"

lemma same31D: "same31 h n x x' \<Longrightarrow> shape x x'" "same31 h n x x' \<Longrightarrow> pub x x'" "same31 h n x x' \<Longrightarrow> cells x ! 0 = h"
  "same31 h n x x' \<Longrightarrow> n < alen x"
  by (auto simp: same31_def pub_def)

lemma same31_head: "same31 h n x x' \<Longrightarrow> cells x' ! 0 = h"
  unfolding same31_def pub_def by metis

lemma same31_put:
  assumes "same31 h n x x'" and "n < alen d" and "shape d d'"
  shows "same31 h n (put d x (Suc n)) (put d' x' (Suc n))"
  using assms by (auto simp: same31_def pub_def shape_def put_def nth_append min_absorb2)

lemma ct_opt_window:
  assumes m: "pub m m'" "hdr31 (cells m ! 0) n" "n < alen m" and x: "same31 h n x x'" and w: "0 < win_len" and mw: "n < mwlen"
    and ts: "opt_tmp mwlen win_len ts" "shapes ts ts'"
    and R: "\<And>us us'. opt_tmp mwlen win_len us \<Longrightarrow> shapes us us' \<Longrightarrow> R us us'"
  shows "ct (opt_window x m m0i (4 * Suc n) win_len ts) (opt_window x' m' m0i' (4 * Suc n) win_len ts') R"
proof -
  note xD = same31D [OF x]
  have lx: "Suc n \<le> alen x" using xD(4) by simp
  have put: "alen (put d x (Suc n)) = mwlen \<and> shape (put d x (Suc n)) (put d' x' (Suc n))" if "alen d = mwlen" "shape d d'" for d d'
    using that mw lx same31_put [OF x, of d d'] by (simp add: alen_put same31_def pub_def)
  show ?thesis
  proof (cases "win_len = 1")
    case True
    then have l: "length ts = 2" "alen (ts ! 1) = mwlen" using ts by (auto simp: opt_tmp_def opt_areas_def)
    have sh: "shape (ts ! 1) (ts' ! 1)" using ts(2) l by (simp add: list_all2_nthD)
    have "R (ts[1 := put (ts ! 1) x (Suc n)]) (ts'[1 := put (ts' ! 1) x' (Suc n)])"
      using put [OF l(2) sh] ts by (intro R opt_tmp_upd list_all2_update_cong) auto
    then show ?thesis using True l mw lx sh xD(1)
      unfolding opt_window_def by (intro ct_branch ct_bind ct_memcpy32_put [OF _ _ _ _ refl] ct_ret) auto
  next
    case False
    with w have w1: "1 < win_len" by simp
    have l: "4 < length ts" "alen (ts ! 2) = mwlen"
      using ts two_le_pow [OF w1] False by (auto simp: opt_tmp_def opt_areas_def)
    have sh: "shape (ts ! 2) (ts' ! 2)" using ts(2) l by (simp add: list_all2_nthD)
    let ?I = "\<lambda>(_::nat) us us'. opt_tmp mwlen win_len us \<and> shapes us us'"
    have I0: "?I 2 (ts[2 := put (ts ! 2) x (Suc n)]) (ts'[2 := put (ts' ! 2) x' (Suc n)])"
      using put [OF l(2) sh] ts by (auto intro!: opt_tmp_upd list_all2_update_cong)
    have step: "ct (do { t \<leftarrow> br_i31_montymul (us ! (j + 1)) (us ! j) x m m0i; ret (us[j + 1 := t]) })
        (do { t \<leftarrow> br_i31_montymul (us' ! (j + 1)) (us' ! j) x' m' m0i'; ret (us'[j + 1 := t]) }) (?I (Suc j))"
      if j: "2 \<le> j" "j < 2 ^ win_len" and I: "?I j us us'" for j and us us' :: "u32 arr list"
    proof -
      have len: "j + 1 < length us" "j < length us" using I j False by (auto simp: opt_tmp_def opt_areas_def)
      then have a: "alen (us ! (j + 1)) = mwlen" "alen (us ! j) = mwlen" "shape (us ! (j + 1)) (us' ! (j + 1))" "shape (us ! j) (us' ! j)"
        using I by (auto simp: opt_tmp_def list_all2_nthD simp del: Suc_eq_plus1)
      show ?thesis
        by (rule ct_bind, rule ct_br_i31_montymul [OF m a(3,4) xD(1) _ _ xD(4)])
          (use a(1,2) mw I in \<open>auto simp: pub_def intro!: ct_ret opt_tmp_upd list_all2_update_cong\<close>)
    qed
    show ?thesis unfolding opt_window_def
      by (rule ct_branch [OF refl], use False in simp, rule ct_bind, rule ct_memcpy32_put [OF sh xD(1) _ lx refl], use l mw in simp,
          rule ct_for_loop [where Inv = ?I, OF I0]) (use two_le_pow [OF w1] step R in auto)
  qed
qed

lemma ct_opt_one:
  assumes m: "pub m m'" "hdr31 (cells m ! 0) n" "n < alen m" "0 < n" and x: "same31 (cells m ! 0) n x x'"
    and R: "\<And>z z'. same31 (cells m ! 0) n z z' \<Longrightarrow> alen z = alen x \<Longrightarrow> R z z'"
  shows "ct (opt_one x m (cells m ! 0)) (opt_one x' m' (cells m ! 0)) R"
proof -
  note xD = same31D [OF x] and w = hdr31D [OF m(2)]
  show ?thesis
    unfolding opt_one_def w
  proof (rule ct_bind, rule ct_br_i31_zero [OF xD(1)], unfold w)
    show "Suc n \<le> alen x" using xD(4) by simp
    fix y y' assume y: "pub y y'" "alen y = alen x" "cells y ! 0 = cells m ! 0"
    have p: "pub (y\<lparr>cells := (cells y)[n := 1]\<rparr>) (y'\<lparr>cells := (cells y')[n := 1]\<rparr>)" "cells (y\<lparr>cells := (cells y)[n := 1]\<rparr>) ! 0 = cells m ! 0"
      using y m(4) xD(4) by (auto simp: pub_def shape_def)
    show "ct (do { x \<leftarrow> st y n 1; br_i31_muladd_small x 0 m }) (do { x \<leftarrow> st y' n 1; br_i31_muladd_small x 0 m' }) R"
      by (rule ct_bind, rule ct_st, use y in \<open>simp add: pub_def\<close>, simp, use y xD(4) in simp,
          rule ct_br_i31_muladd_small [OF m(1) p(1) w m(4) _ m(3) p(2)])
        (use y xD(4) R in \<open>auto simp: same31_def\<close>)
  qed
qed

definition same_bits :: "opt_bits \<Rightarrow> opt_bits \<Rightarrow> bool" where
  "same_bits s s' \<longleftrightarrow> e_off s = e_off s' \<and> e_len s = e_len s' \<and> e_acc_len s = e_acc_len s'"

lemma ct_opt_next:
  assumes e: "shape e e'" and s: "same_bits s s'" and I: "bits_inv e elen s" "bits_inv e' elen s'" and more: "0 < bits_left s"
    and w: "0 < win_len" "win_len \<le> 5"
    and R: "\<And>k t t'. same_bits t t' \<Longrightarrow> bits_inv e elen t \<Longrightarrow> bits_inv e' elen t' \<Longrightarrow> 0 < k \<Longrightarrow> k \<le> win_len \<Longrightarrow> k \<le> e_acc_len t \<Longrightarrow>
      bits_left t = bits_left s \<Longrightarrow> bits_done e t = bits_done e s \<Longrightarrow> bits_done e' t' = bits_done e' s' \<Longrightarrow> R (k, t) (k, t')"
  shows "ct (opt_next win_len e s) (opt_next win_len e' s') R"
proof (rule ct_weaken)
  have more': "0 < bits_left s'" using more s by (simp add: same_bits_def)
  have "ct (opt_next win_len e s) (opt_next win_len e' s') (\<lambda>(k, t) (k', t'). k = k' \<and> same_bits t t')"
    unfolding opt_next_def using e s I(1) by (intro ctr) (auto simp: same_bits_def bits_inv_def)
  then show "ct (opt_next win_len e s) (opt_next win_len e' s') (\<lambda>z z'. (case z of (k, t) \<Rightarrow> \<lambda>(k', t'). k = k' \<and> same_bits t t') z' \<and>
      (case z of (k, t) \<Rightarrow> bits_inv e elen t \<and> 0 < k \<and> k \<le> win_len \<and> k \<le> e_acc_len t \<and> bits_left t = bits_left s \<and> bits_done e t = bits_done e s) \<and>
      (case z' of (k, t) \<Rightarrow> bits_inv e' elen t \<and> 0 < k \<and> k \<le> win_len \<and> k \<le> e_acc_len t \<and> bits_left t = bits_left s' \<and> bits_done e' t = bits_done e' s'))"
    by (rule ct_ok) (rule ok_opt_next [OF I(1) more w] ok_opt_next [OF I(2) more' w], simp)+
qed (auto intro!: R)

lemma ct_opt_squares:
  assumes m: "pub m m'" "hdr31 (cells m ! 0) n" "n < alen m" and x: "same31 (cells m ! 0) n x x'" and t: "shape t t'" "n < alen t"
    and R: "\<And>y y' u u'. same31 (cells m ! 0) n y y' \<Longrightarrow> shape u u' \<Longrightarrow> alen u = alen t \<Longrightarrow> R (y, u) (y', u')"
  shows "ct (for_loop 0 k (\<lambda>_ (x, t1). do { t1 \<leftarrow> br_i31_montymul t1 x x m m0i; x \<leftarrow> memcpy32 x t1 (4 * Suc n); ret (x, t1) }) (x, t))
    (for_loop 0 k (\<lambda>_ (x, t1). do { t1 \<leftarrow> br_i31_montymul t1 x x m' m0i'; x \<leftarrow> memcpy32 x t1 (4 * Suc n); ret (x, t1) }) (x', t')) R"
proof (rule ct_for_loop [where Inv = "\<lambda>_ w w'. same31 (cells m ! 0) n (fst w) (fst w') \<and> shape (snd w) (snd w') \<and> alen (snd w) = alen t"])
  fix w w' :: "u32 arr \<times> u32 arr"
  assume I: "same31 (cells m ! 0) n (fst w) (fst w') \<and> shape (snd w) (snd w') \<and> alen (snd w) = alen t"
  obtain y u y' u' where w: "w = (y, u)" "w' = (y', u')" by (cases w, cases w') auto
  have y: "same31 (cells m ! 0) n y y'" "shape u u'" "alen u = alen t" using I by (auto simp: w)
  note yD = same31D [OF y(1)]
  have ly: "Suc n \<le> alen y" using yD(4) by simp
  show "ct (case w of (x, t1) \<Rightarrow> do { t1 \<leftarrow> br_i31_montymul t1 x x m m0i; x \<leftarrow> memcpy32 x t1 (4 * Suc n); ret (x, t1) })
     (case w' of (x, t1) \<Rightarrow> do { t1 \<leftarrow> br_i31_montymul t1 x x m' m0i'; x \<leftarrow> memcpy32 x t1 (4 * Suc n); ret (x, t1) })
     (\<lambda>w w'. same31 (cells m ! 0) n (fst w) (fst w') \<and> shape (snd w) (snd w') \<and> alen (snd w) = alen t)"
    unfolding w prod.case
  proof (rule ct_bind, rule ct_br_i31_montymul [OF m y(2) yD(1) yD(1) _ yD(4) yD(4)])
    show "n < alen u" using y t by simp
    fix z z' assume z: "pub z z'" "alen z = alen u" "cells z ! 0 = cells m ! 0"
    then have sz: "same31 (cells m ! 0) n z z'" using y t by (simp add: same31_def)
    show "ct (do { x \<leftarrow> memcpy32 y z (4 * Suc n); ret (x, z) }) (do { x \<leftarrow> memcpy32 y' z' (4 * Suc n); ret (x, z') })
     (\<lambda>w w'. same31 (cells m ! 0) n (fst w) (fst w') \<and> shape (snd w) (snd w') \<and> alen (snd w) = alen t)"
      by (rule ct_bind, rule ct_memcpy32_put [OF yD(1) same31D(1) [OF sz] ly _ refl], use same31D(4) [OF sz] in simp, rule ct_ret)
        (use same31_put [OF sz yD(4,1)] same31D(1) [OF sz] z y in simp)
  qed
qed (use assms in auto)

lemma ct_opt_lookup:
  assumes hn: "hdr31 h n" and mw: "n < mwlen" and ts: "opt_tmp mwlen win_len ts" "shapes ts ts'" and k: "k \<le> win_len" "0 < win_len"
    and R: "\<And>us us'. opt_tmp mwlen win_len us \<Longrightarrow> shapes us us' \<Longrightarrow> R us us'"
  shows "ct (opt_lookup win_len mwlen k b h ts) (opt_lookup win_len mwlen k b' h ts') R"
proof (cases "win_len = 1")
  case True
  then show ?thesis unfolding opt_lookup_def by (intro ct_branch ct_ret R ts) auto
next
  case False
  with k have w1: "1 < win_len" by simp
  have w: "words31 h = n" using hdr31D [OF hn] by simp
  have pk: "(2::nat) ^ k \<le> 2 ^ win_len" using k power_increasing [of k _ "2::nat"] by auto
  have len: "length ts = 2 ^ win_len + 1" "1 < length ts" "\<And>j. j < length ts \<Longrightarrow> alen (ts ! j) = mwlen \<and> shape (ts ! j) (ts' ! j)"
    using ts False two_le_pow [OF w1] by (auto simp: opt_tmp_def opt_areas_def list_all2_nthD)
  let ?I = "\<lambda>(_::nat) t t'. shape t t' \<and> alen t = mwlen"
  have row: "ct (let msk = - EQ (of_nat u) b in for_loop 1 mwlen (\<lambda>v t2. do { t \<leftarrow> ld t2 v; b \<leftarrow> ld (ts ! (u + 1)) v; st t2 v (t OR (msk AND b)) }) t)
      (let msk = - EQ (of_nat u) b' in for_loop 1 mwlen (\<lambda>v t2. do { t \<leftarrow> ld t2 v; b \<leftarrow> ld (ts' ! (u + 1)) v; st t2 v (t OR (msk AND b)) }) t') (?I (Suc u))"
    if u: "1 \<le> u" "u < 2 ^ k" and I: "?I u t t'" for u t t'
  proof -
    have "u + 1 < length ts" using u pk len(1) by linarith
    note lu = len(3) [OF this]
    show ?thesis unfolding Let_def
    proof (rule ct_for_loop [where Inv = ?I])
      show "ct (do { t \<leftarrow> ld x v; c \<leftarrow> ld (ts ! (u + 1)) v; st x v (t OR (- EQ (of_nat u) b AND c)) })
         (do { t \<leftarrow> ld x' v; c \<leftarrow> ld (ts' ! (u + 1)) v; st x' v (t OR (- EQ (of_nat u) b' AND c)) }) (?I (Suc v))"
        if "1 \<le> v" "v < mwlen" "?I v x x'" for v x x' using that lu by (intro ctr) auto
    qed (use I mw in auto)
  qed
  have fin: "R (ts[1 := t]) (ts'[1 := t'])" if "?I u t t'" for u t t'
    using that ts by (intro R opt_tmp_upd list_all2_update_cong) auto
  show ?thesis unfolding opt_lookup_def
    by (rule ct_branch [OF refl], rule ct_bind, rule ct_br_i31_zero, use len(2,3) in simp, unfold w, use len(2,3) mw in simp,
        rule ct_bind, rule ct_for_loop [where Inv = ?I]) (use len(2,3) row fin w1 in \<open>auto simp: pub_def intro!: ct_ret\<close>)
qed

lemma ct_CCOPY_same31:
  assumes x: "same31 h n x x'" and t: "same31 h n t t'"
    and R: "\<And>y y'. same31 h n y y' \<Longrightarrow> R y y'"
  shows "ct (CCOPY (of_bool b) x t (4 * Suc n)) (CCOPY (of_bool b') x' t' (4 * Suc n)) R"
proof (rule ct_weaken)
  note xD = same31D [OF x] and tD = same31D [OF t]
  have l: "Suc n \<le> alen x" "Suc n \<le> alen t" "Suc n \<le> alen x'" "Suc n \<le> alen t'"
    using xD(1,4) tD(1,4) by (auto simp: shape_def)
  have h: "cells x' ! 0 = h" "cells t' ! 0 = h" by (rule same31_head [OF x], rule same31_head [OF t])
  show "ct (CCOPY (of_bool b) x t (4 * Suc n)) (CCOPY (of_bool b') x' t' (4 * Suc n)) (\<lambda>y y'. (shape y y' \<and> Suc n \<le> alen y) \<and>
      cells y ! 0 = h \<and> cells y' ! 0 = h)"
    by (rule ct_ok [OF ct_CCOPY [OF xD(1) tD(1) l(1,2)]], simp, rule ok_CCOPY [OF l(1,2)], use xD(3) tD(3) l in \<open>simp add: put_def nth_append\<close>,
        rule ok_CCOPY [OF l(3,4)], use h l in \<open>simp add: put_def nth_append\<close>)
qed (auto intro!: R simp: same31_def pub_def)

definition opt_sim :: "u32 \<Rightarrow> nat \<Rightarrow> nat \<Rightarrow> nat \<Rightarrow> nat \<Rightarrow> u8 arr \<Rightarrow> u8 arr \<Rightarrow> opt_bits \<times> u32 arr \<times> u32 arr list \<Rightarrow> opt_bits \<times> u32 arr \<times> u32 arr list \<Rightarrow> bool" where
  "opt_sim h n mwlen win_len elen e e' z z' \<longleftrightarrow> same_bits (fst z) (fst z') \<and> bits_inv e elen (fst z) \<and> bits_inv e' elen (fst z') \<and>
     same31 h n (fst (snd z)) (fst (snd z')) \<and> opt_tmp mwlen win_len (snd (snd z)) \<and> shapes (snd (snd z)) (snd (snd z'))"

lemma same31_left: "same31 h n x x' \<Longrightarrow> same31 h n x x"
  unfolding same31_def pub_def shape_def by metis

lemma same31_right: "same31 h n x x' \<Longrightarrow> same31 h n x' x'"
  unfolding same31_def pub_def shape_def by metis

lemma opt_tmp_shape:
  assumes "opt_tmp mwlen win_len ts" and "shapes ts ts'" and "j < 2"
  shows "alen (ts ! j) = mwlen" and "shape (ts ! j) (ts' ! j)"
proof -
  have "j < length ts" using assms(1,3) by (auto simp: opt_tmp_def opt_areas_def intro: less_le_trans)
  then show "alen (ts ! j) = mwlen" "shape (ts ! j) (ts' ! j)"
    using assms(1) list_all2_nthD [OF assms(2)] by (auto simp: opt_tmp_def)
qed

lemma opt_sim_left: "opt_sim h n mwlen win_len elen e e' z z' \<Longrightarrow> opt_sim h n mwlen win_len elen e e z z"
  by (auto simp: opt_sim_def same_bits_def list_all2_refl intro: same31_left)

lemma opt_tmp_shapes: "opt_tmp mwlen win_len ts \<Longrightarrow> shapes ts ts' \<Longrightarrow> opt_tmp mwlen win_len ts'"
  by (simp add: opt_tmp_def list_all2_conv_all_nth shape_def)

lemma opt_sim_right: "opt_sim h n mwlen win_len elen e e' z z' \<Longrightarrow> opt_sim h n mwlen win_len elen e' e' z' z'"
  by (auto simp: opt_sim_def same_bits_def list_all2_refl intro: same31_right opt_tmp_shapes)

lemma ct_opt_suffix:
  assumes m: "pub m m'" "hdr31 (cells m ! 0) n" "n < alen m" and w: "k \<le> win_len" "0 < win_len" and mw: "n < mwlen"
    and x: "same31 (cells m ! 0) n x x'" and ts: "opt_tmp mwlen win_len ts" "shapes ts ts'"
    and s: "same_bits s s'" "bits_inv e elen s" "bits_inv e' elen s'"
    and R: "\<And>z z'. opt_sim (cells m ! 0) n mwlen win_len elen e e' z z' \<Longrightarrow> fst z = s \<Longrightarrow> fst z' = s' \<Longrightarrow> R z z'"
  shows "ct (do {
       ts \<leftarrow> opt_lookup win_len mwlen k b (cells m ! 0) ts;
       t1 \<leftarrow> br_i31_montymul (ts ! 0) x (ts ! 1) m m0i;
       x \<leftarrow> CCOPY (NEQ b 0) x t1 (4 * Suc n);
       ret (s, x, ts[0 := t1]) })
     (do {
       ts \<leftarrow> opt_lookup win_len mwlen k b' (cells m ! 0) ts';
       t1 \<leftarrow> br_i31_montymul (ts ! 0) x' (ts ! 1) m' m0i';
       x \<leftarrow> CCOPY (NEQ b' 0) x' t1 (4 * Suc n);
       ret (s', x, ts[0 := t1]) }) R"
proof (rule ct_bind, rule ct_opt_lookup [OF m(2) mw ts w])
  fix us us' assume us: "opt_tmp mwlen win_len us" "shapes us us'"
  note xD = same31D [OF x]
  have l: "alen (us ! 0) = mwlen" "alen (us ! 1) = mwlen" "shape (us ! 0) (us' ! 0)" "shape (us ! 1) (us' ! 1)"
    using opt_tmp_shape [OF us, of 0] opt_tmp_shape [OF us, of 1] by simp_all
  show "ct (do { t1 \<leftarrow> br_i31_montymul (us ! 0) x (us ! 1) m m0i; x \<leftarrow> CCOPY (NEQ b 0) x t1 (4 * Suc n); ret (s, x, us[0 := t1]) })
    (do { t1 \<leftarrow> br_i31_montymul (us' ! 0) x' (us' ! 1) m' m0i'; x \<leftarrow> CCOPY (NEQ b' 0) x' t1 (4 * Suc n); ret (s', x, us'[0 := t1]) }) R"
    unfolding NEQ_eq
  proof (rule ct_bind, rule ct_br_i31_montymul [OF m l(3) xD(1) l(4) _ xD(4)])
    fix t t' assume t: "pub t t'" "alen t = alen (us ! 0)" "cells t ! 0 = cells m ! 0"
    then have st: "same31 (cells m ! 0) n t t'" using mw l by (simp add: same31_def)
    show "ct (do { x \<leftarrow> CCOPY (of_bool (b \<noteq> 0)) x t (4 * Suc n); ret (s, x, us[0 := t]) })
      (do { x \<leftarrow> CCOPY (of_bool (b' \<noteq> 0)) x' t' (4 * Suc n); ret (s', x, us'[0 := t']) }) R"
    proof (rule ct_bind, rule ct_CCOPY_same31 [OF x st], rule ct_ret, rule R)
      fix y y' assume y: "same31 (cells m ! 0) n y y'"
      have "opt_tmp mwlen win_len (us[0 := t])" using us(1) t(2) l by (simp add: opt_tmp_upd)
      moreover have "shapes (us[0 := t]) (us'[0 := t'])" using us(2) t(1) by (simp add: list_all2_update_cong pub_def)
      ultimately show "opt_sim (cells m ! 0) n mwlen win_len elen e e' (s, y, us[0 := t]) (s', y', us'[0 := t'])"
        using y s by (simp add: opt_sim_def)
    qed simp_all
  qed (use l mw in simp_all)
qed

text \<open>The bits that a round consumes.\<close>

abbreviation opt_bits_of :: "nat \<Rightarrow> opt_bits \<Rightarrow> u32" where
  "opt_bits_of k s \<equiv> shr (e_acc s) (e_acc_len s - k) AND (shl 1 k - 1)"

lemma ct_opt_apply:
  assumes m: "pub m m'" "hdr31 (cells m ! 0) n" "n < alen m" and w: "k \<le> win_len" "0 < win_len" and mw: "n < mwlen"
    and z: "opt_sim (cells m ! 0) n mwlen win_len elen e e' (s, x, ts) (s', x', ts')" and k: "k \<le> e_acc_len s"
    and b: "opt_bits_of k s = opt_bits_of k s'"
    and R: "\<And>z z'. opt_sim (cells m ! 0) n mwlen win_len elen e e' z z' \<Longrightarrow> fst z = s\<lparr>e_acc_len := e_acc_len s - k\<rparr> \<Longrightarrow>
      fst z' = s'\<lparr>e_acc_len := e_acc_len s' - k\<rparr> \<Longrightarrow> R z z'"
  shows "ct (opt_apply m (cells m ! 0) m0i (4 * Suc n) mwlen win_len k s x ts) (opt_apply m' (cells m ! 0) m0i' (4 * Suc n) mwlen win_len k s' x' ts') R"
proof -
  from z have i: "same_bits s s'" "bits_inv e elen s" "bits_inv e' elen s'" "same31 (cells m ! 0) n x x'" "opt_tmp mwlen win_len ts" "shapes ts ts'"
    by (auto simp: opt_sim_def)
  have k': "k \<le> e_acc_len s'" using k i(1) by (simp add: same_bits_def)
  note l = opt_tmp_shape [OF i(5,6), of 0, simplified]
  have sb: "same_bits (s\<lparr>e_acc_len := e_acc_len s - k\<rparr>) (s'\<lparr>e_acc_len := e_acc_len s' - k\<rparr>)" using i(1) by (simp add: same_bits_def)
  show ?thesis
    unfolding opt_apply_def Let_def b
  proof (rule ct_bind, rule ct_opt_squares [OF m i(4) l(2)], use l mw in simp, unfold prod.case, rule ct_bind, rule ct_tick [OF refl])
    fix y y' u u' :: "u32 arr"
    assume y: "same31 (cells m ! 0) n y y'" "shape u u'" "alen u = alen (ts ! 0)"
    have t: "opt_tmp mwlen win_len (ts[0 := u])" "shapes (ts[0 := u]) (ts'[0 := u'])"
      using i(5,6) y l by (simp_all add: opt_tmp_upd list_all2_update_cong)
    show "ct (do {
        ts \<leftarrow> opt_lookup win_len mwlen k (opt_bits_of k s') (cells m ! 0) (ts[0 := u]);
        t1 \<leftarrow> br_i31_montymul (ts ! 0) y (ts ! 1) m m0i;
        x \<leftarrow> CCOPY (NEQ (opt_bits_of k s') 0) y t1 (4 * Suc n);
        ret (s\<lparr>e_acc_len := e_acc_len s - k\<rparr>, x, ts[0 := t1]) })
      (do {
        ts \<leftarrow> opt_lookup win_len mwlen k (opt_bits_of k s') (cells m ! 0) (ts'[0 := u']);
        t1 \<leftarrow> br_i31_montymul (ts ! 0) y' (ts ! 1) m' m0i';
        x \<leftarrow> CCOPY (NEQ (opt_bits_of k s') 0) y' t1 (4 * Suc n);
        ret (s'\<lparr>e_acc_len := e_acc_len s' - k\<rparr>, x, ts[0 := t1]) }) R"
      by (rule ct_opt_suffix [OF m w mw y(1) t sb bits_take(1) [OF i(2) k] bits_take(1) [OF i(3) k'] R])
  qed
qed

lemma differ_opt_apply:
  assumes m: "pub m m'" "hdr31 (cells m ! 0) n" "n < alen m" and w: "k \<le> win_len" "0 < win_len" and mw: "n < mwlen"
    and z: "opt_sim (cells m ! 0) n mwlen win_len elen e e' (s, x, ts) (s', x', ts')" and k: "k \<le> e_acc_len s"
    and b: "opt_bits_of k s \<noteq> opt_bits_of k s'"
    and P: "\<And>z. opt_sim (cells m ! 0) n mwlen win_len elen e e z z \<Longrightarrow> fst z = s\<lparr>e_acc_len := e_acc_len s - k\<rparr> \<Longrightarrow> P z"
    and P': "\<And>z. opt_sim (cells m ! 0) n mwlen win_len elen e' e' z z \<Longrightarrow> fst z = s'\<lparr>e_acc_len := e_acc_len s' - k\<rparr> \<Longrightarrow> P' z"
  shows "differ (opt_apply m (cells m ! 0) m0i (4 * Suc n) mwlen win_len k s x ts) (opt_apply m' (cells m ! 0) m0i' (4 * Suc n) mwlen win_len k s' x' ts') P P'"
proof -
  from z have i: "same_bits s s'" "bits_inv e elen s" "bits_inv e' elen s'" "same31 (cells m ! 0) n x x'" "opt_tmp mwlen win_len ts" "shapes ts ts'"
    by (auto simp: opt_sim_def)
  have k': "k \<le> e_acc_len s'" using k i(1) by (simp add: same_bits_def)
  note l = opt_tmp_shape [OF i(5,6), of 0, simplified]
  have m2: "pub m' m'" "hdr31 (cells m' ! 0) n" "n < alen m'" "cells m' ! 0 = cells m ! 0" using m by (auto simp: pub_def shape_def)
  have m1: "pub m m" by (simp add: pub_def)
  have sb: "same_bits u u" for u by (simp add: same_bits_def)
  have nb: "unat (opt_bits_of k s) \<noteq> unat (opt_bits_of k s')" using b word_unat_eq_iff by metis
  show ?thesis
    unfolding opt_apply_def Let_def
  proof (rule differ_bind_right, rule ct_opt_squares [OF m i(4) l(2)], use l mw in simp, unfold prod.case,
      rule differ_bind_left, rule differ_tick)
    fix y y' u u' :: "u32 arr"
    assume y: "same31 (cells m ! 0) n y y'" "shape u u'" "alen u = alen (ts ! 0)"
    have t: "opt_tmp mwlen win_len (ts[0 := u])" "shapes (ts[0 := u]) (ts'[0 := u'])"
      using i(5,6) y l by (simp_all add: opt_tmp_upd list_all2_update_cong)
    note t' = opt_tmp_shapes [OF t]
    have rfl: "shapes us us" for us by (simp add: list_all2_refl)
    show "ok (do {
       ts \<leftarrow> opt_lookup win_len mwlen k (opt_bits_of k s) (cells m ! 0) (ts[0 := u]);
       t1 \<leftarrow> br_i31_montymul (ts ! 0) y (ts ! 1) m m0i;
       x \<leftarrow> CCOPY (NEQ (opt_bits_of k s) 0) y t1 (4 * Suc n);
       ret (s\<lparr>e_acc_len := e_acc_len s - k\<rparr>, x, ts[0 := t1]) }) P"
      by (rule ok_weaken [OF ct_imp_ok [OF ct_opt_suffix [OF m1 m(2,3) w mw same31_left [OF y(1)] t(1) rfl sb bits_take(1,1) [OF i(2) k],
            where R = "\<lambda>z _. P z"]]]) (auto intro!: P dest: opt_sim_left)
    show "ok (do {
       ts \<leftarrow> opt_lookup win_len mwlen k (opt_bits_of k s') (cells m ! 0) (ts'[0 := u']);
       t1 \<leftarrow> br_i31_montymul (ts ! 0) y' (ts ! 1) m' m0i';
       x \<leftarrow> CCOPY (NEQ (opt_bits_of k s') 0) y' t1 (4 * Suc n);
       ret (s'\<lparr>e_acc_len := e_acc_len s' - k\<rparr>, x, ts[0 := t1]) }) P'"
      by (rule ok_weaken [OF ct_imp_ok [OF ct_opt_suffix [OF m2(1-3) w mw _ t' rfl sb bits_take(1,1) [OF i(3) k'], unfolded m2(4),
            where R = "\<lambda>z _. P' z"]]]) (use same31_right [OF y(1)] in \<open>auto intro!: P' dest: opt_sim_left\<close>)
  qed (use nb in simp)
qed

lemma same_done:
  assumes "take elen (cells e) = take elen (cells e')" and "same_bits s s'" and "bits_inv e elen s"
  shows "bits_done e s = bits_done e' s'"
proof -
  have "e_off s \<le> elen" using assms(3) by (auto simp: bits_inv_def)
  then have "take (e_off s) (cells e) = take (e_off s) (cells e')"
    using arg_cong [OF assms(1), of "take (e_off s)"] by (simp add: min_absorb1)
  then show ?thesis using assms(2) by (simp add: same_bits_def)
qed

lemma bits_all_done: "bits_inv e elen s \<Longrightarrow> bits_left s = 0 \<Longrightarrow> bits_done e s = be_val (take elen (cells e))"
  by (auto simp: bits_inv_def)

lemma ct_opt_round:
  assumes m: "pub m m'" "hdr31 (cells m ! 0) n" "n < alen m" and w: "0 < win_len" "win_len \<le> 5" and mw: "n < mwlen"
    and e: "shape e e'" "take elen (cells e) = take elen (cells e')"
    and z: "opt_sim (cells m ! 0) n mwlen win_len elen e e' z z'" and more: "0 < bits_left (fst z)"
    and R: "\<And>y y'. opt_sim (cells m ! 0) n mwlen win_len elen e e' y y' \<Longrightarrow> bits_left (fst y) < bits_left (fst z) \<Longrightarrow> R y y'"
  shows "ct (opt_round e m (cells m ! 0) m0i (4 * Suc n) mwlen win_len z) (opt_round e' m' (cells m ! 0) m0i' (4 * Suc n) mwlen win_len z') R"
proof -
  obtain s x ts s' x' ts' where zz: "z = (s, x, ts)" "z' = (s', x', ts')" by (cases z, cases z') auto
  from z have i: "same_bits s s'" "bits_inv e elen s" "bits_inv e' elen s'" by (auto simp: opt_sim_def zz)
  show ?thesis
    unfolding opt_round_def zz prod.case
  proof (rule ct_bind, rule ct_opt_next [OF e(1) i more [unfolded zz fst_conv] w], unfold prod.case)
    fix k t t'
    assume t: "same_bits t t'" "bits_inv e elen t" "bits_inv e' elen t'" "0 < k" "k \<le> win_len" "k \<le> e_acc_len t" "bits_left t = bits_left s"
    let ?u = "t\<lparr>e_acc_len := e_acc_len t - k\<rparr>" and ?u' = "t'\<lparr>e_acc_len := e_acc_len t' - k\<rparr>"
    have kt: "k \<le> e_acc_len t'" and su: "same_bits ?u ?u'" using t(1,6) by (simp_all add: same_bits_def)
    note B = bits_take [OF t(2,6)] and B' = bits_take [OF t(3) kt]
    have "unat (opt_bits_of k t) = unat (opt_bits_of k t')"
      using B(2) B'(2) same_done [OF e(2) t(1,2)] same_done [OF e(2) su B(1)] by (metis add_left_cancel)
    then have b: "opt_bits_of k t = opt_bits_of k t'" by (simp flip: word_unat_eq_iff)
    have sim: "opt_sim (cells m ! 0) n mwlen win_len elen e e' (t, x, ts) (t', x', ts')" using z t(1-3) by (simp add: opt_sim_def zz)
    have dec: "bits_left ?u < bits_left s" using t(4,6,7) by simp
    show "ct (opt_apply m (cells m ! 0) m0i (4 * Suc n) mwlen win_len k t x ts) (opt_apply m' (cells m ! 0) m0i' (4 * Suc n) mwlen win_len k t' x' ts') R"
      by (rule ct_opt_apply [OF m t(5) w(1) mw sim t(6) b], rule R, assumption) (use dec in \<open>simp add: zz\<close>)
  qed
qed

lemma ct_opt_loop:
  assumes m: "pub m m'" "hdr31 (cells m ! 0) n" "n < alen m" and w: "0 < win_len" "win_len \<le> 5" and mw: "n < mwlen"
    and e: "shape e e'" "take elen (cells e) = take elen (cells e')"
    and z: "opt_sim (cells m ! 0) n mwlen win_len elen e e' z z'" and fuel: "bits_left (fst z) < fuel"
    and R: "\<And>y y'. opt_sim (cells m ! 0) n mwlen win_len elen e e' y y' \<Longrightarrow> R y y'"
  shows "ct (opt_loop fuel e m (cells m ! 0) m0i (4 * Suc n) mwlen win_len z) (opt_loop fuel e' m' (cells m ! 0) m0i' (4 * Suc n) mwlen win_len z') R"
  using z fuel
proof (induction fuel arbitrary: z z')
  case (Suc fuel)
  have round: "ct (do { w \<leftarrow> opt_round e m (cells m ! 0) m0i (4 * Suc n) mwlen win_len z; opt_loop fuel e m (cells m ! 0) m0i (4 * Suc n) mwlen win_len w })
      (do { w \<leftarrow> opt_round e' m' (cells m ! 0) m0i' (4 * Suc n) mwlen win_len z'; opt_loop fuel e' m' (cells m ! 0) m0i' (4 * Suc n) mwlen win_len w }) R"
    if "0 < bits_left (fst z)"
    by (rule ct_bind, rule ct_opt_round [OF m w mw e Suc.prems(1) that], rule Suc.IH) (use Suc.prems(2) in auto)
  have "same_bits (fst z) (fst z')" using Suc.prems(1) by (simp add: opt_sim_def)
  then show ?case unfolding opt_loop.simps
    by (intro ct_branch ct_ret) (use round R Suc.prems in \<open>auto simp: same_bits_def simp del: mult_Suc_right\<close>)
qed simp

lemma ok_opt_loop_safe:
  assumes "hdr31 (cells m ! 0) n" "n < alen m" and "0 < win_len" "win_len \<le> 5" and "n < mwlen"
    and "opt_sim (cells m ! 0) n mwlen win_len elen e e z z" and "bits_left (fst z) < fuel"
  shows "ok (opt_loop fuel e m (cells m ! 0) m0i (4 * Suc n) mwlen win_len z) (\<lambda>y. opt_sim (cells m ! 0) n mwlen win_len elen e e y y)"
proof -
  have "pub m m" by (simp add: pub_def)
  from ct_imp_ok [OF ct_opt_loop [OF this assms(1-5) shape_refl refl assms(6,7),
      where R = "\<lambda>y _. opt_sim (cells m ! 0) n mwlen win_len elen e e y y"]]
  show ?thesis by (rule ok_weaken) (auto intro: opt_sim_left)
qed

lemma differ_opt_loop:
  assumes m: "pub m m'" "hdr31 (cells m ! 0) n" "n < alen m" and w: "0 < win_len" "win_len \<le> 5" and mw: "n < mwlen"
    and e: "shape e e'" and E: "be_val (take elen (cells e)) \<noteq> be_val (take elen (cells e'))"
    and z: "opt_sim (cells m ! 0) n mwlen win_len elen e e' z z'" "bits_done e (fst z) = bits_done e' (fst z')" and fuel: "bits_left (fst z) < fuel"
    and P: "\<And>y. opt_sim (cells m ! 0) n mwlen win_len elen e e y y \<Longrightarrow> P y"
    and P': "\<And>y. opt_sim (cells m ! 0) n mwlen win_len elen e' e' y y \<Longrightarrow> P' y"
  shows "differ (opt_loop fuel e m (cells m ! 0) m0i (4 * Suc n) mwlen win_len z) (opt_loop fuel e' m' (cells m ! 0) m0i' (4 * Suc n) mwlen win_len z') P P'"
  using z fuel
proof (induction fuel arbitrary: z z')
  case (Suc fuel)
  obtain s x ts s' x' ts' where zz: "z = (s, x, ts)" "z' = (s', x', ts')" by (cases z, cases z') auto
  from Suc.prems(1) have i: "same_bits s s'" "bits_inv e elen s" "bits_inv e' elen s'" by (auto simp: opt_sim_def zz)
  have i2: "bits_left s' = bits_left s" using i(1) by (simp add: same_bits_def)
  have more: "0 < bits_left s"
  proof (rule ccontr)
    assume "\<not> 0 < bits_left s"
    then have "bits_left s = 0" by simp
    then show False using bits_all_done [OF i(2)] bits_all_done [OF i(3)] i2 Suc.prems(2) E by (simp add: zz)
  qed
  have m2: "hdr31 (cells m' ! 0) n" "n < alen m'" "cells m' ! 0 = cells m ! 0" using m by (auto simp: pub_def shape_def)
  have round: "differ (do { w \<leftarrow> opt_round e m (cells m ! 0) m0i (4 * Suc n) mwlen win_len z; opt_loop fuel e m (cells m ! 0) m0i (4 * Suc n) mwlen win_len w })
      (do { w \<leftarrow> opt_round e' m' (cells m ! 0) m0i' (4 * Suc n) mwlen win_len z'; opt_loop fuel e' m' (cells m ! 0) m0i' (4 * Suc n) mwlen win_len w }) P P'"
    unfolding opt_round_def zz prod.case bind_assoc
  proof (rule differ_bind_right, rule ct_opt_next [OF e i more w], unfold prod.case)
    fix k t t'
    assume t: "same_bits t t'" "bits_inv e elen t" "bits_inv e' elen t'" "0 < k" "k \<le> win_len" "k \<le> e_acc_len t" "bits_left t = bits_left s"
      "bits_done e t = bits_done e s" "bits_done e' t' = bits_done e' s'"
    let ?u = "t\<lparr>e_acc_len := e_acc_len t - k\<rparr>" and ?u' = "t'\<lparr>e_acc_len := e_acc_len t' - k\<rparr>"
    have kt: "k \<le> e_acc_len t'" using t(1,6) by (simp add: same_bits_def)
    note B = bits_take [OF t(2,6)] and B' = bits_take [OF t(3) kt]
    have sim: "opt_sim (cells m ! 0) n mwlen win_len elen e e' (t, x, ts) (t', x', ts')"
      using Suc.prems(1) t(1-3) by (simp add: opt_sim_def zz)
    have lu: "bits_left ?u < fuel" "bits_left ?u' < fuel" using t(1,4,6,7) Suc.prems(3) by (auto simp: zz same_bits_def)
    show "differ (do { w \<leftarrow> opt_apply m (cells m ! 0) m0i (4 * Suc n) mwlen win_len k t x ts; opt_loop fuel e m (cells m ! 0) m0i (4 * Suc n) mwlen win_len w })
      (do { w \<leftarrow> opt_apply m' (cells m ! 0) m0i' (4 * Suc n) mwlen win_len k t' x' ts'; opt_loop fuel e' m' (cells m ! 0) m0i' (4 * Suc n) mwlen win_len w }) P P'"
    proof (cases "opt_bits_of k t = opt_bits_of k t'")
      case True
      have D: "bits_done e ?u = bits_done e' ?u'" using B(2) B'(2) t(8,9) Suc.prems(2) True by (simp add: zz)
      show ?thesis
        by (rule differ_bind_right, rule ct_opt_apply [OF m t(5) w(1) mw sim t(6) True], rule Suc.IH) (use D lu in auto)
    next
      case False
      have L: "ok (opt_loop fuel e m (cells m ! 0) m0i (4 * Suc n) mwlen win_len y) P"
        if "opt_sim (cells m ! 0) n mwlen win_len elen e e y y" "fst y = ?u" for y
        by (rule ok_weaken [OF ok_opt_loop_safe [OF m(2,3) w mw that(1)]]) (use that(2) lu P in auto)
      have L': "ok (opt_loop fuel e' m' (cells m ! 0) m0i' (4 * Suc n) mwlen win_len y) P'"
        if "opt_sim (cells m ! 0) n mwlen win_len elen e' e' y y" "fst y = ?u'" for y
        by (rule ok_weaken [OF ok_opt_loop_safe [OF m2(1,2) w mw, unfolded m2(3), OF that(1)]]) (use that(2) lu P' in auto)
      show ?thesis
        by (rule differ_bind_left, rule differ_opt_apply [OF m t(5) w(1) mw sim t(6) False L L'])
    qed
  qed
  have "e_acc_len s' = e_acc_len s" "e_len s' = e_len s" using i(1) by (simp_all add: same_bits_def)
  then show ?case
    using round more unfolding opt_loop.simps branch_def
    by (cases "0 < e_acc_len s") (auto simp: zz simp del: mult_Suc_right intro!: differ_bind_right [of "tick _"] ct_tick)
qed simp

section \<open>Properties\<close>

text \<open>The headers and the sizes that a caller establishes, and what two calls have in common for an observer who knows the
  public data: blocks and sizes of the arrays, and the headers.\<close>

definition opt_safe :: "nat \<Rightarrow> u32 arr \<Rightarrow> u8 arr \<Rightarrow> nat \<Rightarrow> u32 arr \<Rightarrow> u32 arr \<Rightarrow> nat \<Rightarrow> bool" where
  "opt_safe n x e elen m tmp twlen \<longleftrightarrow> hdr31 (cells m ! 0) n \<and> 0 < n \<and> cells x ! 0 = cells m ! 0 \<and>
     n < alen m \<and> n < alen x \<and> elen \<le> alen e \<and> twlen \<le> alen tmp"

definition opt_pub :: "u32 arr \<Rightarrow> u8 arr \<Rightarrow> u32 arr \<Rightarrow> u32 arr \<Rightarrow> u32 arr \<Rightarrow> u8 arr \<Rightarrow> u32 arr \<Rightarrow> u32 arr \<Rightarrow> bool" where
  "opt_pub x e m tmp x' e' m' tmp' \<longleftrightarrow> pub m m' \<and> pub x x' \<and> shape e e' \<and> shape tmp tmp'"

lemma opt_safeD:
  assumes "opt_safe n x e elen m tmp twlen" and "opt_pub x e m tmp x' e' m' tmp'"
  shows "pub m m'" "hdr31 (cells m ! 0) n" "n < alen m" "0 < n" "same31 (cells m ! 0) n x x'" "shape e e'" "elen \<le> alen e"
    "twlen \<le> alen tmp" "shape tmp tmp'"
  using assms by (auto simp: opt_safe_def opt_pub_def same31_def)

lemma shapes_areas: "shape tmp tmp' \<Longrightarrow> shapes (tmp_areas tmp mw k) (tmp_areas tmp' mw k)"
  by (auto simp: tmp_areas_def tmp_area_def shape_def list_all2_conv_all_nth)

lemma ct_opt_setup:
  assumes s: "opt_safe n x e elen m tmp twlen" and p: "opt_pub x e m tmp x' e' m' tmp'" and t: "2 * mwlen31 n \<le> twlen"
    and R: "\<And>w y y' ts ts'. 0 < w \<Longrightarrow> w \<le> 5 \<Longrightarrow> opt_areas w * mwlen31 n \<le> alen tmp \<Longrightarrow> opt_tmp (mwlen31 n) w ts \<Longrightarrow> shapes ts ts' \<Longrightarrow>
      same31 (cells m ! 0) n y y' \<Longrightarrow> alen y = alen x \<Longrightarrow> R (w, y, ts) (w, y', ts')"
  shows "ct (opt_setup x m (cells m ! 0) m0i (4 * Suc n) (mwlen31 n) tmp twlen)
    (opt_setup x' m' (cells m ! 0) m0i' (4 * Suc n) (mwlen31 n) tmp' twlen) R"
  unfolding opt_setup_def
proof (rule ct_bind, rule ct_opt_win_len, rule ct_bind, rule ct_tick [OF refl], rule ct_bind)
  note D = opt_safeD [OF s p]
  note xD = same31D [OF D(5)]
  fix w
  assume w: "0 < w" "w \<le> 5" "w = 1 \<or> (2 ^ w + 1) * mwlen31 n \<le> twlen"
  have fit: "opt_areas w * mwlen31 n \<le> alen tmp" by (rule areas_fit [OF w(3) _ D(8)]) (use t in simp)
  show "ct (br_i31_to_monty x m) (br_i31_to_monty x' m') (\<lambda>x1 x1'. ct (do {
     ts \<leftarrow> opt_window x1 m m0i (4 * Suc n) w (tmp_areas tmp (mwlen31 n) (if w = 1 then 2 else 2 ^ w + 1));
     x \<leftarrow> opt_one x1 m (cells m ! 0);
     ret (w, x, ts) }) (do {
     ts \<leftarrow> opt_window x1' m' m0i' (4 * Suc n) w (tmp_areas tmp' (mwlen31 n) (if w = 1 then 2 else 2 ^ w + 1));
     x \<leftarrow> opt_one x1' m' (cells m ! 0);
     ret (w, x, ts) }) R)"
  proof (rule ct_br_i31_to_monty [OF D(1) xD(2) D(2) xD(4) D(3) xD(3)])
    fix x1 x1' assume x1: "pub x1 x1'" "alen x1 = alen x" "cells x1 ! 0 = cells m ! 0"
    then have X1: "same31 (cells m ! 0) n x1 x1'" using xD(4) by (simp add: same31_def)
    show "ct (do {
       ts \<leftarrow> opt_window x1 m m0i (4 * Suc n) w (tmp_areas tmp (mwlen31 n) (if w = 1 then 2 else 2 ^ w + 1));
       x \<leftarrow> opt_one x1 m (cells m ! 0);
       ret (w, x, ts) }) (do {
       ts \<leftarrow> opt_window x1' m' m0i' (4 * Suc n) w (tmp_areas tmp' (mwlen31 n) (if w = 1 then 2 else 2 ^ w + 1));
       x \<leftarrow> opt_one x1' m' (cells m ! 0);
       ret (w, x, ts) }) R"
      by (rule ct_bind, rule ct_opt_window [OF D(1-3) X1 w(1) mwlen31_gt opt_tmp_areas [OF fit] shapes_areas [OF D(9)]],
          rule ct_bind, rule ct_opt_one [OF D(1-4) X1], rule ct_ret, rule R [OF w(1,2) fit]) (use x1(2) in simp_all)
  qed
qed simp

text \<open>The state in which the loop starts.\<close>

lemma opt_sim_start:
  assumes "same31 h n y y'" and "opt_tmp mw w ts" and "shapes ts ts'" and "elen \<le> alen e" and "shape e e'"
  shows "opt_sim h n mw w elen e e' (\<lparr>e_off = 0, e_len = elen, e_acc = 0, e_acc_len = 0\<rparr>, y, ts) (\<lparr>e_off = 0, e_len = elen, e_acc = 0, e_acc_len = 0\<rparr>, y', ts')"
  using assms by (auto simp: opt_sim_def same_bits_def bits_inv_def shape_def)

lemma ct_opt_end:
  assumes m: "pub m m'" "hdr31 (cells m ! 0) n" "n < alen m" and z: "opt_sim (cells m ! 0) n mw w elen e e' z z'"
    and t: "shape tmp tmp'" "opt_areas w * mw \<le> alen tmp"
    and R: "\<And>y y' u u'. same31 (cells m ! 0) n y y' \<Longrightarrow> shape u u' \<Longrightarrow> alen u = alen tmp \<Longrightarrow> R (1, y, u) (1, y', u')"
  shows "ct (case z of (s, x, ts) \<Rightarrow> do { x \<leftarrow> br_i31_from_monty x m m0i; ret (1, x, tmp_join tmp ts) })
    (case z' of (s, x, ts) \<Rightarrow> do { x \<leftarrow> br_i31_from_monty x m' m0i'; ret (1, x, tmp_join tmp' ts) }) R"
proof -
  obtain s x ts s' x' ts' where zz: "z = (s, x, ts)" "z' = (s', x', ts')" by (cases z, cases z') auto
  from z have x: "same31 (cells m ! 0) n x x'" and ts: "opt_tmp mw w ts" "shapes ts ts'" by (auto simp: opt_sim_def zz)
  note xD = same31D [OF x]
  have a: "alen (tmp_join tmp ts) = alen tmp" by (rule alen_join [OF ts(1) t(2)])
  have "alen (tmp_join tmp' ts') = alen tmp'" by (rule alen_join [OF opt_tmp_shapes [OF ts]]) (use t in \<open>simp add: shape_def\<close>)
  then have sh: "shape (tmp_join tmp ts) (tmp_join tmp' ts')" using a t(1) by (simp add: shape_def tmp_join_def)
  show ?thesis
    unfolding zz prod.case
    by (rule ct_bind, rule ct_br_i31_from_monty [OF m xD(2,3,4)], rule ct_ret, rule R [OF _ sh a]) (use xD(4) in \<open>simp add: same31_def\<close>)
qed

lemma ct_br_i31_modpow_opt:
  assumes s: "opt_safe n x e elen m tmp twlen" and p: "opt_pub x e m tmp x' e' m' tmp'"
    and e: "take elen (cells e) = take elen (cells e')"
    and small: "twlen < 2 * mwlen31 n \<Longrightarrow> R (0, x, tmp) (0, x', tmp')"
    and R: "\<And>y y' u u'. same31 (cells m ! 0) n y y' \<Longrightarrow> shape u u' \<Longrightarrow> alen u = alen tmp \<Longrightarrow> R (1, y, u) (1, y', u')"
  shows "ct (br_i31_modpow_opt x e elen m m0i tmp twlen) (br_i31_modpow_opt x' e' elen m' m0i' tmp' twlen) R"
proof -
  note D = opt_safeD [OF s p]
  have h: "words63 (cells m ! 0) = Suc n" using hdr31D [OF D(2)] by simp
  have l: "0 < alen m" using D(3) by linarith
  show ?thesis
    unfolding br_i31_modpow_opt_def
  proof (rule ct_bind, rule ct_ld [OF pubD(1) [OF D(1)] refl l], unfold pubD(2) [OF D(1)] Let_def h mult.commute [of "Suc n" 4] mult.commute [of "mwlen31 n" 2],
      rule ct_branch [OF refl])
    show "twlen < 2 * mwlen31 n \<Longrightarrow> ct (ret (0, x, tmp)) (ret (0, x', tmp')) R" using small by (intro ct_ret)
    assume "\<not> twlen < 2 * mwlen31 n"
    then have big: "2 * mwlen31 n \<le> twlen" by simp
    show "ct (do {
       (win_len, x, ts) \<leftarrow> opt_setup x m (cells m ! 0) m0i (4 * Suc n) (mwlen31 n) tmp twlen;
       (s, x, ts) \<leftarrow> opt_loop (8 * elen + 1) e m (cells m ! 0) m0i (4 * Suc n) (mwlen31 n) win_len (\<lparr>e_off = 0, e_len = elen, e_acc = 0, e_acc_len = 0\<rparr>, x, ts);
       x \<leftarrow> br_i31_from_monty x m m0i; ret (1, x, tmp_join tmp ts) })
      (do {
       (win_len, x, ts) \<leftarrow> opt_setup x' m' (cells m ! 0) m0i' (4 * Suc n) (mwlen31 n) tmp' twlen;
       (s, x, ts) \<leftarrow> opt_loop (8 * elen + 1) e' m' (cells m ! 0) m0i' (4 * Suc n) (mwlen31 n) win_len (\<lparr>e_off = 0, e_len = elen, e_acc = 0, e_acc_len = 0\<rparr>, x, ts);
       x \<leftarrow> br_i31_from_monty x m' m0i'; ret (1, x, tmp_join tmp' ts) }) R"
    proof (rule ct_bind, rule ct_opt_setup [OF s p big], unfold prod.case, rule ct_bind)
      fix w y y' ts ts'
      assume a: "0 < w" "w \<le> 5" "opt_areas w * mwlen31 n \<le> alen tmp" "opt_tmp (mwlen31 n) w ts" "shapes ts ts'" "same31 (cells m ! 0) n y y'"
      show "ct (opt_loop (8 * elen + 1) e m (cells m ! 0) m0i (4 * Suc n) (mwlen31 n) w (\<lparr>e_off = 0, e_len = elen, e_acc = 0, e_acc_len = 0\<rparr>, y, ts))
        (opt_loop (8 * elen + 1) e' m' (cells m ! 0) m0i' (4 * Suc n) (mwlen31 n) w (\<lparr>e_off = 0, e_len = elen, e_acc = 0, e_acc_len = 0\<rparr>, y', ts'))
        (\<lambda>z z'. ct (case z of (s, x, ts) \<Rightarrow> do { x \<leftarrow> br_i31_from_monty x m m0i; ret (1, x, tmp_join tmp ts) })
          (case z' of (s, x, ts) \<Rightarrow> do { x \<leftarrow> br_i31_from_monty x m' m0i'; ret (1, x, tmp_join tmp' ts) }) R)"
        by (rule ct_opt_loop [OF D(1-3) a(1,2) mwlen31_gt D(6) e opt_sim_start [OF a(6,4,5) D(7,6)]], simp,
            rule ct_opt_end [OF D(1-3) _ D(9) a(3)], assumption, rule R)
    qed
  qed
qed

lemma differ_br_i31_modpow_opt:
  assumes s: "opt_safe n x e elen m tmp twlen" and p: "opt_pub x e m tmp x' e' m' tmp'"
    and e: "take elen (cells e) \<noteq> take elen (cells e')" and big: "2 * mwlen31 n \<le> twlen"
  shows "differ (br_i31_modpow_opt x e elen m m0i tmp twlen) (br_i31_modpow_opt x' e' elen m' m0i' tmp' twlen) (\<lambda>_. True) (\<lambda>_. True)"
proof -
  note D = opt_safeD [OF s p]
  have h: "words63 (cells m ! 0) = Suc n" using hdr31D [OF D(2)] by simp
  have l: "0 < alen m" using D(3) by linarith
  have m2: "pub m m" "pub m' m'" "hdr31 (cells m' ! 0) n" "n < alen m'" "cells m' ! 0 = cells m ! 0" using D(1-3) by (auto simp: pub_def shape_def)
  have "length (take elen (cells e)) = length (take elen (cells e'))" using D(6) by (simp add: shape_def)
  then have E: "be_val (take elen (cells e)) \<noteq> be_val (take elen (cells e'))"
    using e bits_eq_iff_bytes [of "take elen (cells e)" "length (take elen (cells e))" "take elen (cells e')"] by metis
  have fin: "ok (case z of (s, x, ts) \<Rightarrow> do { x \<leftarrow> br_i31_from_monty x m m0i; ret (1 :: u32, x, tmp_join tmp ts) }) (\<lambda>_. True)"
    if "pub m m" "hdr31 (cells m ! 0) n" "n < alen m" "opt_sim (cells m ! 0) n (mwlen31 n) w elen e e z z" "opt_areas w * mwlen31 n \<le> alen tmp"
    for m m0i z e w tmp
    by (rule ok_weaken [OF ct_imp_ok [OF ct_opt_end [OF that(1-4) shape_refl that(5), where R = "\<lambda>_ _. True"]]]) simp_all
  show ?thesis
    unfolding br_i31_modpow_opt_def branch_def
  proof (rule differ_bind_right, rule ct_ld [OF pubD(1) [OF D(1)] refl l], unfold pubD(2) [OF D(1)] Let_def h mult.commute [of "Suc n" 4] mult.commute [of "mwlen31 n" 2],
      rule differ_bind_right, rule ct_tick [OF refl])
    have "\<not> twlen < 2 * mwlen31 n" using big by simp
    then show "differ (if twlen < 2 * mwlen31 n then ret (0, x, tmp) else do {
       (win_len, x, ts) \<leftarrow> opt_setup x m (cells m ! 0) m0i (4 * Suc n) (mwlen31 n) tmp twlen;
       (s, x, ts) \<leftarrow> opt_loop (8 * elen + 1) e m (cells m ! 0) m0i (4 * Suc n) (mwlen31 n) win_len (\<lparr>e_off = 0, e_len = elen, e_acc = 0, e_acc_len = 0\<rparr>, x, ts);
       x \<leftarrow> br_i31_from_monty x m m0i; ret (1 :: u32, x, tmp_join tmp ts) })
      (if twlen < 2 * mwlen31 n then ret (0, x', tmp') else do {
       (win_len, x, ts) \<leftarrow> opt_setup x' m' (cells m ! 0) m0i' (4 * Suc n) (mwlen31 n) tmp' twlen;
       (s, x, ts) \<leftarrow> opt_loop (8 * elen + 1) e' m' (cells m ! 0) m0i' (4 * Suc n) (mwlen31 n) win_len (\<lparr>e_off = 0, e_len = elen, e_acc = 0, e_acc_len = 0\<rparr>, x, ts);
       x \<leftarrow> br_i31_from_monty x m' m0i'; ret (1 :: u32, x, tmp_join tmp' ts) }) (\<lambda>_. True) (\<lambda>_. True)"
    proof (simp only: if_False, intro differ_bind_right [OF ct_opt_setup [OF s p big]], unfold prod.case)
      fix w y y' ts ts'
      assume a: "0 < w" "w \<le> 5" "opt_areas w * mwlen31 n \<le> alen tmp" "opt_tmp (mwlen31 n) w ts" "shapes ts ts'" "same31 (cells m ! 0) n y y'"
      have a': "opt_areas w * mwlen31 n \<le> alen tmp'" using a(3) D(9) by (simp add: shape_def)
      show "differ (do {
       (s, x, ts) \<leftarrow> opt_loop (8 * elen + 1) e m (cells m ! 0) m0i (4 * Suc n) (mwlen31 n) w (\<lparr>e_off = 0, e_len = elen, e_acc = 0, e_acc_len = 0\<rparr>, y, ts);
       x \<leftarrow> br_i31_from_monty x m m0i; ret (1 :: u32, x, tmp_join tmp ts) })
      (do {
       (s, x, ts) \<leftarrow> opt_loop (8 * elen + 1) e' m' (cells m ! 0) m0i' (4 * Suc n) (mwlen31 n) w (\<lparr>e_off = 0, e_len = elen, e_acc = 0, e_acc_len = 0\<rparr>, y', ts');
       x \<leftarrow> br_i31_from_monty x m' m0i'; ret (1 :: u32, x, tmp_join tmp' ts) }) (\<lambda>_. True) (\<lambda>_. True)"
        by (rule differ_bind_left, rule differ_opt_loop [OF D(1-3) a(1,2) mwlen31_gt D(6) E opt_sim_start [OF a(6,4,5) D(7,6)]])
          (simp, simp, erule fin [OF m2(1) D(2,3) _ a(3)], erule fin [OF m2(2-4) _ a', unfolded m2(5)])
    qed
  qed
qed

text \<open>C6. \<open>br_i31_modpow_opt\<close> computes \<open>x ^ e mod m\<close> whatever window the size of \<open>tmp\<close> allows: for an odd modulus above 1, a base
  below it and the right \<open>m0i\<close>, it stays in its arrays, its loop ends, and it returns 1 with the power in \<open>x\<close> under the header of the
  modulus; when \<open>tmp\<close> is too small for two areas it returns 0 and leaves \<open>x\<close> alone.\<close>

theorem br_i31_modpow_opt_correct:
  assumes "modulus31 h n m" and "odd (val31 n m)" and "1 < val31 n m" and "is_i31 h n x" and "val31 n x < val31 n m"
    and "m0i = br_i31_ninv31 (cells m ! 1)" and "elen \<le> alen e" and "twlen \<le> alen tmp"
  shows "ok (br_i31_modpow_opt x e elen m m0i tmp twlen) (\<lambda>(r, x', tmp').
    if twlen < 2 * (Suc n + Suc n mod 2) then r = 0 \<and> x' = x
    else r = 1 \<and> is_i31 h n x' \<and> val31 n x' = val31 n x ^ be_val (take elen (cells e)) mod val31 n m)"
proof -
  obtain k where "n = Suc k" using assms(3) by (cases n) auto
  then have "odd (unat (cells m ! 1))" using assms(2) by (simp add: wsum_head)
  then have "odd31 h n m m0i" using assms(1-3,6) ninv31_correct(1) by (simp add: odd31_def)
  from ok_br_i31_modpow_opt [OF this assms(4,5,7,8)] show ?thesis by simp
qed

theorem br_i31_modpow_opt_correct_witness:
  "ok (br_i31_modpow_opt ex_x (ex_e 5) 1 ex_m (br_i31_ninv31 11) \<lparr>blk = 4, cells = replicate 8 0\<rparr> 8)
    (\<lambda>(r, x', _). r = 1 \<and> val31 2 x' = 2147450891)"
  by (rule ok_weaken [OF br_i31_modpow_opt_correct [OF ex_modulus(1) _ _ ex_modulus(2)]]) (auto simp: ex_vals be_val_def)

text \<open>C7. But for its two \<open>printf\<close> calls \<open>br_i31_modpow_opt\<close> is constant time, and because of them it is not: for an observer who knows the
  public data and sees the accesses, the branches and the output, two calls of the exponentiation proper look the same exactly when the exponents are
  the same. Neither the base nor the value of the modulus shows.\<close>

theorem br_i31_modpow_opt_leaks:
  assumes "opt_safe n x e elen m tmp twlen" and "opt_pub x e m tmp x' e' m' tmp'"
  shows "trace (br_i31_modpow_opt x e elen m m0i tmp twlen) \<noteq> None \<and>
    (trace (br_i31_modpow_opt x e elen m m0i tmp twlen) = trace (br_i31_modpow_opt x' e' elen m' m0i' tmp' twlen) \<longleftrightarrow>
      twlen < 2 * (Suc n + Suc n mod 2) \<or> take elen (cells e) = take elen (cells e'))"
proof -
  have small: "trace (br_i31_modpow_opt x e elen m m0i tmp twlen) = trace (br_i31_modpow_opt x' e' elen m' m0i' tmp' twlen)"
    if t: "twlen < 2 * mwlen31 n"
  proof -
    note D = opt_safeD [OF assms]
    have h: "words63 (cells m ! 0) = Suc n" using hdr31D [OF D(2)] by simp
    have "ct (br_i31_modpow_opt x e elen m m0i tmp twlen) (br_i31_modpow_opt x' e' elen m' m0i' tmp' twlen) (\<lambda>_ _. True)"
      unfolding br_i31_modpow_opt_def
      by (rule ct_bind, rule ct_ld [OF pubD(1) [OF D(1)] refl], use D(3) in linarith, unfold pubD(2) [OF D(1)] Let_def h, rule ct_branch [OF refl])
        (use t in \<open>auto intro: ct_ret\<close>)
    then show ?thesis by (rule ctD_trace)
  qed
  have same: "ct (br_i31_modpow_opt x e elen m m0i tmp twlen) (br_i31_modpow_opt x' e' elen m' m0i' tmp' twlen) (\<lambda>_ _. True)"
    if "take elen (cells e) = take elen (cells e')" by (rule ct_br_i31_modpow_opt [OF assms that]) simp_all
  have "opt_pub x e m tmp x e m tmp" by (simp add: opt_pub_def pub_def)
  from ct_br_i31_modpow_opt [OF assms(1) this refl, where R = "\<lambda>_ _. True"]
  have "trace (br_i31_modpow_opt x e elen m m0i tmp twlen) \<noteq> None" by (intro ctD_safe) simp
  then show ?thesis
    using small ctD_trace [OF same] differD [OF differ_br_i31_modpow_opt [OF assms]] by (meson not_le_imp_less)
qed

theorem br_i31_modpow_opt_leaks_witness:
  "trace (br_i31_modpow_opt ex_x (ex_e 5) 1 ex_m 0 \<lparr>blk = 4, cells = replicate 8 0\<rparr> 8)
    \<noteq> trace (br_i31_modpow_opt ex_x (ex_e 200) 1 ex_m 0 \<lparr>blk = 4, cells = replicate 8 0\<rparr> 8)"
proof -
  have "opt_safe 2 ex_x (ex_e 5) 1 ex_m \<lparr>blk = 4, cells = replicate 8 0\<rparr> 8"
    "opt_pub ex_x (ex_e 5) ex_m \<lparr>blk = 4, cells = replicate 8 0\<rparr> ex_x (ex_e 200) ex_m \<lparr>blk = 4, cells = replicate 8 0\<rparr>"
    by (simp_all add: opt_safe_def opt_pub_def pub_def hdr31_def shape_def)
  from br_i31_modpow_opt_leaks [OF this] show ?thesis by simp
qed

end
