(* ===== verification/Hash_Common.thy ===== *)
theory Hash_Common
  imports Bytes
begin

text \<open>
  What the hash functions of \<^verbatim>\<open>src/hash\<close> share: the context, the loop that fills the buffer of the context (every file has
  its own copy of it), the Merkle-Damgard padding, the class record \<open>br_hash_class\<close> of \<^verbatim>\<open>bearssl_hash.h\<close>, and the interface
  \<open>hash_impl\<close> that HMAC, the generators and the paddings rely on.
\<close>

section \<open>Contexts and the update loop\<close>

text \<open>\<open>hval\<close> is the chaining value: a list of words, or two of them for the MD5/SHA-1 pair.\<close>

record 's hash_context =
  hbuf :: "u8 list"
  hcount :: u64
  hval :: 's

text \<open>The loop of the update functions, \<open>B\<close> bytes in a block. MD5 and SHA-1 advance \<open>count\<close> with every chunk (\<open>inc\<close>), SHA-2 before the
  loop. \<open>ptr\<close> is below \<open>B\<close> at every call, the test of it makes the function total.\<close>

function hash_loop :: "bool \<Rightarrow> nat \<Rightarrow> (u8 list \<Rightarrow> 's \<Rightarrow> 's) \<Rightarrow> nat \<Rightarrow> 's hash_context \<Rightarrow> u8 list \<Rightarrow> 's hash_context" where
  "hash_loop inc B rnd ptr cc data =
     (if data = [] \<or> B \<le> ptr then cc
      else let clen = (if length data < B - ptr then length data else B - ptr);
               cc = cc\<lparr>hbuf := splice (hbuf cc) ptr (take clen data),
                       hcount := (if inc then hcount cc + of_nat clen else hcount cc)\<rparr>
           in if ptr + clen = B
              then hash_loop inc B rnd 0 (cc\<lparr>hval := rnd (hbuf cc) (hval cc)\<rparr>) (drop clen data)
              else hash_loop inc B rnd (ptr + clen) cc (drop clen data))"
  by pat_completeness auto
termination
  by (relation "measure (\<lambda>(inc, B, rnd, ptr, cc, data). length data)") auto

declare hash_loop.simps [simp del]

definition hash_ptr :: "nat \<Rightarrow> 's hash_context \<Rightarrow> nat" where
  "hash_ptr B cc = unat (hcount cc AND of_nat (B - 1))"

definition hash_update :: "nat \<Rightarrow> (u8 list \<Rightarrow> 's \<Rightarrow> 's) \<Rightarrow> 's hash_context \<Rightarrow> u8 list \<Rightarrow> 's hash_context" where
  "hash_update B rnd cc data = hash_loop True B rnd (hash_ptr B cc) cc data"

definition hash_update_ahead :: "nat \<Rightarrow> (u8 list \<Rightarrow> 's \<Rightarrow> 's) \<Rightarrow> 's hash_context \<Rightarrow> u8 list \<Rightarrow> 's hash_context" where
  "hash_update_ahead B rnd cc data =
     hash_loop False B rnd (hash_ptr B cc) (cc\<lparr>hcount := hcount cc + of_nat (length data)\<rparr>) data"

text \<open>The first part of the out functions: the pending bytes, \<open>0x80\<close> and zeros up to the \<open>L\<close> bytes of the length, with a
  block of its own when they do not fit. The result is the start of the last block and the chaining value before it.\<close>

definition hash_pad :: "nat \<Rightarrow> nat \<Rightarrow> (u8 list \<Rightarrow> 's \<Rightarrow> 's) \<Rightarrow> 's hash_context \<Rightarrow> u8 list \<times> 's" where
  "hash_pad B L rnd cc =
     (let ptr = hash_ptr B cc;
          b = take ptr (hbuf cc) @ [0x80];
          ptr = ptr + 1
      in if B - L < ptr then (replicate (B - L) 0, rnd (b @ replicate (B - ptr) 0) (hval cc))
         else (b @ replicate (B - L - ptr) 0, hval cc))"

section \<open>Reference: the chaining value of a message\<close>

function md_fold :: "nat \<Rightarrow> (u8 list \<Rightarrow> 's \<Rightarrow> 's) \<Rightarrow> 's \<Rightarrow> u8 list \<Rightarrow> 's" where
  "md_fold B rnd v m = (if B = 0 \<or> length m < B then v else md_fold B rnd (rnd (take B m) v) (drop B m))"
  by pat_completeness auto
termination
  by (relation "measure (\<lambda>(B, rnd, v, m). length m)") auto

declare md_fold.simps [simp del]

definition md_padding :: "nat \<Rightarrow> nat \<Rightarrow> nat \<Rightarrow> u8 list" where
  "md_padding B L n = 0x80 # replicate ((2 * B - L - 1 - n mod B) mod B) 0"

lemma md_fold_less: "length m < B \<Longrightarrow> md_fold B rnd v m = v"
  by (subst md_fold.simps) simp

lemma md_fold_append:
  assumes "0 < B" and "B dvd length a"
  shows "md_fold B rnd v (a @ b) = md_fold B rnd (md_fold B rnd v a) b"
  using assms(2)
proof (induction a arbitrary: v rule: measure_induct_rule [where f = length])
  case (less a)
  show ?case
  proof (cases "a = []")
    case True then show ?thesis using assms(1) by (simp add: md_fold_less)
  next
    case False
    then have B: "B \<le> length a" using less.prems by (auto intro: dvd_imp_le)
    have "md_fold B rnd v (a @ b) = md_fold B rnd (rnd (take B a) v) (drop B a @ b)"
      using B assms(1) by (subst md_fold.simps) simp
    also have "\<dots> = md_fold B rnd (md_fold B rnd (rnd (take B a) v) (drop B a)) b"
      using False assms(1) less.prems B by (intro less.IH) (simp_all add: dvd_diff_nat)
    also have "md_fold B rnd (rnd (take B a) v) (drop B a) = md_fold B rnd v a"
      using B assms(1) by (subst (2) md_fold.simps) simp
    finally show ?thesis .
  qed
qed

lemma md_fold_block: "0 < B \<Longrightarrow> length b = B \<Longrightarrow> md_fold B rnd v b = rnd b v"
  by (subst md_fold.simps) (simp add: md_fold_less)

text \<open>The context has absorbed the message \<open>m\<close>, from the chaining value \<open>iv\<close>.\<close>

definition absorbed :: "nat \<Rightarrow> (u8 list \<Rightarrow> 's \<Rightarrow> 's) \<Rightarrow> 's \<Rightarrow> 's hash_context \<Rightarrow> u8 list \<Rightarrow> bool" where
  "absorbed B rnd iv cc m \<longleftrightarrow> length (hbuf cc) = B \<and> hcount cc = of_nat (length m) \<and>
     (\<exists>a r. m = a @ r \<and> B dvd length a \<and> length r < B \<and> hval cc = md_fold B rnd iv a \<and> take (length r) (hbuf cc) = r)"

lemma hash_loop_absorbed:
  assumes B: "0 < B"
  shows "m = a @ r \<Longrightarrow> B dvd length a \<Longrightarrow> length r < B \<Longrightarrow> length (hbuf cc) = B \<Longrightarrow>
    hval cc = md_fold B rnd iv a \<Longrightarrow> take (length r) (hbuf cc) = r \<Longrightarrow>
    hcount cc = of_nat (length m + (if inc then 0 else length data)) \<Longrightarrow>
    absorbed B rnd iv (hash_loop inc B rnd (length r) cc data) (m @ data)"
proof (induction "length data" arbitrary: data cc a r m rule: less_induct)
  case less
  let ?p = "length r"
  show ?case
  proof (cases "data = []")
    case True then show ?thesis using less.prems by (subst hash_loop.simps) (auto simp: absorbed_def)
  next
    case False
    define clen where "clen = (if length data < B - ?p then length data else B - ?p)"
    have c: "0 < clen" "clen \<le> length data" "?p + clen \<le> B" using False less.prems(3) by (auto simp: clen_def)
    define c1 where "c1 = cc\<lparr>hbuf := splice (hbuf cc) ?p (take clen data),
                       hcount := (if inc then hcount cc + of_nat clen else hcount cc)\<rparr>"
    have step: "hash_loop inc B rnd ?p cc data =
        (if ?p + clen = B then hash_loop inc B rnd 0 (c1\<lparr>hval := rnd (hbuf c1) (hval c1)\<rparr>) (drop clen data)
         else hash_loop inc B rnd (?p + clen) c1 (drop clen data))"
      using False less.prems(3) by (subst hash_loop.simps) (simp add: c1_def clen_def Let_def)
    have b1: "take (?p + clen) (hbuf c1) = r @ take clen data" "length (hbuf c1) = B"
      using less.prems c by (simp_all add: c1_def splice_def)
    have m: "m @ data = (m @ take clen data) @ drop clen data" by simp
    have k: "hcount c1 = of_nat (length (m @ take clen data) + (if inc then 0 else length (drop clen data)))"
      using less.prems(7) c by (auto simp: c1_def of_nat_add [symmetric] simp del: of_nat_add)
    have v: "hval c1 = md_fold B rnd iv a" using less.prems by (simp add: c1_def)
    show ?thesis
    proof (cases "?p + clen = B")
      case True
      have b: "hbuf c1 = r @ take clen data" using b1 True by simp
      have "absorbed B rnd iv (hash_loop inc B rnd (length ([] :: u8 list)) (c1\<lparr>hval := rnd (hbuf c1) (hval c1)\<rparr>) (drop clen data))
          ((m @ take clen data) @ drop clen data)"
        using c less.prems b b1 k v True B
        by (intro less.hyps [of _ _ "a @ r @ take clen data" "[]"]) (simp_all add: md_fold_append md_fold_block)
      then show ?thesis unfolding step m using True by simp
    next
      case False
      have "absorbed B rnd iv (hash_loop inc B rnd (length (r @ take clen data)) c1 (drop clen data)) ((m @ take clen data) @ drop clen data)"
        using c less.prems b1 k v False by (intro less.hyps [of _ _ a]) simp_all
      then show ?thesis unfolding step m using False c by simp
    qed
  qed
qed

lemma hash_ptr_absorbed:
  assumes "absorbed (2 ^ k) rnd iv cc m" and "k \<le> 64" and "m = a @ r" and "2 ^ k dvd length a" and "length r < 2 ^ k"
  shows "hash_ptr (2 ^ k) cc = length r"
proof -
  have "hcount cc AND of_nat (2 ^ k - 1) = take_bit k (of_nat (length m) :: u64)"
    using assms(1) by (simp add: absorbed_def take_bit_eq_mask mask_eq_exp_minus_1 of_nat_diff)
  then have "hash_ptr (2 ^ k) cc = unat (take_bit k (of_nat (length m) :: u64))" by (simp only: hash_ptr_def)
  also have "\<dots> = take_bit k (take_bit 64 (length m))" by (simp only: unsigned_take_bit_eq unsigned_of_nat len_num1 len_bit0) (simp del: take_bit_take_bit)
  also have "\<dots> = length m mod 2 ^ k" using assms(2) by (simp only: take_bit_eq_mod mod_mod_cancel [OF le_imp_power_dvd])
  finally have "hash_ptr (2 ^ k) cc = length m mod 2 ^ k" .
  then show ?thesis using assms(3-5) by (auto simp: mod_add_left_eq [symmetric, of "length a"] elim!: dvdE)
qed

lemma hash_update_absorbed:
  assumes "absorbed (2 ^ k) rnd iv cc m" and "k \<le> 64"
  shows "absorbed (2 ^ k) rnd iv (hash_update (2 ^ k) rnd cc data) (m @ data)"
    and "absorbed (2 ^ k) rnd iv (hash_update_ahead (2 ^ k) rnd cc data) (m @ data)"
proof -
  obtain a r where r: "m = a @ r" "2 ^ k dvd length a" "length r < 2 ^ k" "hval cc = md_fold (2 ^ k) rnd iv a"
    "take (length r) (hbuf cc) = r" and b: "length (hbuf cc) = 2 ^ k" "hcount cc = of_nat (length m)"
    using assms(1) by (auto simp: absorbed_def)
  note p = hash_ptr_absorbed [OF assms r(1-3)]
  show "absorbed (2 ^ k) rnd iv (hash_update (2 ^ k) rnd cc data) (m @ data)"
    unfolding hash_update_def p by (rule hash_loop_absorbed) (use r b in simp_all)
  show "absorbed (2 ^ k) rnd iv (hash_update_ahead (2 ^ k) rnd cc data) (m @ data)"
    unfolding hash_update_ahead_def p by (rule hash_loop_absorbed) (use r b in simp_all)
qed

lemma absorbed_init:
  "length (hbuf cc) = B \<Longrightarrow> 0 < B \<Longrightarrow> absorbed B rnd iv (cc\<lparr>hval := iv, hcount := 0\<rparr>) []"
  by (simp add: absorbed_def md_fold_less)

text \<open>A context resumed from the chaining value after \<open>m\<close>, whole blocks of it.\<close>

lemma absorbed_resume:
  "length (hbuf cc) = B \<Longrightarrow> 0 < B \<Longrightarrow> B dvd length m \<Longrightarrow>
    absorbed B rnd iv (cc\<lparr>hval := md_fold B rnd iv m, hcount := of_nat (length m)\<rparr>) m"
  unfolding absorbed_def by (intro conjI exI [of _ m] exI [of _ "[]"]) simp_all

lemma md_fold_absorbed:
  assumes "absorbed B rnd iv cc m" and B: "0 < B"
  shows "hval cc = md_fold B rnd iv m"
proof -
  obtain a r where "m = a @ r" "B dvd length a" "length r < B" "hval cc = md_fold B rnd iv a"
    using assms by (auto simp: absorbed_def)
  then show ?thesis using B by (simp add: md_fold_append md_fold_less)
qed

lemma hash_pad_correct:
  assumes cc: "absorbed (2 ^ k) rnd iv cc m" and k: "k \<le> 64" and L: "L < 2 ^ k" "length l = L"
  shows "case hash_pad (2 ^ k) L rnd cc of (b, v) \<Rightarrow>
    rnd (b @ l) v = md_fold (2 ^ k) rnd iv (m @ md_padding (2 ^ k) L (length m) @ l)"
proof -
  define B where "B = (2 ^ k :: nat)"
  have B: "0 < B" by (simp add: B_def)
  obtain a r where r: "m = a @ r" "B dvd length a" "length r < B" "hval cc = md_fold B rnd iv a"
    "take (length r) (hbuf cc) = r" using cc by (auto simp: absorbed_def B_def)
  have p: "hash_ptr B cc = length r" using hash_ptr_absorbed [OF cc k] r by (simp add: B_def)
  have mm: "length m mod B = length r" using r by (auto elim!: dvdE)
  have fold: "md_fold B rnd iv (m @ x) = md_fold B rnd (hval cc) (r @ x)" for x
    using md_fold_append [OF B r(2)] r by simp
  show ?thesis unfolding B_def [symmetric]
  proof (cases "B - L < length r + 1")
    case True
    define z where "z = B - (length r + 1)"
    have z: "length r + 1 + z = B" using r(3) by (simp add: z_def)
    have "2 * B - L - 1 - length r = z + (B - L)" using z L B_def by linarith
    moreover have "z + (B - L) < B" using True z by linarith
    ultimately have "(2 * B - L - 1 - length m mod B) mod B = z + (B - L)" unfolding mm by simp
    then have pad: "r @ md_padding B L (length m) @ l = (r @ 0x80 # replicate z 0) @ (replicate (B - L) 0 @ l)"
      by (simp add: md_padding_def replicate_add)
    have lens: "length (r @ 0x80 # replicate z 0) = B" "length (replicate (B - L) 0 @ l) = B" using z L B_def by simp_all
    have "md_fold B rnd (hval cc) ((r @ 0x80 # replicate z 0) @ (replicate (B - L) 0 @ l))
        = rnd (replicate (B - L) 0 @ l) (rnd (r @ 0x80 # replicate z 0) (hval cc))"
      using lens B by (subst md_fold_append) (simp_all add: md_fold_block del: length_append length_Cons)
    then show "case hash_pad B L rnd cc of (b, v) \<Rightarrow> rnd (b @ l) v = md_fold B rnd iv (m @ md_padding B L (length m) @ l)"
      using True r(5) unfolding fold pad by (simp add: hash_pad_def p z_def)
  next
    case False
    define z where "z = B - L - (length r + 1)"
    have z: "length r + 1 + z + L = B" using False L B_def by (simp add: z_def)
    have "2 * B - L - 1 - length r = B + z" using z by linarith
    then have "(2 * B - L - 1 - length m mod B) mod B = z" unfolding mm using z by simp
    then have pad: "r @ md_padding B L (length m) @ l = r @ 0x80 # replicate z 0 @ l"
      by (simp add: md_padding_def)
    have "length (r @ 0x80 # replicate z 0 @ l) = B" using z L by simp
    then have "md_fold B rnd (hval cc) (r @ 0x80 # replicate z 0 @ l) = rnd (r @ 0x80 # replicate z 0 @ l) (hval cc)"
      by (rule md_fold_block [OF B])
    then show "case hash_pad B L rnd cc of (b, v) \<Rightarrow> rnd (b @ l) v = md_fold B rnd iv (m @ md_padding B L (length m) @ l)"
      using False r(5) unfolding fold pad by (simp add: hash_pad_def p z_def)
  qed
qed

lemma md_fold_rest:
  "0 < B \<Longrightarrow> B dvd length m \<Longrightarrow> length r < B \<Longrightarrow> md_fold B rnd v (m @ r) = md_fold B rnd v m"
  by (simp add: md_fold_append md_fold_less)

lemma md_fold_pair:
  "md_fold B (\<lambda>b (v, w). (f b v, g b w)) (v, w) m = (md_fold B f v m, md_fold B g w m)"
proof (induction m arbitrary: v w rule: measure_induct_rule [where f = length])
  case (less m)
  show ?case
  proof (cases "B = 0 \<or> length m < B")
    case True then show ?thesis by (simp add: md_fold.simps [of B])
  next
    case False
    then have "length (drop B m) < length m" by auto
    from less.IH [OF this] False show ?thesis by (simp add: md_fold.simps [of B _ _ m])
  qed
qed

lemma md_fold_invariant:
  assumes "\<And>b v. P v \<Longrightarrow> P (rnd b v)" shows "P v \<Longrightarrow> P (md_fold B rnd v m)"
proof (induction m arbitrary: v rule: measure_induct_rule [where f = length])
  case (less m)
  show ?case
  proof (cases "B = 0 \<or> length m < B")
    case True then show ?thesis using less.prems by (subst md_fold.simps) simp
  next
    case False
    then have "P (md_fold B rnd (rnd (take B m) v) (drop B m))" using less.prems assms by (intro less.IH) auto
    then show ?thesis using False by (subst md_fold.simps) simp
  qed
qed

lemma range_dec_append:
  "br_range_dec32le (length v) (br_range_enc32le v @ r) = v" "br_range_dec32be (length v) (br_range_enc32be v @ r) = v"
  "br_range_dec64be (length q) (br_range_enc64be q @ r) = q"
  unfolding br_range_enc32le_def br_range_enc32be_def br_range_enc64be_def
  by (induction v, simp_all) (induction q, simp_all)

lemma length_range_enc [simp]:
  "length (br_range_enc32le v) = 4 * length v" "length (br_range_enc32be v) = 4 * length v"
  "length (br_range_enc64be q) = 8 * length q"
  unfolding br_range_enc32le_def br_range_enc32be_def br_range_enc64be_def
  by (induction v, simp_all) (induction q, simp_all)

section \<open>Unrolled loops and message schedules\<close>

lemma foldl_groups: "foldl f s [k * a..<k * a + k * n] = foldl (\<lambda>s i. foldl f s [i..<i + k]) s (map (\<lambda>j. k * j) [a..<a + n])"
proof (induction n)
  case (Suc n)
  have "[k * a..<k * a + k * Suc n] = [k * a..<k * a + k * n] @ [k * (a + n)..<k * (a + n) + k]"
    using upt_add_eq_append [of "k * a" "k * a + k * n" k] by (simp add: algebra_simps)
  then show ?case using Suc by simp
qed simp

lemma upt_group:
  "[i..<i + 4] = [i, i + 1, i + 2, i + 3]" "[i..<i + 5] = [i, i + 1, i + 2, i + 3, i + 4]"
  "[i..<i + 8] = [i, i + 1, i + 2, i + 3, i + 4, i + 5, i + 6, i + 7]"
  by (simp_all add: numeral_eq_Suc)

lemma foldl_group_cong: "(\<And>s i. i \<in> set is \<Longrightarrow> f s i = g s i) \<Longrightarrow> foldl f s is = foldl g s is"
  by (rule foldl_cong) auto

lemma foldl_schedule:
  assumes "M = map W [0..<16]" and "\<And>i. 16 \<le> i \<Longrightarrow> f (map W [0..<i]) i = W i"
  shows "foldl (\<lambda>w i. w @ [f w i]) M [16..<16 + n] = map W [0..<16 + n]"
proof (induction n)
  case 0 show ?case unfolding assms(1) by simp
next
  case (Suc n)
  have "f (map W [0..<16 + n]) (16 + n) = W (16 + n)" by (rule assms(2)) simp
  moreover have "[16..<16 + Suc n] = [16..<16 + n] @ [16 + n]" "[0..<16 + Suc n] = [0..<16 + n] @ [16 + n]"
    unfolding add_Suc_right by (rule upt_Suc_append, simp)+
  ultimately show ?case using Suc by (simp only: foldl_append foldl.simps map_append list.map)
qed

lemma length_range_dec [simp]:
  "length (br_range_dec32le n b) = n" "length (br_range_dec32be n b) = n" "length (br_range_dec64be n b) = n"
  by (induction n arbitrary: b) simp_all

text \<open>The rotations of the macros are those of the word library.\<close>

definition ROTL :: "u32 \<Rightarrow> nat \<Rightarrow> u32" where
  "ROTL x n = shl x n OR shr x (32 - n)"

lemma rotate_or:
  fixes x :: "'a::len word"
  assumes "0 < n" and "n < LENGTH('a)" shows "shl x n OR shr x (LENGTH('a) - n) = word_rotl n x"
proof (rule bit_word_eqI)
  fix k assume k: "k < LENGTH('a)"
  obtain q where q: "LENGTH('a) - n = q" "n + q = LENGTH('a)" using assms by simp
  show "bit (shl x n OR shr x (LENGTH('a) - n)) k = bit (word_rotl n x) k"
  proof (cases "n \<le> k")
    case True
    then obtain j where j: "k = n + j" using le_Suc_ex by blast
    have "(k + q) mod LENGTH('a) = (j + LENGTH('a)) mod LENGTH('a)" using j q by (simp add: add.commute add.left_commute)
    also have "\<dots> = j" using j k by simp
    finally show ?thesis using q k assms by (auto simp: bit_simps bit_word_rotl_iff j dest: bit_imp_le_length)
  next
    case False
    then have "(k + q) mod LENGTH('a) = k + q" using q by simp
    then show ?thesis using False assms k q by (auto simp: bit_simps bit_word_rotl_iff add.commute [of q])
  qed
qed

lemma ROTL_rotl: "0 < n \<Longrightarrow> n < 32 \<Longrightarrow> ROTL x n = word_rotl n x"
  using rotate_or [of n x] by (simp add: ROTL_def)

section \<open>The class record (bearssl_hash.h)\<close>

text \<open>\<open>hc_ctx\<close> stands for the \<open>context_size\<close> bytes of a context on the stack; no function reads what they hold. \<open>hc_out\<close> and
  \<open>hc_state\<close> return the bytes that the C functions write to \<open>dst\<close>.\<close>

record 'c br_hash_class =
  hc_ctx :: 'c
  hc_desc :: u32
  hc_init :: "'c \<Rightarrow> 'c"
  hc_update :: "'c \<Rightarrow> u8 list \<Rightarrow> 'c"
  hc_out :: "'c \<Rightarrow> u8 list"
  hc_state :: "'c \<Rightarrow> u8 list \<times> u64"
  hc_set_state :: "'c \<Rightarrow> u8 list \<Rightarrow> u64 \<Rightarrow> 'c"

definition BR_HASHDESC_ID :: "u32 \<Rightarrow> u32" where "BR_HASHDESC_ID i = shl i 0"
definition BR_HASHDESC_OUT :: "u32 \<Rightarrow> u32" where "BR_HASHDESC_OUT size' = shl size' 8"
definition BR_HASHDESC_STATE :: "u32 \<Rightarrow> u32" where "BR_HASHDESC_STATE size' = shl size' 15"
definition BR_HASHDESC_LBLEN :: "u32 \<Rightarrow> u32" where "BR_HASHDESC_LBLEN ls = shl ls 23"
definition BR_HASHDESC_MD_PADDING :: u32 where "BR_HASHDESC_MD_PADDING = shl 1 28"
definition BR_HASHDESC_MD_PADDING_128 :: u32 where "BR_HASHDESC_MD_PADDING_128 = shl 1 29"
definition BR_HASHDESC_MD_PADDING_BE :: u32 where "BR_HASHDESC_MD_PADDING_BE = shl 1 30"

lemmas hashdesc_defs = BR_HASHDESC_ID_def BR_HASHDESC_OUT_def BR_HASHDESC_STATE_def BR_HASHDESC_LBLEN_def
  BR_HASHDESC_MD_PADDING_def BR_HASHDESC_MD_PADDING_128_def BR_HASHDESC_MD_PADDING_BE_def

definition br_digest_size :: "'c br_hash_class \<Rightarrow> nat" where
  "br_digest_size dig = unat (shr (hc_desc dig) 8 AND 0x7F)"

definition block_size :: "'c br_hash_class \<Rightarrow> nat" where
  "block_size dig = 2 ^ unat (shr (hc_desc dig) 23 AND 0x0F)"

text \<open>What the clients of a class rely on: \<open>rep c m\<close> says that the context \<open>c\<close> has absorbed \<open>m\<close>, \<open>sb m\<close> is the encoded chaining
  value after the whole blocks of \<open>m\<close>, \<open>digest m\<close> the hash of \<open>m\<close>.\<close>

locale hash_impl =
  fixes dig :: "'c br_hash_class"
    and rep :: "'c \<Rightarrow> u8 list \<Rightarrow> bool"
    and sb :: "u8 list \<Rightarrow> u8 list"
    and digest :: "u8 list \<Rightarrow> u8 list"
  assumes init: "c = hc_ctx dig \<or> rep c m' \<Longrightarrow> rep (hc_init dig c) []"
    and update: "rep c m \<Longrightarrow> rep (hc_update dig c d) (m @ d)"
    and out: "rep c m \<Longrightarrow> hc_out dig c = digest m"
    and state: "rep c m \<Longrightarrow> hc_state dig c = (sb m, of_nat (length m))"
    and set_state: "c = hc_ctx dig \<or> rep c m' \<Longrightarrow> block_size dig dvd length m \<Longrightarrow>
      rep (hc_set_state dig c (sb m @ x) (of_nat (length m))) m"
    and sb_block: "block_size dig dvd length m \<Longrightarrow> length r < block_size dig \<Longrightarrow> sb (m @ r) = sb m"
    and digest_length: "length (digest m) = br_digest_size dig"
    and sizes: "0 < br_digest_size dig" "br_digest_size dig \<le> 64" "br_digest_size dig \<le> block_size dig"
begin

text \<open>The state is the state of the whole blocks: a resumed context goes on from there.\<close>

lemma hash_of_chunks: "rep c m \<Longrightarrow> hc_out dig (foldl (hc_update dig) c ds) = digest (m @ concat ds)"
proof (induction ds arbitrary: c m)
  case Nil then show ?case by (simp add: out)
next
  case (Cons d ds)
  from Cons.IH [OF update [OF Cons.prems]] show ?case by simp
qed

end

section \<open>Hash functions with the plain padding\<close>

text \<open>The contract of the classes whose functions are the shared ones above, with their own round function, length field and
  final encoding. It gives the one of \<open>hash_impl\<close>.\<close>

locale md_class =
  fixes dig :: "'s hash_context br_hash_class" and k L :: nat
    and rnd :: "u8 list \<Rightarrow> 's \<Rightarrow> 's" and iv :: 's
    and enc :: "'s \<Rightarrow> u8 list" and decode :: "u8 list \<Rightarrow> 's" and fin :: "'s \<Rightarrow> u8 list" and lenb :: "u64 \<Rightarrow> u8 list"
  assumes md_ctx: "length (hbuf (hc_ctx dig)) = 2 ^ k"
    and md_init: "hc_init dig cc = cc\<lparr>hval := iv, hcount := 0\<rparr>"
    and md_update: "hc_update dig = hash_update (2 ^ k) rnd \<or> hc_update dig = hash_update_ahead (2 ^ k) rnd"
    and md_out: "hc_out dig cc = (case hash_pad (2 ^ k) L rnd cc of (b, v) \<Rightarrow> fin (rnd (b @ lenb (hcount cc)) v))"
    and md_state: "hc_state dig cc = (enc (hval cc), hcount cc)"
    and md_set_state: "hc_set_state dig cc stb n = cc\<lparr>hval := decode stb, hcount := n\<rparr>"
    and md_decode: "decode (enc (md_fold (2 ^ k) rnd iv m) @ x) = md_fold (2 ^ k) rnd iv m"
    and md_lens: "length (lenb n) = L" "length (fin (md_fold (2 ^ k) rnd iv m)) = br_digest_size dig"
    and md_sizes: "L < 2 ^ k" "k \<le> 64" "block_size dig = 2 ^ k"
      "0 < br_digest_size dig" "br_digest_size dig \<le> 64" "br_digest_size dig \<le> 2 ^ k"
begin

abbreviation rep :: "'s hash_context \<Rightarrow> u8 list \<Rightarrow> bool" where
  "rep \<equiv> absorbed (2 ^ k) rnd iv"

lemma md_buf: "c = hc_ctx dig \<or> rep c m \<Longrightarrow> length (hbuf c) = 2 ^ k"
  using md_ctx by (auto simp: absorbed_def)

lemma md_out_rep:
  assumes "rep cc m"
  shows "hc_out dig cc = fin (md_fold (2 ^ k) rnd iv (m @ md_padding (2 ^ k) L (length m) @ lenb (of_nat (length m))))"
  using hash_pad_correct [OF assms md_sizes(2,1) md_lens(1)] assms
  by (auto simp: md_out absorbed_def split: prod.splits)

end

sublocale md_class \<subseteq> hash_impl dig "absorbed (2 ^ k) rnd iv" "\<lambda>m. enc (md_fold (2 ^ k) rnd iv m)"
  "\<lambda>m. fin (md_fold (2 ^ k) rnd iv (m @ md_padding (2 ^ k) L (length m) @ lenb (of_nat (length m))))"
proof (unfold_locales, goal_cases)
  case (1 c m') show ?case unfolding md_init by (rule absorbed_init [OF md_buf [OF 1]]) simp
next
  case (2 c m d) then show ?case using md_update hash_update_absorbed [OF _ md_sizes(2)] by auto
next
  case (3 c m) then show ?case by (rule md_out_rep)
next
  case (4 c m) then show ?case using md_fold_absorbed [OF 4] by (simp add: md_state absorbed_def)
next
  case (5 c m' m x) then show ?case
    using absorbed_resume [OF md_buf [OF 5(1)]] by (simp add: md_set_state md_decode md_sizes)
next
  case (6 m r) then show ?case by (simp add: md_fold_rest md_sizes)
qed (simp_all add: md_lens md_sizes)

end
