(* ===== verification/Hash_MD5.thy ===== *)
theory Hash_MD5
  imports Hash_Common
begin

text \<open>MD5, \<^verbatim>\<open>src/hash/md5.c\<close>, and its equivalence with the compression function of RFC 1321.\<close>

definition md5_F :: "u32 \<Rightarrow> u32 \<Rightarrow> u32 \<Rightarrow> u32" where "md5_F B C D = ((C XOR D) AND B) XOR D"
definition md5_G :: "u32 \<Rightarrow> u32 \<Rightarrow> u32 \<Rightarrow> u32" where "md5_G B C D = ((C XOR B) AND D) XOR C"
definition md5_H :: "u32 \<Rightarrow> u32 \<Rightarrow> u32 \<Rightarrow> u32" where "md5_H B C D = B XOR C XOR D"
definition md5_I :: "u32 \<Rightarrow> u32 \<Rightarrow> u32 \<Rightarrow> u32" where "md5_I B C D = C XOR (B OR NOT D)"

definition br_md5_IV :: "u32 list" where
  "br_md5_IV = [0x67452301, 0xEFCDAB89, 0x98BADCFE, 0x10325476]"

definition md5_K :: "u32 list" where
  "md5_K = [
	0xD76AA478, 0xE8C7B756, 0x242070DB, 0xC1BDCEEE,
	0xF57C0FAF, 0x4787C62A, 0xA8304613, 0xFD469501,
	0x698098D8, 0x8B44F7AF, 0xFFFF5BB1, 0x895CD7BE,
	0x6B901122, 0xFD987193, 0xA679438E, 0x49B40821,
	0xF61E2562, 0xC040B340, 0x265E5A51, 0xE9B6C7AA,
	0xD62F105D, 0x02441453, 0xD8A1E681, 0xE7D3FBC8,
	0x21E1CDE6, 0xC33707D6, 0xF4D50D87, 0x455A14ED,
	0xA9E3E905, 0xFCEFA3F8, 0x676F02D9, 0x8D2A4C8A,
	0xFFFA3942, 0x8771F681, 0x6D9D6122, 0xFDE5380C,
	0xA4BEEA44, 0x4BDECFA9, 0xF6BB4B60, 0xBEBFBC70,
	0x289B7EC6, 0xEAA127FA, 0xD4EF3085, 0x04881D05,
	0xD9D4D039, 0xE6DB99E5, 0x1FA27CF8, 0xC4AC5665,
	0xF4292244, 0x432AFF97, 0xAB9423A7, 0xFC93A039,
	0x655B59C3, 0x8F0CCC92, 0xFFEFF47D, 0x85845DD1,
	0x6FA87E4F, 0xFE2CE6E0, 0xA3014314, 0x4E0811A1,
	0xF7537E82, 0xBD3AF235, 0x2AD7D2BB, 0xEB86D391]"

definition md5_MP :: "nat list" where
  "md5_MP = [
	1, 6, 11, 0, 5, 10, 15, 4, 9, 14, 3, 8, 13, 2, 7, 12,
	5, 8, 11, 14, 1, 4, 7, 10, 13, 0, 3, 6, 9, 12, 15, 2,
	0, 7, 14, 5, 12, 3, 10, 1, 8, 15, 6, 13, 4, 11, 2, 9]"

type_synonym quad = "u32 \<times> u32 \<times> u32 \<times> u32"

definition md5_loop_F :: "u32 list \<Rightarrow> quad \<Rightarrow> nat \<Rightarrow> quad" where
  "md5_loop_F m s i = (case s of (a, b, c, d) \<Rightarrow>
     let a = b + ROTL (a + md5_F b c d + m ! (i + 0) + md5_K ! (i + 0)) 7;
         d = a + ROTL (d + md5_F a b c + m ! (i + 1) + md5_K ! (i + 1)) 12;
         c = d + ROTL (c + md5_F d a b + m ! (i + 2) + md5_K ! (i + 2)) 17;
         b = c + ROTL (b + md5_F c d a + m ! (i + 3) + md5_K ! (i + 3)) 22
     in (a, b, c, d))"

definition md5_loop_G :: "u32 list \<Rightarrow> quad \<Rightarrow> nat \<Rightarrow> quad" where
  "md5_loop_G m s i = (case s of (a, b, c, d) \<Rightarrow>
     let a = b + ROTL (a + md5_G b c d + m ! (md5_MP ! (i - 16)) + md5_K ! (i + 0)) 5;
         d = a + ROTL (d + md5_G a b c + m ! (md5_MP ! (i - 15)) + md5_K ! (i + 1)) 9;
         c = d + ROTL (c + md5_G d a b + m ! (md5_MP ! (i - 14)) + md5_K ! (i + 2)) 14;
         b = c + ROTL (b + md5_G c d a + m ! (md5_MP ! (i - 13)) + md5_K ! (i + 3)) 20
     in (a, b, c, d))"

definition md5_loop_H :: "u32 list \<Rightarrow> quad \<Rightarrow> nat \<Rightarrow> quad" where
  "md5_loop_H m s i = (case s of (a, b, c, d) \<Rightarrow>
     let a = b + ROTL (a + md5_H b c d + m ! (md5_MP ! (i - 16)) + md5_K ! (i + 0)) 4;
         d = a + ROTL (d + md5_H a b c + m ! (md5_MP ! (i - 15)) + md5_K ! (i + 1)) 11;
         c = d + ROTL (c + md5_H d a b + m ! (md5_MP ! (i - 14)) + md5_K ! (i + 2)) 16;
         b = c + ROTL (b + md5_H c d a + m ! (md5_MP ! (i - 13)) + md5_K ! (i + 3)) 23
     in (a, b, c, d))"

definition md5_loop_I :: "u32 list \<Rightarrow> quad \<Rightarrow> nat \<Rightarrow> quad" where
  "md5_loop_I m s i = (case s of (a, b, c, d) \<Rightarrow>
     let a = b + ROTL (a + md5_I b c d + m ! (md5_MP ! (i - 16)) + md5_K ! (i + 0)) 6;
         d = a + ROTL (d + md5_I a b c + m ! (md5_MP ! (i - 15)) + md5_K ! (i + 1)) 10;
         c = d + ROTL (c + md5_I d a b + m ! (md5_MP ! (i - 14)) + md5_K ! (i + 2)) 15;
         b = c + ROTL (b + md5_I c d a + m ! (md5_MP ! (i - 13)) + md5_K ! (i + 3)) 21
     in (a, b, c, d))"

definition br_md5_round :: "u8 list \<Rightarrow> u32 list \<Rightarrow> u32 list" where
  "br_md5_round buf val =
     (let m = br_range_dec32le 16 buf;
          s = (val ! 0, val ! 1, val ! 2, val ! 3);
          s = foldl (md5_loop_F m) s [0, 4, 8, 12];
          s = foldl (md5_loop_G m) s [16, 20, 24, 28];
          s = foldl (md5_loop_H m) s [32, 36, 40, 44];
          (a, b, c, d) = foldl (md5_loop_I m) s [48, 52, 56, 60]
      in [val ! 0 + a, val ! 1 + b, val ! 2 + c, val ! 3 + d])"

section \<open>The compression function of RFC 1321\<close>

text \<open>One of 64 equal steps; the constants are the table \<open>md5_K\<close>.\<close>

definition rfc_md5_f :: "nat \<Rightarrow> u32 \<Rightarrow> u32 \<Rightarrow> u32 \<Rightarrow> u32" where
  "rfc_md5_f t x y z = (if t < 16 then (x AND y) OR (NOT x AND z) else if t < 32 then (x AND z) OR (y AND NOT z)
     else if t < 48 then x XOR y XOR z else y XOR (x OR NOT z))"

definition rfc_md5_k :: "nat \<Rightarrow> nat" where
  "rfc_md5_k t = (if t < 16 then t else if t < 32 then (5 * t + 1) mod 16 else if t < 48 then (3 * t + 5) mod 16 else 7 * t mod 16)"

definition rfc_md5_s :: "nat \<Rightarrow> nat" where
  "rfc_md5_s t = (if t < 16 then [7, 12, 17, 22] else if t < 32 then [5, 9, 14, 20] else if t < 48 then [4, 11, 16, 23]
     else [6, 10, 15, 21]) ! (t mod 4)"

definition rfc_md5_step :: "u32 list \<Rightarrow> quad \<Rightarrow> nat \<Rightarrow> quad" where
  "rfc_md5_step m s t = (case s of (a, b, c, d) \<Rightarrow>
     (d, b + word_rotl (rfc_md5_s t) (a + rfc_md5_f t b c d + m ! rfc_md5_k t + md5_K ! t), b, c))"

definition rfc_md5_compress :: "u8 list \<Rightarrow> u32 list \<Rightarrow> u32 list" where
  "rfc_md5_compress block h =
     (case foldl (rfc_md5_step (br_range_dec32le 16 block)) (h ! 0, h ! 1, h ! 2, h ! 3) [0..<64] of
        (a, b, c, d) \<Rightarrow> [h ! 0 + a, h ! 1 + b, h ! 2 + c, h ! 3 + d])"

lemma md5_fs:
  "md5_F x y z = (x AND y) OR (NOT x AND z)" "md5_G x y z = (x AND z) OR (y AND NOT z)" "md5_H x y z = x XOR y XOR z"
  unfolding md5_F_def md5_G_def md5_H_def by (rule bit_word_eqI; auto simp: bit_simps)+

lemma rfc_md5_step_eq:
  "rfc_md5_step m (a, b, c, d) t = (let x = b + word_rotl (rfc_md5_s t) (a + rfc_md5_f t b c d + m ! rfc_md5_k t + md5_K ! t) in (d, x, b, c))"
  by (simp add: rfc_md5_step_def)

lemma rfc_md5_step_let: "rfc_md5_step m (Let e g) t = Let e (\<lambda>x. rfc_md5_step m (g x) t)"
  by simp

lemmas md5_group_simps = ROTL_rotl md5_fs md5_I_def rfc_md5_f_def rfc_md5_s_def rfc_md5_k_def md5_MP_def

lemma md5_group_F: "i \<in> set [0, 4, 8, 12] \<Longrightarrow> foldl (rfc_md5_step m) (a, b, c, d) [i, i + 1, i + 2, i + 3] = md5_loop_F m (a, b, c, d) i"
  unfolding foldl.simps rfc_md5_step_eq rfc_md5_step_let md5_loop_F_def prod.case list.set insert_iff empty_iff
  by (elim disjE; simp only:; simp add: md5_group_simps)

lemma md5_group_G: "i \<in> set [16, 20, 24, 28] \<Longrightarrow> foldl (rfc_md5_step m) (a, b, c, d) [i, i + 1, i + 2, i + 3] = md5_loop_G m (a, b, c, d) i"
  unfolding foldl.simps rfc_md5_step_eq rfc_md5_step_let md5_loop_G_def prod.case list.set insert_iff empty_iff
  by (elim disjE; simp only:; simp add: md5_group_simps)

lemma md5_group_H: "i \<in> set [32, 36, 40, 44] \<Longrightarrow> foldl (rfc_md5_step m) (a, b, c, d) [i, i + 1, i + 2, i + 3] = md5_loop_H m (a, b, c, d) i"
  unfolding foldl.simps rfc_md5_step_eq rfc_md5_step_let md5_loop_H_def prod.case list.set insert_iff empty_iff
  by (elim disjE; simp only:; simp add: md5_group_simps)

lemma md5_group_I: "i \<in> set [48, 52, 56, 60] \<Longrightarrow> foldl (rfc_md5_step m) (a, b, c, d) [i, i + 1, i + 2, i + 3] = md5_loop_I m (a, b, c, d) i"
  unfolding foldl.simps rfc_md5_step_eq rfc_md5_step_let md5_loop_I_def prod.case list.set insert_iff empty_iff
  by (elim disjE; simp only:; simp add: md5_group_simps)

lemma br_md5_round_rfc: "br_md5_round buf val = rfc_md5_compress buf val"
proof -
  let ?m = "br_range_dec32le 16 buf"
  let ?step = "\<lambda>s i. foldl (rfc_md5_step ?m) s [i, i + 1, i + 2, i + 3]"
  have part: "foldl (rfc_md5_step ?m) s [4 * a..<4 * a + 4 * 4] = foldl ?step s (map (\<lambda>j. 4 * j) [a..<a + 4])" for s a
    by (simp only: foldl_groups upt_group)
  have l: "[0..<64] = [4 * 0..<4 * 0 + 4 * 4] @ [4 * 4..<4 * 4 + 4 * 4] @ [4 * 8..<4 * 8 + 4 * 4] @ [4 * 12..<4 * 12 + 4 * (4 :: nat)]"
    by code_simp
  have F: "foldl ?step s [0, 4, 8, 12] = foldl (md5_loop_F ?m) s [0, 4, 8, 12]" for s
    by (rule foldl_group_cong, case_tac s) (simp only: md5_group_F)
  have G: "foldl ?step s [16, 20, 24, 28] = foldl (md5_loop_G ?m) s [16, 20, 24, 28]" for s
    by (rule foldl_group_cong, case_tac s) (simp only: md5_group_G)
  have H: "foldl ?step s [32, 36, 40, 44] = foldl (md5_loop_H ?m) s [32, 36, 40, 44]" for s
    by (rule foldl_group_cong, case_tac s) (simp only: md5_group_H)
  have I: "foldl ?step s [48, 52, 56, 60] = foldl (md5_loop_I ?m) s [48, 52, 56, 60]" for s
    by (rule foldl_group_cong, case_tac s) (simp only: md5_group_I)
  have m: "map (\<lambda>j. 4 * j) [0..<0 + 4] = [0, 4, 8, 12 :: nat]" "map (\<lambda>j. 4 * j) [4..<4 + 4] = [16, 20, 24, 28 :: nat]"
    "map (\<lambda>j. 4 * j) [8..<8 + 4] = [32, 36, 40, 44 :: nat]" "map (\<lambda>j. 4 * j) [12..<12 + 4] = [48, 52, 56, 60 :: nat]"
    by (simp_all add: upt_rec)
  show ?thesis
    unfolding rfc_md5_compress_def br_md5_round_def Let_def l foldl_append part m F G H I ..
qed

section \<open>The hash function\<close>

type_synonym br_md5_context = "u32 list hash_context"

definition br_md5_init :: "br_md5_context \<Rightarrow> br_md5_context" where
  "br_md5_init cc = cc\<lparr>hval := br_md5_IV, hcount := 0\<rparr>"

definition br_md5_update :: "br_md5_context \<Rightarrow> u8 list \<Rightarrow> br_md5_context" where
  "br_md5_update = hash_update 64 br_md5_round"

definition br_md5_out :: "br_md5_context \<Rightarrow> u8 list" where
  "br_md5_out cc =
     (let (buf, val) = hash_pad 64 8 br_md5_round cc;
          val = br_md5_round (buf @ br_enc64le (shl (hcount cc) 3)) val
      in br_range_enc32le val)"

definition br_md5_state :: "br_md5_context \<Rightarrow> u8 list \<times> u64" where
  "br_md5_state cc = (br_range_enc32le (hval cc), hcount cc)"

definition br_md5_set_state :: "br_md5_context \<Rightarrow> u8 list \<Rightarrow> u64 \<Rightarrow> br_md5_context" where
  "br_md5_set_state cc stb cnt = cc\<lparr>hval := br_range_dec32le 4 stb, hcount := cnt\<rparr>"

definition br_md5_vtable :: "br_md5_context br_hash_class" where
  "br_md5_vtable = \<lparr>hc_ctx = \<lparr>hbuf = replicate 64 0, hcount = 0, hval = replicate 4 0\<rparr>,
     hc_desc = BR_HASHDESC_ID 1 OR BR_HASHDESC_OUT 16 OR BR_HASHDESC_STATE 16 OR BR_HASHDESC_LBLEN 6 OR BR_HASHDESC_MD_PADDING,
     hc_init = br_md5_init, hc_update = br_md5_update, hc_out = br_md5_out, hc_state = br_md5_state,
     hc_set_state = br_md5_set_state\<rparr>"

text \<open>Reference: RFC 1321 on a message; the length field holds the number of bits modulo \<open>2^64\<close>.\<close>

definition md5_chain :: "u8 list \<Rightarrow> u32 list" where
  "md5_chain = md_fold 64 rfc_md5_compress br_md5_IV"

definition md5 :: "u8 list \<Rightarrow> u8 list" where
  "md5 m = br_range_enc32le (md5_chain (m @ md_padding 64 8 (length m) @ br_enc64le (of_nat (8 * length m))))"

lemma br_md5_round_eq: "br_md5_round = rfc_md5_compress"
  by (intro ext br_md5_round_rfc)

lemma length_md5_fold: "length (md_fold B rfc_md5_compress br_md5_IV m) = 4"
  by (rule md_fold_invariant) (simp_all add: rfc_md5_compress_def br_md5_IV_def split: prod.split)

lemmas md5_class_defs = br_md5_vtable_def br_md5_init_def br_md5_update_def br_md5_out_def br_md5_state_def br_md5_set_state_def

interpretation md5: md_class br_md5_vtable 6 8 rfc_md5_compress br_md5_IV br_range_enc32le "br_range_dec32le 4" br_range_enc32le
  "\<lambda>n. br_enc64le (shl n 3)"
proof (unfold_locales, goal_cases)
  case (7 m x) then show ?case
    using range_dec_append(1) [of "md_fold 64 rfc_md5_compress br_md5_IV m" x] by (simp add: length_md5_fold)
qed (simp_all add: md5_class_defs br_md5_round_eq length_md5_fold block_size_def br_digest_size_def hashdesc_defs Let_def split: prod.split)

lemma md5_impl: "hash_impl br_md5_vtable md5.rep (\<lambda>m. br_range_enc32le (md5_chain m)) md5"
  using md5.hash_impl_axioms by (simp add: md5_def [abs_def] md5_chain_def push_bit_eq_mult mult.commute)

interpretation md5_hash: hash_impl br_md5_vtable md5.rep "\<lambda>m. br_range_enc32le (md5_chain m)" md5
  by (rule md5_impl)

end
