(* ===== verification/Hash_SHA1.thy ===== *)
theory Hash_SHA1
  imports Hash_MD5
begin

text \<open>SHA-1, \<^verbatim>\<open>src/hash/sha1.c\<close>, and its equivalence with FIPS 180-4. The pair MD5/SHA-1 of TLS 1.0, \<^verbatim>\<open>src/hash/md5sha1.c\<close>.\<close>

definition sha1_F :: "u32 \<Rightarrow> u32 \<Rightarrow> u32 \<Rightarrow> u32" where "sha1_F B C D = ((C XOR D) AND B) XOR D"
definition sha1_G :: "u32 \<Rightarrow> u32 \<Rightarrow> u32 \<Rightarrow> u32" where "sha1_G B C D = B XOR C XOR D"
definition sha1_H :: "u32 \<Rightarrow> u32 \<Rightarrow> u32 \<Rightarrow> u32" where "sha1_H B C D = (D AND C) OR ((D OR C) AND B)"
definition sha1_I :: "u32 \<Rightarrow> u32 \<Rightarrow> u32 \<Rightarrow> u32" where "sha1_I B C D = sha1_G B C D"

definition sha1_K1 :: u32 where "sha1_K1 = 0x5A827999"
definition sha1_K2 :: u32 where "sha1_K2 = 0x6ED9EBA1"
definition sha1_K3 :: u32 where "sha1_K3 = 0x8F1BBCDC"
definition sha1_K4 :: u32 where "sha1_K4 = 0xCA62C1D6"

definition br_sha1_IV :: "u32 list" where
  "br_sha1_IV = [0x67452301, 0xEFCDAB89, 0x98BADCFE, 0x10325476, 0xC3D2E1F0]"

type_synonym quint = "u32 \<times> u32 \<times> u32 \<times> u32 \<times> u32"

text \<open>The body of the four loops, five steps with the roles of the variables rotated.\<close>

definition sha1_loop :: "(u32 \<Rightarrow> u32 \<Rightarrow> u32 \<Rightarrow> u32) \<Rightarrow> u32 \<Rightarrow> u32 list \<Rightarrow> quint \<Rightarrow> nat \<Rightarrow> quint" where
  "sha1_loop F K m s i = (case s of (a, b, c, d, e) \<Rightarrow>
     let e = e + (ROTL a 5 + F b c d + K + m ! (i + 0)); b = ROTL b 30;
         d = d + (ROTL e 5 + F a b c + K + m ! (i + 1)); a = ROTL a 30;
         c = c + (ROTL d 5 + F e a b + K + m ! (i + 2)); e = ROTL e 30;
         b = b + (ROTL c 5 + F d e a + K + m ! (i + 3)); d = ROTL d 30;
         a = a + (ROTL b 5 + F c d e + K + m ! (i + 4)); c = ROTL c 30
     in (a, b, c, d, e))"

definition sha1_expand :: "u32 list \<Rightarrow> nat \<Rightarrow> u32" where
  "sha1_expand m i = (let x = m ! (i - 3) XOR m ! (i - 8) XOR m ! (i - 14) XOR m ! (i - 16) in ROTL x 1)"

definition sha1_schedule :: "u8 list \<Rightarrow> u32 list" where
  "sha1_schedule buf = foldl (\<lambda>m i. m @ [sha1_expand m i]) (br_range_dec32be 16 buf) [16..<80]"

definition br_sha1_round :: "u8 list \<Rightarrow> u32 list \<Rightarrow> u32 list" where
  "br_sha1_round buf val =
     (let m = sha1_schedule buf;
          s = (val ! 0, val ! 1, val ! 2, val ! 3, val ! 4);
          s = foldl (sha1_loop sha1_F sha1_K1 m) s [0, 5, 10, 15];
          s = foldl (sha1_loop sha1_G sha1_K2 m) s [20, 25, 30, 35];
          s = foldl (sha1_loop sha1_H sha1_K3 m) s [40, 45, 50, 55];
          (a, b, c, d, e) = foldl (sha1_loop sha1_I sha1_K4 m) s [60, 65, 70, 75]
      in [val ! 0 + a, val ! 1 + b, val ! 2 + c, val ! 3 + d, val ! 4 + e])"

section \<open>The compression function of FIPS 180-4\<close>

definition fips_Ch :: "'a::len word \<Rightarrow> 'a word \<Rightarrow> 'a word \<Rightarrow> 'a word" where
  "fips_Ch x y z = (x AND y) XOR (NOT x AND z)"

definition fips_Maj :: "'a::len word \<Rightarrow> 'a word \<Rightarrow> 'a word \<Rightarrow> 'a word" where
  "fips_Maj x y z = (x AND y) XOR (x AND z) XOR (y AND z)"

definition fips_sha1_f :: "nat \<Rightarrow> u32 \<Rightarrow> u32 \<Rightarrow> u32 \<Rightarrow> u32" where
  "fips_sha1_f t x y z = (if t < 20 then fips_Ch x y z else if t < 40 then x XOR y XOR z
     else if t < 60 then fips_Maj x y z else x XOR y XOR z)"

definition fips_sha1_K :: "nat \<Rightarrow> u32" where
  "fips_sha1_K t = (if t < 20 then 0x5A827999 else if t < 40 then 0x6ED9EBA1 else if t < 60 then 0x8F1BBCDC else 0xCA62C1D6)"

fun fips_sha1_W :: "u32 list \<Rightarrow> nat \<Rightarrow> u32" where
  "fips_sha1_W M t = (if t < 16 then M ! t
     else word_rotl 1 (fips_sha1_W M (t - 3) XOR fips_sha1_W M (t - 8) XOR fips_sha1_W M (t - 14) XOR fips_sha1_W M (t - 16)))"

declare fips_sha1_W.simps [simp del]

definition fips_sha1_step :: "u32 list \<Rightarrow> quint \<Rightarrow> nat \<Rightarrow> quint" where
  "fips_sha1_step M s t = (case s of (a, b, c, d, e) \<Rightarrow>
     (word_rotl 5 a + fips_sha1_f t b c d + e + fips_sha1_K t + fips_sha1_W M t, a, word_rotl 30 b, c, d))"

definition fips_sha1_compress :: "u8 list \<Rightarrow> u32 list \<Rightarrow> u32 list" where
  "fips_sha1_compress block h =
     (case foldl (fips_sha1_step (br_range_dec32be 16 block)) (h ! 0, h ! 1, h ! 2, h ! 3, h ! 4) [0..<80] of
        (a, b, c, d, e) \<Rightarrow> [h ! 0 + a, h ! 1 + b, h ! 2 + c, h ! 3 + d, h ! 4 + e])"

lemma ch_maj:
  fixes x :: "'a::len word"
  shows "((y XOR z) AND x) XOR z = fips_Ch x y z" and "(y AND z) OR ((y OR z) AND x) = fips_Maj x y z"
  unfolding fips_Ch_def fips_Maj_def by (rule bit_word_eqI; auto simp: bit_simps)+

lemma sha1_fs: "sha1_F = fips_Ch" "sha1_G x y z = x XOR y XOR z" "sha1_H = fips_Maj" "sha1_I x y z = x XOR y XOR z"
  by (simp_all add: fun_eq_iff sha1_F_def sha1_G_def sha1_H_def sha1_I_def ch_maj [symmetric] and.commute or.commute)

lemma sha1_schedule_fips: "sha1_schedule buf = map (fips_sha1_W (br_range_dec32be 16 buf)) [0..<80]"
proof -
  let ?W = "fips_sha1_W (br_range_dec32be 16 buf)"
  have M: "br_range_dec32be 16 buf = map ?W [0..<16]"
    by (rule nth_equalityI) (simp_all add: fips_sha1_W.simps)
  have W: "sha1_expand (map ?W [0..<i]) i = ?W i" if "16 \<le> i" for i
    using that by (subst fips_sha1_W.simps [of _ i]) (simp add: sha1_expand_def ROTL_rotl)
  have n: "16 + 64 = (80 :: nat)" by simp
  show ?thesis using foldl_schedule [of _ ?W sha1_expand, OF M W, of 64] unfolding n sha1_schedule_def .
qed

lemma fips_sha1_step_eq:
  "fips_sha1_step M (a, b, c, d, e) t =
    (let x = e + (ROTL a 5 + fips_sha1_f t b c d + fips_sha1_K t + fips_sha1_W M t) in let y = ROTL b 30 in (x, a, y, c, d))"
  by (simp add: fips_sha1_step_def ROTL_rotl add.commute add.left_commute)

lemma fips_sha1_step_let: "fips_sha1_step m (Let e g) t = Let e (\<lambda>x. fips_sha1_step m (g x) t)"
  by simp

lemma sha1_group:
  assumes "\<And>j x y z. j < 5 \<Longrightarrow> fips_sha1_f (i + j) x y z = F x y z" and "\<And>j. j < 5 \<Longrightarrow> fips_sha1_K (i + j) = K"
    and "\<And>j. j < 5 \<Longrightarrow> m ! (i + j) = fips_sha1_W M (i + j)"
  shows "foldl (fips_sha1_step M) (a, b, c, d, e) [i..<i + 5] = sha1_loop F K m (a, b, c, d, e) i"
proof -
  have f: "fips_sha1_f i x y z = F x y z" "fips_sha1_K i = K" "m ! i = fips_sha1_W M i" for x y z
    using assms [of 0] by simp_all
  show ?thesis
  unfolding upt_group foldl.simps fips_sha1_step_eq fips_sha1_step_let sha1_loop_def prod.case
  by (simp add: f assms [of 1, simplified] assms [of 2, simplified] assms [of 3, simplified] assms [of 4, simplified])
qed

lemma br_sha1_round_fips: "br_sha1_round buf val = fips_sha1_compress buf val"
proof -
  let ?M = "br_range_dec32be 16 buf" and ?m = "sha1_schedule buf"
  have part: "foldl (fips_sha1_step ?M) s [5 * a..<5 * a + 5 * 4] =
      foldl (\<lambda>s i. foldl (fips_sha1_step ?M) s [i..<i + 5]) s (map (\<lambda>j. 5 * j) [a..<a + 4])" for s a
    by (rule foldl_groups)
  have l: "[0..<80] = [5 * 0..<5 * 0 + 5 * 4] @ [5 * 4..<5 * 4 + 5 * 4] @ [5 * 8..<5 * 8 + 5 * 4] @ [5 * 12..<5 * 12 + 5 * (4 :: nat)]"
    by code_simp
  have m: "map (\<lambda>j. 5 * j) [0..<0 + 4] = [0, 5, 10, 15 :: nat]" "map (\<lambda>j. 5 * j) [4..<4 + 4] = [20, 25, 30, 35 :: nat]"
    "map (\<lambda>j. 5 * j) [8..<8 + 4] = [40, 45, 50, 55 :: nat]" "map (\<lambda>j. 5 * j) [12..<12 + 4] = [60, 65, 70, 75 :: nat]"
    by (simp_all add: upt_rec)
  have group: "foldl (\<lambda>s i. foldl (fips_sha1_step ?M) s [i..<i + 5]) s is = foldl (sha1_loop F K ?m) s is"
    if "\<And>i j x y z. i \<in> set is \<Longrightarrow> j < 5 \<Longrightarrow> fips_sha1_f (i + j) x y z = F x y z"
      "\<And>i j. i \<in> set is \<Longrightarrow> j < 5 \<Longrightarrow> fips_sha1_K (i + j) = K" "\<And>i. i \<in> set is \<Longrightarrow> i \<le> 75" for s "is" F K
  proof (rule foldl_group_cong)
    fix s :: quint and i assume i: "i \<in> set is"
    have "?m ! (i + j) = fips_sha1_W ?M (i + j)" if "j < 5" for j
      using that \<open>\<And>i. i \<in> set is \<Longrightarrow> i \<le> 75\<close> [OF i] by (simp add: sha1_schedule_fips)
    then show "foldl (fips_sha1_step ?M) s [i..<i + 5] = sha1_loop F K ?m s i"
      using that(1,2) [OF i] by (cases s) (simp only: sha1_group)
  qed
  note defs = fips_sha1_f_def fips_sha1_K_def sha1_fs sha1_K1_def sha1_K2_def sha1_K3_def sha1_K4_def
  show ?thesis
    unfolding fips_sha1_compress_def br_sha1_round_def Let_def l foldl_append part m
    by (subst (1 2 3 4) group) (auto simp: defs)
qed

section \<open>The hash function\<close>

type_synonym br_sha1_context = "u32 list hash_context"

definition br_sha1_init :: "br_sha1_context \<Rightarrow> br_sha1_context" where
  "br_sha1_init cc = cc\<lparr>hval := br_sha1_IV, hcount := 0\<rparr>"

definition br_sha1_update :: "br_sha1_context \<Rightarrow> u8 list \<Rightarrow> br_sha1_context" where
  "br_sha1_update = hash_update 64 br_sha1_round"

definition br_sha1_out :: "br_sha1_context \<Rightarrow> u8 list" where
  "br_sha1_out cc =
     (let (buf, val) = hash_pad 64 8 br_sha1_round cc;
          val = br_sha1_round (buf @ br_enc64be (shl (hcount cc) 3)) val
      in br_range_enc32be val)"

definition br_sha1_state :: "br_sha1_context \<Rightarrow> u8 list \<times> u64" where
  "br_sha1_state cc = (br_range_enc32be (hval cc), hcount cc)"

definition br_sha1_set_state :: "br_sha1_context \<Rightarrow> u8 list \<Rightarrow> u64 \<Rightarrow> br_sha1_context" where
  "br_sha1_set_state cc stb cnt = cc\<lparr>hval := br_range_dec32be 5 stb, hcount := cnt\<rparr>"

definition br_sha1_vtable :: "br_sha1_context br_hash_class" where
  "br_sha1_vtable = \<lparr>hc_ctx = \<lparr>hbuf = replicate 64 0, hcount = 0, hval = replicate 5 0\<rparr>,
     hc_desc = BR_HASHDESC_ID 2 OR BR_HASHDESC_OUT 20 OR BR_HASHDESC_STATE 20 OR BR_HASHDESC_LBLEN 6 OR BR_HASHDESC_MD_PADDING
       OR BR_HASHDESC_MD_PADDING_BE,
     hc_init = br_sha1_init, hc_update = br_sha1_update, hc_out = br_sha1_out, hc_state = br_sha1_state,
     hc_set_state = br_sha1_set_state\<rparr>"

definition sha1_chain :: "u8 list \<Rightarrow> u32 list" where
  "sha1_chain = md_fold 64 fips_sha1_compress br_sha1_IV"

definition sha1 :: "u8 list \<Rightarrow> u8 list" where
  "sha1 m = br_range_enc32be (sha1_chain (m @ md_padding 64 8 (length m) @ br_enc64be (of_nat (8 * length m))))"

lemma br_sha1_round_eq: "br_sha1_round = fips_sha1_compress"
  by (intro ext br_sha1_round_fips)

lemma length_sha1_fold: "length (md_fold B fips_sha1_compress br_sha1_IV m) = 5"
  by (rule md_fold_invariant) (simp_all add: fips_sha1_compress_def br_sha1_IV_def split: prod.split)

lemmas sha1_class_defs = br_sha1_vtable_def br_sha1_init_def br_sha1_update_def br_sha1_out_def br_sha1_state_def br_sha1_set_state_def

interpretation sha1: md_class br_sha1_vtable 6 8 fips_sha1_compress br_sha1_IV br_range_enc32be "br_range_dec32be 5" br_range_enc32be
  "\<lambda>n. br_enc64be (shl n 3)"
proof (unfold_locales, goal_cases)
  case (7 m x) then show ?case
    using range_dec_append(2) [of "md_fold 64 fips_sha1_compress br_sha1_IV m" x] by (simp add: length_sha1_fold)
qed (simp_all add: sha1_class_defs br_sha1_round_eq length_sha1_fold block_size_def br_digest_size_def hashdesc_defs Let_def split: prod.split)

lemma sha1_impl: "hash_impl br_sha1_vtable sha1.rep (\<lambda>m. br_range_enc32be (sha1_chain m)) sha1"
  using sha1.hash_impl_axioms by (simp add: sha1_def [abs_def] sha1_chain_def push_bit_eq_mult mult.commute)

interpretation sha1_hash: hash_impl br_sha1_vtable sha1.rep "\<lambda>m. br_range_enc32be (sha1_chain m)" sha1
  by (rule sha1_impl)

section \<open>MD5 and SHA-1 together (md5sha1.c)\<close>

type_synonym br_md5sha1_context = "(u32 list \<times> u32 list) hash_context"

definition md5sha1_round :: "u8 list \<Rightarrow> u32 list \<times> u32 list \<Rightarrow> u32 list \<times> u32 list" where
  "md5sha1_round = (\<lambda>buf (val_md5, val_sha1). (br_md5_round buf val_md5, br_sha1_round buf val_sha1))"

definition br_md5sha1_init :: "br_md5sha1_context \<Rightarrow> br_md5sha1_context" where
  "br_md5sha1_init cc = cc\<lparr>hval := (br_md5_IV, br_sha1_IV), hcount := 0\<rparr>"

definition br_md5sha1_update :: "br_md5sha1_context \<Rightarrow> u8 list \<Rightarrow> br_md5sha1_context" where
  "br_md5sha1_update = hash_update 64 md5sha1_round"

definition br_md5sha1_out :: "br_md5sha1_context \<Rightarrow> u8 list" where
  "br_md5sha1_out cc =
     (let (buf, val_md5, val_sha1) = hash_pad 64 8 md5sha1_round cc;
          cnt = shl (hcount cc) 3;
          val_md5 = br_md5_round (buf @ br_enc64le cnt) val_md5;
          val_sha1 = br_sha1_round (buf @ br_enc64be cnt) val_sha1
      in br_range_enc32le val_md5 @ br_range_enc32be val_sha1)"

definition br_md5sha1_state :: "br_md5sha1_context \<Rightarrow> u8 list \<times> u64" where
  "br_md5sha1_state cc = (br_range_enc32le (fst (hval cc)) @ br_range_enc32be (snd (hval cc)), hcount cc)"

definition br_md5sha1_set_state :: "br_md5sha1_context \<Rightarrow> u8 list \<Rightarrow> u64 \<Rightarrow> br_md5sha1_context" where
  "br_md5sha1_set_state cc stb cnt = cc\<lparr>hval := (br_range_dec32le 4 stb, br_range_dec32be 5 (drop 16 stb)), hcount := cnt\<rparr>"

definition br_md5sha1_vtable :: "br_md5sha1_context br_hash_class" where
  "br_md5sha1_vtable = \<lparr>hc_ctx = \<lparr>hbuf = replicate 64 0, hcount = 0, hval = (replicate 4 0, replicate 5 0)\<rparr>,
     hc_desc = BR_HASHDESC_ID 0 OR BR_HASHDESC_OUT 36 OR BR_HASHDESC_STATE 36 OR BR_HASHDESC_LBLEN 6,
     hc_init = br_md5sha1_init, hc_update = br_md5sha1_update, hc_out = br_md5sha1_out, hc_state = br_md5sha1_state,
     hc_set_state = br_md5sha1_set_state\<rparr>"

abbreviation md5sha1_rep :: "br_md5sha1_context \<Rightarrow> u8 list \<Rightarrow> bool" where
  "md5sha1_rep \<equiv> absorbed (2 ^ 6) md5sha1_round (br_md5_IV, br_sha1_IV)"

abbreviation md5sha1_sb :: "u8 list \<Rightarrow> u8 list" where
  "md5sha1_sb m \<equiv> br_range_enc32le (md5_chain m) @ br_range_enc32be (sha1_chain m)"

lemma md5sha1_fold: "md_fold 64 md5sha1_round (br_md5_IV, br_sha1_IV) m = (md5_chain m, sha1_chain m)"
  unfolding md5sha1_round_def md5_chain_def sha1_chain_def br_md5_round_eq br_sha1_round_eq by (rule md_fold_pair)

lemma br_md5sha1_out_rep:
  assumes "md5sha1_rep cc m" shows "br_md5sha1_out cc = md5 m @ sha1 m"
proof -
  have n: "shl (hcount cc) 3 = of_nat (8 * length m)"
    using assms by (simp add: absorbed_def push_bit_eq_mult mult.commute)
  obtain b v w where p: "hash_pad 64 8 md5sha1_round cc = (b, v, w)" by (metis prod_cases3)
  have r: "md5sha1_round (b @ l) (v, w) = (md5_chain (m @ md_padding 64 8 (length m) @ l), sha1_chain (m @ md_padding 64 8 (length m) @ l))"
    if "length l = 8" for l
    using hash_pad_correct [OF assms, of 8 l] that by (simp add: p md5sha1_fold)
  note r = r [unfolded md5sha1_round_def prod.case prod.inject]
  from r [of "br_enc64le (shl (hcount cc) 3)"] r [of "br_enc64be (shl (hcount cc) 3)"] show ?thesis
    by (simp add: br_md5sha1_out_def p md5_def sha1_def n Let_def)
qed

lemma length_chains: "length (md5_chain m) = 4" "length (sha1_chain m) = 5"
  by (simp_all add: md5_chain_def sha1_chain_def length_md5_fold length_sha1_fold)

lemma md5sha1_sizes: "block_size br_md5sha1_vtable = 64" "br_digest_size br_md5sha1_vtable = 36"
  by (simp_all add: block_size_def br_digest_size_def br_md5sha1_vtable_def hashdesc_defs)

interpretation md5sha1: hash_impl br_md5sha1_vtable md5sha1_rep md5sha1_sb "\<lambda>m. md5 m @ sha1 m"
proof (unfold_locales, goal_cases)
  case (1 c m')
  then have "length (hbuf c) = 64" by (auto simp: br_md5sha1_vtable_def absorbed_def)
  then show ?case
    using absorbed_init [of c 64 md5sha1_round "(br_md5_IV, br_sha1_IV)"] by (simp add: br_md5sha1_vtable_def br_md5sha1_init_def)
next
  case (2 c m d) then show ?case
    using hash_update_absorbed(1) [of 6] by (simp add: br_md5sha1_vtable_def br_md5sha1_update_def)
next
  case (3 c m) then show ?case by (simp add: br_md5sha1_vtable_def br_md5sha1_out_rep)
next
  case (4 c m) then show ?case
    using md_fold_absorbed [OF 4] by (simp add: br_md5sha1_vtable_def br_md5sha1_state_def md5sha1_fold absorbed_def)
next
  case (5 c m' m x)
  then have c: "length (hbuf c) = 64" by (auto simp: br_md5sha1_vtable_def absorbed_def)
  have "br_range_dec32le 4 (md5sha1_sb m @ x) = md5_chain m" "br_range_dec32be 5 (drop 16 (md5sha1_sb m @ x)) = sha1_chain m"
    using range_dec_append(1) [of "md5_chain m" "br_range_enc32be (sha1_chain m) @ x"] range_dec_append(2) [of "sha1_chain m" x]
    by (simp_all add: length_chains)
  then show ?case
    using absorbed_resume [OF c, of m md5sha1_round "(br_md5_IV, br_sha1_IV)"] 5(2)
    by (simp add: md5sha1_sizes) (simp add: br_md5sha1_vtable_def br_md5sha1_set_state_def md5sha1_fold)
next
  case (6 m r) then show ?case by (simp add: md5sha1_sizes md5_chain_def sha1_chain_def md_fold_rest)
next
  case (7 m) then show ?case by (simp add: md5sha1_sizes md5_def sha1_def length_chains)
qed (simp_all add: md5sha1_sizes)

end
