(* ===== verification/Hash_SHA2.thy ===== *)
theory Hash_SHA2
  imports Hash_SHA1
begin

text \<open>SHA-224 and SHA-256, \<^verbatim>\<open>src/hash/sha2small.c\<close>, SHA-384 and SHA-512, \<^verbatim>\<open>src/hash/sha2big.c\<close>, and their equivalence with FIPS 180-4.\<close>

section \<open>FIPS 180-4, for words of either size\<close>

type_synonym 'a octuple = "'a word \<times> 'a word \<times> 'a word \<times> 'a word \<times> 'a word \<times> 'a word \<times> 'a word \<times> 'a word"

fun fips_sha2_W :: "('a::len word \<Rightarrow> 'a word) \<Rightarrow> ('a word \<Rightarrow> 'a word) \<Rightarrow> 'a word list \<Rightarrow> nat \<Rightarrow> 'a word" where
  "fips_sha2_W s0 s1 M t = (if t < 16 then M ! t
     else s1 (fips_sha2_W s0 s1 M (t - 2)) + fips_sha2_W s0 s1 M (t - 7) + s0 (fips_sha2_W s0 s1 M (t - 15)) + fips_sha2_W s0 s1 M (t - 16))"

declare fips_sha2_W.simps [simp del]

definition fips_sha2_step :: "('a::len word \<Rightarrow> 'a word) \<Rightarrow> ('a word \<Rightarrow> 'a word) \<Rightarrow> 'a word list \<Rightarrow> (nat \<Rightarrow> 'a word) \<Rightarrow>
    'a octuple \<Rightarrow> nat \<Rightarrow> 'a octuple" where
  "fips_sha2_step S0 S1 K W s t = (case s of (a, b, c, d, e, f, g, h) \<Rightarrow>
     let T1 = h + S1 e + fips_Ch e f g + K ! t + W t; T2 = S0 a + fips_Maj a b c in (T1 + T2, a, b, c, d + T1, e, f, g))"

definition fips_add :: "'a::len word list \<Rightarrow> 'a octuple \<Rightarrow> 'a word list" where
  "fips_add H s = (case s of (a, b, c, d, e, f, g, h) \<Rightarrow>
     [H ! 0 + a, H ! 1 + b, H ! 2 + c, H ! 3 + d, H ! 4 + e, H ! 5 + f, H ! 6 + g, H ! 7 + h])"

text \<open>The step macro of both files, with the functions and the sum \<open>K[j] + w[j]\<close> of the file, and eight of them in a row: the step
  writes its fourth and eighth argument, and the roles rotate.\<close>

definition SHA2_STEP :: "('a::len word \<Rightarrow> 'a word) \<Rightarrow> ('a word \<Rightarrow> 'a word) \<Rightarrow> 'a word list \<Rightarrow> 'a word list \<Rightarrow>
    'a word \<Rightarrow> 'a word \<Rightarrow> 'a word \<Rightarrow> 'a word \<Rightarrow> 'a word \<Rightarrow> 'a word \<Rightarrow> 'a word \<Rightarrow> 'a word \<Rightarrow> nat \<Rightarrow> 'a word \<times> 'a word" where
  "SHA2_STEP BSG0 BSG1 K w A B C D E F G H j =
     (let T1 = H + BSG1 E + (((F XOR G) AND E) XOR G) + K ! j + w ! j;
          T2 = BSG0 A + ((B AND C) OR ((B OR C) AND A))
      in (D + T1, T1 + T2))"

definition sha2_steps8 :: "('a::len word \<Rightarrow> 'a word) \<Rightarrow> ('a word \<Rightarrow> 'a word) \<Rightarrow> 'a word list \<Rightarrow> 'a word list \<Rightarrow>
    'a octuple \<Rightarrow> nat \<Rightarrow> 'a octuple" where
  "sha2_steps8 BSG0 BSG1 K w s i = (case s of (a, b, c, d, e, f, g, h) \<Rightarrow>
     let (d, h) = SHA2_STEP BSG0 BSG1 K w a b c d e f g h (i + 0);
         (c, g) = SHA2_STEP BSG0 BSG1 K w h a b c d e f g (i + 1);
         (b, f) = SHA2_STEP BSG0 BSG1 K w g h a b c d e f (i + 2);
         (a, e) = SHA2_STEP BSG0 BSG1 K w f g h a b c d e (i + 3);
         (h, d) = SHA2_STEP BSG0 BSG1 K w e f g h a b c d (i + 4);
         (g, c) = SHA2_STEP BSG0 BSG1 K w d e f g h a b c (i + 5);
         (f, b) = SHA2_STEP BSG0 BSG1 K w c d e f g h a b (i + 6);
         (e, a) = SHA2_STEP BSG0 BSG1 K w b c d e f g h a (i + 7)
     in (a, b, c, d, e, f, g, h))"

lemma fips_sha2_step_eq:
  "w ! t = W t \<Longrightarrow> fips_sha2_step S0 S1 K W (a, b, c, d, e, f, g, h) t =
     (case SHA2_STEP S0 S1 K w a b c d e f g h t of (d, h) \<Rightarrow> (h, a, b, c, d, e, f, g))"
  by (simp add: fips_sha2_step_def SHA2_STEP_def ch_maj Let_def)

lemma fips_sha2_step_case:
  "fips_sha2_step S0 S1 K W (case p of (x, y) \<Rightarrow> q x y) t = (case p of (x, y) \<Rightarrow> fips_sha2_step S0 S1 K W (q x y) t)"
  by (cases p) simp

lemma sha2_group:
  assumes w: "\<And>j. j < 8 \<Longrightarrow> w ! (i + j) = W (i + j)"
  shows "foldl (fips_sha2_step S0 S1 K W) s [i..<i + 8] = sha2_steps8 S0 S1 K w s i"
proof -
  have w': "w ! i = W i" "w ! (i + 1) = W (i + 1)" "w ! (i + 2) = W (i + 2)" "w ! (i + 3) = W (i + 3)" "w ! (i + 4) = W (i + 4)"
    "w ! (i + 5) = W (i + 5)" "w ! (i + 6) = W (i + 6)" "w ! (i + 7) = W (i + 7)"
    using w [of 0] w [of 1] w [of 2] w [of 3] w [of 4] w [of 5] w [of 6] w [of 7] by simp_all
  note e = fips_sha2_step_eq [of w _ W, where ?S0.0 = S0 and ?S1.0 = S1 and K = K]
  obtain a b c d e' f r where "s = (a, b, c, d, e', f, r)" by (rule prod_cases7)
  then obtain g h where s: "s = (a, b, c, d, e', f, g, h)" by (cases r) simp
  show ?thesis
    unfolding s upt_group foldl.simps e [OF w'(1)] e [OF w'(2)] e [OF w'(3)] e [OF w'(4)] e [OF w'(5)] e [OF w'(6)] e [OF w'(7)]
      e [OF w'(8)] fips_sha2_step_case sha2_steps8_def Let_def prod.case add_0_right
    by (rule refl)
qed

lemma sha2_rounds:
  assumes "\<And>t. t < 8 * n \<Longrightarrow> w ! t = W t"
  shows "foldl (sha2_steps8 S0 S1 K w) s (map (\<lambda>j. 8 * j) [0..<n]) = foldl (fips_sha2_step S0 S1 K W) s [0..<8 * n]"
proof -
  have "foldl (fips_sha2_step S0 S1 K W) s [8 * 0..<8 * 0 + 8 * n] =
      foldl (\<lambda>s i. foldl (fips_sha2_step S0 S1 K W) s [i..<i + 8]) s (map (\<lambda>j. 8 * j) [0..<0 + n])"
    by (rule foldl_groups)
  also have "\<dots> = foldl (sha2_steps8 S0 S1 K w) s (map (\<lambda>j. 8 * j) [0..<0 + n])"
    by (rule foldl_group_cong, rule sha2_group) (auto intro!: assms)
  finally show ?thesis by simp
qed

text \<open>The schedule of the files: 16 words of the block, then one word after the other.\<close>

definition sha2_expand :: "('a::len word \<Rightarrow> 'a word) \<Rightarrow> ('a word \<Rightarrow> 'a word) \<Rightarrow> 'a word list \<Rightarrow> nat \<Rightarrow> 'a word" where
  "sha2_expand SSG0 SSG1 w i = SSG1 (w ! (i - 2)) + w ! (i - 7) + SSG0 (w ! (i - 15)) + w ! (i - 16)"

lemma sha2_schedule:
  assumes "length M = 16"
  shows "foldl (\<lambda>w i. w @ [sha2_expand s0 s1 w i]) M [16..<16 + n] = map (fips_sha2_W s0 s1 M) [0..<16 + n]"
proof (rule foldl_schedule)
  show "M = map (fips_sha2_W s0 s1 M) [0..<16]"
    by (rule nth_equalityI) (simp_all add: assms fips_sha2_W.simps [of _ _ M])
  show "sha2_expand s0 s1 (map (fips_sha2_W s0 s1 M) [0..<i]) i = fips_sha2_W s0 s1 M i" if "16 \<le> i" for i
    using that by (subst fips_sha2_W.simps [of _ _ _ i]) (simp add: sha2_expand_def)
qed


section \<open>SHA-224 and SHA-256 (sha2small.c)\<close>

definition ROTR :: "u32 \<Rightarrow> nat \<Rightarrow> u32" where
  "ROTR x n = shl x (32 - n) OR shr x n"

definition BSG2_0 :: "u32 \<Rightarrow> u32" where "BSG2_0 x = ROTR x 2 XOR ROTR x 13 XOR ROTR x 22"
definition BSG2_1 :: "u32 \<Rightarrow> u32" where "BSG2_1 x = ROTR x 6 XOR ROTR x 11 XOR ROTR x 25"
definition SSG2_0 :: "u32 \<Rightarrow> u32" where "SSG2_0 x = ROTR x 7 XOR ROTR x 18 XOR shr x 3"
definition SSG2_1 :: "u32 \<Rightarrow> u32" where "SSG2_1 x = ROTR x 17 XOR ROTR x 19 XOR shr x 10"

definition br_sha224_IV :: "u32 list" where
  "br_sha224_IV = [
     0xC1059ED8, 0x367CD507, 0x3070DD17, 0xF70E5939, 0xFFC00B31, 0x68581511, 0x64F98FA7, 0xBEFA4FA4]"

definition br_sha256_IV :: "u32 list" where
  "br_sha256_IV = [
     0x6A09E667, 0xBB67AE85, 0x3C6EF372, 0xA54FF53A, 0x510E527F, 0x9B05688C, 0x1F83D9AB, 0x5BE0CD19]"

definition sha2small_K :: "u32 list" where
  "sha2small_K = [
     0x428A2F98, 0x71374491, 0xB5C0FBCF, 0xE9B5DBA5, 0x3956C25B, 0x59F111F1, 0x923F82A4, 0xAB1C5ED5,
     0xD807AA98, 0x12835B01, 0x243185BE, 0x550C7DC3, 0x72BE5D74, 0x80DEB1FE, 0x9BDC06A7, 0xC19BF174,
     0xE49B69C1, 0xEFBE4786, 0x0FC19DC6, 0x240CA1CC, 0x2DE92C6F, 0x4A7484AA, 0x5CB0A9DC, 0x76F988DA,
     0x983E5152, 0xA831C66D, 0xB00327C8, 0xBF597FC7, 0xC6E00BF3, 0xD5A79147, 0x06CA6351, 0x14292967,
     0x27B70A85, 0x2E1B2138, 0x4D2C6DFC, 0x53380D13, 0x650A7354, 0x766A0ABB, 0x81C2C92E, 0x92722C85,
     0xA2BFE8A1, 0xA81A664B, 0xC24B8B70, 0xC76C51A3, 0xD192E819, 0xD6990624, 0xF40E3585, 0x106AA070,
     0x19A4C116, 0x1E376C08, 0x2748774C, 0x34B0BCB5, 0x391C0CB3, 0x4ED8AA4A, 0x5B9CCA4F, 0x682E6FF3,
     0x748F82EE, 0x78A5636F, 0x84C87814, 0x8CC70208, 0x90BEFFFA, 0xA4506CEB, 0xBEF9A3F7, 0xC67178F2]"

definition br_sha2small_round :: "u8 list \<Rightarrow> u32 list \<Rightarrow> u32 list" where
  "br_sha2small_round buf val =
     (let w = foldl (\<lambda>w i. w @ [sha2_expand SSG2_0 SSG2_1 w i]) (br_range_dec32be 16 buf) [16..<64];
          s = (val ! 0, val ! 1, val ! 2, val ! 3, val ! 4, val ! 5, val ! 6, val ! 7);
          (a, b, c, d, e, f, g, h) = foldl (sha2_steps8 BSG2_0 BSG2_1 sha2small_K w) s [0, 8, 16, 24, 32, 40, 48, 56]
      in [val ! 0 + a, val ! 1 + b, val ! 2 + c, val ! 3 + d, val ! 4 + e, val ! 5 + f, val ! 6 + g, val ! 7 + h])"

type_synonym br_sha224_context = "u32 list hash_context"

definition sha2small_update :: "br_sha224_context \<Rightarrow> u8 list \<Rightarrow> br_sha224_context" where
  "sha2small_update = hash_update_ahead 64 br_sha2small_round"

definition sha2small_out :: "br_sha224_context \<Rightarrow> nat \<Rightarrow> u8 list" where
  "sha2small_out cc num =
     (let (buf, val) = hash_pad 64 8 br_sha2small_round cc;
          val = br_sha2small_round (buf @ br_enc64be (shl (hcount cc) 3)) val
      in br_range_enc32be (take num val))"

definition br_sha224_init :: "br_sha224_context \<Rightarrow> br_sha224_context" where
  "br_sha224_init cc = cc\<lparr>hval := br_sha224_IV, hcount := 0\<rparr>"

definition br_sha224_update :: "br_sha224_context \<Rightarrow> u8 list \<Rightarrow> br_sha224_context" where
  "br_sha224_update cc data = sha2small_update cc data"

definition br_sha224_out :: "br_sha224_context \<Rightarrow> u8 list" where
  "br_sha224_out cc = sha2small_out cc 7"

definition br_sha224_state :: "br_sha224_context \<Rightarrow> u8 list \<times> u64" where
  "br_sha224_state cc = (br_range_enc32be (hval cc), hcount cc)"

definition br_sha224_set_state :: "br_sha224_context \<Rightarrow> u8 list \<Rightarrow> u64 \<Rightarrow> br_sha224_context" where
  "br_sha224_set_state cc stb cnt = cc\<lparr>hval := br_range_dec32be 8 stb, hcount := cnt\<rparr>"

definition br_sha256_init :: "br_sha224_context \<Rightarrow> br_sha224_context" where
  "br_sha256_init cc = cc\<lparr>hval := br_sha256_IV, hcount := 0\<rparr>"

definition br_sha256_out :: "br_sha224_context \<Rightarrow> u8 list" where
  "br_sha256_out cc = sha2small_out cc 8"

text \<open>\<^verbatim>\<open>bearssl_hash.h\<close> defines the other functions of the second variant as names of those of the first.\<close>

definition br_sha224_vtable :: "br_sha224_context br_hash_class" where
  "br_sha224_vtable = \<lparr>hc_ctx = \<lparr>hbuf = replicate 64 0, hcount = 0, hval = replicate 8 0\<rparr>,
     hc_desc = BR_HASHDESC_ID 3 OR BR_HASHDESC_OUT 28 OR BR_HASHDESC_STATE 32 OR BR_HASHDESC_LBLEN 6 OR BR_HASHDESC_MD_PADDING
       OR BR_HASHDESC_MD_PADDING_BE,
     hc_init = br_sha224_init, hc_update = br_sha224_update, hc_out = br_sha224_out, hc_state = br_sha224_state,
     hc_set_state = br_sha224_set_state\<rparr>"

definition br_sha256_vtable :: "br_sha224_context br_hash_class" where
  "br_sha256_vtable = \<lparr>hc_ctx = \<lparr>hbuf = replicate 64 0, hcount = 0, hval = replicate 8 0\<rparr>,
     hc_desc = BR_HASHDESC_ID 4 OR BR_HASHDESC_OUT 32 OR BR_HASHDESC_STATE 32 OR BR_HASHDESC_LBLEN 6 OR BR_HASHDESC_MD_PADDING
       OR BR_HASHDESC_MD_PADDING_BE,
     hc_init = br_sha256_init, hc_update = br_sha224_update, hc_out = br_sha256_out, hc_state = br_sha224_state,
     hc_set_state = br_sha224_set_state\<rparr>"

text \<open>FIPS 180-4.\<close>

definition fips_sha256_compress :: "u8 list \<Rightarrow> u32 list \<Rightarrow> u32 list" where
  "fips_sha256_compress block H =
     (let W = fips_sha2_W (\<lambda>x. word_rotr 7 x XOR word_rotr 18 x XOR shr x 3) (\<lambda>x. word_rotr 17 x XOR word_rotr 19 x XOR shr x 10)
            (br_range_dec32be 16 block)
      in fips_add H (foldl (fips_sha2_step (\<lambda>x. word_rotr 2 x XOR word_rotr 13 x XOR word_rotr 22 x)
            (\<lambda>x. word_rotr 6 x XOR word_rotr 11 x XOR word_rotr 25 x) sha2small_K W)
          (H ! 0, H ! 1, H ! 2, H ! 3, H ! 4, H ! 5, H ! 6, H ! 7) [0..<64]))"

definition sha224_chain :: "u8 list \<Rightarrow> u32 list" where "sha224_chain = md_fold 64 fips_sha256_compress br_sha224_IV"
definition sha256_chain :: "u8 list \<Rightarrow> u32 list" where "sha256_chain = md_fold 64 fips_sha256_compress br_sha256_IV"

definition sha224 :: "u8 list \<Rightarrow> u8 list" where
  "sha224 m = br_range_enc32be (take 7 (sha224_chain (m @ md_padding 64 8 (length m) @ br_enc64be (of_nat (8 * length m)))))"

definition sha256 :: "u8 list \<Rightarrow> u8 list" where
  "sha256 m = br_range_enc32be (sha256_chain (m @ md_padding 64 8 (length m) @ br_enc64be (of_nat (8 * length m))))"

lemma ROTR_rotr: "0 < n \<Longrightarrow> n < 32 \<Longrightarrow> ROTR x n = word_rotr n x"
  using rotate_or [of "32 - n" x] by (simp add: ROTR_def word_rotl_eq_word_rotr)

lemma sha256_sigmas:
  "BSG2_0 = (\<lambda>x. word_rotr 2 x XOR word_rotr 13 x XOR word_rotr 22 x)"
  "BSG2_1 = (\<lambda>x. word_rotr 6 x XOR word_rotr 11 x XOR word_rotr 25 x)"
  "SSG2_0 = (\<lambda>x. word_rotr 7 x XOR word_rotr 18 x XOR shr x 3)"
  "SSG2_1 = (\<lambda>x. word_rotr 17 x XOR word_rotr 19 x XOR shr x 10)"
  by (simp_all add: fun_eq_iff BSG2_0_def BSG2_1_def SSG2_0_def SSG2_1_def ROTR_rotr)

lemma br_sha2small_round_fips: "br_sha2small_round buf val = fips_sha256_compress buf val"
proof -
  let ?M = "br_range_dec32be 16 buf"
  let ?W = "fips_sha2_W SSG2_0 SSG2_1 ?M" and ?w = "foldl (\<lambda>w i. w @ [sha2_expand SSG2_0 SSG2_1 w i]) ?M [16..<64]"
  have n: "16 + 48 = (64 :: nat)" "8 * 8 = (64 :: nat)" by simp_all
  have w: "?w = map ?W [0..<64]" using sha2_schedule [of ?M SSG2_0 SSG2_1 48] unfolding n by (simp only: length_range_dec)
  have l: "[0, 8, 16, 24, 32, 40, 48, 56] = map (\<lambda>j. 8 * j) [0..<8 :: nat]" by (simp add: upt_rec)
  have "foldl (sha2_steps8 BSG2_0 BSG2_1 sha2small_K ?w) s [0, 8, 16, 24, 32, 40, 48, 56] = foldl (fips_sha2_step BSG2_0 BSG2_1 sha2small_K ?W) s [0..<64]" for s
    using sha2_rounds [of 8 ?w ?W] unfolding n l w by simp
  then show ?thesis
    by (simp only: br_sha2small_round_def fips_sha256_compress_def fips_add_def Let_def sha256_sigmas)
qed

lemma br_sha2small_round_eq: "br_sha2small_round = fips_sha256_compress"
  by (intro ext br_sha2small_round_fips)

lemma length_sha256_fold: "length iv = 8 \<Longrightarrow> length (md_fold B fips_sha256_compress iv m) = 8"
  by (rule md_fold_invariant) (simp_all add: fips_sha256_compress_def fips_add_def Let_def split: prod.split)

lemma sha256_IVs: "length br_sha224_IV = 8" "length br_sha256_IV = 8"
  by (simp_all add: br_sha224_IV_def br_sha256_IV_def)

lemmas sha256_class_defs = br_sha224_vtable_def br_sha256_vtable_def br_sha224_init_def br_sha256_init_def br_sha224_update_def [abs_def] sha2small_update_def
  sha2small_out_def br_sha224_out_def br_sha256_out_def br_sha224_state_def br_sha224_set_state_def br_sha2small_round_eq length_sha256_fold sha256_IVs
  block_size_def br_digest_size_def hashdesc_defs

lemma sha256_decode: "length v = 8 \<Longrightarrow> br_range_dec32be 8 (br_range_enc32be v @ x) = v"
  using range_dec_append(2) [of v x] by simp

interpretation sha224: md_class br_sha224_vtable 6 8 fips_sha256_compress br_sha224_IV br_range_enc32be "br_range_dec32be 8" "\<lambda>v. br_range_enc32be (take 7 v)"
  "\<lambda>cnt. br_enc64be (shl cnt 3)"
proof (unfold_locales, goal_cases)
  case (7 m x) then show ?case by (simp add: sha256_decode length_sha256_fold sha256_IVs)
qed (simp_all add: sha256_class_defs Let_def split: prod.split)

interpretation sha256: md_class br_sha256_vtable 6 8 fips_sha256_compress br_sha256_IV br_range_enc32be "br_range_dec32be 8" "\<lambda>v. br_range_enc32be (take 8 v)"
  "\<lambda>cnt. br_enc64be (shl cnt 3)"
proof (unfold_locales, goal_cases)
  case (7 m x) then show ?case by (simp add: sha256_decode length_sha256_fold sha256_IVs)
qed (simp_all add: sha256_class_defs Let_def split: prod.split)

lemma sha224_impl: "hash_impl br_sha224_vtable sha224.rep (\<lambda>m. br_range_enc32be (sha224_chain m)) sha224"
  using sha224.hash_impl_axioms by (simp add: sha224_def [abs_def] sha224_chain_def push_bit_eq_mult mult.commute)

lemma sha256_impl: "hash_impl br_sha256_vtable sha256.rep (\<lambda>m. br_range_enc32be (sha256_chain m)) sha256"
  using sha256.hash_impl_axioms by (simp add: sha256_def [abs_def] sha256_chain_def push_bit_eq_mult mult.commute length_sha256_fold sha256_IVs)

interpretation sha224_hash: hash_impl br_sha224_vtable sha224.rep "\<lambda>m. br_range_enc32be (sha224_chain m)" sha224
  by (rule sha224_impl)

interpretation sha256_hash: hash_impl br_sha256_vtable sha256.rep "\<lambda>m. br_range_enc32be (sha256_chain m)" sha256
  by (rule sha256_impl)

section \<open>SHA-384 and SHA-512 (sha2big.c)\<close>

definition ROTR64 :: "u64 \<Rightarrow> nat \<Rightarrow> u64" where
  "ROTR64 x n = shl x (64 - n) OR shr x n"

definition BSG5_0 :: "u64 \<Rightarrow> u64" where "BSG5_0 x = ROTR64 x 28 XOR ROTR64 x 34 XOR ROTR64 x 39"
definition BSG5_1 :: "u64 \<Rightarrow> u64" where "BSG5_1 x = ROTR64 x 14 XOR ROTR64 x 18 XOR ROTR64 x 41"
definition SSG5_0 :: "u64 \<Rightarrow> u64" where "SSG5_0 x = ROTR64 x 1 XOR ROTR64 x 8 XOR shr x 7"
definition SSG5_1 :: "u64 \<Rightarrow> u64" where "SSG5_1 x = ROTR64 x 19 XOR ROTR64 x 61 XOR shr x 6"

definition sha384_IV :: "u64 list" where
  "sha384_IV = [
     0xCBBB9D5DC1059ED8, 0x629A292A367CD507, 0x9159015A3070DD17, 0x152FECD8F70E5939,
     0x67332667FFC00B31, 0x8EB44A8768581511, 0xDB0C2E0D64F98FA7, 0x47B5481DBEFA4FA4]"

definition sha512_IV :: "u64 list" where
  "sha512_IV = [
     0x6A09E667F3BCC908, 0xBB67AE8584CAA73B, 0x3C6EF372FE94F82B, 0xA54FF53A5F1D36F1,
     0x510E527FADE682D1, 0x9B05688C2B3E6C1F, 0x1F83D9ABFB41BD6B, 0x5BE0CD19137E2179]"

definition sha2big_K :: "u64 list" where
  "sha2big_K = [
     0x428A2F98D728AE22, 0x7137449123EF65CD, 0xB5C0FBCFEC4D3B2F, 0xE9B5DBA58189DBBC,
     0x3956C25BF348B538, 0x59F111F1B605D019, 0x923F82A4AF194F9B, 0xAB1C5ED5DA6D8118,
     0xD807AA98A3030242, 0x12835B0145706FBE, 0x243185BE4EE4B28C, 0x550C7DC3D5FFB4E2,
     0x72BE5D74F27B896F, 0x80DEB1FE3B1696B1, 0x9BDC06A725C71235, 0xC19BF174CF692694,
     0xE49B69C19EF14AD2, 0xEFBE4786384F25E3, 0x0FC19DC68B8CD5B5, 0x240CA1CC77AC9C65,
     0x2DE92C6F592B0275, 0x4A7484AA6EA6E483, 0x5CB0A9DCBD41FBD4, 0x76F988DA831153B5,
     0x983E5152EE66DFAB, 0xA831C66D2DB43210, 0xB00327C898FB213F, 0xBF597FC7BEEF0EE4,
     0xC6E00BF33DA88FC2, 0xD5A79147930AA725, 0x06CA6351E003826F, 0x142929670A0E6E70,
     0x27B70A8546D22FFC, 0x2E1B21385C26C926, 0x4D2C6DFC5AC42AED, 0x53380D139D95B3DF,
     0x650A73548BAF63DE, 0x766A0ABB3C77B2A8, 0x81C2C92E47EDAEE6, 0x92722C851482353B,
     0xA2BFE8A14CF10364, 0xA81A664BBC423001, 0xC24B8B70D0F89791, 0xC76C51A30654BE30,
     0xD192E819D6EF5218, 0xD69906245565A910, 0xF40E35855771202A, 0x106AA07032BBD1B8,
     0x19A4C116B8D2D0C8, 0x1E376C085141AB53, 0x2748774CDF8EEB99, 0x34B0BCB5E19B48A8,
     0x391C0CB3C5C95A63, 0x4ED8AA4AE3418ACB, 0x5B9CCA4F7763E373, 0x682E6FF3D6B2B8A3,
     0x748F82EE5DEFB2FC, 0x78A5636F43172F60, 0x84C87814A1F0AB72, 0x8CC702081A6439EC,
     0x90BEFFFA23631E28, 0xA4506CEBDE82BDE9, 0xBEF9A3F7B2C67915, 0xC67178F2E372532B,
     0xCA273ECEEA26619C, 0xD186B8C721C0C207, 0xEADA7DD6CDE0EB1E, 0xF57D4F7FEE6ED178,
     0x06F067AA72176FBA, 0x0A637DC5A2C898A6, 0x113F9804BEF90DAE, 0x1B710B35131C471B,
     0x28DB77F523047D84, 0x32CAAB7B40C72493, 0x3C9EBE0A15C9BEBC, 0x431D67C49C100D4C,
     0x4CC5D4BECB3E42B6, 0x597F299CFC657E2A, 0x5FCB6FAB3AD6FAEC, 0x6C44198C4A475817]"

definition sha2big_round :: "u8 list \<Rightarrow> u64 list \<Rightarrow> u64 list" where
  "sha2big_round buf val =
     (let w = foldl (\<lambda>w i. w @ [sha2_expand SSG5_0 SSG5_1 w i]) (br_range_dec64be 16 buf) [16..<80];
          s = (val ! 0, val ! 1, val ! 2, val ! 3, val ! 4, val ! 5, val ! 6, val ! 7);
          (a, b, c, d, e, f, g, h) = foldl (sha2_steps8 BSG5_0 BSG5_1 sha2big_K w) s [0, 8, 16, 24, 32, 40, 48, 56, 64, 72]
      in [val ! 0 + a, val ! 1 + b, val ! 2 + c, val ! 3 + d, val ! 4 + e, val ! 5 + f, val ! 6 + g, val ! 7 + h])"

type_synonym br_sha384_context = "u64 list hash_context"

definition sha2big_update :: "br_sha384_context \<Rightarrow> u8 list \<Rightarrow> br_sha384_context" where
  "sha2big_update = hash_update_ahead 128 sha2big_round"

definition sha2big_out :: "br_sha384_context \<Rightarrow> nat \<Rightarrow> u8 list" where
  "sha2big_out cc num =
     (let (buf, val) = hash_pad 128 16 sha2big_round cc;
          val = sha2big_round (buf @ br_enc64be (shr (hcount cc) 61) @ br_enc64be (shl (hcount cc) 3)) val
      in br_range_enc64be (take num val))"

definition br_sha384_init :: "br_sha384_context \<Rightarrow> br_sha384_context" where
  "br_sha384_init cc = cc\<lparr>hval := sha384_IV, hcount := 0\<rparr>"

definition br_sha384_update :: "br_sha384_context \<Rightarrow> u8 list \<Rightarrow> br_sha384_context" where
  "br_sha384_update cc data = sha2big_update cc data"

definition br_sha384_out :: "br_sha384_context \<Rightarrow> u8 list" where
  "br_sha384_out cc = sha2big_out cc 6"

definition br_sha384_state :: "br_sha384_context \<Rightarrow> u8 list \<times> u64" where
  "br_sha384_state cc = (br_range_enc64be (hval cc), hcount cc)"

definition br_sha384_set_state :: "br_sha384_context \<Rightarrow> u8 list \<Rightarrow> u64 \<Rightarrow> br_sha384_context" where
  "br_sha384_set_state cc stb cnt = cc\<lparr>hval := br_range_dec64be 8 stb, hcount := cnt\<rparr>"

definition br_sha512_init :: "br_sha384_context \<Rightarrow> br_sha384_context" where
  "br_sha512_init cc = cc\<lparr>hval := sha512_IV, hcount := 0\<rparr>"

definition br_sha512_out :: "br_sha384_context \<Rightarrow> u8 list" where
  "br_sha512_out cc = sha2big_out cc 8"

text \<open>\<^verbatim>\<open>bearssl_hash.h\<close> defines the other functions of the second variant as names of those of the first.\<close>

definition br_sha384_vtable :: "br_sha384_context br_hash_class" where
  "br_sha384_vtable = \<lparr>hc_ctx = \<lparr>hbuf = replicate 128 0, hcount = 0, hval = replicate 8 0\<rparr>,
     hc_desc = BR_HASHDESC_ID 5 OR BR_HASHDESC_OUT 48 OR BR_HASHDESC_STATE 64 OR BR_HASHDESC_LBLEN 7 OR BR_HASHDESC_MD_PADDING
       OR BR_HASHDESC_MD_PADDING_BE OR BR_HASHDESC_MD_PADDING_128,
     hc_init = br_sha384_init, hc_update = br_sha384_update, hc_out = br_sha384_out, hc_state = br_sha384_state,
     hc_set_state = br_sha384_set_state\<rparr>"

definition br_sha512_vtable :: "br_sha384_context br_hash_class" where
  "br_sha512_vtable = \<lparr>hc_ctx = \<lparr>hbuf = replicate 128 0, hcount = 0, hval = replicate 8 0\<rparr>,
     hc_desc = BR_HASHDESC_ID 6 OR BR_HASHDESC_OUT 64 OR BR_HASHDESC_STATE 64 OR BR_HASHDESC_LBLEN 7 OR BR_HASHDESC_MD_PADDING
       OR BR_HASHDESC_MD_PADDING_BE OR BR_HASHDESC_MD_PADDING_128,
     hc_init = br_sha512_init, hc_update = br_sha384_update, hc_out = br_sha512_out, hc_state = br_sha384_state,
     hc_set_state = br_sha384_set_state\<rparr>"

text \<open>FIPS 180-4.\<close>

definition fips_sha512_compress :: "u8 list \<Rightarrow> u64 list \<Rightarrow> u64 list" where
  "fips_sha512_compress block H =
     (let W = fips_sha2_W (\<lambda>x. word_rotr 1 x XOR word_rotr 8 x XOR shr x 7) (\<lambda>x. word_rotr 19 x XOR word_rotr 61 x XOR shr x 6)
            (br_range_dec64be 16 block)
      in fips_add H (foldl (fips_sha2_step (\<lambda>x. word_rotr 28 x XOR word_rotr 34 x XOR word_rotr 39 x)
            (\<lambda>x. word_rotr 14 x XOR word_rotr 18 x XOR word_rotr 41 x) sha2big_K W)
          (H ! 0, H ! 1, H ! 2, H ! 3, H ! 4, H ! 5, H ! 6, H ! 7) [0..<80]))"

definition sha384_chain :: "u8 list \<Rightarrow> u64 list" where "sha384_chain = md_fold 128 fips_sha512_compress sha384_IV"
definition sha512_chain :: "u8 list \<Rightarrow> u64 list" where "sha512_chain = md_fold 128 fips_sha512_compress sha512_IV"

definition sha384 :: "u8 list \<Rightarrow> u8 list" where
  "sha384 m = br_range_enc64be (take 6 (sha384_chain (m @ md_padding 128 16 (length m) @ br_enc64be (shr (of_nat (length m)) 61) @ br_enc64be (of_nat (8 * length m)))))"

definition sha512 :: "u8 list \<Rightarrow> u8 list" where
  "sha512 m = br_range_enc64be (sha512_chain (m @ md_padding 128 16 (length m) @ br_enc64be (shr (of_nat (length m)) 61) @ br_enc64be (of_nat (8 * length m))))"

lemma ROTR64_rotr: "0 < n \<Longrightarrow> n < 64 \<Longrightarrow> ROTR64 x n = word_rotr n x"
  using rotate_or [of "64 - n" x] by (simp add: ROTR64_def word_rotl_eq_word_rotr)

lemma sha512_sigmas:
  "BSG5_0 = (\<lambda>x. word_rotr 28 x XOR word_rotr 34 x XOR word_rotr 39 x)"
  "BSG5_1 = (\<lambda>x. word_rotr 14 x XOR word_rotr 18 x XOR word_rotr 41 x)"
  "SSG5_0 = (\<lambda>x. word_rotr 1 x XOR word_rotr 8 x XOR shr x 7)"
  "SSG5_1 = (\<lambda>x. word_rotr 19 x XOR word_rotr 61 x XOR shr x 6)"
  by (simp_all add: fun_eq_iff BSG5_0_def BSG5_1_def SSG5_0_def SSG5_1_def ROTR64_rotr)

lemma sha2big_round_fips: "sha2big_round buf val = fips_sha512_compress buf val"
proof -
  let ?M = "br_range_dec64be 16 buf"
  let ?W = "fips_sha2_W SSG5_0 SSG5_1 ?M" and ?w = "foldl (\<lambda>w i. w @ [sha2_expand SSG5_0 SSG5_1 w i]) ?M [16..<80]"
  have n: "16 + 64 = (80 :: nat)" "8 * 10 = (80 :: nat)" by simp_all
  have w: "?w = map ?W [0..<80]" using sha2_schedule [of ?M SSG5_0 SSG5_1 64] unfolding n by (simp only: length_range_dec)
  have l: "[0, 8, 16, 24, 32, 40, 48, 56, 64, 72] = map (\<lambda>j. 8 * j) [0..<10 :: nat]" by (simp add: upt_rec)
  have "foldl (sha2_steps8 BSG5_0 BSG5_1 sha2big_K ?w) s [0, 8, 16, 24, 32, 40, 48, 56, 64, 72] = foldl (fips_sha2_step BSG5_0 BSG5_1 sha2big_K ?W) s [0..<80]" for s
    using sha2_rounds [of 10 ?w ?W] unfolding n l w by simp
  then show ?thesis
    by (simp only: sha2big_round_def fips_sha512_compress_def fips_add_def Let_def sha512_sigmas)
qed

lemma sha2big_round_eq: "sha2big_round = fips_sha512_compress"
  by (intro ext sha2big_round_fips)

lemma length_sha512_fold: "length iv = 8 \<Longrightarrow> length (md_fold B fips_sha512_compress iv m) = 8"
  by (rule md_fold_invariant) (simp_all add: fips_sha512_compress_def fips_add_def Let_def split: prod.split)

lemma sha512_IVs: "length sha384_IV = 8" "length sha512_IV = 8"
  by (simp_all add: sha384_IV_def sha512_IV_def)

lemmas sha512_class_defs = br_sha384_vtable_def br_sha512_vtable_def br_sha384_init_def br_sha512_init_def br_sha384_update_def [abs_def] sha2big_update_def
  sha2big_out_def br_sha384_out_def br_sha512_out_def br_sha384_state_def br_sha384_set_state_def sha2big_round_eq length_sha512_fold sha512_IVs
  block_size_def br_digest_size_def hashdesc_defs

lemma sha512_decode: "length v = 8 \<Longrightarrow> br_range_dec64be 8 (br_range_enc64be v @ x) = v"
  using range_dec_append(3) [of v x] by simp

interpretation sha384: md_class br_sha384_vtable 7 16 fips_sha512_compress sha384_IV br_range_enc64be "br_range_dec64be 8" "\<lambda>v. br_range_enc64be (take 6 v)"
  "\<lambda>cnt. br_enc64be (shr cnt 61) @ br_enc64be (shl cnt 3)"
proof (unfold_locales, goal_cases)
  case (7 m x) then show ?case by (simp add: sha512_decode length_sha512_fold sha512_IVs)
qed (simp_all add: sha512_class_defs Let_def split: prod.split)

interpretation sha512: md_class br_sha512_vtable 7 16 fips_sha512_compress sha512_IV br_range_enc64be "br_range_dec64be 8" "\<lambda>v. br_range_enc64be (take 8 v)"
  "\<lambda>cnt. br_enc64be (shr cnt 61) @ br_enc64be (shl cnt 3)"
proof (unfold_locales, goal_cases)
  case (7 m x) then show ?case by (simp add: sha512_decode length_sha512_fold sha512_IVs)
qed (simp_all add: sha512_class_defs Let_def split: prod.split)

lemma sha384_impl: "hash_impl br_sha384_vtable sha384.rep (\<lambda>m. br_range_enc64be (sha384_chain m)) sha384"
  using sha384.hash_impl_axioms by (simp add: sha384_def [abs_def] sha384_chain_def push_bit_eq_mult mult.commute)

lemma sha512_impl: "hash_impl br_sha512_vtable sha512.rep (\<lambda>m. br_range_enc64be (sha512_chain m)) sha512"
  using sha512.hash_impl_axioms by (simp add: sha512_def [abs_def] sha512_chain_def push_bit_eq_mult mult.commute length_sha512_fold sha512_IVs)

interpretation sha384_hash: hash_impl br_sha384_vtable sha384.rep "\<lambda>m. br_range_enc64be (sha384_chain m)" sha384
  by (rule sha384_impl)

interpretation sha512_hash: hash_impl br_sha512_vtable sha512.rep "\<lambda>m. br_range_enc64be (sha512_chain m)" sha512
  by (rule sha512_impl)

section \<open>Properties\<close>

text \<open>C30. The round functions, with their rewritten selection functions, unrolled steps and rotated variables, are the
  compression functions of RFC 1321 and FIPS 180-4, for every block and every chaining value.\<close>

theorem hash_rounds_standard:
  "br_md5_round b v = rfc_md5_compress b v \<and> br_sha1_round b v = fips_sha1_compress b v \<and>
   br_sha2small_round b v = fips_sha256_compress b v \<and> sha2big_round b w = fips_sha512_compress b w"
  by (simp add: br_md5_round_rfc br_sha1_round_fips br_sha2small_round_fips sha2big_round_fips)

text \<open>C29. MD5, SHA-1 and the pair of both: whatever the context held before \<open>init\<close> and however the message is cut into updates, empty ones
  included, the output is the standard hash of the whole message (for the pair, the two hashes).\<close>

theorem md5_sha1_correct:
  assumes "length (hbuf cc) = 64" and "length (hbuf pp) = 64"
  shows "br_md5_out (foldl br_md5_update (br_md5_init cc) ds) = md5 (concat ds) \<and>
    br_sha1_out (foldl br_sha1_update (br_sha1_init cc) ds) = sha1 (concat ds) \<and>
    br_md5sha1_out (foldl br_md5sha1_update (br_md5sha1_init pp) ds) = md5 (concat ds) @ sha1 (concat ds)"
  using md5_hash.hash_of_chunks [of "br_md5_init cc" "[]" ds] sha1_hash.hash_of_chunks [of "br_sha1_init cc" "[]" ds]
    md5sha1.hash_of_chunks [of "br_md5sha1_init pp" "[]" ds] assms
  by (simp add: md5_class_defs sha1_class_defs br_md5sha1_vtable_def br_md5sha1_init_def absorbed_init)

theorem md5_sha1_correct_witness:
  "br_sha1_out (foldl br_sha1_update (br_sha1_init \<lparr>hbuf = replicate 64 7, hcount = 9, hval = []\<rparr>) [[1], [], [2, 3]]) = sha1 [1, 2, 3]"
  using md5_sha1_correct [of "\<lparr>hbuf = replicate 64 7, hcount = 9, hval = []\<rparr>" "\<lparr>hbuf = replicate 64 7, hcount = 9, hval = ([], [])\<rparr>"
    "[[1], [], [2, 3]]"] by simp

text \<open>C28. The same for the four functions of the SHA-2 family.\<close>

theorem sha2_correct:
  assumes "length (hbuf cc) = 64" and "length (hbuf dd) = 128"
  shows "br_sha224_out (foldl br_sha224_update (br_sha224_init cc) ds) = sha224 (concat ds) \<and>
    br_sha256_out (foldl br_sha224_update (br_sha256_init cc) ds) = sha256 (concat ds) \<and>
    br_sha384_out (foldl br_sha384_update (br_sha384_init dd) ds) = sha384 (concat ds) \<and>
    br_sha512_out (foldl br_sha384_update (br_sha512_init dd) ds) = sha512 (concat ds)"
proof -
  have "sha224.rep (br_sha224_init cc) []" "sha256.rep (br_sha256_init cc) []" "sha384.rep (br_sha384_init dd) []" "sha512.rep (br_sha512_init dd) []"
    using assms by (simp_all add: br_sha224_init_def br_sha256_init_def br_sha384_init_def br_sha512_init_def absorbed_init)
  from sha224_hash.hash_of_chunks [OF this(1)] sha256_hash.hash_of_chunks [OF this(2)]
    sha384_hash.hash_of_chunks [OF this(3)] sha512_hash.hash_of_chunks [OF this(4)]
  show ?thesis by (simp add: br_sha224_vtable_def br_sha256_vtable_def br_sha384_vtable_def br_sha512_vtable_def)
qed

theorem sha2_correct_witness:
  "br_sha256_out (foldl br_sha224_update (br_sha256_init \<lparr>hbuf = replicate 64 7, hcount = 9, hval = []\<rparr>) [[1], [], [2, 3]]) = sha256 [1, 2, 3]"
  using sha2_correct [of "\<lparr>hbuf = replicate 64 7, hcount = 9, hval = []\<rparr>" "\<lparr>hbuf = replicate 128 7, hcount = 9, hval = []\<rparr>"
    "[[1], [], [2, 3]]"] by simp

end
