(* ===== verification/Hmac.thy ===== *)
theory Hmac
  imports Hash_SHA2
begin

text \<open>
  HMAC, \<^verbatim>\<open>src/mac/hmac.c\<close>, over any hash class: the model has the class as a parameter, as the C code has the vtable pointer, and the
  proofs are done in \<open>hash_impl\<close>. A key context holds the states after the two key blocks.
\<close>

record 'c br_hmac_key_context =
  kc_dig_vtable :: "'c br_hash_class"
  kc_ksi :: "u8 list"
  kc_kso :: "u8 list"

record 'c br_hmac_context =
  hm_vtable :: "'c br_hash_class"
  hm_dig :: 'c
  hm_kso :: "u8 list"
  hm_out_len :: nat

definition process_key :: "'c br_hash_class \<Rightarrow> 'c \<Rightarrow> u8 list \<Rightarrow> u8 \<Rightarrow> 'c \<times> u8 list" where
  "process_key dig hc key bb =
     (let blen = block_size dig;
          tmp = map (\<lambda>b. b XOR bb) key @ replicate (blen - length key) bb;
          hc = hc_init dig hc;
          hc = hc_update dig hc tmp;
          (ks, _) = hc_state dig hc
      in (hc, ks))"

definition br_hmac_key_init :: "'c br_hash_class \<Rightarrow> u8 list \<Rightarrow> 'c br_hmac_key_context" where
  "br_hmac_key_init dig key =
     (let hc = hc_ctx dig;
          (hc, key) = (if block_size dig < length key
             then let hc = hc_update dig (hc_init dig hc) key; kbuf = hc_out dig hc in (hc, take (br_digest_size dig) kbuf)
             else (hc, key));
          (hc, ksi) = process_key dig hc key 0x36;
          (hc, kso) = process_key dig hc key 0x5C
      in \<lparr>kc_dig_vtable = dig, kc_ksi = ksi, kc_kso = kso\<rparr>)"

definition br_hmac_init :: "'c br_hmac_key_context \<Rightarrow> nat \<Rightarrow> 'c br_hmac_context" where
  "br_hmac_init kc out_len =
     (let dig = kc_dig_vtable kc;
          blen = block_size dig;
          c = hc_init dig (hc_ctx dig);
          c = hc_set_state dig c (kc_ksi kc) (of_nat blen);
          hlen = br_digest_size dig;
          hlen = (if 0 < out_len \<and> out_len < hlen then out_len else hlen)
      in \<lparr>hm_vtable = dig, hm_dig = c, hm_kso = kc_kso kc, hm_out_len = hlen\<rparr>)"

definition br_hmac_size :: "'c br_hmac_context \<Rightarrow> nat" where
  "br_hmac_size ctx = hm_out_len ctx"

definition br_hmac_get_digest :: "'c br_hmac_context \<Rightarrow> 'c br_hash_class" where
  "br_hmac_get_digest hc = hm_vtable hc"

definition br_hmac_update :: "'c br_hmac_context \<Rightarrow> u8 list \<Rightarrow> 'c br_hmac_context" where
  "br_hmac_update ctx data = ctx\<lparr>hm_dig := hc_update (hm_vtable ctx) (hm_dig ctx) data\<rparr>"

definition br_hmac_out :: "'c br_hmac_context \<Rightarrow> u8 list" where
  "br_hmac_out ctx =
     (let dig = hm_vtable ctx;
          tmp = hc_out dig (hm_dig ctx);
          blen = block_size dig;
          hc = hc_init dig (hc_ctx dig);
          hc = hc_set_state dig hc (hm_kso ctx) (of_nat blen);
          hlen = br_digest_size dig;
          hc = hc_update dig hc (take hlen tmp);
          tmp = hc_out dig hc
      in take (hm_out_len ctx) tmp)"

section \<open>Reference: FIPS 198-1\<close>

definition hmac_key0 :: "(u8 list \<Rightarrow> u8 list) \<Rightarrow> nat \<Rightarrow> u8 list \<Rightarrow> u8 list" where
  "hmac_key0 H B K = (let K = (if B < length K then H K else K) in K @ replicate (B - length K) 0)"

definition hmac :: "(u8 list \<Rightarrow> u8 list) \<Rightarrow> nat \<Rightarrow> u8 list \<Rightarrow> u8 list \<Rightarrow> u8 list" where
  "hmac H B K text' =
     (let K0 = hmac_key0 H B K in
      H (map2 (XOR) K0 (replicate B 0x5C) @ H (map2 (XOR) K0 (replicate B 0x36) @ text')))"

lemma map2_pad:
  "length K \<le> B \<Longrightarrow> map2 (XOR) (K @ replicate (B - length K) 0) (replicate B (b :: u8)) = map (\<lambda>x. x XOR b) K @ replicate (B - length K) b"
  by (rule nth_equalityI) (auto simp: nth_append)

context hash_impl
begin

abbreviation B :: nat where "B \<equiv> block_size dig"

text \<open>The block that a key is turned into.\<close>

definition key_block :: "u8 list \<Rightarrow> u8 \<Rightarrow> u8 list" where
  "key_block K b = map2 (XOR) (hmac_key0 digest B K) (replicate B b)"

lemma length_key0: "length (hmac_key0 digest B K) = B"
  using sizes by (simp add: hmac_key0_def Let_def digest_length)

lemma length_key_block [simp]: "length (key_block K b) = B"
  by (simp add: key_block_def length_key0)

lemma hmac_blocks: "hmac digest B K m = digest (key_block K 0x5C @ digest (key_block K 0x36 @ m))"
  by (simp add: hmac_def key_block_def Let_def)

lemma process_key_state:
  assumes "c = hc_ctx dig \<or> rep c m'" and "length K \<le> B"
  shows "case process_key dig c K b of (c', ks) \<Rightarrow>
    (\<exists>m. rep c' m) \<and> ks = sb (map (\<lambda>x. x XOR b) K @ replicate (B - length K) b)"
  using state [OF update [OF init [OF assms(1)]]] update [OF init [OF assms(1)]]
  by (auto simp: process_key_def Let_def)

definition key_rep :: "'c br_hmac_key_context \<Rightarrow> u8 list \<Rightarrow> bool" where
  "key_rep kc K \<longleftrightarrow> kc_dig_vtable kc = dig \<and> kc_ksi kc = sb (key_block K 0x36) \<and> kc_kso kc = sb (key_block K 0x5C)"

lemma key_init_rep: "key_rep (br_hmac_key_init dig K) K"
proof -
  define K1 where "K1 = (if B < length K then digest K else K)"
  have K1: "length K1 \<le> B" using sizes by (simp add: K1_def digest_length)
  have kb: "key_block K b = map (\<lambda>x. x XOR b) K1 @ replicate (B - length K1) b" for b
    unfolding key_block_def hmac_key0_def K1_def [symmetric] Let_def by (rule map2_pad [OF K1])
  obtain c m where c: "c = hc_ctx dig \<or> rep c m"
    and e: "br_hmac_key_init dig K = (case process_key dig c K1 0x36 of (hc, ksi) \<Rightarrow>
      case process_key dig hc K1 0x5C of (hc, kso) \<Rightarrow> \<lparr>kc_dig_vtable = dig, kc_ksi = ksi, kc_kso = kso\<rparr>)"
  proof (cases "B < length K")
    case True
    have r: "rep (hc_update dig (hc_init dig (hc_ctx dig)) K) K" using update [OF init, of "hc_ctx dig" "[]" K] by simp
    with True show ?thesis
      by (intro that [of "hc_update dig (hc_init dig (hc_ctx dig)) K" K])
        (simp_all add: br_hmac_key_init_def Let_def K1_def out [OF r] digest_length)
  next
    case False then show ?thesis by (intro that [of "hc_ctx dig"]) (simp_all add: br_hmac_key_init_def Let_def K1_def)
  qed
  obtain c1 ki where p: "process_key dig c K1 0x36 = (c1, ki)" by fastforce
  obtain c2 ko where q: "process_key dig c1 K1 0x5C = (c2, ko)" by fastforce
  obtain m1 where c1: "rep c1 m1" and ki: "ki = sb (key_block K 0x36)"
    using process_key_state [OF c K1, of "0x36"] unfolding p kb by auto
  have "ko = sb (key_block K 0x5C)"
    using process_key_state [OF disjI2 [OF c1] K1, of "0x5C"] unfolding q kb by auto
  then show ?thesis unfolding e key_rep_def p q by (simp add: q ki)
qed

definition hmac_rep :: "'c br_hmac_context \<Rightarrow> u8 list \<Rightarrow> u8 list \<Rightarrow> bool" where
  "hmac_rep ctx K m \<longleftrightarrow> hm_vtable ctx = dig \<and> rep (hm_dig ctx) (key_block K 0x36 @ m) \<and> hm_kso ctx = sb (key_block K 0x5C)"

definition hmac_len :: "nat \<Rightarrow> nat" where
  "hmac_len n = (if 0 < n \<and> n < br_digest_size dig then n else br_digest_size dig)"

lemma resume: "rep (hc_set_state dig (hc_init dig (hc_ctx dig)) (sb (key_block K b)) (of_nat B)) (key_block K b)"
  using set_state [of "hc_init dig (hc_ctx dig)" "[]" "key_block K b" "[]"] init [of "hc_ctx dig"] by simp

lemma hmac_init_rep: "key_rep kc K \<Longrightarrow> hmac_rep (br_hmac_init kc n) K [] \<and> hm_out_len (br_hmac_init kc n) = hmac_len n"
  using resume [of K "0x36"] by (simp add: hmac_rep_def key_rep_def br_hmac_init_def Let_def hmac_len_def)

lemma hmac_update_rep: "hmac_rep ctx K m \<Longrightarrow> hmac_rep (br_hmac_update ctx d) K (m @ d)"
  using update by (fastforce simp: hmac_rep_def br_hmac_update_def)

lemma hmac_update_len [simp]: "hm_out_len (br_hmac_update ctx d) = hm_out_len ctx"
  by (simp add: br_hmac_update_def)

text \<open>The outer hash, from the inner digest.\<close>

lemma hmac_outer:
  "length d = br_digest_size dig \<Longrightarrow> hc_out dig (hc_update dig (hc_set_state dig (hc_init dig (hc_ctx dig)) (sb (key_block K 0x5C)) (of_nat B)) d)
    = digest (key_block K 0x5C @ d)"
  by (rule out [OF update [OF resume]])

lemma hmac_out_rep: "hmac_rep ctx K m \<Longrightarrow> br_hmac_out ctx = take (hm_out_len ctx) (hmac digest B K m)"
  using out [of "hm_dig ctx" "key_block K 0x36 @ m"] hmac_outer [of "digest (key_block K 0x36 @ m)" K]
  by (simp add: hmac_rep_def br_hmac_out_def Let_def hmac_blocks digest_length)

lemma length_hmac [simp]: "length (hmac digest B K m) = br_digest_size dig"
  by (simp add: hmac_blocks digest_length)

text \<open>The whole computation, in any number of updates.\<close>

lemma hmac_rep_chunks: "hmac_rep ctx K m \<Longrightarrow> hmac_rep (foldl br_hmac_update ctx ds) K (m @ concat ds)"
proof (induction ds arbitrary: ctx m)
  case (Cons d ds)
  from Cons.IH [OF hmac_update_rep [OF Cons.prems]] show ?case by simp
qed simp

lemma hmac_out_len_chunks [simp]: "hm_out_len (foldl br_hmac_update ctx ds) = hm_out_len ctx"
  by (induction ds arbitrary: ctx) simp_all

lemma hmac_of_chunks:
  "br_hmac_out (foldl br_hmac_update (br_hmac_init (br_hmac_key_init dig K) n) ds) = take (hmac_len n) (hmac digest B K (concat ds))"
  using hmac_out_rep [OF hmac_rep_chunks, of "br_hmac_init (br_hmac_key_init dig K) n" K "[]" ds]
    hmac_init_rep [OF key_init_rep, of K n] by simp

end

end
