(* ===== verification/Hmac_CT.thy ===== *)
theory Hmac_CT
  imports Hmac Ccopy
begin

text \<open>
  \<^verbatim>\<open>src/mac/hmac_ct.c\<close>: HMAC of a message whose length is secret, for the record decryption of TLS. The function feeds bytes up to
  the largest possible length, multiplexes the Merkle-Damgard padding in, and keeps the chaining value of the right block
  with a conditional copy.
\<close>

text \<open>The conditional copy of \<^verbatim>\<open>codec/ccopy.c\<close> on byte lists.\<close>

definition ccopy_list :: "u32 \<Rightarrow> u8 list \<Rightarrow> u8 list \<Rightarrow> nat \<Rightarrow> u8 list" where
  "ccopy_list ctl dst src len =
     map2 (\<lambda>y x. ucast (MUX ctl (ucast x) (ucast y))) (take len dst) (take len src) @ drop len dst"

lemma ccopy_list_eq:
  assumes "len \<le> length dst" "len \<le> length src"
  shows "ccopy_list (of_bool b) dst src len = (if b then take len src else take len dst) @ drop len dst"
  using assms by (auto simp: ccopy_list_def intro!: nth_equalityI)

definition hash_size :: "'c br_hash_class \<Rightarrow> nat" where
  "hash_size dig = unat (shr (hc_desc dig) 8 AND 0x7F)"

text \<open>One byte of the loop, and the loop. \<open>data\<close> is what the direct part has left.\<close>

definition outCT_byte :: "bool \<Rightarrow> u32 \<Rightarrow> u32 \<Rightarrow> u32 \<Rightarrow> u64 \<Rightarrow> u8 list \<Rightarrow> nat \<Rightarrow> nat \<Rightarrow> u32 \<Rightarrow> u8" where
  "outCT_byte be bs kr kl bit_len data len max_len u =
     (let d = (if unat u < max_len then ucast (data ! unat u) else 0 :: u32);
          v = (kr + u) AND (bs - 1);
          e = (if bs - 8 \<le> v
               then let j = unat (shl (v - (bs - 8)) 3);
                        e = (if be then ucast (shr bit_len (56 - j)) else ucast (shr bit_len j))
                    in e AND 0xFF
               else 0);
          x0 = MUX (EQ u (of_nat len)) 0x80 d;
          x1 = MUX (LT u kl) 0 e
      in ucast (MUX (LE u (of_nat len)) x0 x1))"

definition outCT_step :: "'c br_hash_class \<Rightarrow> bool \<Rightarrow> u32 \<Rightarrow> u32 \<Rightarrow> u32 \<Rightarrow> u32 \<Rightarrow> u64 \<Rightarrow> u8 list \<Rightarrow> nat \<Rightarrow> nat \<Rightarrow> nat \<Rightarrow>
    'c \<times> u8 list \<Rightarrow> u32 \<Rightarrow> 'c \<times> u8 list" where
  "outCT_step dig be bs kr kz kl bit_len data len max_len hlen = (\<lambda>(hc, tmp2) u.
     let v = (kr + u) AND (bs - 1);
         hc = hc_update dig hc [outCT_byte be bs kr kl bit_len data len max_len u]
     in if v = bs - 1
        then let (tmp1, _) = hc_state dig hc in (hc, ccopy_list (EQ u kz) tmp2 tmp1 hlen)
        else (hc, tmp2))"

definition br_hmac_outCT :: "'c br_hmac_context \<Rightarrow> u8 list \<Rightarrow> nat \<Rightarrow> nat \<Rightarrow> nat \<Rightarrow> u8 list" where
  "br_hmac_outCT ctx data len min_len max_len =
     (let hc = hm_dig ctx;
          dig = hm_vtable ctx;
          be = (hc_desc dig AND BR_HASHDESC_MD_PADDING_BE \<noteq> 0);
          po = (if hc_desc dig AND BR_HASHDESC_MD_PADDING_128 \<noteq> 0 then 9 + 8 else 9 :: u32);
          bs = of_nat (block_size dig) :: u32;
          hlen = hash_size dig;
          (tmp1, cnt) = hc_state dig hc;
          bit_len = shl (cnt + of_nat len) 3;
          ncount = (cnt + of_nat min_len) AND NOT (ucast (bs - 1));
          (hc, data, len, max_len, cnt) =
            (if cnt < ncount
             then let zlen = unat (ncount - cnt)
                  in (hc_update dig hc (take zlen data), drop zlen data, len - zlen, max_len - zlen, ncount)
             else (hc, data, len, max_len, cnt));
          kr = ucast cnt AND (bs - 1);
          kz = ((kr + of_nat len + po + bs - 1) AND NOT (bs - 1)) - 1 - kr;
          kl = kz - 7;
          km = ((kr + of_nat max_len + po + bs - 1) AND NOT (bs - 1)) - kr;
          (hc, tmp2) = foldl (outCT_step dig be bs kr kz kl bit_len data len max_len hlen) (hc, replicate 64 0)
                         (map of_nat [0..<unat km]);
          hc = hc_init dig hc;
          hc = hc_set_state dig hc (hm_kso ctx) (ucast bs);
          hc = hc_update dig hc (take hlen tmp2);
          tmp2 = hc_out dig hc
      in take (hm_out_len ctx) tmp2)"

text \<open>The contract of the classes with \<open>BR_HASHDESC_MD_PADDING\<close>: the digest is the start of the chaining value after the padded
  message; the length field takes \<open>L\<close> bytes. For messages below \<open>2^61\<close> bytes, whose bit length fits in 64 bits.\<close>

definition length_field :: "bool \<Rightarrow> nat \<Rightarrow> nat \<Rightarrow> u8 list" where
  "length_field be L n = replicate (L - 8) 0 @ (if be then br_enc64be (of_nat (8 * n)) else br_enc64le (of_nat (8 * n)))"

locale md_hash = hash_impl +
  fixes be :: bool and L k :: nat
  assumes be: "be \<longleftrightarrow> hc_desc dig AND BR_HASHDESC_MD_PADDING_BE \<noteq> 0"
    and L: "L = (if hc_desc dig AND BR_HASHDESC_MD_PADDING_128 \<noteq> 0 then 16 else 8)"
    and k: "block_size dig = 2 ^ k" "k = 6 \<or> k = 7"
    and state_length: "br_digest_size dig \<le> length (sb m)"
    and md: "length m < 2 ^ 61 \<Longrightarrow>
      digest m = take (br_digest_size dig) (sb (m @ md_padding (block_size dig) L (length m) @ length_field be L (length m)))"
begin

lemma L_cases: "L = 8 \<or> L = 16"
  using L by simp

end

text \<open>Rounding down to a block with a mask, on words.\<close>

lemma and_not_mask: "unat (x AND NOT (mask k) :: 'a::len word) = unat x div 2 ^ k * 2 ^ k" if "k < LENGTH('a)"
proof -
  have "x AND NOT (mask k) = push_bit k (drop_bit k x)" by (rule bit_word_eqI) (auto simp: bit_simps)
  then have "unat (x AND NOT (mask k)) = unat x div 2 ^ k * 2 ^ k mod 2 ^ LENGTH('a)"
    by (simp only: unsigned_push_bit_eq unat_drop_bit) (simp only: take_bit_eq_mod push_bit_eq_mult)
  moreover have "unat x div 2 ^ k * 2 ^ k < 2 ^ LENGTH('a)"
    by (rule le_less_trans [OF _ unsigned_less [of x]]) simp
  ultimately show ?thesis by (simp only: mod_less)
qed

lemma and_mask_mod: "unat (x AND mask k :: 'a::len word) = unat x mod 2 ^ k"
  by (simp only: take_bit_eq_mask [symmetric] unsigned_take_bit_eq) (simp only: take_bit_eq_mod)

text \<open>The number of bytes from the current block on, as the C code rounds it, is what the padding makes of it.\<close>

lemma padded_length:
  fixes B L n len :: nat
  assumes "L < B" "0 < B"
  shows "(n mod B + len + (L + 1) + B - 1) div B * B = n mod B + len + length (md_padding B L (n + len)) + L"
proof -
  define a where "a = n mod B + len"
  define z where "z = (2 * B - L - 1 - a mod B) mod B"
  have a: "(n + len) mod B = a mod B" by (simp add: a_def mod_simps)
  have am: "a mod B < B" using assms by simp
  have "(a + (z + 1 + L)) mod B = 0"
  proof -
    define y where "y = 2 * B - L - 1 - a mod B"
    have y: "y + (a mod B + (L + 1)) = 2 * B" using am assms(1) unfolding y_def by linarith
    have "y mod B = (if y < B then y else y - B)" using y assms(1) by (simp add: mod_if)
    then have "a mod B + (y mod B + 1 + L) = B \<or> a mod B + (y mod B + 1 + L) = 2 * B" using y by (auto split: if_splits)
    then have "a mod B + (z + 1 + L) = B \<or> a mod B + (z + 1 + L) = 2 * B" by (simp only: z_def y_def)
    then have "(a mod B + (z + 1 + L)) mod B = 0" by auto
    then show ?thesis by (simp only: mod_add_left_eq)
  qed
  then obtain q where q: "a + (z + 1 + L) = q * B" by (metis mod_eq_0_iff_dvd dvd_div_mult_self)
  have "z < B" using assms by (simp add: z_def)
  have "(a + (L + 1) + B - 1) div B = q"
  proof (rule div_nat_eqI)
    show "B * q \<le> a + (L + 1) + B - 1" "a + (L + 1) + B - 1 < B * Suc q" using q \<open>z < B\<close> by (simp_all add: mult.commute)
  qed
  moreover have "length (md_padding B L (n + len)) = z + 1" by (simp add: md_padding_def a z_def)
  ultimately show ?thesis unfolding a_def [symmetric] using q by simp
qed

lemma enc64_bytes:
  "br_enc64be x = [ucast (shr x 56), ucast (shr x 48), ucast (shr x 40), ucast (shr x 32), ucast (shr x 24), ucast (shr x 16), ucast (shr x 8), ucast x]"
  "br_enc64le x = [ucast x, ucast (shr x 8), ucast (shr x 16), ucast (shr x 24), ucast (shr x 32), ucast (shr x 40), ucast (shr x 48), ucast (shr x 56)]"
  by (auto simp: br_enc64be_def br_enc32be_def br_enc64le_def br_enc32le_def bit_simps intro!: bit_word_eqI)

lemma enc64_nth:
  assumes "i < 8"
  shows "br_enc64be x ! i = ucast (shr x (56 - 8 * i))" and "br_enc64le x ! i = ucast (shr x (8 * i))"
proof -
  have "i = 0 \<or> i = 1 \<or> i = 2 \<or> i = 3 \<or> i = 4 \<or> i = 5 \<or> i = 6 \<or> i = 7" using assms by linarith
  then show "br_enc64be x ! i = ucast (shr x (56 - 8 * i))" "br_enc64le x ! i = ucast (shr x (8 * i))"
    unfolding enc64_bytes by (elim disjE; simp)+
qed

lemma unat_sub_Suc:
  fixes a b :: "u32"
  assumes "unat a < unat b" shows "unat (b - 1 - a) + 1 + unat a = unat b"
proof -
  have a: "unat (a + 1) = unat a + 1" using assms unat_lt32 [of b] by (simp add: unat_word_ariths)
  then have "a + 1 \<le> b" using assms by (simp add: word_le_nat_alt)
  moreover have "b - 1 - a = b - (a + 1)" by simp
  ultimately have "unat (b - 1 - a) = unat b - (unat a + 1)" by (simp only: unat_sub a)
  then show ?thesis using assms by simp
qed

lemma mod_0_up:
  fixes a c :: nat
  assumes "(a + c) mod B = 0" and "a < B" and "0 < c" and "c \<le> B"
  shows "a + c = B"
proof -
  obtain j where j: "a + c = j * B" using assms(1) by (metis mod_eq_0_iff_dvd dvd_div_mult_self)
  have "a + c < 2 * B" using assms(2,4) by linarith
  then have "j < 2" unfolding j by simp
  moreover have "j \<noteq> 0" using j assms(3) by (cases j) auto
  ultimately show ?thesis using j by (simp add: numeral_2_eq_2 less_Suc_eq)
qed

context md_hash
begin

abbreviation hlen :: nat where "hlen \<equiv> br_digest_size dig"

text \<open>The setting of the loop: \<open>n\<close> bytes are absorbed, \<open>len\<close> more are to come out of at most \<open>max_len\<close>.\<close>

definition ct_pad :: "nat \<Rightarrow> u8 list" where
  "ct_pad n = md_padding B L n @ length_field be L n"

lemma length_field_length [simp]: "length (length_field be L n) = L"
  using L_cases by (auto simp: length_field_def)

lemma ct_pad_total: "(n mod B + len + (L + 1) + B - 1) div B * B = n mod B + len + length (ct_pad (n + len))"
  using padded_length [of L B n len] k L_cases by (auto simp: ct_pad_def)

lemma ct_pad_0: "ct_pad n ! 0 = 0x80"
  by (simp add: ct_pad_def md_padding_def)

lemma ct_pad_zero: "0 < i \<Longrightarrow> i + 8 < length (ct_pad n) \<Longrightarrow> ct_pad n ! i = 0"
  using L_cases by (auto simp: ct_pad_def md_padding_def length_field_def nth_append nth_Cons' less_diff_conv)

lemma ct_pad_length:
  assumes "i < 8"
  shows "ct_pad n ! (length (ct_pad n) - 8 + i) =
    (if be then ucast (shr (of_nat (8 * n) :: u64) (56 - 8 * i)) else ucast (shr (of_nat (8 * n) :: u64) (8 * i)))"
proof -
  let ?e = "if be then br_enc64be (of_nat (8 * n)) else br_enc64le (of_nat (8 * n))"
  have "ct_pad n = (md_padding B L n @ replicate (L - 8) 0) @ ?e" by (simp add: ct_pad_def length_field_def)
  moreover have "length (ct_pad n) - 8 = length (md_padding B L n @ replicate (L - 8) 0)" by (simp add: ct_pad_def) (use L_cases in auto)
  ultimately show ?thesis using enc64_nth [OF assms] by (simp add: nth_append del: replicate_add)
qed

text \<open>The words of the loop: \<open>kr\<close> pending bytes, \<open>kl\<close> the start of the length, \<open>T\<close> bytes in all, the length field of \<open>n + len\<close>.\<close>

definition ct_words :: "nat \<Rightarrow> nat \<Rightarrow> u32 \<Rightarrow> u32 \<Rightarrow> u32 \<Rightarrow> bool" where
  "ct_words n len kr kl bs \<longleftrightarrow> unat kr = n mod B \<and> unat kl + 8 = len + length (ct_pad (n + len)) \<and> unat bs = B \<and>
     len + length (ct_pad (n + len)) < 2 ^ 31"

lemma ct_bs:
  assumes "unat (bs :: u32) = B"
  shows "bs - 1 = mask k" and "unat (bs - 1) = B - 1" and "unat (bs - 8) = B - 8"
proof -
  have "bs = of_nat (unat bs)" by simp
  then have "bs = of_nat B" unfolding assms .
  then show "bs - 1 = mask k" "unat (bs - 1) = B - 1" "unat (bs - 8) = B - 8"
    using k by (auto simp: mask_eq_exp_minus_1)
qed

lemma ct_v:
  assumes w: "ct_words n len kr kl bs" and u: "u < 2 ^ 31"
  shows "unat ((kr + of_nat u) AND (bs - 1)) = (n + u) mod B"
proof -
  have bs: "bs - 1 = mask k" using w ct_bs by (auto simp: ct_words_def)
  have "n mod B < B" "B \<le> 128" using k by auto
  then have "n mod B + u < 2 ^ 32" using u by simp
  then have "unat (kr + of_nat u) = n mod B + u" using w u
    by (simp only: ct_words_def unat_word_ariths unat_of_nat) simp
  then show ?thesis unfolding bs and_mask_mod k(1) [symmetric] by (simp add: mod_add_left_eq)
qed

lemma outCT_byte_correct:
  assumes w: "ct_words n len kr kl bs" and len: "len \<le> max_len" "max_len \<le> length data" and u: "u < len + length (ct_pad (n + len))"
  shows "outCT_byte be bs kr kl (of_nat (8 * (n + len))) data len max_len (of_nat u) = (take len data @ ct_pad (n + len)) ! u"
proof -
  let ?p = "ct_pad (n + len)" and ?u = "of_nat u :: u32"
  have T: "len + length ?p < 2 ^ 31" and kl: "unat kl + 8 = len + length ?p" and bs: "unat bs = B" using w by (auto simp: ct_words_def)
  have p: "9 \<le> length ?p" using L_cases by (auto simp: ct_pad_def md_padding_def)
  have uu: "unat ?u = u" "unat (of_nat len :: u32) = len" using u T by (simp_all add: unat_of_nat)
  have le: "?u \<le> of_nat len \<longleftrightarrow> u \<le> len" "?u = of_nat len \<longleftrightarrow> u = len" "?u < kl \<longleftrightarrow> u < unat kl"
    by (simp_all add: word_le_nat_alt word_less_nat_alt word_unat_eq_iff uu)
  consider "u < len" | "u = len" | "len < u" "u < unat kl" | "unat kl \<le> u" "len < u" by linarith
  then show ?thesis
  proof cases
    case 1 then show ?thesis using len le by (simp add: outCT_byte_def Let_def uu nth_append)
  next
    case 2 then show ?thesis using le len by (simp add: outCT_byte_def Let_def nth_append ct_pad_0)
  next
    case 3 then have "?p ! (u - len) = 0" using kl by (intro ct_pad_zero) auto
    then show ?thesis using 3 le len by (simp add: outCT_byte_def Let_def nth_append)
  next
    case 4
    define i where "i = u - unat kl"
    have i: "u = unat kl + i" "i < 8" using 4 u kl by (auto simp: i_def)
    have "(n + len + length ?p) mod B = 0"
    proof -
      have "(n mod B + (len + length ?p)) mod B = 0"
        using arg_cong [OF ct_pad_total [of n len], of "\<lambda>x. x mod B"] by (simp add: add.assoc)
      then show ?thesis by (simp add: mod_add_left_eq add.assoc)
    qed
    then have q: "(n + u + (8 - i)) mod B = 0" using i kl by (simp add: add.assoc)
    have B: "64 \<le> B" using k by auto
    have "(n + u) mod B = B - (8 - i)"
    proof -
      have "((n + u) mod B + (8 - i)) mod B = 0" using q by (simp add: mod_add_left_eq)
      moreover have "(n + u) mod B < B" using B by simp
      ultimately have "(n + u) mod B + (8 - i) = B" using B i(2) by (intro mod_0_up) simp_all
      then show ?thesis by simp
    qed
    then have v: "unat ((kr + ?u) AND (bs - 1)) = B - 8 + i" using ct_v [OF w, of u] u T i B by simp
    then have ge: "bs - 8 \<le> (kr + ?u) AND (bs - 1)" using ct_bs(3) [OF bs] by (simp add: word_le_nat_alt)
    have "unat (((kr + ?u) AND (bs - 1)) - (bs - 8)) = i"
      unfolding unat_sub [OF ge] v ct_bs(3) [OF bs] by simp
    then have j: "unat (shl (((kr + ?u) AND (bs - 1)) - (bs - 8)) 3) = 8 * i" using i(2) by (simp add: unat_shl32)
    have FF: "(0xFF :: u32) = mask 8" by (simp add: mask_eq_exp_minus_1)
    have "ucast (ucast x AND 0xFF :: u32) = (ucast x :: u8)" for x :: u64
      unfolding FF by (rule bit_word_eqI) (auto simp: bit_simps)
    moreover have "u - len = length ?p - 8 + i" using i kl p by linarith
    then have "(take len data @ ?p) ! u = ?p ! (length ?p - 8 + i)" using 4 len by (simp add: nth_append)
    ultimately show ?thesis using 4 le ge i(2) by (simp add: outCT_byte_def Let_def j ct_pad_length)
  qed
qed

text \<open>The loop: bytes of the padded message up to \<open>T\<close>, and then bytes that do not matter; the digest is kept from the block that ends there.\<close>

definition ct_inv :: "u8 list \<Rightarrow> u8 list \<Rightarrow> nat \<Rightarrow> 'a \<times> u8 list \<Rightarrow> bool" where
  "ct_inv M X u s \<longleftrightarrow> (case s of (hc, tmp2) \<Rightarrow>
     (\<exists>m. rep hc m \<and> (u \<le> length X \<longrightarrow> m = M @ take u X)) \<and>
     tmp2 = (if length X \<le> u then take hlen (sb (M @ X)) @ replicate (64 - hlen) 0 else replicate 64 0))"

lemma outCT_step_inv:
  assumes w: "ct_words n len kr kl bs" and len: "len \<le> max_len" "max_len \<le> length data" and M: "length M = n"
    and X: "X = take len data @ ct_pad (n + len)" and kz: "unat kz + 1 = length X"
    and inv: "ct_inv M X u s" and u: "u < 2 ^ 31"
  shows "ct_inv M X (Suc u) (outCT_step dig be bs kr kz kl (of_nat (8 * (n + len))) data len max_len hlen s (of_nat u))"
proof -
  obtain hc tmp2 where s: "s = (hc, tmp2)" by fastforce
  from inv obtain m where m: "rep hc m" "u \<le> length X \<longrightarrow> m = M @ take u X"
    and t: "tmp2 = (if length X \<le> u then take hlen (sb (M @ X)) @ replicate (64 - hlen) 0 else replicate 64 0)"
    by (auto simp: ct_inv_def s)
  define bl where "bl = (of_nat (8 * (n + len)) :: u64)"
  define b where "b = outCT_byte be bs kr kl bl data len max_len (of_nat u)"
  define hc1 where "hc1 = hc_update dig hc [b]"
  have hc1: "rep hc1 (m @ [b])" unfolding hc1_def by (rule update [OF m(1)])
  have lX: "length X = len + length (ct_pad (n + len))" using X len by simp
  have bX: "b = X ! u" if "u < length X"
    using outCT_byte_correct [OF w len, of u] that unfolding b_def bl_def X [symmetric] lX by simp
  have m1: "m @ [b] = M @ take (Suc u) X" if "u < length X" using m(2) bX that by (simp add: take_Suc_conv_app_nth)
  have bs: "unat bs = B" using w by (simp add: ct_words_def)
  have v: "(kr + of_nat u) AND (bs - 1) = bs - 1 \<longleftrightarrow> (n + u) mod B = B - 1"
    unfolding word_unat_eq_iff ct_v [OF w u] ct_bs(2) [OF bs] ..
  have eq: "of_nat u = kz \<longleftrightarrow> Suc u = length X" unfolding word_unat_eq_iff kz [symmetric] using u by (simp add: unat_of_nat)
  have len2: "length tmp2 = 64" using t sizes state_length by (auto simp: min_absorb2)
  have cc: "ccopy_list (EQ (of_nat u) kz) tmp2 (sb (m @ [b])) hlen = (if Suc u = length X then take hlen (sb (M @ X)) @ replicate (64 - hlen) 0 else tmp2)"
  proof -
    have "ccopy_list (of_bool (Suc u = length X)) tmp2 (sb (m @ [b])) hlen =
        (if Suc u = length X then take hlen (sb (m @ [b])) else take hlen tmp2) @ drop hlen tmp2"
      by (rule ccopy_list_eq) (use sizes state_length len2 in auto)
    then show ?thesis using m1 t by (auto simp: eq)
  qed
  have last: "(n + u) mod B = B - 1" if "Suc u = length X"
  proof -
    have "(n + Suc u) mod B = 0"
      using arg_cong [OF ct_pad_total [of n len], of "\<lambda>x. x mod B"] that by (simp add: lX add.assoc mod_add_left_eq)
    then have "((n + u) mod B + 1) mod B = 0" by (simp add: mod_Suc_eq)
    then have "(n + u) mod B + 1 = B" using k by (intro mod_0_up) auto
    then show ?thesis by simp
  qed
  have st: "hc_state dig hc1 = (sb (m @ [b]), of_nat (length (m @ [b])))" by (rule state [OF hc1])
  have "outCT_step dig be bs kr kz kl bl data len max_len hlen s (of_nat u) =
      (hc1, if Suc u = length X then take hlen (sb (M @ X)) @ replicate (64 - hlen) 0 else tmp2)"
    using last cc by (auto simp: outCT_step_def s Let_def v b_def [symmetric] hc1_def [symmetric] st)
  then show ?thesis unfolding bl_def using hc1 m1 t by (auto simp: ct_inv_def)
qed

lemma outCT_loop:
  assumes "ct_words n len kr kl bs" and "len \<le> max_len" "max_len \<le> length data" and "length M = n"
    and "X = take len data @ ct_pad (n + len)" and "unat kz + 1 = length X"
    and s: "rep hc M" and km: "km < 2 ^ 31"
  shows "ct_inv M X km (foldl (outCT_step dig be bs kr kz kl (of_nat (8 * (n + len))) data len max_len hlen) (hc, replicate 64 0) (map of_nat [0..<km]))"
  using km
proof (induction km)
  case 0
  have "0 < length X" using assms(6) by linarith
  then show ?case using s by (auto simp: ct_inv_def)
next
  case (Suc u)
  then show ?case using outCT_step_inv [OF assms(1-6), of u] by simp
qed

text \<open>The rounded lengths, as words.\<close>

lemma ct_round:
  fixes kr po bs :: u32
  assumes kr: "unat kr = n mod B" and po: "unat po = L + 1" and bs: "unat bs = B" and len: "len < 2 ^ 30"
  shows "unat ((kr + of_nat len + po + bs - 1) AND NOT (bs - 1)) = n mod B + len + length (ct_pad (n + len))"
    and "len + length (ct_pad (n + len)) < 2 ^ 31" and "8 < length (ct_pad (n + len))"
proof -
  have B: "B \<le> 128" "64 \<le> B" using k by auto
  have nB: "n mod B < 128" by (rule less_le_trans [OF mod_less_divisor]) (use B in linarith)+
  have L: "L \<le> 16" "8 \<le> L" using L_cases by auto
  have bs1: "kr + of_nat len + po + bs - 1 = kr + of_nat len + po + (bs - 1)" by simp
  have s: "n mod B + len + (L + 1) + (B - 1) < 2 ^ 31" using nB len L B by simp
  have "unat (kr + of_nat len + po + bs - 1) = n mod B + len + (L + 1) + (B - 1)"
    unfolding bs1 unat_word_ariths kr po ct_bs(2) [OF bs] unat_of_nat using s by simp
  also have "\<dots> = n mod B + len + (L + 1) + B - 1" using B by simp
  finally have u: "unat (kr + of_nat len + po + bs - 1) = n mod B + len + (L + 1) + B - 1" .
  show r: "unat ((kr + of_nat len + po + bs - 1) AND NOT (bs - 1)) = n mod B + len + length (ct_pad (n + len))"
    using and_not_mask [of k "kr + of_nat len + po + bs - 1"] k unfolding ct_bs(1) [OF bs] u ct_pad_total [symmetric] by auto
  have "n mod B + len + length (ct_pad (n + len)) \<le> n mod B + len + (L + 1) + B - 1"
    unfolding r [symmetric] ct_bs(1) [OF bs] u [symmetric] using and_not_mask [of k "kr + of_nat len + po + bs - 1"] k by auto
  then show "len + length (ct_pad (n + len)) < 2 ^ 31" using s B by simp
  show "8 < length (ct_pad (n + len))" using L by (simp add: ct_pad_def md_padding_def)
qed

text \<open>From the loop on: \<open>M\<close> is absorbed, the bytes are in \<open>data\<close>.\<close>

lemma outCT_tail:
  fixes kr kz kl km po bs :: u32
  assumes hc: "rep hc M" and len: "len \<le> max_len" "max_len \<le> length data" "max_len < 2 ^ 30" and M: "length M + len < 2 ^ 61"
    and kr: "kr = ucast (of_nat (length M) :: u64) AND (bs - 1)" and po: "unat po = L + 1" and bs: "unat bs = B"
    and kz: "kz = ((kr + of_nat len + po + bs - 1) AND NOT (bs - 1)) - 1 - kr" and kl: "kl = kz - 7"
    and km: "km = ((kr + of_nat max_len + po + bs - 1) AND NOT (bs - 1)) - kr"
  shows "case foldl (outCT_step dig be bs kr kz kl (of_nat (8 * (length M + len))) data len max_len hlen) (hc, replicate 64 0)
      (map of_nat [0..<unat km]) of (hc', tmp2) \<Rightarrow> (\<exists>m. rep hc' m) \<and> take hlen tmp2 = digest (M @ take len data)"
proof -
  let ?n = "length M" and ?X = "take len data @ ct_pad (length M + len)"
  have kr': "unat kr = ?n mod B"
  proof -
    have "unat (ucast (of_nat ?n :: u64) :: u32) = ?n mod 2 ^ 64 mod 2 ^ 32"
      by (simp add: unsigned_ucast_eq take_bit_eq_mod unat_of_nat)
    then show ?thesis unfolding kr ct_bs(1) [OF bs] and_mask_mod using k by (auto simp: mod_mod_cancel)
  qed
  have l30: "len < 2 ^ 30" using len by simp
  note z = ct_round [OF kr' po bs l30] and m = ct_round [OF kr' po bs len(3)]
  have kz': "unat kz + 1 = len + length (ct_pad (?n + len))"
    using unat_sub_Suc [of kr "(kr + of_nat len + po + bs - 1) AND NOT (bs - 1)"] z kr' unfolding kz by linarith
  have "7 \<le> kz" using kz' z(3) by (simp add: word_le_nat_alt)
  then have kl': "unat kl + 8 = len + length (ct_pad (?n + len))"
    using kz' z(3) unfolding kl by (simp add: unat_sub)
  have "kr \<le> (kr + of_nat max_len + po + bs - 1) AND NOT (bs - 1)" unfolding word_le_nat_alt m(1) kr' by simp
  then have km': "unat km = max_len + length (ct_pad (?n + max_len))"
    unfolding km unat_sub [OF \<open>kr \<le> _\<close>] m(1) kr' by simp
  have w: "ct_words ?n len kr kl bs" using kr' kl' bs z(2) by (simp add: ct_words_def)
  have "len + length (ct_pad (?n + len)) \<le> unat km"
  proof -
    have "?n mod B + len + length (ct_pad (?n + len)) \<le> ?n mod B + max_len + length (ct_pad (?n + max_len))"
      unfolding ct_pad_total [symmetric] using len(1) by (intro mult_le_mono1 div_le_mono) simp
    then show ?thesis unfolding km' by simp
  qed
  moreover have "length ?X = len + length (ct_pad (?n + len))" using len by simp
  moreover have "ct_inv M ?X (unat km) (foldl (outCT_step dig be bs kr kz kl (of_nat (8 * (?n + len))) data len max_len hlen)
      (hc, replicate 64 0) (map of_nat [0..<unat km]))"
    by (rule outCT_loop [OF w len(1,2) refl refl _ hc]) (use kz' len m(2) km' in simp_all)
  moreover have "take hlen (sb (M @ ?X)) = digest (M @ take len data)"
    using md [of "M @ take len data"] M len by (simp add: ct_pad_def)
  ultimately show ?thesis using state_length sizes by (auto simp: ct_inv_def min_absorb2 digest_length)
qed

text \<open>The direct part takes the whole blocks that \<open>min_len\<close> guarantees.\<close>

lemma ct_direct:
  assumes "n + min_len < 2 ^ 62" and "unat (bs :: u32) = B"
  defines "nc \<equiv> (of_nat n + of_nat min_len :: u64) AND NOT (ucast (bs - 1))"
  shows "unat nc = (n + min_len) div B * B"
proof -
  have "ucast (bs - 1) = (mask k :: u64)" unfolding ct_bs(1) [OF assms(2)] using k by (auto simp: mask_eq_exp_minus_1)
  moreover have "unat (of_nat n + of_nat min_len :: u64) = n + min_len" using assms(1) by (simp add: unat_word_ariths unat_of_nat)
  ultimately show ?thesis using k and_not_mask [of k "of_nat n + of_nat min_len :: u64"] by (auto simp: nc_def)
qed

lemma outCT_correct:
  assumes ctx: "hmac_rep ctx K m" and len: "min_len \<le> len" "len \<le> max_len" "max_len \<le> length data" "max_len < 2 ^ 30"
    and m: "B + length m + len < 2 ^ 61"
  shows "br_hmac_outCT ctx data len min_len max_len = take (hm_out_len ctx) (hmac digest B K (m @ take len data))"
proof -
  define M where "M = key_block K 0x36 @ m"
  have v: "hm_vtable ctx = dig" and hc: "rep (hm_dig ctx) M" and kso: "hm_kso ctx = sb (key_block K 0x5C)"
    using ctx by (auto simp: hmac_rep_def M_def)
  have st: "hc_state dig (hm_dig ctx) = (sb M, of_nat (length M))" by (rule state [OF hc])
  have hs: "hash_size dig = hlen" by (simp add: hash_size_def br_digest_size_def)
  define bs where "bs = (of_nat B :: u32)"
  have bs: "unat bs = B" using k by (auto simp: bs_def)
  define po where "po = (if hc_desc dig AND BR_HASHDESC_MD_PADDING_128 \<noteq> 0 then 9 + 8 else 9 :: u32)"
  have po: "unat po = L + 1" using L by (simp add: po_def)
  have lM: "length M = B + length m" by (simp add: M_def)
  define nc where "nc = (of_nat (length M) + of_nat min_len :: u64) AND NOT (ucast (bs - 1))"
  have nc: "unat nc = (length M + min_len) div B * B"
    unfolding nc_def using m len lM by (intro ct_direct [OF _ bs]) simp
  have "length M < 2 ^ 61" using m lM by simp
  then have uM: "unat (of_nat (length M) :: u64) = length M" by (simp add: unat_of_nat)
  define z where "z = (if length M < unat nc then unat nc - length M else 0)"
  have z: "z \<le> min_len" unfolding z_def nc by (simp add: le_diff_conv add.commute)
  define data' where "data' = drop z data"
  define hc' where "hc' = (if length M < unat nc then hc_update dig (hm_dig ctx) (take z data) else hm_dig ctx)"
  have hc': "rep hc' (M @ take z data)" using hc update [OF hc] by (simp add: hc'_def z_def)
  have len': "length (M @ take z data) = length M + z" using z len by simp
  define cnt where "cnt = (if length M < unat nc then nc else of_nat (length M))"
  have cnt: "cnt = of_nat (length (M @ take z data))" 
  proof (cases "length M < unat nc")
    case True
    then have "length M + z = unat nc" by (simp add: z_def)
    then have "of_nat (length M + z) = nc" by simp
    then show ?thesis unfolding len' using True by (simp only: cnt_def if_True)
  next
    case False then show ?thesis by (simp add: cnt_def z_def)
  qed
  define kr kz kl km where "kr = ucast cnt AND (bs - 1)"
    and "kz = ((kr + of_nat (len - z) + po + bs - 1) AND NOT (bs - 1)) - 1 - kr" and "kl = kz - 7"
    and "km = ((kr + of_nat (max_len - z) + po + bs - 1) AND NOT (bs - 1)) - kr"
  define bl where "bl = shl (of_nat (length M) + of_nat len :: u64) 3"
  have bl: "bl = of_nat (8 * (length (M @ take z data) + (len - z)))"
  proof -
    have e: "length (M @ take z data) + (len - z) = length M + len" using z len unfolding len' by simp
    show ?thesis unfolding e bl_def by (simp add: push_bit_eq_mult algebra_simps)
  qed
  obtain h2 t2 where f: "foldl (outCT_step dig be bs kr kz kl bl data' (len - z) (max_len - z) hlen) (hc', replicate 64 0)
      (map of_nat [0..<unat km]) = (h2, t2)" by fastforce
  have "case foldl (outCT_step dig be bs kr kz kl bl data' (len - z) (max_len - z) hlen) (hc', replicate 64 0)
      (map of_nat [0..<unat km]) of (hc', tmp2) \<Rightarrow> (\<exists>m. rep hc' m) \<and> take hlen tmp2 = digest ((M @ take z data) @ take (len - z) data')"
    unfolding bl
    by (rule outCT_tail [OF hc' _ _ _ _ _ po bs kz_def kl_def km_def]) (use z len m lM in \<open>auto simp: data'_def kr_def cnt\<close>)
  then obtain m2 where h2: "rep h2 m2" and t2: "take hlen t2 = digest ((M @ take z data) @ take (len - z) data')"
    unfolding f by auto
  have "(M @ take z data) @ take (len - z) data' = M @ take len data"
    using z len take_add [of z "len - z" data] by (simp add: data'_def)
  then have t2: "take hlen t2 = digest (M @ take len data)" using t2 by simp
  have lt: "of_nat (length M) < nc \<longleftrightarrow> length M < unat nc" unfolding word_less_nat_alt uM ..
  have zl: "unat (nc - of_nat (length M)) = z" if "length M < unat nc"
  proof -
    have "of_nat (length M) \<le> nc" using that unfolding word_le_nat_alt uM by simp
    from unat_sub [OF this] show ?thesis using that by (simp only: uM z_def if_True)
  qed
  have tuple: "(if of_nat (length M) < nc
      then (hc_update dig (hm_dig ctx) (take (unat (nc - of_nat (length M))) data), drop (unat (nc - of_nat (length M))) data,
        len - unat (nc - of_nat (length M)), max_len - unat (nc - of_nat (length M)), nc)
      else (hm_dig ctx, data, len, max_len, of_nat (length M))) = (hc', data', len - z, max_len - z, cnt)"
    unfolding lt using zl by (auto simp: hc'_def data'_def cnt_def z_def)
  have "br_hmac_outCT ctx data len min_len max_len = take (hm_out_len ctx)
      (hc_out dig (hc_update dig (hc_set_state dig (hc_init dig h2) (sb (key_block K 0x5C)) (ucast bs)) (take hlen t2)))"
    unfolding br_hmac_outCT_def Let_def v st hs prod.case kso be [symmetric] bs_def [symmetric] po_def [symmetric]
      nc_def [symmetric] bl_def [symmetric] tuple kr_def [symmetric] kz_def [symmetric] kl_def [symmetric] km_def [symmetric] f ..
  also have "ucast bs = (of_nat B :: u64)" using k by (auto simp: bs_def)
  also have "hc_out dig (hc_update dig (hc_set_state dig (hc_init dig h2) (sb (key_block K 0x5C)) (of_nat B)) (take hlen t2))
      = digest (key_block K 0x5C @ take hlen t2)"
    using set_state [OF disjI2 [OF init [OF disjI2 [OF h2]]], of "key_block K 0x5C" "[]"] by (intro out update) simp
  also have "\<dots> = hmac digest B K (m @ take len data)" unfolding t2 hmac_blocks M_def by simp
  finally show ?thesis .
qed

lemma outCT_chunks:
  assumes len: "min_len \<le> len" "len \<le> max_len" "max_len \<le> length data" "max_len < 2 ^ 30"
    and m: "B + length (concat ds) + len < 2 ^ 61" and ctx: "ctx = foldl br_hmac_update (br_hmac_init (br_hmac_key_init dig K) n) ds"
  shows "br_hmac_outCT ctx data len min_len max_len = br_hmac_out (br_hmac_update ctx (take len data))"
proof -
  have r: "hmac_rep ctx K (concat ds)"
    using hmac_rep_chunks [OF conjunct1 [OF hmac_init_rep [OF key_init_rep]], of K n ds] by (simp add: ctx)
  show ?thesis using outCT_correct [OF r len m] hmac_out_rep [OF hmac_update_rep [OF r, of "take len data"]] by simp
qed

end

section \<open>The classes with the padding flag\<close>

lemma take_range_enc:
  "take (4 * n) (br_range_enc32be v) = br_range_enc32be (take n v)"
  "take (8 * n) (br_range_enc64be w) = br_range_enc64be (take n w)"
proof -
  show "take (4 * n) (br_range_enc32be v) = br_range_enc32be (take n v)"
    unfolding br_range_enc32be_def by (induction v arbitrary: n) (simp, case_tac n, simp_all)
  show "take (8 * n) (br_range_enc64be w) = br_range_enc64be (take n w)"
    unfolding br_range_enc64be_def by (induction w arbitrary: n) (simp, case_tac n, simp_all)
qed

lemma length_field_simps:
  "length_field True 8 n = br_enc64be (of_nat (8 * n))" "length_field False 8 n = br_enc64le (of_nat (8 * n))"
  by (simp_all add: length_field_def)

lemma length_field_16:
  assumes "n < 2 ^ 61"
  shows "length_field True 16 n = br_enc64be (shr (of_nat n) 61) @ br_enc64be (of_nat (8 * n))"
proof -
  have "unat (shr (of_nat n :: u64) 61) = n div 2 ^ 61" using assms by (simp add: unat_drop_bit unat_of_nat)
  then have "shr (of_nat n :: u64) 61 = 0" using assms by (simp add: unat_eq_zero)
  then show ?thesis by (simp add: length_field_def enc64_bytes numeral_eq_Suc)
qed

lemmas desc_defs = block_size_def br_digest_size_def hashdesc_defs

lemmas length_chain = length_chains sha224_chain_def sha256_chain_def sha384_chain_def sha512_chain_def
  length_sha256_fold length_sha512_fold sha256_IVs sha512_IVs

interpretation md5_ct: md_hash br_md5_vtable md5.rep "\<lambda>m. br_range_enc32le (md5_chain m)" md5 False 8 6
  by (unfold_locales) (simp_all add: br_md5_vtable_def desc_defs length_chain md5_def length_field_simps)

interpretation sha1_ct: md_hash br_sha1_vtable sha1.rep "\<lambda>m. br_range_enc32be (sha1_chain m)" sha1 True 8 6
  by (unfold_locales) (simp_all add: br_sha1_vtable_def desc_defs length_chain sha1_def length_field_simps)

interpretation sha224_ct: md_hash br_sha224_vtable sha224.rep "\<lambda>m. br_range_enc32be (sha224_chain m)" sha224 True 8 6
  using take_range_enc(1) [of 7]
  by (unfold_locales) (simp_all add: br_sha224_vtable_def desc_defs length_chain sha224_def length_field_simps)

interpretation sha256_ct: md_hash br_sha256_vtable sha256.rep "\<lambda>m. br_range_enc32be (sha256_chain m)" sha256 True 8 6
  by (unfold_locales) (simp_all add: br_sha256_vtable_def desc_defs length_chain sha256_def length_field_simps)

interpretation sha384_ct: md_hash br_sha384_vtable sha384.rep "\<lambda>m. br_range_enc64be (sha384_chain m)" sha384 True 16 7
  using take_range_enc(2) [of 6]
  by (unfold_locales) (simp_all add: br_sha384_vtable_def desc_defs length_chain sha384_def length_field_16)

interpretation sha512_ct: md_hash br_sha512_vtable sha512.rep "\<lambda>m. br_range_enc64be (sha512_chain m)" sha512 True 16 7
  by (unfold_locales) (simp_all add: br_sha512_vtable_def desc_defs length_chain sha512_def length_field_16)

section \<open>Properties\<close>

lemma hash_sizes:
  "block_size br_md5_vtable = 64" "block_size br_sha1_vtable = 64" "block_size br_sha256_vtable = 64" "block_size br_sha384_vtable = 128"
  "br_digest_size br_md5_vtable = 16" "br_digest_size br_sha1_vtable = 20" "br_digest_size br_sha256_vtable = 32"
  "br_digest_size br_sha384_vtable = 48"
  by (simp_all add: desc_defs br_md5_vtable_def br_sha1_vtable_def br_sha256_vtable_def br_sha384_vtable_def)

text \<open>C27. HMAC: for keys of any length (longer ones are hashed), messages in any number of updates and any requested output
  length, \<open>br_hmac_out\<close> is the truncated HMAC of FIPS 198-1 over the hash function.\<close>

theorem br_hmac_correct:
  "br_hmac_out (foldl br_hmac_update (br_hmac_init (br_hmac_key_init br_md5_vtable K) n) ds)
     = take (if 0 < n \<and> n < 16 then n else 16) (hmac md5 64 K (concat ds)) \<and>
   br_hmac_out (foldl br_hmac_update (br_hmac_init (br_hmac_key_init br_sha1_vtable K) n) ds)
     = take (if 0 < n \<and> n < 20 then n else 20) (hmac sha1 64 K (concat ds)) \<and>
   br_hmac_out (foldl br_hmac_update (br_hmac_init (br_hmac_key_init br_sha256_vtable K) n) ds)
     = take (if 0 < n \<and> n < 32 then n else 32) (hmac sha256 64 K (concat ds)) \<and>
   br_hmac_out (foldl br_hmac_update (br_hmac_init (br_hmac_key_init br_sha384_vtable K) n) ds)
     = take (if 0 < n \<and> n < 48 then n else 48) (hmac sha384 128 K (concat ds))"
  using md5_hash.hmac_of_chunks [of K n ds] sha1_hash.hmac_of_chunks [of K n ds] sha256_hash.hmac_of_chunks [of K n ds]
    sha384_hash.hmac_of_chunks [of K n ds]
  by (simp add: md5_hash.hmac_len_def sha1_hash.hmac_len_def sha256_hash.hmac_len_def sha384_hash.hmac_len_def hash_sizes)

text \<open>C21. \<^bold>\<open>HMAC of a secret length.\<close> \<open>br_hmac_outCT\<close>, which processes \<open>max_len\<close> bytes and the largest padding whatever \<open>len\<close> is, returns
  what \<open>br_hmac_out\<close> returns after an update with the \<open>len\<close> bytes, for the three hash functions of the TLS record layer.\<close>

theorem br_hmac_outCT_correct:
  assumes "min_len \<le> len" and "len \<le> max_len" and "max_len \<le> length data" and "max_len < 2 ^ 30"
    and "128 + length (concat ds) + len < 2 ^ 61"
  shows "br_hmac_outCT (foldl br_hmac_update (br_hmac_init (br_hmac_key_init br_sha1_vtable K) n) ds) data len min_len max_len
      = br_hmac_out (foldl br_hmac_update (br_hmac_init (br_hmac_key_init br_sha1_vtable K) n) (ds @ [take len data])) \<and>
    br_hmac_outCT (foldl br_hmac_update (br_hmac_init (br_hmac_key_init br_sha256_vtable K) n) ds) data len min_len max_len
      = br_hmac_out (foldl br_hmac_update (br_hmac_init (br_hmac_key_init br_sha256_vtable K) n) (ds @ [take len data])) \<and>
    br_hmac_outCT (foldl br_hmac_update (br_hmac_init (br_hmac_key_init br_sha384_vtable K) n) ds) data len min_len max_len
      = br_hmac_out (foldl br_hmac_update (br_hmac_init (br_hmac_key_init br_sha384_vtable K) n) (ds @ [take len data]))"
  using sha1_ct.outCT_chunks [OF assms(1-4) _ refl, of ds K n] sha256_ct.outCT_chunks [OF assms(1-4) _ refl, of ds K n]
    sha384_ct.outCT_chunks [OF assms(1-4) _ refl, of ds K n] assms(5)
  by (simp add: hash_sizes)

theorem br_hmac_outCT_correct_witness:
  "br_hmac_outCT (br_hmac_init (br_hmac_key_init br_sha1_vtable [1, 2]) 0) [10, 20, 30, 40] 2 1 4
    = br_hmac_out (br_hmac_update (br_hmac_init (br_hmac_key_init br_sha1_vtable [1, 2]) 0) [10, 20])"
  using br_hmac_outCT_correct [of 1 2 4 "[10, 20, 30, 40]" "[]" "[1, 2]" 0] by simp

end
