(* ===== verification/Kdf.thy ===== *)
theory Kdf
  imports Hmac_CT
begin

text \<open>
  What is built on HMAC: HKDF (\<^verbatim>\<open>src/kdf/hkdf.c\<close>), the pseudorandom function of TLS (\<^verbatim>\<open>src/ssl/prf*.c\<close>), HMAC_DRBG
  (\<^verbatim>\<open>src/rand/hmac_drbg.c\<close>) and the mask generation MGF1 (\<^verbatim>\<open>src/hash/mgf1.c\<close>), each with its standard as the reference. Arrays of 64
  bytes of which only the first digest-size bytes are used are lists of that size.
\<close>

context hash_impl
begin

text \<open>One HMAC with a prepared key.\<close>

lemma hmac_kc:
  assumes "key_rep kc K"
  shows "br_hmac_out (foldl br_hmac_update (br_hmac_init kc 0) ds) = hmac digest B K (concat ds)"
  using hmac_out_rep [OF hmac_rep_chunks, of "br_hmac_init kc 0" K "[]" ds] hmac_init_rep [OF assms, of 0]
  by (simp add: hmac_len_def)

lemma key_rep_vtable: "key_rep kc K \<Longrightarrow> kc_dig_vtable kc = dig"
  by (simp add: key_rep_def)

end

section \<open>MGF1 (hash/mgf1.c)\<close>

text \<open>The loop over the counter \<open>c\<close>, with \<open>u = c * hlen\<close>; \<open>data\<close> is what is left from \<open>u\<close> on. \<open>hlen\<close> is positive for every class, the
  test of it makes the function total.\<close>

function mgf1_loop :: "'c br_hash_class \<Rightarrow> nat \<Rightarrow> u8 list \<Rightarrow> u32 \<Rightarrow> u8 list \<Rightarrow> u8 list" where
  "mgf1_loop dig hlen seed c data =
     (if data = [] \<or> hlen = 0 then []
      else let hc = hc_init dig (hc_ctx dig);
               hc = hc_update dig hc seed;
               hc = hc_update dig hc (br_enc32be c);
               tmp = hc_out dig hc
           in map2 (XOR) (take hlen data) (take hlen tmp) @ mgf1_loop dig hlen seed (c + 1) (drop hlen data))"
  by pat_completeness auto
termination
  by (relation "measure (\<lambda>(dig, hlen, seed, c, data). length data)") auto

declare mgf1_loop.simps [simp del]

definition br_mgf1_xor :: "u8 list \<Rightarrow> 'c br_hash_class \<Rightarrow> u8 list \<Rightarrow> u8 list" where
  "br_mgf1_xor data dig seed = mgf1_loop dig (br_digest_size dig) seed 0 data"

text \<open>PKCS#1: the mask is the concatenation of the hashes of the seed with a counter.\<close>

definition mgf1_mask :: "(u8 list \<Rightarrow> u8 list) \<Rightarrow> u8 list \<Rightarrow> nat \<Rightarrow> u8 list" where
  "mgf1_mask H seed n = concat (map (\<lambda>c. H (seed @ br_enc32be (of_nat c))) [0..<n])"

lemma map2_append_take:
  "length a = k \<Longrightarrow> map2 f d (a @ b) = map2 f (take k d) a @ map2 f (drop k d) b"
  by (auto simp: zip_append2)

context hash_impl
begin

lemma mgf1_hash: "hc_out dig (hc_update dig (hc_update dig (hc_init dig (hc_ctx dig)) s) x) = digest (s @ x)"
  using out [OF update [OF update [OF init]]] by simp

lemma mgf1_loop_mask:
  "length data \<le> n * br_digest_size dig \<Longrightarrow>
   mgf1_loop dig (br_digest_size dig) seed (of_nat c) data
     = map2 (XOR) data (concat (map (\<lambda>c. digest (seed @ br_enc32be (of_nat c))) [c..<c + n]))"
proof (induction n arbitrary: c data)
  case 0 then show ?case by (simp add: mgf1_loop.simps)
next
  case (Suc n)
  show ?case
  proof (cases "data = []")
    case True then show ?thesis by (simp add: mgf1_loop.simps)
  next
    case False
    have e: "[c..<c + Suc n] = c # [Suc c..<Suc c + n]" by (simp add: upt_rec)
    have "length (drop (br_digest_size dig) data) \<le> n * br_digest_size dig" using Suc.prems by simp
    note IH = Suc.IH [OF this, of "Suc c"]
    have "of_nat c + (1 :: u32) = of_nat (Suc c)" by simp
    then show ?thesis
      unfolding e list.map concat.simps map2_append_take [OF digest_length] IH [symmetric]
      using False sizes by (subst mgf1_loop.simps) (simp add: Let_def mgf1_hash digest_length add.commute)
  qed
qed

lemma mgf1_xor_mask: "length data \<le> n * br_digest_size dig \<Longrightarrow> br_mgf1_xor data dig seed = map2 (XOR) data (mgf1_mask digest seed n)"
  using mgf1_loop_mask [of data n seed 0] by (simp add: br_mgf1_xor_def mgf1_mask_def)

lemma length_mask: "length (mgf1_mask digest seed n) = n * br_digest_size dig"
  by (simp add: mgf1_mask_def length_concat comp_def digest_length sum_list_triv)

lemma mask_enough: "n \<le> n * br_digest_size dig"
  using sizes by simp

lemma length_mgf1: "length (br_mgf1_xor data dig seed) = length data"
  using mask_enough [of "length data"] unfolding mgf1_xor_mask [OF mask_enough] by (simp only: length_map length_zip length_mask)

lemma mgf1_twice: "br_mgf1_xor (br_mgf1_xor data dig seed) dig seed = data"
proof -
  let ?n = "length data"
  let ?m = "mgf1_mask digest seed ?n"
  have m: "length data \<le> length ?m" unfolding length_mask by (rule mask_enough)
  have "br_mgf1_xor (br_mgf1_xor data dig seed) dig seed = map2 (XOR) (map2 (XOR) data ?m) ?m"
    unfolding mgf1_xor_mask [OF mask_enough, of data]
    using m mask_enough [of ?n] by (intro mgf1_xor_mask) simp
  also have "\<dots> = data" using m by (intro nth_equalityI) (auto simp: xor.assoc)
  finally show ?thesis .
qed

end

section \<open>The pseudorandom function of TLS (ssl/prf.c)\<close>

definition hmac_seeds :: "'c br_hmac_context \<Rightarrow> u8 list list \<Rightarrow> 'c br_hmac_context" where
  "hmac_seeds hc seed = foldl br_hmac_update hc seed"

text \<open>The \<open>for (;;)\<close> of \<open>br_tls_phash\<close>, \<open>buf\<close> being what is left; it returns the bytes it has written.\<close>

function phash_loop :: "'c br_hmac_key_context \<Rightarrow> nat \<Rightarrow> u8 list \<Rightarrow> u8 list list \<Rightarrow> u8 list \<Rightarrow> u8 list \<Rightarrow> u8 list" where
  "phash_loop kc hlen label seed a buf =
     (let hc = br_hmac_init kc 0;
          hc = br_hmac_update hc (take hlen a);
          hc = br_hmac_update hc label;
          hc = hmac_seeds hc seed;
          tmp = br_hmac_out hc;
          u = min hlen (length buf);
          front = map2 (XOR) (take u buf) (take u tmp)
      in if drop u buf = [] \<or> u = 0 then front
         else let hc = br_hmac_init kc 0;
                  hc = br_hmac_update hc (take hlen a);
                  a = br_hmac_out hc
              in front @ phash_loop kc hlen label seed a (drop u buf))"
  by pat_completeness auto
termination
  by (relation "measure (\<lambda>(kc, hlen, label, seed, a, buf). length buf)") auto

declare phash_loop.simps [simp del]

definition br_tls_phash :: "u8 list \<Rightarrow> 'c br_hash_class \<Rightarrow> u8 list \<Rightarrow> u8 list \<Rightarrow> u8 list list \<Rightarrow> u8 list" where
  "br_tls_phash dst dig secret label seed =
     (if dst = [] then []
      else let hlen = br_digest_size dig;
               kc = br_hmac_key_init dig secret;
               hc = br_hmac_init kc 0;
               hc = br_hmac_update hc label;
               hc = hmac_seeds hc seed;
               a = br_hmac_out hc
           in phash_loop kc hlen label seed a dst)"

definition br_tls10_prf :: "nat \<Rightarrow> u8 list \<Rightarrow> u8 list \<Rightarrow> u8 list list \<Rightarrow> u8 list" where
  "br_tls10_prf len secret label seed =
     (let slen = (length secret + 1) div 2;
          dst = replicate len 0;
          dst = br_tls_phash dst br_md5_vtable (take slen secret) label seed
      in br_tls_phash dst br_sha1_vtable (drop (length secret - slen) secret) label seed)"

definition br_tls12_sha256_prf :: "nat \<Rightarrow> u8 list \<Rightarrow> u8 list \<Rightarrow> u8 list list \<Rightarrow> u8 list" where
  "br_tls12_sha256_prf len secret label seed = br_tls_phash (replicate len 0) br_sha256_vtable secret label seed"

definition br_tls12_sha384_prf :: "nat \<Rightarrow> u8 list \<Rightarrow> u8 list \<Rightarrow> u8 list list \<Rightarrow> u8 list" where
  "br_tls12_sha384_prf len secret label seed = br_tls_phash (replicate len 0) br_sha384_vtable secret label seed"

text \<open>RFC 5246: \<open>A(0)\<close> is the seed, \<open>A(i + 1) = HMAC(A(i))\<close>, and \<open>P_hash\<close> is the concatenation of the \<open>HMAC(A(i) || seed)\<close> from \<open>i = 1\<close>.\<close>

primrec prf_A :: "(u8 list \<Rightarrow> u8 list) \<Rightarrow> u8 list \<Rightarrow> nat \<Rightarrow> u8 list" where
  "prf_A mac s 0 = s"
| "prf_A mac s (Suc i) = mac (prf_A mac s i)"

definition P_hash :: "(u8 list \<Rightarrow> u8 list) \<Rightarrow> u8 list \<Rightarrow> nat \<Rightarrow> u8 list" where
  "P_hash mac s n = concat (map (\<lambda>i. mac (prf_A mac s (Suc i) @ s)) [0..<n])"

context hash_impl
begin

lemma phash_loop_P:
  assumes kc: "key_rep kc K" and s: "s = label @ concat seed"
  shows "buf \<noteq> [] \<Longrightarrow> length buf \<le> n * br_digest_size dig \<Longrightarrow> a = prf_A (hmac digest B K) s (Suc i) \<Longrightarrow>
    phash_loop kc (br_digest_size dig) label seed a buf
      = map2 (XOR) buf (concat (map (\<lambda>i. hmac digest B K (prf_A (hmac digest B K) s (Suc i) @ s)) [i..<i + n]))"
proof (induction n arbitrary: i buf a)
  case (Suc n)
  let ?mac = "hmac digest B K" and ?h = "br_digest_size dig"
  define u where "u = min ?h (length buf)"
  have u: "u \<noteq> 0" "u \<le> ?h" using Suc.prems(1) sizes by (auto simp: u_def)
  have a: "take ?h a = a" using Suc.prems(3) by simp
  have "foldl br_hmac_update (br_hmac_init kc 0) (a # label # seed) = hmac_seeds (br_hmac_update (br_hmac_update (br_hmac_init kc 0) a) label) seed"
    by (simp add: hmac_seeds_def)
  then have t: "br_hmac_out (hmac_seeds (br_hmac_update (br_hmac_update (br_hmac_init kc 0) a) label) seed) = ?mac (a @ s)"
    using hmac_kc [OF kc, of "a # label # seed"] by (simp add: s)
  have a': "br_hmac_out (br_hmac_update (br_hmac_init kc 0) a) = ?mac a" using hmac_kc [OF kc, of "[a]"] by simp
  have e: "[i..<i + Suc n] = i # [Suc i..<Suc i + n]" by (simp add: upt_rec)
  have front: "map2 (XOR) (take u buf) (take u (?mac (a @ s))) = map2 (XOR) (take ?h buf) (?mac (a @ s))"
    unfolding u_def by (rule nth_equalityI) auto
  have d: "drop u buf = drop ?h buf" by (simp add: u_def min_def)
  have tail: "(if drop u buf = [] then [] else phash_loop kc ?h label seed (?mac a) (drop u buf))
      = map2 (XOR) (drop ?h buf) (concat (map (\<lambda>i. ?mac (prf_A ?mac s (Suc i) @ s)) [Suc i..<Suc i + n]))"
  proof (cases "drop u buf = []")
    case True then show ?thesis unfolding d by simp
  next
    case False
    have "length (drop u buf) \<le> n * ?h" using Suc.prems(2) unfolding d by simp
    from Suc.IH [OF False this, of "?mac a" "Suc i"] show ?thesis using False Suc.prems(3) by (simp add: d)
  qed
  have "phash_loop kc ?h label seed a buf = map2 (XOR) (take u buf) (take u (?mac (a @ s))) @
      (if drop u buf = [] then [] else phash_loop kc ?h label seed (?mac a) (drop u buf))"
    by (subst phash_loop.simps) (simp add: Let_def a t a' u_def [symmetric] u)
  then show ?case unfolding front [unfolded Suc.prems(3)] tail [unfolded Suc.prems(3)] Suc.prems(3)
    unfolding e list.map concat.simps map2_append_take [OF length_hmac] .
qed simp

lemma tls_phash_P:
  assumes "length dst \<le> n * br_digest_size dig"
  shows "br_tls_phash dst dig secret label seed = map2 (XOR) dst (P_hash (hmac digest B secret) (label @ concat seed) n)"
proof (cases "dst = []")
  case True then show ?thesis by (simp add: br_tls_phash_def)
next
  case False
  have "br_hmac_out (hmac_seeds (br_hmac_update (br_hmac_init (br_hmac_key_init dig secret) 0) label) seed)
      = hmac digest B secret (label @ concat seed)"
    using hmac_kc [OF key_init_rep, of secret "label # seed"] by (simp add: hmac_seeds_def)
  then show ?thesis
    using False phash_loop_P [OF key_init_rep refl False assms, of _ secret label seed 0]
    by (simp add: br_tls_phash_def Let_def P_hash_def)
qed

end

section \<open>HKDF (kdf/hkdf.c)\<close>

text \<open>The union of the two contexts is the datatype; the selectors read it as the code does. \<open>None\<close> as the salt is \<open>BR_HKDF_NO_SALT\<close>.\<close>

datatype 'c hkdf_u = Hmac_ctx (hmac_ctx: "'c br_hmac_context") | Prk_ctx (prk_ctx: "'c br_hmac_key_context")

record 'c br_hkdf_context =
  hk_u :: "'c hkdf_u"
  hk_buf :: "u8 list"
  hk_ptr :: nat
  hk_dig_len :: nat
  hk_chunk_num :: u32

definition br_hkdf_init :: "'c br_hash_class \<Rightarrow> u8 list option \<Rightarrow> 'c br_hkdf_context" where
  "br_hkdf_init dig salt =
     (let salt = (case salt of None \<Rightarrow> replicate (br_digest_size dig) 0 | Some s \<Rightarrow> s);
          kc = br_hmac_key_init dig salt;
          hc = br_hmac_init kc 0
      in \<lparr>hk_u = Hmac_ctx hc, hk_buf = replicate 64 0, hk_ptr = 0, hk_dig_len = br_hmac_size hc, hk_chunk_num = 0\<rparr>)"

definition br_hkdf_inject :: "'c br_hkdf_context \<Rightarrow> u8 list \<Rightarrow> 'c br_hkdf_context" where
  "br_hkdf_inject hc ikm = hc\<lparr>hk_u := Hmac_ctx (br_hmac_update (hmac_ctx (hk_u hc)) ikm)\<rparr>"

definition br_hkdf_flip :: "'c br_hkdf_context \<Rightarrow> 'c br_hkdf_context" where
  "br_hkdf_flip hc =
     (let tmp = br_hmac_out (hmac_ctx (hk_u hc));
          kc = br_hmac_key_init (br_hmac_get_digest (hmac_ctx (hk_u hc))) (take (hk_dig_len hc) tmp)
      in hc\<lparr>hk_u := Prk_ctx kc, hk_ptr := hk_dig_len hc, hk_chunk_num := 0\<rparr>)"

text \<open>The next block, when the current one is used up: the new chunk number, and the block unless the limit is hit.\<close>

definition hkdf_block :: "'c br_hkdf_context \<Rightarrow> u8 list \<Rightarrow> 'c br_hkdf_context \<times> bool" where
  "hkdf_block hc info =
     (let hc = hc\<lparr>hk_chunk_num := hk_chunk_num hc + 1\<rparr>
      in if hk_chunk_num hc = 256 then (hc, False)
         else let x = ucast (hk_chunk_num hc) :: u8;
                  hm = br_hmac_init (prk_ctx (hk_u hc)) 0;
                  hm = (if x \<noteq> 1 then br_hmac_update hm (take (hk_dig_len hc) (hk_buf hc)) else hm);
                  hm = br_hmac_update hm info;
                  hm = br_hmac_update hm [x]
              in (hc\<lparr>hk_buf := splice (hk_buf hc) 0 (br_hmac_out hm), hk_ptr := 0\<rparr>, True))"

text \<open>The loop over \<open>out_len\<close>; the last disjuncts of the guard never hold between the calls of the interface and make the function
  total.\<close>

function hkdf_loop :: "'c br_hkdf_context \<Rightarrow> u8 list \<Rightarrow> nat \<Rightarrow> 'c br_hkdf_context \<times> u8 list" where
  "hkdf_loop hc info out_len =
     (if out_len = 0 \<or> hk_dig_len hc < hk_ptr hc \<or> hk_dig_len hc = 0 then (hc, [])
      else case (if hk_ptr hc = hk_dig_len hc then hkdf_block hc info else (hc, True)) of (hc1, go) \<Rightarrow>
        if \<not> go then (hc1, [])
        else let clen = min (hk_dig_len hc1 - hk_ptr hc1) out_len;
                 out = take clen (drop (hk_ptr hc1) (hk_buf hc1));
                 (hc2, rest) = hkdf_loop (hc1\<lparr>hk_ptr := hk_ptr hc1 + clen\<rparr>) info (out_len - clen)
             in (hc2, out @ rest))"
  by pat_completeness auto
termination
  by (relation "measure (\<lambda>(hc, info, n). n)") (auto simp: hkdf_block_def Let_def split: if_splits)

declare hkdf_loop.simps [simp del]

definition br_hkdf_produce :: "'c br_hkdf_context \<Rightarrow> u8 list \<Rightarrow> nat \<Rightarrow> 'c br_hkdf_context \<times> u8 list" where
  "br_hkdf_produce hc info out_len = hkdf_loop hc info out_len"

text \<open>RFC 5869: \<open>T(0)\<close> is empty, \<open>T(i + 1) = HMAC(PRK, T(i) || info || i + 1)\<close>.\<close>

primrec hkdf_T :: "(u8 list \<Rightarrow> u8 list) \<Rightarrow> u8 list \<Rightarrow> nat \<Rightarrow> u8 list" where
  "hkdf_T mac info 0 = []"
| "hkdf_T mac info (Suc i) = mac (hkdf_T mac info i @ info @ [of_nat (Suc i)])"

definition hkdf_okm :: "(u8 list \<Rightarrow> u8 list) \<Rightarrow> u8 list \<Rightarrow> u8 list" where
  "hkdf_okm mac info = concat (map (hkdf_T mac info) [1..<256])"

context hash_impl
begin

text \<open>After the flip with the pseudorandom key \<open>PRK\<close>, \<open>p\<close> bytes have been produced.\<close>

definition hkdf_at :: "'c br_hkdf_context \<Rightarrow> u8 list \<Rightarrow> u8 list \<Rightarrow> nat \<Rightarrow> bool" where
  "hkdf_at hc PRK info p \<longleftrightarrow> (\<exists>kc i. hk_u hc = Prk_ctx kc \<and> key_rep kc PRK \<and> hk_dig_len hc = br_digest_size dig \<and> length (hk_buf hc) = 64 \<and>
     hk_chunk_num hc = of_nat i \<and> i \<le> 255 \<and> hk_ptr hc \<le> br_digest_size dig \<and> p + br_digest_size dig = i * br_digest_size dig + hk_ptr hc \<and>
     (0 < i \<longrightarrow> take (br_digest_size dig) (hk_buf hc) = hkdf_T (hmac digest B PRK) info i))"

lemma hkdf_flip_at:
  assumes ctx: "hk_u hc = Hmac_ctx ctx" "hmac_rep ctx salt ikm" "hm_out_len ctx = br_digest_size dig"
    and "hk_dig_len hc = br_digest_size dig" "length (hk_buf hc) = 64"
  shows "hkdf_at (br_hkdf_flip hc) (hmac digest B salt ikm) info 0"
proof -
  have v: "hm_vtable ctx = dig" using ctx(2) by (simp add: hmac_rep_def)
  have o: "br_hmac_out ctx = hmac digest B salt ikm" using hmac_out_rep [OF ctx(2)] ctx(3) by simp
  show ?thesis unfolding hkdf_at_def
    by (rule exI [of _ "br_hmac_key_init dig (hmac digest B salt ikm)"], rule exI [of _ 0])
      (simp add: br_hkdf_flip_def Let_def br_hmac_get_digest_def ctx(1) v o assms(4,5) key_init_rep)
qed

lemma hkdf_start:
  "hkdf_at (br_hkdf_flip (foldl br_hkdf_inject (br_hkdf_init dig salt) ikms))
     (hmac digest B (case salt of None \<Rightarrow> replicate (br_digest_size dig) 0 | Some s \<Rightarrow> s) (concat ikms)) info 0"
proof -
  define s where "s = (case salt of None \<Rightarrow> replicate (br_digest_size dig) 0 | Some s \<Rightarrow> s)"
  define h where "h = br_hmac_init (br_hmac_key_init dig s) 0"
  have h: "hmac_rep h s []" "hm_out_len h = br_digest_size dig"
    using hmac_init_rep [OF key_init_rep, of s 0] by (simp_all add: h_def hmac_len_def)
  have inj: "hk_u hc = Hmac_ctx c \<Longrightarrow> foldl br_hkdf_inject hc ikms = hc\<lparr>hk_u := Hmac_ctx (foldl br_hmac_update c ikms)\<rparr>" for hc c
    by (induction ikms arbitrary: hc c) (simp_all add: br_hkdf_inject_def)
  have "foldl br_hkdf_inject (br_hkdf_init dig salt) ikms = (br_hkdf_init dig salt)\<lparr>hk_u := Hmac_ctx (foldl br_hmac_update h ikms)\<rparr>"
    by (rule inj) (simp add: br_hkdf_init_def Let_def h_def s_def)
  then show ?thesis unfolding s_def [symmetric]
    using hkdf_flip_at [OF _ hmac_rep_chunks [OF h(1)], of _ ikms info] h(2)
    by (simp add: br_hkdf_init_def Let_def br_hmac_size_def h_def [symmetric] s_def [symmetric])
qed

lemma chunk_byte: "(of_nat (Suc i) :: u8) = 1 \<longleftrightarrow> i = 0" if "i < 255"
proof -
  have "unat (of_nat (Suc i) :: u8) = Suc i mod 256" by (simp only: unat_of_nat) simp
  then show ?thesis using that by (simp only: word_unat_eq_iff) simp
qed

lemma length_T: "0 < i \<Longrightarrow> length (hkdf_T (hmac digest B PRK) info i) = br_digest_size dig"
  by (cases i) simp_all

text \<open>The next block of the stream.\<close>

lemma hkdf_block_at:
  assumes at: "hkdf_at hc PRK info p" and ptr: "hk_ptr hc = br_digest_size dig" and p: "p < 255 * br_digest_size dig"
  shows "case hkdf_block hc info of (hc1, go) \<Rightarrow> go \<and> hkdf_at hc1 PRK info p \<and> hk_ptr hc1 = 0"
proof -
  let ?h = "br_digest_size dig" and ?T = "hkdf_T (hmac digest B PRK) info"
  obtain kc i where hc: "hk_u hc = Prk_ctx kc" "key_rep kc PRK" "hk_dig_len hc = ?h" "length (hk_buf hc) = 64"
    "hk_chunk_num hc = of_nat i" "i \<le> 255" "p + ?h = i * ?h + hk_ptr hc" "0 < i \<longrightarrow> take ?h (hk_buf hc) = ?T i"
    using at by (auto simp: hkdf_at_def)
  have pi: "p = i * ?h" using hc(7) ptr by simp
  then have i: "i < 255" using p by simp
  have n: "hk_chunk_num hc + 1 = of_nat (Suc i)" using hc(5) by simp
  have n256: "(of_nat (Suc i) :: u32) \<noteq> 256" using i by (simp only: word_unat_eq_iff unat_of_nat) simp
  have x: "ucast (of_nat (Suc i) :: u32) = (of_nat (Suc i) :: u8)"
    by (simp only: word_unat_eq_iff unsigned_ucast_eq unsigned_of_nat) simp
  define hm where "hm = (if (of_nat (Suc i) :: u8) \<noteq> 1 then br_hmac_update (br_hmac_init kc 0) (take ?h (hk_buf hc)) else br_hmac_init kc 0)"
  have "hm = foldl br_hmac_update (br_hmac_init kc 0) (if i = 0 then [] else [?T i])"
    using hc(8) unfolding hm_def chunk_byte [OF i] by simp
  then have "br_hmac_update (br_hmac_update hm info) [of_nat (Suc i)] =
      foldl br_hmac_update (br_hmac_init kc 0) ((if i = 0 then [] else [?T i]) @ [info, [of_nat (Suc i)]])" by simp
  moreover have "concat ((if i = 0 then [] else [?T i]) @ [info, [of_nat (Suc i)]]) = ?T i @ info @ [of_nat (Suc i)]" by simp
  ultimately have t: "br_hmac_out (br_hmac_update (br_hmac_update hm info) [of_nat (Suc i)]) = ?T (Suc i)"
    unfolding hkdf_T.simps by (simp only: hmac_kc [OF hc(2)])
  define hc2 where "hc2 = hc\<lparr>hk_chunk_num := of_nat (Suc i)\<rparr>"
  have hc2: "hk_u hc2 = Prk_ctx kc" "hk_dig_len hc2 = ?h" "hk_buf hc2 = hk_buf hc" "hk_chunk_num hc2 = of_nat (Suc i)"
    using hc by (simp_all add: hc2_def del: of_nat_Suc)
  have "hkdf_block hc info = (hc2\<lparr>hk_buf := splice (hk_buf hc) 0 (?T (Suc i)), hk_ptr := 0\<rparr>, True)"
    by (simp only: hkdf_block_def Let_def n hc2_def [symmetric] hc2 n256 if_False x hkdf_u.sel hm_def [symmetric] t)
  then have b: "hkdf_block hc info = (hc\<lparr>hk_chunk_num := of_nat (Suc i), hk_buf := splice (hk_buf hc) 0 (?T (Suc i)), hk_ptr := 0\<rparr>, True)"
    unfolding hc2_def .
  have "length (?T (Suc i)) = ?h" by simp
  then have "hkdf_at (hc\<lparr>hk_chunk_num := of_nat (Suc i), hk_buf := splice (hk_buf hc) 0 (?T (Suc i)), hk_ptr := 0\<rparr>) PRK info p"
    unfolding hkdf_at_def using sizes hc i pi
    by (intro exI [of _ kc] exI [of _ "Suc i"]) (simp add: splice_def del: of_nat_Suc hkdf_T.simps)
  then show ?thesis unfolding b by simp
qed

lemma concat_block:
  assumes "\<And>x. x \<in> set xss \<Longrightarrow> length x = h" and "j < length xss"
  shows "drop (j * h) (concat xss) = xss ! j @ concat (drop (Suc j) xss)"
  using assms
proof (induction xss arbitrary: j)
  case (Cons x xss)
  then show ?case by (cases j) auto
qed simp

lemma okm_block:
  assumes "0 < i" "i \<le> 255" "q + c \<le> br_digest_size dig"
  shows "take c (drop ((i - 1) * br_digest_size dig + q) (hkdf_okm (hmac digest B PRK) info))
    = take c (drop q (hkdf_T (hmac digest B PRK) info i))"
proof -
  let ?T = "hkdf_T (hmac digest B PRK) info"
  have "drop ((i - 1) * br_digest_size dig) (concat (map ?T [1..<256])) = map ?T [1..<256] ! (i - 1) @ concat (drop (Suc (i - 1)) (map ?T [1..<256]))"
    by (rule concat_block) (use assms length_T in auto)
  moreover have "map ?T [1..<256] ! (i - 1) = ?T i" using assms by simp
  ultimately show ?thesis using assms length_T [of i PRK info]
    by (simp add: hkdf_okm_def drop_drop [symmetric] add.commute [of _ q] del: drop_drop)
qed

lemma length_okm: "length (hkdf_okm (hmac digest B PRK) info) = 255 * br_digest_size dig"
proof -
  have "map (length \<circ> hkdf_T (hmac digest B PRK) info) [1..<256] = replicate 255 (br_digest_size dig)"
    by (rule nth_equalityI) (simp_all add: length_T)
  then show ?thesis by (simp add: hkdf_okm_def length_concat sum_list_replicate)
qed

definition hkdf_over :: "'c br_hkdf_context \<Rightarrow> u8 list \<Rightarrow> bool" where
  "hkdf_over hc PRK \<longleftrightarrow> (\<exists>kc. hk_u hc = Prk_ctx kc \<and> key_rep kc PRK \<and> hk_dig_len hc = br_digest_size dig \<and> length (hk_buf hc) = 64 \<and>
     hk_chunk_num hc = 256 \<and> hk_ptr hc = br_digest_size dig)"

lemma hkdf_block_over:
  assumes "hkdf_at hc PRK info p" and "hk_ptr hc = br_digest_size dig" and "255 * br_digest_size dig \<le> p"
  shows "case hkdf_block hc info of (hc1, go) \<Rightarrow> \<not> go \<and> hkdf_over hc1 PRK \<and> p = 255 * br_digest_size dig"
proof -
  obtain kc i where hc: "hk_u hc = Prk_ctx kc" "key_rep kc PRK" "hk_dig_len hc = br_digest_size dig" "length (hk_buf hc) = 64"
    "hk_chunk_num hc = of_nat i" "i \<le> 255" "p = i * br_digest_size dig"
    using assms by (auto simp: hkdf_at_def)
  have "255 \<le> i" using assms(3) hc(7) sizes(1) by simp
  then have "i = 255" using hc(6) by simp
  then show ?thesis using hc assms(2) by (simp add: hkdf_block_def hkdf_over_def)
qed

lemma hkdf_at_le: "hkdf_at hc PRK info p \<Longrightarrow> p \<le> 255 * br_digest_size dig"
proof -
  assume "hkdf_at hc PRK info p"
  then obtain i where i: "i \<le> 255" "p + br_digest_size dig = i * br_digest_size dig + hk_ptr hc" "hk_ptr hc \<le> br_digest_size dig"
    by (auto simp: hkdf_at_def)
  have "i * br_digest_size dig \<le> 255 * br_digest_size dig" using i(1) by (rule mult_le_mono1)
  then show ?thesis using i by linarith
qed

text \<open>One turn of the loop inside a block.\<close>

lemma hkdf_take_at:
  assumes at: "hkdf_at hc PRK info p" and ptr: "hk_ptr hc < br_digest_size dig" and c: "c \<le> br_digest_size dig - hk_ptr hc"
  shows "take c (drop (hk_ptr hc) (hk_buf hc)) = take c (drop p (hkdf_okm (hmac digest B PRK) info))"
    and "hkdf_at (hc\<lparr>hk_ptr := hk_ptr hc + c\<rparr>) PRK info (p + c)"
proof -
  let ?h = "br_digest_size dig" and ?T = "hkdf_T (hmac digest B PRK) info"
  obtain kc i where hc: "hk_u hc = Prk_ctx kc" "key_rep kc PRK" "hk_dig_len hc = ?h" "length (hk_buf hc) = 64"
    "hk_chunk_num hc = of_nat i" "i \<le> 255" "p + ?h = i * ?h + hk_ptr hc" "0 < i \<longrightarrow> take ?h (hk_buf hc) = ?T i"
    using at by (auto simp: hkdf_at_def)
  have i: "0 < i" using hc(7) ptr by (cases i) auto
  then have p: "p = (i - 1) * ?h + hk_ptr hc" using hc(7) by (cases i) auto
  have "take c (drop (hk_ptr hc) (hk_buf hc)) = take c (drop (hk_ptr hc) (take ?h (hk_buf hc)))"
    using c by (simp add: drop_take min_absorb1)
  also have "\<dots> = take c (drop p (hkdf_okm (hmac digest B PRK) info))"
    unfolding p using okm_block [OF i hc(6), of "hk_ptr hc" c PRK info] hc(8) i c ptr by simp
  finally show "take c (drop (hk_ptr hc) (hk_buf hc)) = take c (drop p (hkdf_okm (hmac digest B PRK) info))" .
  show "hkdf_at (hc\<lparr>hk_ptr := hk_ptr hc + c\<rparr>) PRK info (p + c)"
    unfolding hkdf_at_def using hc c ptr by (intro exI [of _ kc] exI [of _ i]) simp
qed

lemma hkdf_loop_at:
  "hkdf_at hc PRK info p \<Longrightarrow> case hkdf_loop hc info n of (hc', out) \<Rightarrow>
     out = take n (drop p (hkdf_okm (hmac digest B PRK) info)) \<and>
     (if p + n \<le> 255 * br_digest_size dig then hkdf_at hc' PRK info (p + n) else hkdf_over hc' PRK)"
proof (induction n arbitrary: hc p rule: less_induct)
  case (less n)
  let ?h = "br_digest_size dig" and ?O = "hkdf_okm (hmac digest B PRK) info"
  have hl: "hk_dig_len hc = ?h" "hk_ptr hc \<le> ?h" using less.prems by (auto simp: hkdf_at_def)
  show ?case
  proof (cases "n = 0")
    case True then show ?thesis using less.prems hkdf_at_le [OF less.prems] by (subst hkdf_loop.simps) simp
  next
    case n: False
    obtain hc1 go where b: "(if hk_ptr hc = ?h then hkdf_block hc info else (hc, True)) = (hc1, go)" by fastforce
    have e: "hkdf_loop hc info n = (if \<not> go then (hc1, []) else let clen = min (hk_dig_len hc1 - hk_ptr hc1) n;
        (hc2, rest) = hkdf_loop (hc1\<lparr>hk_ptr := hk_ptr hc1 + clen\<rparr>) info (n - clen) in (hc2, take clen (drop (hk_ptr hc1) (hk_buf hc1)) @ rest))"
      using n hl sizes b by (subst hkdf_loop.simps) (simp add: Let_def)
    show ?thesis
    proof (cases "hk_ptr hc = ?h \<and> 255 * ?h \<le> p")
      case True
      then show ?thesis using hkdf_block_over [OF less.prems] b n unfolding e by (auto simp: length_okm)
    next
      case False
      have 1: "go" "hkdf_at hc1 PRK info p" "hk_ptr hc1 < ?h"
        using hkdf_block_at [OF less.prems] b less.prems False hl sizes by (auto split: if_splits)
      then have d1: "hk_dig_len hc1 = ?h" by (auto simp: hkdf_at_def)
      define c where "c = min (?h - hk_ptr hc1) n"
      have c: "0 < c" "c \<le> n" "c \<le> ?h - hk_ptr hc1" using 1(3) n by (auto simp: c_def)
      obtain hc2 rest where r: "hkdf_loop (hc1\<lparr>hk_ptr := hk_ptr hc1 + c\<rparr>) info (n - c) = (hc2, rest)" by fastforce
      have "n - c < n" using c by simp
      note IH = less.IH [OF this hkdf_take_at(2) [OF 1(2,3) c(3)]]
      have pc: "p + c + (n - c) = p + n" using c by simp
      from IH have IH: "rest = take (n - c) (drop (p + c) ?O)" "if p + n \<le> 255 * ?h then hkdf_at hc2 PRK info (p + n) else hkdf_over hc2 PRK"
        unfolding r prod.case pc by simp_all
      have "take c (drop p ?O) @ take (n - c) (drop (p + c) ?O) = take n (drop p ?O)"
        using take_add [of c "n - c" "drop p ?O"] c by (simp add: add.commute)
      then show ?thesis unfolding e using 1(1) IH hkdf_take_at(1) [OF 1(2,3) c(3)] by (simp add: d1 c_def [symmetric] r Let_def)
    qed
  qed
qed

text \<open>Beyond the limit: the next call does not stop again, its chunk number is 257, whose low byte is 1, so it starts the stream over.\<close>

lemma hkdf_over_restarts:
  assumes "hkdf_over hc PRK" and "n \<le> br_digest_size dig"
  shows "snd (hkdf_loop hc info n) = take n (hkdf_okm (hmac digest B PRK) info)"
proof (cases "n = 0")
  case True then show ?thesis by (simp add: hkdf_loop.simps)
next
  case False
  let ?h = "br_digest_size dig"
  obtain kc where hc: "hk_u hc = Prk_ctx kc" "key_rep kc PRK" "hk_dig_len hc = ?h" "length (hk_buf hc) = 64"
    "hk_chunk_num hc = 256" "hk_ptr hc = ?h" using assms(1) by (auto simp: hkdf_over_def)
  have t: "br_hmac_out (br_hmac_update (br_hmac_update (br_hmac_init kc 0) info) [1]) = hkdf_T (hmac digest B PRK) info 1"
    using hmac_kc [OF hc(2), of "[info, [1]]"] by simp
  define hc2 where "hc2 = hc\<lparr>hk_chunk_num := 257\<rparr>"
  have hc2: "hk_u hc2 = Prk_ctx kc" "hk_dig_len hc2 = ?h" "hk_buf hc2 = hk_buf hc" "hk_chunk_num hc2 = 257"
    using hc by (simp_all add: hc2_def)
  have n: "hk_chunk_num hc + 1 = 257" "(257 :: u32) \<noteq> 256" "ucast (257 :: u32) = (1 :: u8)" using hc(5) by simp_all
  have "hkdf_block hc info = (hc2\<lparr>hk_buf := splice (hk_buf hc) 0 (hkdf_T (hmac digest B PRK) info 1), hk_ptr := 0\<rparr>, True)"
    by (simp only: hkdf_block_def Let_def n hc2_def [symmetric] hc2 if_False hkdf_u.sel simp_thms t)
  then have b: "hkdf_block hc info = (hc\<lparr>hk_chunk_num := 257, hk_buf := splice (hk_buf hc) 0 (hkdf_T (hmac digest B PRK) info 1), hk_ptr := 0\<rparr>, True)"
    unfolding hc2_def .
  have "take n (hkdf_okm (hmac digest B PRK) info) = take n (hkdf_T (hmac digest B PRK) info 1)"
    using okm_block [of 1 0 n PRK info] assms(2) by simp
  then show ?thesis using False hc sizes assms(2)
    by (subst hkdf_loop.simps) (simp add: b Let_def splice_def hkdf_loop.simps [of _ _ 0])
qed

end

section \<open>HMAC_DRBG (rand/hmac_drbg.c)\<close>

record 'c br_hmac_drbg_context =
  dr_K :: "u8 list"
  dr_V :: "u8 list"
  dr_digest_class :: "'c br_hash_class"

text \<open>The recurring call sequence: a key context from \<open>K\<close>, and \<open>V = HMAC(K, V)\<close>.\<close>

definition drbg_step_V :: "'c br_hmac_key_context \<Rightarrow> nat \<Rightarrow> u8 list \<Rightarrow> u8 list" where
  "drbg_step_V kc hlen V =
     (let hc = br_hmac_init kc 0;
          hc = br_hmac_update hc (take hlen V)
      in br_hmac_out hc)"

definition br_hmac_drbg_update :: "'c br_hmac_drbg_context \<Rightarrow> u8 list \<Rightarrow> 'c br_hmac_drbg_context" where
  "br_hmac_drbg_update ctx seed =
     (let dig = dr_digest_class ctx;
          hlen = br_digest_size dig;
          kc = br_hmac_key_init dig (take hlen (dr_K ctx));
          hc = br_hmac_init kc 0;
          hc = br_hmac_update hc (take hlen (dr_V ctx));
          hc = br_hmac_update hc [0x00];
          hc = br_hmac_update hc seed;
          ctx = ctx\<lparr>dr_K := br_hmac_out hc\<rparr>;
          kc = br_hmac_key_init dig (take hlen (dr_K ctx));
          ctx = ctx\<lparr>dr_V := drbg_step_V kc hlen (dr_V ctx)\<rparr>
      in if seed = [] then ctx
         else let hc = br_hmac_init kc 0;
                  hc = br_hmac_update hc (take hlen (dr_V ctx));
                  hc = br_hmac_update hc [0x01];
                  hc = br_hmac_update hc seed;
                  ctx = ctx\<lparr>dr_K := br_hmac_out hc\<rparr>;
                  kc = br_hmac_key_init dig (take hlen (dr_K ctx))
              in ctx\<lparr>dr_V := drbg_step_V kc hlen (dr_V ctx)\<rparr>)"

definition br_hmac_drbg_init :: "'c br_hash_class \<Rightarrow> u8 list \<Rightarrow> 'c br_hmac_drbg_context" where
  "br_hmac_drbg_init dig seed =
     (let hlen = br_digest_size dig
      in br_hmac_drbg_update \<lparr>dr_K = replicate hlen 0x00, dr_V = replicate hlen 0x01, dr_digest_class = dig\<rparr> seed)"

function drbg_loop :: "'c br_hmac_key_context \<Rightarrow> nat \<Rightarrow> u8 list \<Rightarrow> nat \<Rightarrow> u8 list \<times> u8 list" where
  "drbg_loop kc hlen V len =
     (if len = 0 \<or> hlen = 0 then (V, [])
      else let V = drbg_step_V kc hlen V;
               clen = (if len < hlen then len else hlen);
               (V', rest) = drbg_loop kc hlen V (len - clen)
           in (V', take clen V @ rest))"
  by pat_completeness auto
termination
  by (relation "measure (\<lambda>(kc, hlen, V, len). len)") auto

declare drbg_loop.simps [simp del]

definition br_hmac_drbg_generate :: "'c br_hmac_drbg_context \<Rightarrow> nat \<Rightarrow> 'c br_hmac_drbg_context \<times> u8 list" where
  "br_hmac_drbg_generate ctx len =
     (let dig = dr_digest_class ctx;
          hlen = br_digest_size dig;
          kc = br_hmac_key_init dig (take hlen (dr_K ctx));
          (V, out) = drbg_loop kc hlen (dr_V ctx) len;
          hc = br_hmac_init kc 0;
          hc = br_hmac_update hc (take hlen V);
          hc = br_hmac_update hc [0x00];
          ctx = ctx\<lparr>dr_K := br_hmac_out hc\<rparr>;
          kc = br_hmac_key_init dig (take hlen (dr_K ctx))
      in (ctx\<lparr>dr_V := drbg_step_V kc hlen V\<rparr>, out))"

text \<open>SP 800-90A, section 10.1.2: the state is \<open>(K, V)\<close>, \<open>mac\<close> the HMAC.\<close>

definition sp_update :: "(u8 list \<Rightarrow> u8 list \<Rightarrow> u8 list) \<Rightarrow> u8 list \<times> u8 list \<Rightarrow> u8 list \<Rightarrow> u8 list \<times> u8 list" where
  "sp_update mac KV seed = (case KV of (K, V) \<Rightarrow>
     let K1 = mac K (V @ [0x00] @ seed); V1 = mac K1 V in
     if seed = [] then (K1, V1)
     else let K2 = mac K1 (V1 @ [0x01] @ seed) in (K2, mac K2 V1))"

definition sp_generate :: "(u8 list \<Rightarrow> u8 list \<Rightarrow> u8 list) \<Rightarrow> u8 list \<times> u8 list \<Rightarrow> nat \<Rightarrow> nat \<Rightarrow> (u8 list \<times> u8 list) \<times> u8 list" where
  "sp_generate mac KV blocks len = (case KV of (K, V) \<Rightarrow>
     (sp_update mac (K, (mac K ^^ blocks) V) [], take len (concat (map (\<lambda>i. (mac K ^^ Suc i) V) [0..<blocks]))))"

context hash_impl
begin

definition drbg_rep :: "'c br_hmac_drbg_context \<Rightarrow> u8 list \<times> u8 list \<Rightarrow> bool" where
  "drbg_rep ctx KV \<longleftrightarrow> dr_digest_class ctx = dig \<and> KV = (dr_K ctx, dr_V ctx) \<and>
     length (dr_K ctx) = br_digest_size dig \<and> length (dr_V ctx) = br_digest_size dig"

lemma drbg_step_V: "key_rep kc K \<Longrightarrow> length V = br_digest_size dig \<Longrightarrow> drbg_step_V kc (br_digest_size dig) V = hmac digest B K V"
  using hmac_kc [of kc K "[V]"] by (simp add: drbg_step_V_def)

lemma drbg_mac3:
  "key_rep kc K \<Longrightarrow> br_hmac_out (br_hmac_update (br_hmac_update (br_hmac_update (br_hmac_init kc 0) V) x) s) = hmac digest B K (V @ x @ s)"
  using hmac_kc [of kc K "[V, x, s]"] by simp

lemma drbg_update_rep:
  assumes "drbg_rep ctx KV" shows "drbg_rep (br_hmac_drbg_update ctx seed) (sp_update (hmac digest B) KV seed)"
  using assms
  by (simp add: drbg_rep_def br_hmac_drbg_update_def sp_update_def Let_def drbg_mac3 [OF key_init_rep] drbg_step_V [OF key_init_rep]
      split: prod.split)

lemma drbg_init_rep:
  "drbg_rep (br_hmac_drbg_init dig seed) (sp_update (hmac digest B) (replicate (br_digest_size dig) 0, replicate (br_digest_size dig) 1) seed)"
  unfolding br_hmac_drbg_init_def Let_def by (rule drbg_update_rep) (simp add: drbg_rep_def)

lemma drbg_loop_rep:
  assumes kc: "key_rep kc K"
  shows "length V = br_digest_size dig \<Longrightarrow> len \<le> n * br_digest_size dig \<Longrightarrow> n * br_digest_size dig < len + br_digest_size dig \<Longrightarrow>
    drbg_loop kc (br_digest_size dig) V len
      = ((hmac digest B K ^^ n) V, take len (concat (map (\<lambda>i. (hmac digest B K ^^ Suc i) V) [0..<n])))"
proof (induction n arbitrary: V len)
  case 0 then show ?case by (simp add: drbg_loop.simps)
next
  case (Suc n)
  let ?m = "hmac digest B K" and ?h = "br_digest_size dig"
  define c where "c = (if len < ?h then len else ?h)"
  have len: "0 < len" using Suc.prems(3) by auto
  have "n = 0" if "len < ?h"
  proof (rule ccontr)
    assume "n \<noteq> 0"
    then have "?h \<le> n * ?h" by simp
    moreover have "n * ?h < len" using Suc.prems(3) by simp
    ultimately show False using that by linarith
  qed
  then have l: "len - c \<le> n * ?h" "n * ?h < len - c + ?h" using Suc.prems sizes len by (auto simp: c_def)
  have e: "map (\<lambda>i. (?m ^^ Suc i) V) [0..<Suc n] = ?m V # map (\<lambda>i. (?m ^^ Suc i) (?m V)) [0..<n]"
    by (simp add: upt_conv_Cons map_Suc_upt [symmetric] funpow_swap1 del: upt_Suc)
  have "take len (concat (map (\<lambda>i. (?m ^^ Suc i) V) [0..<Suc n])) = take c (?m V) @ take (len - c) (concat (map (\<lambda>i. (?m ^^ Suc i) (?m V)) [0..<n]))"
    unfolding e using \<open>len < ?h \<Longrightarrow> n = 0\<close> by (auto simp: c_def)
  moreover have "drbg_loop kc ?h V len = (case drbg_loop kc ?h (?m V) (len - c) of (V', rest) \<Rightarrow> (V', take c (?m V) @ rest))"
    using len sizes drbg_step_V [OF kc Suc.prems(1)] by (subst drbg_loop.simps) (simp add: Let_def c_def)
  ultimately show ?case using Suc.IH [OF length_hmac l, of K V] by (simp add: funpow_swap1 del: upt_Suc)
qed

lemma drbg_generate_rep:
  assumes ctx: "drbg_rep ctx KV" and n: "len \<le> n * br_digest_size dig" "n * br_digest_size dig < len + br_digest_size dig"
  shows "case br_hmac_drbg_generate ctx len of (ctx', out) \<Rightarrow>
    drbg_rep ctx' (fst (sp_generate (hmac digest B) KV n len)) \<and> out = snd (sp_generate (hmac digest B) KV n len)"
proof -
  let ?K = "dr_K ctx" and ?V = "dr_V ctx" and ?m = "hmac digest B" and ?h = "br_digest_size dig"
  have c: "dr_digest_class ctx = dig" "KV = (?K, ?V)" "length ?K = ?h" "length ?V = ?h" using ctx by (simp_all add: drbg_rep_def)
  have Vn: "length ((?m ?K ^^ n) ?V) = ?h" by (cases n) (simp_all add: c)
  have mac2: "br_hmac_out (br_hmac_update (br_hmac_update (br_hmac_init (br_hmac_key_init dig K) 0) V) [0]) = ?m K (V @ [0])" for K V
    using hmac_kc [OF key_init_rep, of K "[V, [0]]"] by simp
  show ?thesis
    unfolding br_hmac_drbg_generate_def Let_def c(1,2) sp_generate_def prod.case
    using drbg_loop_rep [OF key_init_rep c(4) n, of ?K] Vn
    by (simp add: c drbg_rep_def sp_update_def Let_def mac2 drbg_step_V [OF key_init_rep])
qed

text \<open>Any sequence of requests.\<close>

end

datatype drbg_op = Reseed "u8 list" | Generate nat

fun drbg_run :: "'c br_hmac_drbg_context \<Rightarrow> drbg_op list \<Rightarrow> u8 list list" where
  "drbg_run ctx [] = []"
| "drbg_run ctx (Reseed s # ops) = drbg_run (br_hmac_drbg_update ctx s) ops"
| "drbg_run ctx (Generate n # ops) = (case br_hmac_drbg_generate ctx n of (ctx, out) \<Rightarrow> out # drbg_run ctx ops)"

fun sp_run :: "(u8 list \<Rightarrow> u8 list \<Rightarrow> u8 list) \<Rightarrow> nat \<Rightarrow> u8 list \<times> u8 list \<Rightarrow> drbg_op list \<Rightarrow> u8 list list" where
  "sp_run mac h KV [] = []"
| "sp_run mac h KV (Reseed s # ops) = sp_run mac h (sp_update mac KV s) ops"
| "sp_run mac h KV (Generate n # ops) = (case sp_generate mac KV ((n + h - 1) div h) n of (KV, out) \<Rightarrow> out # sp_run mac h KV ops)"

context hash_impl
begin

lemma blocks_needed:
  assumes "0 < (h :: nat)" shows "len \<le> (len + h - 1) div h * h" and "(len + h - 1) div h * h < len + h"
proof -
  have "(len + h - 1) div h * h + (len + h - 1) mod h = len + h - 1" by simp
  moreover have "(len + h - 1) mod h < h" using assms by simp
  ultimately show "len \<le> (len + h - 1) div h * h" "(len + h - 1) div h * h < len + h" using assms by linarith+
qed

lemma drbg_run_sp: "drbg_rep ctx KV \<Longrightarrow> drbg_run ctx ops = sp_run (hmac digest B) (br_digest_size dig) KV ops"
proof (induction ops arbitrary: ctx KV)
  case (Cons x ops)
  show ?case
  proof (cases x)
    case (Reseed s) then show ?thesis using Cons.IH [OF drbg_update_rep [OF Cons.prems]] by simp
  next
    case (Generate n)
    from drbg_generate_rep [OF Cons.prems blocks_needed [OF sizes(1)], of n] Cons.IH show ?thesis
      by (auto simp: Generate split: prod.splits)
  qed
qed simp

lemma map2_zeros: "len \<le> length xs \<Longrightarrow> map2 (XOR) (replicate len (0 :: u8)) xs = take len xs"
  by (rule nth_equalityI) auto

lemma length_P_hash: "length (P_hash (hmac digest B K) s n) = n * br_digest_size dig"
  by (simp add: P_hash_def length_concat comp_def sum_list_triv)

end

section \<open>Properties\<close>

text \<open>C25. \<^bold>\<open>HKDF.\<close> For any salt, present or absent, key material in any number of pieces, and two requests of any sizes: the first returns
  the requested bytes of the stream \<open>T(1) || ... || T(255)\<close> of RFC 5869, cut at its end, and the second goes on from there as long as
  the limit of \<open>255 * 32\<close> bytes is respected.\<close>

theorem br_hkdf_correct:
  assumes "hk = br_hkdf_flip (foldl br_hkdf_inject (br_hkdf_init br_sha256_vtable salt) ikms)"
    and "PRK = hmac sha256 64 (case salt of None \<Rightarrow> replicate 32 0 | Some s \<Rightarrow> s) (concat ikms)"
    and "br_hkdf_produce hk info a = (hk1, o1)" and "br_hkdf_produce hk1 info b = (hk2, o2)"
  shows "o1 = take a (hkdf_okm (hmac sha256 64 PRK) info) \<and>
    (a \<le> 255 * 32 \<longrightarrow> o1 @ o2 = take (a + b) (hkdf_okm (hmac sha256 64 PRK) info))"
proof -
  have at: "sha256_hash.hkdf_at hk PRK info 0" using sha256_hash.hkdf_start [of salt ikms info] unfolding assms(1,2) hash_sizes .
  note 1 = sha256_hash.hkdf_loop_at [OF at, of a, folded br_hkdf_produce_def, unfolded assms(3) prod.case hash_sizes]
  then have "o2 = take b (drop a (hkdf_okm (hmac sha256 64 PRK) info))" if "a \<le> 255 * 32"
    using that sha256_hash.hkdf_loop_at [of hk1 PRK info a b, folded br_hkdf_produce_def, unfolded assms(4) prod.case hash_sizes] by simp
  then show ?thesis using 1 by (auto simp: take_add)
qed

theorem br_hkdf_correct_witness:
  "(case br_hkdf_produce (br_hkdf_flip (br_hkdf_inject (br_hkdf_init br_sha256_vtable None) [1, 2])) [3] 40 of (hk1, o1) \<Rightarrow>
     o1 @ snd (br_hkdf_produce hk1 [3] 7)) =
   take 47 (hkdf_okm (hmac sha256 64 (hmac sha256 64 (replicate 32 0) [1, 2])) [3])"
  using conjunct2 [OF br_hkdf_correct [OF refl refl prod.collapse [symmetric] prod.collapse [symmetric], of None "[[1, 2]]" "[3]" 40 7]]
  by (simp add: case_prod_beta)

text \<open>C35. \<^bold>\<open>HKDF beyond the limit.\<close> The documented limit holds for one request only: after a request that has hit it, the next one returns
  the first block of the stream again instead of nothing.\<close>

theorem br_hkdf_restarts:
  assumes "hk = br_hkdf_flip (foldl br_hkdf_inject (br_hkdf_init br_sha256_vtable salt) ikms)"
    and "PRK = hmac sha256 64 (case salt of None \<Rightarrow> replicate 32 0 | Some s \<Rightarrow> s) (concat ikms)"
    and "255 * 32 < a" and "b \<le> 32"
  shows "snd (br_hkdf_produce (fst (br_hkdf_produce hk info a)) info' b) = take b (hkdf_okm (hmac sha256 64 PRK) info')"
proof -
  have at: "sha256_hash.hkdf_at hk PRK info 0" using sha256_hash.hkdf_start [of salt ikms info] unfolding assms(1,2) hash_sizes .
  have "sha256_hash.hkdf_over (fst (br_hkdf_produce hk info a)) PRK"
    using sha256_hash.hkdf_loop_at [OF at, of a, folded br_hkdf_produce_def] assms(3) by (auto simp: hash_sizes split: prod.splits)
  from sha256_hash.hkdf_over_restarts [OF this, of b info'] show ?thesis using assms(4) by (simp add: hash_sizes br_hkdf_produce_def)
qed

theorem br_hkdf_restarts_witness:
  "snd (br_hkdf_produce (fst (br_hkdf_produce (br_hkdf_flip (br_hkdf_init br_sha256_vtable (Some [5]))) [3] 9000)) [3] 32)
    = take 32 (hkdf_okm (hmac sha256 64 (hmac sha256 64 [5] [])) [3])"
  using br_hkdf_restarts [of "br_hkdf_flip (br_hkdf_init br_sha256_vtable (Some [5]))" "Some [5]" "[]" _ 9000 32 "[3]" "[3]"] by simp

text \<open>C26. \<^bold>\<open>The pseudorandom function of TLS.\<close> The version 1.2 functions return \<open>P_hash\<close> of RFC 5246, the one of version 1.0 the exclusive or of
  the MD5 and SHA-1 streams, keyed with the two halves of the secret, which share the middle byte when the length is odd.\<close>

theorem br_tls_prf_correct:
  assumes "len \<le> n * 16" and "slen = (length secret + 1) div 2"
  shows "br_tls12_sha256_prf len secret label seed = take len (P_hash (hmac sha256 64 secret) (label @ concat seed) n) \<and>
    br_tls12_sha384_prf len secret label seed = take len (P_hash (hmac sha384 128 secret) (label @ concat seed) n) \<and>
    br_tls10_prf len secret label seed = map2 (XOR) (take len (P_hash (hmac md5 64 (take slen secret)) (label @ concat seed) n))
      (P_hash (hmac sha1 64 (drop (length secret - slen) secret)) (label @ concat seed) n)"
proof -
  have l: "len \<le> n * 20" "len \<le> n * 32" "len \<le> n * 48" using assms(1) by simp_all
  show ?thesis
    using assms l md5_hash.length_P_hash sha256_hash.length_P_hash sha384_hash.length_P_hash
    by (simp add: br_tls12_sha256_prf_def br_tls12_sha384_prf_def br_tls10_prf_def Let_def sha256_hash.tls_phash_P [of _ n]
        sha384_hash.tls_phash_P [of _ n] md5_hash.tls_phash_P [of _ n] sha1_hash.tls_phash_P [of _ n] hash_sizes sha256_hash.map2_zeros)
qed

theorem br_tls_prf_correct_witness:
  "br_tls12_sha256_prf 40 [1] [2] [[3], []] = take 40 (P_hash (hmac sha256 64 [1]) [2, 3] 3)"
  using br_tls_prf_correct [of 40 3 1 "[1]" "[2]" "[[3], []]"] by simp

text \<open>C24. \<^bold>\<open>HMAC_DRBG.\<close> For any seed and any sequence of reseeds and requests, the generator over SHA-256 returns what the one of SP 800-90A
  returns.\<close>

theorem br_hmac_drbg_correct:
  "drbg_run (br_hmac_drbg_init br_sha256_vtable seed) ops
    = sp_run (hmac sha256 64) 32 (sp_update (hmac sha256 64) (replicate 32 0, replicate 32 1) seed) ops"
  using sha256_hash.drbg_run_sp [OF sha256_hash.drbg_init_rep] by (simp add: hash_sizes)

end
