(* ===== verification/Rsa_Pad.thy ===== *)
theory Rsa_Pad
  imports Kdf
begin

text \<open>
  The RSA paddings: PKCS#1 v1.5 signatures (\<^verbatim>\<open>rsa_pkcs1_sig_pad.c\<close>, \<^verbatim>\<open>rsa_pkcs1_sig_unpad.c\<close>), OAEP (\<^verbatim>\<open>rsa_oaep_pad.c\<close>,
  \<^verbatim>\<open>rsa_oaep_unpad.c\<close>) and the decryption of the TLS premaster secret (\<^verbatim>\<open>rsa_ssl_decrypt.c\<close>). A buffer that the function fills from
  end to end is the list of its bytes; an encoded OID is the length byte and the value; \<open>None\<close> is \<open>NULL\<close>.
\<close>

section \<open>PKCS#1 v1.5 signatures\<close>

definition br_rsa_pkcs1_sig_pad :: "u8 list option \<Rightarrow> u8 list \<Rightarrow> u32 \<Rightarrow> u8 list option" where
  "br_rsa_pkcs1_sig_pad hash_oid hash n_bitlen =
     (let hash_len = length hash;
          xlen = unat (shr (n_bitlen + 7) 3)
      in case hash_oid of
           None \<Rightarrow>
             if xlen < hash_len + 11 then None
             else let u = xlen - hash_len
                  in Some ([0x00, 0x01] @ replicate (u - 3) 0xFF @ [0x00] @ hash)
         | Some oid \<Rightarrow>
             let x3 = unat (oid ! 0)
             in if xlen < x3 + hash_len + 21 then None
                else let u = xlen - x3 - hash_len - 11
                     in Some ([0x00, 0x01] @ replicate (u - 2) 0xFF @
                          [0x00, 0x30, of_nat (x3 + hash_len + 8), 0x30, of_nat (x3 + 4), 0x06] @ take (x3 + 1) oid @
                          [0x05, 0x00, 0x04, of_nat hash_len] @ hash))"

definition sig_pad1 :: "u8 list" where
  "sig_pad1 = [0x00, 0x01, 0xFF, 0xFF, 0xFF, 0xFF, 0xFF, 0xFF, 0xFF, 0xFF]"

text \<open>The loop that skips the bytes \<open>0xFF\<close>.\<close>

function skip_FF :: "u8 list \<Rightarrow> nat \<Rightarrow> nat" where
  "skip_FF sig u = (if u < length sig then (if sig ! u \<noteq> 0xFF then u else skip_FF sig (u + 1)) else u)"
  by pat_completeness auto
termination
  by (relation "measure (\<lambda>(sig, u). length sig - u)") auto

declare skip_FF.simps [simp del]

text \<open>\<open>size_t\<close> has 64 bits: \<open>zlen\<close> wraps around when the hash does not fit, and then equals no pad length.\<close>

definition br_rsa_pkcs1_sig_unpad :: "u8 list \<Rightarrow> u8 list option \<Rightarrow> nat \<Rightarrow> u8 list option" where
  "br_rsa_pkcs1_sig_unpad sig hash_oid hash_len =
     (let sig_len = length sig in
      if sig_len < 11 then None
      else if take 10 sig \<noteq> sig_pad1 then None
      else
        let u = skip_FF sig 10;
            hash_out = take hash_len (drop (sig_len - hash_len) sig)
        in case hash_oid of
             None \<Rightarrow> if sig_len - u \<noteq> hash_len + 1 \<or> sig ! u \<noteq> 0x00 then None else Some hash_out
           | Some oid \<Rightarrow>
               let x3 = unat (oid ! 0);
                   pad_len = x3 + 9;
                   zlen = (of_nat (sig_len - u) - of_nat hash_len :: u64);
                   pad2 = (\<lambda>x2 null. [0x00, 0x30, of_nat (x2 + hash_len + 4), 0x30, of_nat x2, 0x06] @ take (x3 + 1) oid @
                             null @ [0x04, of_nat hash_len])
               in if zlen = of_nat pad_len
                  then (if pad2 (x3 + 2) [] \<noteq> take pad_len (drop u sig) then None else Some hash_out)
                  else if zlen = of_nat (pad_len + 2)
                  then (if pad2 (x3 + 4) [0x05, 0x00] \<noteq> take (pad_len + 2) (drop u sig) then None else Some hash_out)
                  else None)"

text \<open>The two encodings that PKCS#1 allows, with \<open>k\<close> bytes of padding.\<close>

definition pkcs1_encoding :: "u8 list option \<Rightarrow> bool \<Rightarrow> nat \<Rightarrow> u8 list \<Rightarrow> u8 list" where
  "pkcs1_encoding hash_oid null k hash = [0x00, 0x01] @ replicate k 0xFF @
     (case hash_oid of None \<Rightarrow> [0x00]
      | Some oid \<Rightarrow> let x3 = unat (oid ! 0); x2 = x3 + (if null then 4 else 2) in
          [0x00, 0x30, of_nat (x2 + length hash + 4), 0x30, of_nat x2, 0x06] @ take (x3 + 1) oid @
          (if null then [0x05, 0x00] else []) @ [0x04, of_nat (length hash)]) @ hash"

text \<open>The value of the OID fits in the buffer \<open>pad2\<close> of 43 bytes.\<close>

definition oid_ok :: "u8 list option \<Rightarrow> bool" where
  "oid_ok hash_oid \<longleftrightarrow> (case hash_oid of None \<Rightarrow> True | Some oid \<Rightarrow> unat (oid ! 0) < length oid \<and> unat (oid ! 0) \<le> 32)"

lemma skip_FF_run: "skip_FF (a @ replicate k 0xFF @ b # c) (length a) = length a + k" if "b \<noteq> 0xFF"
proof (induction k arbitrary: a)
  case 0 then show ?case using that by (subst skip_FF.simps) simp
next
  case (Suc k)
  have "skip_FF (a @ replicate (Suc k) 0xFF @ b # c) (length a) = skip_FF (a @ replicate (Suc k) 0xFF @ b # c) (length a + 1)"
    by (subst skip_FF.simps) (simp add: nth_append)
  also have "a @ replicate (Suc k) 0xFF @ b # c = (a @ [0xFF]) @ replicate k 0xFF @ b # c" by simp
  finally show ?case using Suc [of "a @ [0xFF]"] by simp
qed

lemma skip_FF_spec: "u \<le> length sig \<Longrightarrow> u \<le> skip_FF sig u \<and> skip_FF sig u \<le> length sig \<and>
    take (skip_FF sig u - u) (drop u sig) = replicate (skip_FF sig u - u) 0xFF"
proof (induction sig u rule: skip_FF.induct)
  case (1 sig u)
  show ?case
  proof (cases "u < length sig \<and> sig ! u = 0xFF")
    case True
    have e: "skip_FF sig u = skip_FF sig (u + 1)" using True by (subst skip_FF.simps) simp
    have IH: "u + 1 \<le> skip_FF sig (u + 1)" "skip_FF sig (u + 1) \<le> length sig"
      "take (skip_FF sig (u + 1) - (u + 1)) (drop (u + 1) sig) = replicate (skip_FF sig (u + 1) - (u + 1)) 0xFF"
      using "1.IH" True by auto
    obtain j where j: "skip_FF sig (u + 1) = Suc (u + j)" using IH(1) that [of "skip_FF sig (u + 1) - Suc u"] by simp
    have d: "drop u sig = sig ! u # drop (Suc u) sig" by (metis Cons_nth_drop_Suc True)
    show ?thesis unfolding e j d using IH [unfolded j] True by simp
  next
    case False
    then have "skip_FF sig u = u" by (auto simp: skip_FF.simps [of sig u])
    then show ?thesis using "1.prems" by simp
  qed
qed

lemma sig_pad_encoding:
  "br_rsa_pkcs1_sig_pad hash_oid hash n = Some x \<Longrightarrow> \<exists>k\<ge>8. x = pkcs1_encoding hash_oid True k hash"
proof (cases hash_oid)
  case None
  assume "br_rsa_pkcs1_sig_pad hash_oid hash n = Some x"
  then show ?thesis using None
    by (intro exI [of _ "unat (shr (n + 7) 3) - length hash - 3"])
      (auto simp: br_rsa_pkcs1_sig_pad_def pkcs1_encoding_def Let_def split: if_splits)
next
  case (Some oid)
  assume "br_rsa_pkcs1_sig_pad hash_oid hash n = Some x"
  then show ?thesis using Some
    by (intro exI [of _ "unat (shr (n + 7) 3) - unat (oid ! 0) - length hash - 11 - 2"])
      (auto simp: br_rsa_pkcs1_sig_pad_def pkcs1_encoding_def Let_def algebra_simps split: if_splits)
qed

text \<open>What follows the bytes \<open>0xFF\<close> decides.\<close>

definition sig_rest :: "u8 list option \<Rightarrow> bool \<Rightarrow> nat \<Rightarrow> u8 list" where
  "sig_rest hash_oid null hash_len = (case hash_oid of None \<Rightarrow> [0x00]
      | Some oid \<Rightarrow> let x3 = unat (oid ! 0); x2 = x3 + (if null then 4 else 2) in
          [0x00, 0x30, of_nat (x2 + hash_len + 4), 0x30, of_nat x2, 0x06] @ take (x3 + 1) oid @
          (if null then [0x05, 0x00] else []) @ [0x04, of_nat hash_len])"

lemma encoding_rest: "pkcs1_encoding oid null k h = [0x00, 0x01] @ replicate k 0xFF @ sig_rest oid null (length h) @ h"
  by (simp add: pkcs1_encoding_def sig_rest_def)

lemma length_rest:
  "oid_ok oid \<Longrightarrow> length (sig_rest oid null n) = (case oid of None \<Rightarrow> 1 | Some x \<Rightarrow> unat (x ! 0) + (if null then 11 else 9))"
  by (auto simp: sig_rest_def oid_ok_def Let_def split: option.splits)

lemma rest_zero: "sig_rest oid null n = 0 # tl (sig_rest oid null n)"
  by (auto simp: sig_rest_def Let_def split: option.splits)

lemma sig_split:
  assumes "take 10 sig = sig_pad1" and "11 \<le> length sig"
  shows "sig = [0, 1] @ replicate (skip_FF sig 10 - 2) 0xFF @ drop (skip_FF sig 10) sig" and "10 \<le> skip_FF sig 10" and "skip_FF sig 10 \<le> length sig"
proof -
  let ?u = "skip_FF sig 10"
  have u: "10 \<le> ?u" "?u \<le> length sig" "take (?u - 10) (drop 10 sig) = replicate (?u - 10) 0xFF"
    using skip_FF_spec [of 10 sig] assms(2) by simp_all
  have "sig = take 10 sig @ take (?u - 10) (drop 10 sig) @ drop (?u - 10) (drop 10 sig)" by (simp only: append_take_drop_id)
  also have "drop (?u - 10) (drop 10 sig) = drop ?u sig" using u(1) by simp
  finally have s: "sig = take 10 sig @ take (?u - 10) (drop 10 sig) @ drop ?u sig" .
  have p: "sig_pad1 = [0, 1] @ replicate 8 0xFF" by (simp add: sig_pad1_def numeral_eq_Suc)
  from s have "sig = [0, 1] @ (replicate 8 0xFF @ replicate (?u - 10) 0xFF) @ drop ?u sig" unfolding assms(1) u(3) p by simp
  moreover have "replicate 8 (0xFF :: u8) @ replicate (?u - 10) 0xFF = replicate (?u - 2) 0xFF"
    unfolding replicate_add [symmetric] using u(1) by simp
  ultimately show "sig = [0, 1] @ replicate (?u - 2) 0xFF @ drop ?u sig" by simp
  show "10 \<le> ?u" "?u \<le> length sig" by (rule u)+
qed

lemma zlen_eq:
  assumes "a < 2 ^ 61" "b < 2 ^ 60" "c < 2 ^ 60"
  shows "of_nat a - of_nat b = (of_nat c :: u64) \<longleftrightarrow> a = b + c"
proof -
  have "of_nat a - of_nat b = (of_nat c :: u64) \<longleftrightarrow> of_nat a = (of_nat (b + c) :: u64)" by (simp add: diff_eq_eq add.commute)
  also have "\<dots> \<longleftrightarrow> a = b + c" using assms by (simp only: word_unat_eq_iff unat_of_nat) simp
  finally show ?thesis .
qed

lemma sig_unpad_iff:
  assumes oid: "oid_ok oid" and len: "length sig < 2 ^ 60" "hl < 2 ^ 60"
  shows "br_rsa_pkcs1_sig_unpad sig oid hl = Some h \<longleftrightarrow>
    11 \<le> length sig \<and> take 10 sig = sig_pad1 \<and> length h = hl \<and> (\<exists>null. drop (skip_FF sig 10) sig = sig_rest oid null hl @ h)"
proof (cases "11 \<le> length sig \<and> take 10 sig = sig_pad1")
  case False then show ?thesis by (auto simp: br_rsa_pkcs1_sig_unpad_def Let_def)
next
  case True
  let ?u = "skip_FF sig 10"
  define R where "R = drop ?u sig"
  have u: "10 \<le> ?u" "?u \<le> length sig" using sig_split(2,3) [of sig] True by auto
  then have lR: "length sig - ?u = length R" "length R < 2 ^ 60" using len by (simp_all add: R_def)
  have fit: "length R = hl + length P \<and> take (length P) R = P \<and> h = drop (length P) R \<longleftrightarrow> length h = hl \<and> R = P @ h" for P
    by auto (metis append_take_drop_id)
  have out: "take hl (drop (length sig - hl) sig) = drop n R" if "length R = hl + n" for n
  proof -
    have "length sig - hl = ?u + n" using that lR(1) u(2) by simp
    then show ?thesis using that by (simp add: R_def add.commute)
  qed
  show ?thesis
  proof (cases oid)
    case None
    have "length R = hl + 1 \<Longrightarrow> R = sig ! ?u # drop 1 R" using u by (simp add: R_def Cons_nth_drop_Suc)
    then show ?thesis using fit [of "[0]"] True out [of 1] unfolding R_def [symmetric]
      by (auto simp: br_rsa_pkcs1_sig_unpad_def Let_def None sig_rest_def lR(1))
  next
    case (Some x)
    define P where "P = (\<lambda>null. sig_rest oid null hl)"
    have P: "length (P null) = unat (x ! 0) + (if null then 11 else 9)" for null
      using length_rest [OF oid] by (simp add: P_def Some)
    have x: "unat (x ! 0) < 256" by (rule unat_lt8)
    have z: "of_nat (length R) - of_nat hl = (of_nat (length (P null)) :: u64) \<longleftrightarrow> length R = hl + length (P null)" for null
      using lR len x by (intro zlen_eq) (auto simp: P)
    have pads: "[0x00, 0x30, of_nat (unat (x ! 0) + 2 + hl + 4), 0x30, of_nat (unat (x ! 0) + 2), 0x06] @ take (unat (x ! 0) + 1) x @ [] @ [0x04, of_nat hl] = P False"
      "[0x00, 0x30, of_nat (unat (x ! 0) + 4 + hl + 4), 0x30, of_nat (unat (x ! 0) + 4), 0x06] @ take (unat (x ! 0) + 1) x @ [0x05, 0x00] @ [0x04, of_nat hl] = P True"
      by (simp_all add: P_def sig_rest_def Some Let_def)
    have lens: "unat (x ! 0) + 9 = length (P False)" "length (P False) + 2 = length (P True)" by (simp_all add: P)
    have "br_rsa_pkcs1_sig_unpad sig oid hl = (if length R = hl + length (P False)
        then (if P False \<noteq> take (length (P False)) R then None else Some (drop (length (P False)) R))
        else if length R = hl + length (P True)
        then (if P True \<noteq> take (length (P True)) R then None else Some (drop (length (P True)) R)) else None)"
      using True out unfolding br_rsa_pkcs1_sig_unpad_def Let_def Some option.case lR(1) pads lens z R_def [symmetric] by auto
    then have "br_rsa_pkcs1_sig_unpad sig oid hl = Some h \<longleftrightarrow>
        (length R = hl + length (P False) \<and> take (length (P False)) R = P False \<and> h = drop (length (P False)) R) \<or>
        (length R = hl + length (P True) \<and> take (length (P True)) R = P True \<and> h = drop (length (P True)) R)"
      using lens(2) by (auto split: if_splits)
    also have "\<dots> \<longleftrightarrow> length h = hl \<and> (\<exists>null. R = P null @ h)" unfolding fit ex_bool_eq by blast
    finally show ?thesis using True by (simp add: R_def P_def)
  qed
qed

lemma pkcs1_encoding_skip:
  assumes "8 \<le> k"
  shows "take 10 ([0, 1] @ replicate k 0xFF @ 0 # t) = sig_pad1" and "skip_FF ([0, 1] @ replicate k 0xFF @ 0 # t) 10 = k + 2"
proof -
  obtain j where j: "k = 8 + j" using assms le_Suc_ex by blast
  have e: "[0, 1] @ replicate k 0xFF @ 0 # t = sig_pad1 @ replicate j 0xFF @ 0 # t"
    unfolding j replicate_add by (simp add: sig_pad1_def numeral_eq_Suc)
  have l: "length sig_pad1 = 10" by (simp add: sig_pad1_def)
  show "take 10 ([0, 1] @ replicate k 0xFF @ 0 # t) = sig_pad1" unfolding e using l by simp
  show "skip_FF ([0, 1] @ replicate k 0xFF @ 0 # t) 10 = k + 2"
    unfolding e using skip_FF_run [of 0 sig_pad1 j t] l j by simp
qed

lemma sig_unpad_exact:
  assumes oid: "oid_ok oid" and len: "length sig < 2 ^ 60" "hl < 2 ^ 60"
  shows "br_rsa_pkcs1_sig_unpad sig oid hl = Some h \<longleftrightarrow> length h = hl \<and> (\<exists>k\<ge>8. \<exists>null. sig = pkcs1_encoding oid null k h)"
proof
  assume "br_rsa_pkcs1_sig_unpad sig oid hl = Some h"
  then obtain null where s: "11 \<le> length sig" "take 10 sig = sig_pad1" "length h = hl" "drop (skip_FF sig 10) sig = sig_rest oid null hl @ h"
    unfolding sig_unpad_iff [OF assms] by blast
  have "sig = pkcs1_encoding oid null (skip_FF sig 10 - 2) h"
    unfolding encoding_rest using sig_split(1) [OF s(2,1)] s(3,4) by simp
  moreover have "8 \<le> skip_FF sig 10 - 2" using sig_split(2) [OF s(2,1)] by simp
  ultimately show "length h = hl \<and> (\<exists>k\<ge>8. \<exists>null. sig = pkcs1_encoding oid null k h)" using s(3) by blast
next
  assume "length h = hl \<and> (\<exists>k\<ge>8. \<exists>null. sig = pkcs1_encoding oid null k h)"
  then obtain k null where k: "length h = hl" "8 \<le> k" "sig = pkcs1_encoding oid null k h" by blast
  define t where "t = tl (sig_rest oid null hl) @ h"
  have sig: "sig = [0, 1] @ replicate k 0xFF @ 0 # t"
    unfolding k(3) encoding_rest k(1) t_def using rest_zero [of oid null hl] by (metis append_Cons)
  have "drop (k + 2) sig = 0 # t" unfolding sig by simp
  have l: "11 \<le> length sig" unfolding sig using k(2) by simp
  note \<open>drop (k + 2) sig = 0 # t\<close>
  also have "0 # t = sig_rest oid null hl @ h" unfolding t_def using rest_zero [of oid null hl] by (metis append_Cons)
  finally show "br_rsa_pkcs1_sig_unpad sig oid hl = Some h"
    unfolding sig_unpad_iff [OF assms] using pkcs1_encoding_skip [OF k(2), of t, folded sig] k(1) l by auto
qed

section \<open>OAEP\<close>

definition hash_data :: "'c br_hash_class \<Rightarrow> u8 list \<Rightarrow> u8 list" where
  "hash_data dig src =
     (let hc = hc_init dig (hc_ctx dig);
          hc = hc_update dig hc src
      in hc_out dig hc)"

text \<open>The length of the modulus as \<open>br_rsa_oaep_pad\<close> computes it.\<close>

primrec oaep_modulus_len :: "u8 list \<Rightarrow> nat \<Rightarrow> nat" where
  "oaep_modulus_len n 0 = 0"
| "oaep_modulus_len n (Suc k) = (if n ! k = 0 then oaep_modulus_len n k else Suc k)"

text \<open>The random generator is a parameter: a state, and \<open>generate\<close> from it. The public key is given by the bytes of its modulus. The
  result is the generator state and the \<open>k\<close> bytes written to \<open>dst\<close>; \<open>None\<close> is the return value 0.\<close>

definition br_rsa_oaep_pad :: "('r \<Rightarrow> nat \<Rightarrow> 'r \<times> u8 list) \<Rightarrow> 'r \<Rightarrow> 'c br_hash_class \<Rightarrow> u8 list \<Rightarrow> u8 list \<Rightarrow> nat \<Rightarrow> u8 list \<Rightarrow>
    'r \<times> u8 list option" where
  "br_rsa_oaep_pad generate rnd dig label pk_n dst_max_len src =
     (let hlen = br_digest_size dig;
          src_len = length src;
          k = oaep_modulus_len pk_n (length pk_n)
      in if k < 2 * hlen + 2 \<or> k - 2 * hlen - 2 < src_len \<or> dst_max_len < k then (rnd, None)
         else let DB = hash_data dig label @ replicate (k - src_len - 2 * hlen - 2) 0 @ [0x01] @ src;
                  (rnd, seed) = generate rnd hlen;
                  DB = br_mgf1_xor DB dig seed;
                  seed = br_mgf1_xor seed dig DB
              in (rnd, Some ([0x00] @ seed @ DB)))"

definition xor_hash_data :: "'c br_hash_class \<Rightarrow> u8 list \<Rightarrow> u8 list \<Rightarrow> u8 list" where
  "xor_hash_data dig dst src =
     (let hc = hc_init dig (hc_ctx dig);
          hc = hc_update dig hc src;
          tmp = hc_out dig hc;
          hlen = br_digest_size dig
      in map2 (XOR) (take hlen dst) (take hlen tmp) @ drop hlen dst)"

text \<open>One turn of the loop that looks for the byte \<open>0x01\<close>.\<close>

definition oaep_scan :: "u32 \<times> u32 \<times> u32 \<Rightarrow> u8 \<Rightarrow> u32 \<times> u32 \<times> u32" where
  "oaep_scan = (\<lambda>(r, s, zlen) b.
     let w = ucast b;
         nz = r AND shr (w + 0xFF) 8;
         s = s OR (nz AND EQ w 0x01);
         r = r AND NOT_ctl nz;
         zlen = zlen + r
     in (r, s, zlen))"

text \<open>The result is \<open>s\<close>, the buffer and its new length.\<close>

definition br_rsa_oaep_unpad :: "'c br_hash_class \<Rightarrow> u8 list \<Rightarrow> u8 list \<Rightarrow> u32 \<times> u8 list \<times> nat" where
  "br_rsa_oaep_unpad dig label buf =
     (let hlen = br_digest_size dig;
          k = length buf
      in if k < 2 * hlen + 2 then (0, buf, k)
         else
           let b0 = hd buf;
               seed = take hlen (drop 1 buf);
               DB = drop (hlen + 1) buf;
               seed = br_mgf1_xor seed dig DB;
               DB = br_mgf1_xor DB dig seed;
               DB = xor_hash_data dig DB label;
               buf = [b0] @ seed @ DB;
               r = 1 - shr (ucast b0 + 0xFF) 8;
               (r, s, zlen) = foldl oaep_scan (r, 0, 0) DB;
               s = s AND GE zlen (of_nat hlen)
           in if s \<noteq> 0
              then let plen = 2 + hlen + unat zlen; k' = k - plen
                   in (s, splice buf 0 (take k' (drop plen buf)), k')
              else (s, buf, k))"

text \<open>RFC 8017: the encoded message of \<open>M\<close> with \<open>z\<close> padding bytes.\<close>

definition oaep_encode :: "(u8 list \<Rightarrow> u8 list) \<Rightarrow> u8 list \<Rightarrow> u8 list \<Rightarrow> nat \<Rightarrow> u8 list \<Rightarrow> u8 list" where
  "oaep_encode H label seed z M =
     (let DB = H label @ replicate z 0x00 @ [0x01] @ M;
          maskedDB = map2 (XOR) DB (mgf1_mask H seed (length DB));
          maskedSeed = map2 (XOR) seed (mgf1_mask H maskedDB (length seed))
      in [0x00] @ maskedSeed @ maskedDB)"

text \<open>The message that a caller reads: \<open>len\<close> bytes of the buffer if the result is not 0.\<close>

definition oaep_message :: "u32 \<times> u8 list \<times> nat \<Rightarrow> u8 list option" where
  "oaep_message = (\<lambda>(s, buf, len). if s = 0 then None else Some (take len buf))"

lemma scan_byte: "shr (ucast (b :: u8) + 0xFF :: u32) 8 = of_bool (b \<noteq> 0)"
proof -
  have "unat (ucast b :: u32) = unat b" using unat_lt8 [of b] by (simp add: unsigned_ucast_eq take_bit_nat_eq_self)
  then have "unat (ucast b + 0xFF :: u32) = unat b + 255" using unat_lt8 [of b] by (simp add: unat_word_ariths)
  then have "unat (shr (ucast b + 0xFF :: u32) 8) = (unat b + 255) div 256" by (simp add: unat_drop_bit)
  also have "\<dots> = of_bool (b \<noteq> 0)"
  proof (cases "b = 0")
    case False
    then have "0 < unat b" by (simp add: unat_gt_0)
    then have "(unat b + 255) div 256 = 1" using unat_lt8 [of b] by (intro div_nat_eqI) simp_all
    then show ?thesis using False by simp
  qed simp
  finally show ?thesis by (simp add: word_unat_eq_iff)
qed

lemma oaep_scan_step:
  "oaep_scan (of_bool r, of_bool s, zlen) b = (of_bool (r \<and> b = 0), of_bool (s \<or> r \<and> b = 1), zlen + of_bool (r \<and> b = 0))"
proof -
  have "(ucast b = (1 :: u32)) \<longleftrightarrow> b = 1" by (metis ucast_byte unsigned_1)
  then show ?thesis by (cases "b = 0"; cases r; cases s) (simp_all add: oaep_scan_def scan_byte Let_def)
qed

lemma oaep_scan_off: "foldl oaep_scan (0, of_bool s, zlen) bs = (0, of_bool s, zlen)"
  using oaep_scan_step [of False] by (induction bs) simp_all

lemma oaep_scan_on:
  "foldl oaep_scan (1, of_bool s, zlen) bs =
    (let z = length (takeWhile (\<lambda>b. b = 0) bs) in (of_bool (z = length bs), of_bool (s \<or> (z < length bs \<and> bs ! z = 1)), zlen + of_nat z))"
proof (induction bs arbitrary: zlen)
  case (Cons b bs)
  have e: "oaep_scan (1, of_bool s, zlen) b = (of_bool (b = 0), of_bool (s \<or> b = 1), zlen + of_bool (b = 0))"
    using oaep_scan_step [of True s zlen b] by simp
  show ?case
  proof (cases "b = 0")
    case True
    have f: "foldl oaep_scan (1, of_bool s, zlen) (b # bs) = foldl oaep_scan (1, of_bool s, zlen + 1) bs"
      unfolding foldl.simps e by (simp add: True)
    show ?thesis unfolding f Cons.IH using True by (simp add: Let_def add.assoc)
  next
    case False
    have f: "foldl oaep_scan (1, of_bool s, zlen) (b # bs) = (0, of_bool (s \<or> b = 1), zlen)"
      using oaep_scan_off [of "s \<or> b = 1"] unfolding foldl.simps e by (simp add: False)
    show ?thesis unfolding f using False by (simp add: Let_def)
  qed
qed simp

lemma takeWhile_zeros:
  fixes bs :: "u8 list"
  shows "length (takeWhile (\<lambda>b. b = 0) bs) = z \<and> z < length bs \<and> bs ! z = 1 \<longleftrightarrow> bs = replicate z 0 @ 1 # drop (z + 1) bs"
proof
  assume a: "length (takeWhile (\<lambda>b. b = 0) bs) = z \<and> z < length bs \<and> bs ! z = 1"
  then have "takeWhile (\<lambda>b. b = 0) bs = replicate z 0" by (auto simp: replicate_length_same dest: set_takeWhileD intro: replicate_eqI)
  moreover have "dropWhile (\<lambda>b. b = 0) bs = drop z bs" using a by (simp add: dropWhile_eq_drop)
  moreover have "drop z bs = bs ! z # drop (z + 1) bs" using a Cons_nth_drop_Suc [of z bs] by simp
  ultimately show "bs = replicate z 0 @ 1 # drop (z + 1) bs" using a by (metis takeWhile_dropWhile_id)
next
  assume b: "bs = replicate z 0 @ 1 # drop (z + 1) bs"
  show "length (takeWhile (\<lambda>b. b = 0) bs) = z \<and> z < length bs \<and> bs ! z = 1"
    by (subst (1 2 3) b) (simp add: takeWhile_append nth_append)
qed

context hash_impl
begin

lemma xor_hash_zeros:
  assumes "br_digest_size dig \<le> length DB"
  shows "xor_hash_data dig DB label = replicate (br_digest_size dig + z) 0 @ 1 # M \<longleftrightarrow> DB = digest label @ replicate z 0 @ 1 # M"
proof -
  let ?h = "br_digest_size dig"
  have x: "xor_hash_data dig DB label = map2 (XOR) (take ?h DB) (digest label) @ drop ?h DB"
    using out [OF update [OF init [of "hc_ctx dig"]], of label] by (simp add: xor_hash_data_def Let_def digest_length)
  have l: "length (map2 (XOR) (take ?h DB) (digest label)) = ?h" using assms by (simp add: digest_length)
  have z: "map2 (XOR) (take ?h DB) (digest label) = replicate ?h 0 \<longleftrightarrow> take ?h DB = digest label"
  proof
    assume e: "map2 (XOR) (take ?h DB) (digest label) = replicate ?h 0"
    show "take ?h DB = digest label"
    proof (rule nth_equalityI)
      fix i assume i: "i < length (take ?h DB)"
      then have "map2 (XOR) (take ?h DB) (digest label) ! i = 0" unfolding e by simp
      then show "take ?h DB ! i = digest label ! i" using i by (simp add: digest_length xor_eq_0)
    qed (use assms in \<open>simp add: digest_length\<close>)
  next
    assume "take ?h DB = digest label"
    then show "map2 (XOR) (take ?h DB) (digest label) = replicate ?h 0"
      by (intro nth_equalityI) (simp_all add: digest_length)
  qed
  have "xor_hash_data dig DB label = replicate (?h + z) 0 @ 1 # M \<longleftrightarrow> take ?h DB = digest label \<and> drop ?h DB = replicate z 0 @ 1 # M"
    unfolding x replicate_add append_assoc using append_eq_append_conv [of _ "replicate ?h 0"] l z by simp
  also have "\<dots> \<longleftrightarrow> DB = digest label @ replicate z 0 @ 1 # M"
    using append_eq_conv_conj [of "digest label" "replicate z 0 @ 1 # M" DB] by (auto simp: digest_length)
  finally show ?thesis .
qed


lemma oaep_encode_alt:
  "oaep_encode digest label seed z M =
    (let mDB = br_mgf1_xor (digest label @ replicate z 0 @ 1 # M) dig seed in [0] @ br_mgf1_xor seed dig mDB @ mDB)"
proof -
  have m: "br_mgf1_xor d dig s = map2 (XOR) d (mgf1_mask digest s (length d))" for d s
    by (rule mgf1_xor_mask [OF mask_enough])
  show ?thesis unfolding m oaep_encode_def Let_def by simp
qed

lemma oaep_encoded_iff:
  assumes "length ms = br_digest_size dig"
  shows "(\<exists>seed z. length seed = br_digest_size dig \<and> b # ms @ mD = oaep_encode digest label seed z M) \<longleftrightarrow>
    b = 0 \<and> (\<exists>z. br_mgf1_xor mD dig (br_mgf1_xor ms dig mD) = digest label @ replicate z 0 @ 1 # M)"
proof
  assume "\<exists>seed z. length seed = br_digest_size dig \<and> b # ms @ mD = oaep_encode digest label seed z M"
  then obtain seed z where s: "length seed = br_digest_size dig" "b # ms @ mD = oaep_encode digest label seed z M" by blast
  define DB where "DB = digest label @ replicate z 0 @ 1 # M"
  have e: "b # ms @ mD = 0 # br_mgf1_xor seed dig (br_mgf1_xor DB dig seed) @ br_mgf1_xor DB dig seed"
    using s(2) unfolding oaep_encode_alt DB_def Let_def by simp
  then have "mD = br_mgf1_xor DB dig seed" "ms = br_mgf1_xor seed dig mD" "b = 0" using assms s(1) by (auto simp: length_mgf1)
  then show "b = 0 \<and> (\<exists>z. br_mgf1_xor mD dig (br_mgf1_xor ms dig mD) = digest label @ replicate z 0 @ 1 # M)"
    unfolding DB_def by (metis mgf1_twice)
next
  assume "b = 0 \<and> (\<exists>z. br_mgf1_xor mD dig (br_mgf1_xor ms dig mD) = digest label @ replicate z 0 @ 1 # M)"
  then obtain z where z: "b = 0" "br_mgf1_xor mD dig (br_mgf1_xor ms dig mD) = digest label @ replicate z 0 @ 1 # M" by blast
  have "b # ms @ mD = oaep_encode digest label (br_mgf1_xor ms dig mD) z M"
    unfolding oaep_encode_alt z(2) [symmetric] Let_def mgf1_twice using z(1) by simp
  then show "\<exists>seed z. length seed = br_digest_size dig \<and> b # ms @ mD = oaep_encode digest label seed z M"
    using assms length_mgf1 by metis
qed


lemma oaep_message_iff:
  assumes len: "2 * br_digest_size dig + 2 \<le> length buf" "length buf < 2 ^ 32"
  shows "oaep_message (br_rsa_oaep_unpad dig label buf) = Some M \<longleftrightarrow>
    (\<exists>seed z. length seed = br_digest_size dig \<and> buf = oaep_encode digest label seed z M)"
proof -
  let ?h = "br_digest_size dig"
  define b where "b = hd buf"
  define ms where "ms = take ?h (drop 1 buf)"
  define mD where "mD = drop (?h + 1) buf"
  have "buf = b # drop 1 buf" using len by (cases buf) (simp_all add: b_def)
  also have "drop 1 buf = ms @ mD" using append_take_drop_id [of ?h "drop 1 buf"] unfolding drop_drop ms_def mD_def by simp
  finally have buf: "buf = b # ms @ mD" .
  have l: "length ms = ?h" "length mD = length buf - ?h - 1" using len by (simp_all add: ms_def mD_def)
  define seed where "seed = br_mgf1_xor ms dig mD"
  define DB where "DB = xor_hash_data dig (br_mgf1_xor mD dig seed) label"
  define z where "z = length (takeWhile (\<lambda>b. b = 0) DB)"
  have lDB: "length DB = length mD" 
    using out [OF update [OF init [of "hc_ctx dig"]], of label] l len
    by (simp add: DB_def xor_hash_data_def Let_def length_mgf1 digest_length)
  have ls: "length seed = ?h" by (simp add: seed_def length_mgf1 l)
  have zl: "z \<le> length DB" by (simp add: z_def length_takeWhile_le)
  have zw: "unat (of_nat z :: u32) = z" using zl lDB l len by (simp add: unat_of_nat take_bit_nat_eq_self)
  have hw: "unat (of_nat ?h :: u32) = ?h" using sizes by (simp add: unat_of_nat take_bit_nat_eq_self)
  have ge: "of_nat ?h \<le> (of_nat z :: u32) \<longleftrightarrow> ?h \<le> z" by (simp add: word_le_nat_alt zw hw)
  have scan: "foldl oaep_scan (1 - shr (ucast b + 0xFF) 8, 0, 0) DB =
      (if b = 0 then (of_bool (z = length DB), of_bool (z < length DB \<and> DB ! z = 1), of_nat z) else (0, 0, 0))"
    using oaep_scan_off [of False 0 DB] oaep_scan_on [of False 0 DB] by (simp add: scan_byte z_def Let_def)
  have k: "\<not> length buf < 2 * ?h + 2" using len by simp
  have r: "br_rsa_oaep_unpad dig label buf =
      (let s = s0 AND GE zlen (of_nat ?h); buf' = [b] @ seed @ DB
       in if s \<noteq> 0 then (s, splice buf' 0 (take (length buf - (2 + ?h + unat zlen)) (drop (2 + ?h + unat zlen) buf')), length buf - (2 + ?h + unat zlen))
          else (s, buf', length buf))"
    if "foldl oaep_scan (1 - shr (ucast b + 0xFF) 8, 0, 0) DB = (r0, s0, zlen)" for r0 s0 zlen
    unfolding br_rsa_oaep_unpad_def Let_def b_def [symmetric] ms_def [symmetric] mD_def [symmetric]
      seed_def [symmetric] DB_def [symmetric] that prod.case if_not_P [OF k] by (rule refl)
  have t: "take n (splice xs 0 (take n ys)) = ys" if "length ys = n" for n and xs ys :: "u8 list"
    using that by (simp add: splice_def)
  have "oaep_message (br_rsa_oaep_unpad dig label buf) =
      (if b = 0 \<and> z < length DB \<and> DB ! z = 1 \<and> ?h \<le> z then Some (drop (z + 1) DB) else None)"
  proof (cases "b = 0 \<and> z < length DB \<and> DB ! z = 1 \<and> ?h \<le> z")
    case True
    have d: "drop (2 + ?h + z) ([b] @ seed @ DB) = drop (z + 1) DB" using ls by simp
    have "length (drop (z + 1) DB) = length buf - (2 + ?h + z)" using lDB l len by simp
    from t [OF this] True show ?thesis
      unfolding r [OF scan [unfolded if_P [OF conjunct1 [OF True]]]] Let_def zw d by (simp add: oaep_message_def ge)
  next
    case False then show ?thesis using r scan by (cases "b = 0") (auto simp: oaep_message_def Let_def ge)
  qed
  also have "\<dots> = Some M \<longleftrightarrow> b = 0 \<and> ?h \<le> z \<and> DB = replicate z 0 @ 1 # M"
  proof -
    have "z < length DB \<and> DB ! z = 1 \<longleftrightarrow> DB = replicate z 0 @ 1 # drop (z + 1) DB" using takeWhile_zeros [of DB z] z_def by simp
    moreover have "drop (z + 1) DB = M" if "DB = replicate z 0 @ 1 # M" by (subst that) simp
    ultimately show ?thesis by (metis option.inject option.distinct(1))
  qed
  also have "\<dots> \<longleftrightarrow> b = 0 \<and> (\<exists>y. DB = replicate (?h + y) 0 @ 1 # M)"
  proof -
    have "z = ?h + y" if "DB = replicate (?h + y) 0 @ 1 # M" for y
      unfolding z_def that by (simp add: takeWhile_append)
    then show ?thesis by (metis le_add1 le_Suc_ex)
  qed
  also have "\<dots> \<longleftrightarrow> b = 0 \<and> (\<exists>z. br_mgf1_xor mD dig seed = digest label @ replicate z 0 @ 1 # M)"
    using l len by (simp add: DB_def xor_hash_zeros length_mgf1)
  also have "\<dots> \<longleftrightarrow> (\<exists>seed z. length seed = ?h \<and> buf = oaep_encode digest label seed z M)"
    unfolding buf oaep_encoded_iff [OF l(1)] seed_def ..
  finally show ?thesis .
qed
lemma oaep_pad_encodes:
  assumes "br_rsa_oaep_pad generate rnd dig label n dml src = (rnd', Some em)" and "length (snd (generate rnd (br_digest_size dig))) = br_digest_size dig"
  shows "length em = oaep_modulus_len n (length n) \<and>
    em = oaep_encode digest label (snd (generate rnd (br_digest_size dig))) (length em - length src - 2 * br_digest_size dig - 2) src"
proof -
  let ?h = "br_digest_size dig"
  let ?k = "oaep_modulus_len n (length n)"
  obtain r s where g: "generate rnd ?h = (r, s)" "length s = ?h" using assms(2) by (metis prod.collapse)
  have hd: "hash_data dig label = digest label"
    using out [OF update [OF init [of "hc_ctx dig"]], of label] by (simp add: hash_data_def Let_def)
  have k: "2 * ?h + 2 \<le> ?k" "length src \<le> ?k - 2 * ?h - 2"
    and em: "em = oaep_encode digest label s (?k - length src - 2 * ?h - 2) src"
    using assms(1) by (auto simp: br_rsa_oaep_pad_def Let_def g hd oaep_encode_alt split: if_splits)
  have "length em = ?k" using k g(2) unfolding em oaep_encode_alt Let_def by (simp add: length_mgf1 digest_length)
  then show ?thesis using em g by simp
qed

end

lemma oaep_modulus_len_last: "n \<noteq> [] \<Longrightarrow> last n \<noteq> 0 \<Longrightarrow> oaep_modulus_len n (length n) = length n"
  by (cases n rule: rev_cases) (simp_all add: nth_append)

section \<open>The premaster secret\<close>

text \<open>The private-key operation is the parameter \<open>core\<close>: its result and the new contents of the buffer. The result is the return value and
  the first 48 bytes of the buffer.\<close>

definition br_rsa_ssl_decrypt :: "(u8 list \<Rightarrow> 'k \<Rightarrow> u32 \<times> u8 list) \<Rightarrow> 'k \<Rightarrow> u32 \<Rightarrow> u8 list \<Rightarrow> u32 \<times> u8 list" where
  "br_rsa_ssl_decrypt core sk n_bitlen data =
     (let len = length data in
      if len < 59 \<or> len \<noteq> unat (shr (n_bitlen + 7) 3) then (0, data)
      else
        let (x, data) = core data sk;
            x = x AND EQ (ucast (data ! 0)) 0x00;
            x = x AND EQ (ucast (data ! 1)) 0x02;
            x = foldl (\<lambda>x u. x AND NEQ (ucast (data ! u)) 0) x [2..<len - 49];
            x = x AND EQ (ucast (data ! (len - 49))) 0x00
        in (x, splice data 0 (take 48 (drop (len - 48) data))))"

lemma ucast_byte_eq: "(ucast (b :: u8) = (ucast (c :: u8) :: u32)) \<longleftrightarrow> b = c"
  by (metis ucast_byte)

lemma and_bits: "(x AND of_bool p) AND of_bool q = x AND (of_bool (p \<and> q) :: u32)"
  by (cases p; cases q) (simp_all add: and.assoc)

lemma fold_nonzero:
  "foldl (\<lambda>x u. x AND NEQ (ucast ((d :: u8 list) ! u)) 0) (x AND of_bool p) us = x AND of_bool (p \<and> (\<forall>u\<in>set us. d ! u \<noteq> 0))"
proof (induction us arbitrary: p)
  case (Cons u us)
  have "ucast (d ! u) = (0 :: u32) \<longleftrightarrow> d ! u = 0" using ucast_byte_eq [of "d ! u" 0] by simp
  then have e: "(x AND of_bool p) AND NEQ (ucast (d ! u)) 0 = x AND of_bool (p \<and> d ! u \<noteq> 0)" using and_bits [of x p "d ! u \<noteq> 0"] by simp
  show ?case unfolding foldl.simps e Cons.IH by (simp add: conj_assoc)
qed simp

definition premaster_format :: "u8 list \<Rightarrow> bool" where
  "premaster_format m \<longleftrightarrow> (\<exists>ps pms. length pms = 48 \<and> 0 \<notin> set ps \<and> m = [0, 2] @ ps @ [0] @ pms)"

lemma premaster_format_iff:
  assumes "59 \<le> length m"
  shows "premaster_format m \<longleftrightarrow> m ! 0 = 0 \<and> m ! 1 = 2 \<and> (\<forall>u\<in>set [2..<length m - 49]. m ! u \<noteq> 0) \<and> m ! (length m - 49) = 0"
proof
  assume "premaster_format m"
  then obtain ps pms where m: "length pms = 48" "0 \<notin> set ps" "m = [0, 2] @ ps @ [0] @ pms" by (auto simp: premaster_format_def)
  have "length m - 49 = Suc (Suc (length ps))" using m(1,3) by simp
  then have "m ! 0 = 0" "m ! 1 = 2" "m ! (length m - 49) = 0" using m(3) by simp_all
  moreover have "m ! u \<in> set ps" if "2 \<le> u" "u < length m - 49" for u
  proof -
    define v where "v = u - 2"
    have "u = Suc (Suc v)" using that(1) by (simp add: v_def)
    then show ?thesis using that(2) m by (simp add: nth_append)
  qed
  ultimately show "m ! 0 = 0 \<and> m ! 1 = 2 \<and> (\<forall>u\<in>set [2..<length m - 49]. m ! u \<noteq> 0) \<and> m ! (length m - 49) = 0"
    using m(2) by fastforce
next
  assume a: "m ! 0 = 0 \<and> m ! 1 = 2 \<and> (\<forall>u\<in>set [2..<length m - 49]. m ! u \<noteq> 0) \<and> m ! (length m - 49) = 0"
  define ps where "ps = take (length m - 51) (drop 2 m)"
  define k where "k = length m - 49"
  have k: "length m = k + 49" "10 \<le> k" using assms by (simp_all add: k_def)
  have "m = take 2 m @ take (k - 2) (drop 2 m) @ drop (k - 2) (drop 2 m)" by (simp only: append_take_drop_id)
  also have "drop (k - 2) (drop 2 m) = m ! k # drop (k + 1) m"
  proof -
    have "k - 2 + 2 = k" using k by simp
    then show ?thesis using Cons_nth_drop_Suc [of k m] k by (simp only: drop_drop) simp
  qed
  also have "take 2 m = [0, 2]" using a k by (cases m; cases "tl m") (simp_all add: nth_Cons')
  also have "m ! k = 0" using a by (simp add: k_def)
  finally have m: "m = [0, 2] @ take (k - 2) (drop 2 m) @ [0] @ drop (k + 1) m" by simp
  have "0 \<notin> set (take (k - 2) (drop 2 m))"
    using a k by (auto simp: in_set_conv_nth nth_take k_def [symmetric])
  then show "premaster_format m" unfolding premaster_format_def using m k by (intro exI conjI [rotated]) auto
qed

section \<open>Properties\<close>

text \<open>C23. \<^bold>\<open>PKCS#1 signatures are parsed exactly.\<close> \<open>br_rsa_pkcs1_sig_unpad\<close> accepts a message if and only if it is one of the two PKCS#1 encodings
  of the hash value it returns (with or without the \<open>NULL\<close> parameters, and with at least eight bytes of padding): nothing else verifies.\<close>

theorem br_rsa_pkcs1_sig_unpad_exact:
  assumes "oid_ok oid" and "length sig < 2 ^ 60" and "hl < 2 ^ 60"
  shows "br_rsa_pkcs1_sig_unpad sig oid hl = Some h \<longleftrightarrow> length h = hl \<and> (\<exists>k\<ge>8. \<exists>null. sig = pkcs1_encoding oid null k h)"
  by (rule sig_unpad_exact [OF assms])

theorem br_rsa_pkcs1_sig_unpad_exact_witness:
  "br_rsa_pkcs1_sig_unpad (pkcs1_encoding (Some [2, 5, 6]) False 9 [1, 2, 3]) (Some [2, 5, 6]) 3 = Some [1, 2, 3]"
proof -
  have "length (pkcs1_encoding (Some [2, 5, 6]) False 9 [1, 2, 3]) < 2 ^ 60" by (simp add: pkcs1_encoding_def Let_def)
  moreover have "\<exists>k\<ge>8. \<exists>null. pkcs1_encoding (Some [2, 5, 6]) False 9 [1, 2, 3] = pkcs1_encoding (Some [2, 5, 6]) null k [1, 2, 3]"
    by (intro exI [of _ 9] exI [of _ False] conjI) simp_all
  ultimately show ?thesis
    using br_rsa_pkcs1_sig_unpad_exact [of "Some [2, 5, 6]" "pkcs1_encoding (Some [2, 5, 6]) False 9 [1, 2, 3]" 3 "[1, 2, 3]"]
    by (simp add: oid_ok_def)
qed

text \<open>\<^bold>\<open>Signature padding is undone.\<close> What \<open>br_rsa_pkcs1_sig_pad\<close> produces for a modulus is as long as the modulus and is
  unpadded to the hash value it was made from.\<close>

theorem pkcs1_sig_roundtrip:
  assumes "oid_ok oid" and "br_rsa_pkcs1_sig_pad oid hash n_bitlen = Some x"
  shows "length x = unat (shr (n_bitlen + 7) 3) \<and> br_rsa_pkcs1_sig_unpad x oid (length hash) = Some hash"
proof -
  have l: "length x = unat (shr (n_bitlen + 7) 3)" "length hash \<le> length x"
    using assms by (auto simp: br_rsa_pkcs1_sig_pad_def oid_ok_def Let_def split: option.splits if_splits)
  have "length x < 2 ^ 60" unfolding l(1) using unsigned_less [of "shr (n_bitlen + 7) 3", where 'a = nat] by simp
  with sig_pad_encoding [OF assms(2)] l show ?thesis using sig_unpad_exact [OF assms(1), of x "length hash" hash] by auto
qed

theorem pkcs1_sig_roundtrip_witness:
  "br_rsa_pkcs1_sig_pad (Some [2, 5, 6]) [1, 2, 3] 216
    = Some ([0, 1, 0xFF, 0xFF, 0xFF, 0xFF, 0xFF, 0xFF, 0xFF, 0xFF, 0xFF, 0, 0x30, 13, 0x30, 6, 6, 2, 5, 6, 5, 0, 4, 3, 1, 2, 3]) \<and>
   br_rsa_pkcs1_sig_unpad [0, 1, 0xFF, 0xFF, 0xFF, 0xFF, 0xFF, 0xFF, 0xFF, 0xFF, 0xFF, 0, 0x30, 13, 0x30, 6, 6, 2, 5, 6, 5, 0, 4, 3, 1, 2, 3] (Some [2, 5, 6]) 3
    = Some [1, 2, 3]"
proof -
  have p: "br_rsa_pkcs1_sig_pad (Some [2, 5, 6]) [1, 2, 3] 216
    = Some ([0, 1, 0xFF, 0xFF, 0xFF, 0xFF, 0xFF, 0xFF, 0xFF, 0xFF, 0xFF, 0, 0x30, 13, 0x30, 6, 6, 2, 5, 6, 5, 0, 4, 3, 1, 2, 3])"
    by code_simp
  show ?thesis using p pkcs1_sig_roundtrip [OF _ p] by (simp add: oid_ok_def numeral_3_eq_3)
qed

text \<open>C22. \<^bold>\<open>OAEP decoding is exact.\<close> Over SHA-256, and for any message of at least \<open>2 \<cdot> 32 + 2\<close> bytes, the constant-time
  \<open>br_rsa_oaep_unpad\<close> returns \<open>M\<close> if and only if the buffer is an RFC 8017 encoding of \<open>M\<close> under the label; the same holds with SHA-1.\<close>

theorem br_rsa_oaep_unpad_exact:
  assumes "66 \<le> length buf" and "length buf < 2 ^ 32"
  shows "(oaep_message (br_rsa_oaep_unpad br_sha256_vtable label buf) = Some M \<longleftrightarrow>
      (\<exists>seed z. length seed = 32 \<and> buf = oaep_encode sha256 label seed z M)) \<and>
    (oaep_message (br_rsa_oaep_unpad br_sha1_vtable label buf) = Some M \<longleftrightarrow>
      (\<exists>seed z. length seed = 20 \<and> buf = oaep_encode sha1 label seed z M))"
  using sha256_hash.oaep_message_iff [of buf label M] sha1_hash.oaep_message_iff [of buf label M] assms by (simp add: hash_sizes)

theorem br_rsa_oaep_unpad_exact_witness:
  "oaep_message (br_rsa_oaep_unpad br_sha256_vtable [3] (oaep_encode sha256 [3] (replicate 32 7) 5 [1, 2])) = Some [1, 2]"
proof -
  have l: "length (oaep_encode sha256 [3] (replicate 32 7) 5 [1, 2]) = 73"
    unfolding sha256_hash.oaep_encode_alt Let_def
    by (simp add: sha256_hash.length_mgf1 sha256_hash.digest_length hash_sizes)
  have "\<exists>seed z. length seed = 32 \<and> oaep_encode sha256 [3] (replicate 32 7) 5 [1, 2] = oaep_encode sha256 [3] seed z [1, 2]"
    by (intro exI [of _ "replicate 32 7"] exI [of _ 5]) simp
  then show ?thesis using conjunct1 [OF br_rsa_oaep_unpad_exact [of "oaep_encode sha256 [3] (replicate 32 7) 5 [1, 2]"]] l by simp
qed

text \<open>\<^bold>\<open>OAEP padding is undone\<close>, for any generator of seeds. The encoded message is as long as the modulus array, the zero bytes that the
  big-endian modulus may start with included: the loop that is meant to strip them looks at the other end.\<close>

theorem oaep_roundtrip:
  assumes "length (snd (generate rnd 32)) = 32" and "n \<noteq> []" and "last n \<noteq> 0" and "length n < 2 ^ 32"
    and "br_rsa_oaep_pad generate rnd br_sha256_vtable label n dml M = (rnd', Some em)"
  shows "length em = length n \<and> oaep_message (br_rsa_oaep_unpad br_sha256_vtable label em) = Some M"
proof -
  note p = sha256_hash.oaep_pad_encodes [OF assms(5), unfolded hash_sizes, OF assms(1), unfolded oaep_modulus_len_last [OF assms(2,3)]]
  have "66 \<le> length n"
    using assms(5) by (auto simp: br_rsa_oaep_pad_def Let_def hash_sizes oaep_modulus_len_last [OF assms(2,3)] split: if_splits)
  then show ?thesis
    using p assms(1,4) sha256_hash.oaep_message_iff [of em label M] by (auto simp: hash_sizes)
qed

theorem oaep_roundtrip_witness:
  "case br_rsa_oaep_pad (\<lambda>r n. (r + 1, replicate n r)) 4 br_sha256_vtable [9] (0 # replicate 71 3) 100 [1, 2] of
     (rnd, None) \<Rightarrow> False
   | (rnd, Some em) \<Rightarrow> length em = 72 \<and> oaep_message (br_rsa_oaep_unpad br_sha256_vtable [9] em) = Some [1, 2]"
proof -
  obtain rnd' r where r: "br_rsa_oaep_pad (\<lambda>r n. (r + 1, replicate n r)) 4 br_sha256_vtable [9] (0 # replicate 71 3) 100 [1, 2] = (rnd', r)"
    by (rule prod.exhaust)
  have k: "oaep_modulus_len (0 # replicate 71 3) 72 = 72" using oaep_modulus_len_last [of "0 # replicate 71 3"] by simp
  have "r \<noteq> None" using r by (auto simp: br_rsa_oaep_pad_def Let_def hash_sizes k)
  then obtain em where "r = Some em" by blast
  with r show ?thesis using oaep_roundtrip [of "\<lambda>r n. (r + 1, replicate n r)" 4 "0 # replicate 71 3" "[9]" 100 "[1, 2]" rnd' em] by simp
qed

text \<open>C34. \<^bold>\<open>The premaster secret\<close> is delivered whether or not the decrypted block has the format of PKCS#1 type 2 with 48 bytes of payload;
  only the returned flag tells.\<close>

theorem br_rsa_ssl_decrypt_correct:
  assumes "core data sk = (r, m)" and "length m = length data" and "59 \<le> length data" and "length data = unat (shr (n_bitlen + 7) 3)"
  shows "fst (br_rsa_ssl_decrypt core sk n_bitlen data) = r AND of_bool (premaster_format m) \<and>
    take 48 (snd (br_rsa_ssl_decrypt core sk n_bitlen data)) = drop (length m - 48) m"
proof -
  have c: "\<not> (length data < 59 \<or> length data \<noteq> unat (shr (n_bitlen + 7) 3))" using assms by simp
  have b: "EQ (ucast (m ! i)) (ucast c) = of_bool (m ! i = c)" for i c by (simp add: ucast_byte_eq)
  have 0: "EQ (ucast (m ! i)) 0x00 = of_bool (m ! i = 0)" "EQ (ucast (m ! i)) 0x02 = of_bool (m ! i = 2)" for i
    using b [of i 0] b [of i 2] by simp_all
  show ?thesis
    unfolding br_rsa_ssl_decrypt_def Let_def if_not_P [OF c] assms(1) prod.case 0 and_bits fold_nonzero
    using assms by (simp add: premaster_format_iff splice_def conj_assoc)
qed

theorem br_rsa_ssl_decrypt_correct_witness:
  "fst (br_rsa_ssl_decrypt (\<lambda>d k. (1, d)) () 512 (replicate 64 3)) = 1 AND of_bool (premaster_format (replicate 64 3))"
  using br_rsa_ssl_decrypt_correct [of "\<lambda>d k. (1, d)" "replicate 64 3" "()" 1 "replicate 64 3" 512] by simp

end
