(* ===== verification/Rsa_I31.thy ===== *)
theory Rsa_I31
  imports I31_Modpow2 I31_Codec Rsa_Pad
begin

text \<open>
  The public-key operation of RSA, \<^verbatim>\<open>src/rsa/rsa_i31_pub.c\<close>, and what is built on it: the verification of signatures
  (\<^verbatim>\<open>rsa_i31_pkcs1_vrfy.c\<close>) and OAEP encryption (\<^verbatim>\<open>rsa_i31_oaep_encrypt.c\<close>). A pointer that moves on is the array of what is left.
  The array \<open>tmp\<close> on the stack is an argument, since its contents are not determined; the areas that the function cuts it
  into are arrays with block numbers of their own.
\<close>

section \<open>Operations\<close>

record br_rsa_public_key =
  pk_n :: "u8 arr"
  pk_nlen :: nat
  pk_e :: "u8 arr"
  pk_elen :: nat

definition advance :: "'a arr \<Rightarrow> nat \<Rightarrow> 'a arr" where
  "advance a k = a\<lparr>cells := drop k (cells a)\<rparr>"

text \<open>\<open>while (nlen > 0 && *n == 0) { n ++; nlen --; }\<close>\<close>

primrec skip_zeros :: "u8 arr \<Rightarrow> nat \<Rightarrow> (u8 arr \<times> nat) cm" where
  "skip_zeros n 0 = branch False (ret (n, 0)) (ret (n, 0))"
| "skip_zeros n (Suc k) = branch True
     (do { b \<leftarrow> ld n 0; branch (b = 0) (skip_zeros (advance n 1) k) (ret (n, Suc k)) })
     (ret (n, Suc k))"

text \<open>\<open>while (z > 0) { z -= 31; fwlen ++; }\<close>\<close>

function factor_words :: "int \<Rightarrow> nat \<Rightarrow> nat cm" where
  "factor_words z fwlen = branch (0 < z) (factor_words (z - 31) (fwlen + 1)) (ret fwlen)"
  by pat_completeness auto
termination
  by (relation "measure (\<lambda>(z, _). nat z)") auto

declare factor_words.simps [simp del]

definition BR_MAX_RSA_SIZE :: nat where
  "BR_MAX_RSA_SIZE = 4096"

definition pub_TLEN :: nat where
  "pub_TLEN = 4 * (2 + (BR_MAX_RSA_SIZE + 30) div 31)"

definition br_rsa_i31_public :: "u8 arr \<Rightarrow> nat \<Rightarrow> br_rsa_public_key \<Rightarrow> u32 arr \<Rightarrow> (u32 \<times> u8 arr) cm" where
  "br_rsa_i31_public x xlen pk tmp = do {
     (n, nlen) \<leftarrow> skip_zeros (pk_n pk) (pk_nlen pk);
     branch (nlen = 0 \<or> BR_MAX_RSA_SIZE div 8 < nlen \<or> xlen \<noteq> nlen) (ret (0, x)) (do {
       fwlen \<leftarrow> factor_words (int nlen * 8) 1;
       let fwlen = fwlen + fwlen mod 2;
       let m = tmp_area tmp fwlen 0;
       let a = tmp_area tmp fwlen 1;
       let t = \<lparr>blk = blk tmp + 2, cells = drop (2 * fwlen) (cells tmp)\<rparr>;
       m \<leftarrow> br_i31_decode m n nlen;
       m1 \<leftarrow> ld m 1;
       let m0i = br_i31_ninv31 m1;
       let r = m0i AND 1;
       (a, c) \<leftarrow> br_i31_decode_mod a x xlen m;
       let r = r AND c;
       (_, a, t) \<leftarrow> br_i31_modpow_opt a (pk_e pk) (pk_elen pk) m m0i t (pub_TLEN - 2 * fwlen);
       x \<leftarrow> br_i31_encode x xlen a;
       ret (r, x) }) }"

text \<open>The array \<open>sig\<close> on the stack has \<open>BR_MAX_RSA_SIZE / 8\<close> bytes. The result is the hash value that \<open>hash_out\<close> gets, and
  \<open>None\<close> for the return value 0.\<close>

definition br_rsa_i31_pkcs1_vrfy :: "u8 arr \<Rightarrow> nat \<Rightarrow> u8 list option \<Rightarrow> nat \<Rightarrow> br_rsa_public_key \<Rightarrow> u8 arr \<Rightarrow> u32 arr \<Rightarrow> u8 list option cm" where
  "br_rsa_i31_pkcs1_vrfy x xlen hash_oid hash_len pk sig tmp =
     branch (alen sig < xlen) (ret None) (do {
       sig \<leftarrow> memcpy sig 0 x 0 xlen;
       (r, sig) \<leftarrow> br_rsa_i31_public sig xlen pk tmp;
       branch (r = 0) (ret None) (ret (br_rsa_pkcs1_sig_unpad (take xlen (cells sig)) hash_oid hash_len)) })"

text \<open>The result is the generator's state, the return value and \<open>dst\<close>.\<close>

definition br_rsa_i31_oaep_encrypt :: "('r \<Rightarrow> nat \<Rightarrow> 'r \<times> u8 list) \<Rightarrow> 'r \<Rightarrow> 'c br_hash_class \<Rightarrow> u8 list \<Rightarrow> br_rsa_public_key \<Rightarrow>
    u8 arr \<Rightarrow> nat \<Rightarrow> u8 list \<Rightarrow> u32 arr \<Rightarrow> ('r \<times> u64 \<times> u8 arr) cm" where
  "br_rsa_i31_oaep_encrypt generate rnd dig label pk dst dst_max_len src tmp =
     (case br_rsa_oaep_pad generate rnd dig label (take (pk_nlen pk) (cells (pk_n pk))) dst_max_len src of
        (rnd, None) \<Rightarrow> ret (rnd, 0, dst)
      | (rnd, Some em) \<Rightarrow> do {
          let dlen = length em;
          (r, dst) \<leftarrow> br_rsa_i31_public (dst\<lparr>cells := splice (cells dst) 0 em\<rparr>) dlen pk tmp;
          ret (rnd, of_nat dlen AND - ucast r, dst) })"

section \<open>The parts\<close>

definition nbytes :: "nat \<Rightarrow> nat" where
  "nbytes v = (nbits v + 7) div 8"

lemma nbytes_eqI: "256 ^ k \<le> v \<Longrightarrow> v < 256 ^ Suc k \<Longrightarrow> nbytes v = Suc k"
proof -
  assume a: "256 ^ k \<le> v" "v < 256 ^ Suc k"
  have "nbits v \<le> 8 * Suc k" unfolding nbits_le_iff using a(2) by (simp only: pow256)
  moreover have "\<not> nbits v \<le> 8 * k" unfolding nbits_le_iff using a(1) by (simp add: pow256)
  ultimately show ?thesis unfolding nbytes_def by (intro div_nat_eqI) simp_all
qed

lemma ok_skip_zeros:
  assumes "k \<le> alen n"
    and "\<And>n' k'. k' \<le> alen n' \<Longrightarrow> k' \<le> k \<Longrightarrow> be_val (take k' (cells n')) = be_val (take k (cells n)) \<Longrightarrow>
      k' = nbytes (be_val (take k (cells n))) \<Longrightarrow> Q (n', k')"
  shows "ok (skip_zeros n k) Q"
  using assms
proof (induction k arbitrary: n)
  case 0
  show ?case using 0 by (auto intro!: wp simp: nbytes_def)
next
  case (Suc k)
  obtain b bs where n: "cells n = b # bs" using Suc.prems(1) by (cases "cells n") auto
  have lk: "k \<le> length bs" using Suc.prems(1) n by simp
  have v: "be_val (take (Suc k) (cells n)) = unat b * 256 ^ k + be_val (take k bs)"
    using lk by (simp add: n be_val_Cons min_absorb2)
  have lt: "be_val (take k bs) < 256 ^ k" using be_val_less [of "take k bs"] lk by (simp add: min_absorb2)
  show ?case unfolding skip_zeros.simps
  proof (rule ok_branch, rule ok_bind, rule ok_ld, rule_tac [2] ok_branch)
    assume z: "cells n ! 0 = 0"
    have e: "be_val (take (Suc k) (cells n)) = be_val (take k (cells (advance n 1)))"
      using z v by (simp add: n advance_def)
    show "ok (skip_zeros (advance n 1) k) Q"
      by (rule Suc.IH) (use lk Suc.prems(2) [unfolded e] in \<open>auto simp: advance_def n\<close>)
  next
    assume nz: "cells n ! 0 \<noteq> 0"
    then have "1 \<le> unat b" by (simp add: n Suc_le_eq unat_gt_0)
    then have "256 ^ k \<le> be_val (take (Suc k) (cells n))" unfolding v by (cases "unat b") auto
    moreover have "be_val (take (Suc k) (cells n)) < 256 ^ Suc k"
      using be_val_less [of "take (Suc k) (cells n)"] Suc.prems(1) by (simp add: min_absorb2)
    ultimately have "nbytes (be_val (take (Suc k) (cells n))) = Suc k" by (rule nbytes_eqI)
    then show "ok (ret (n, Suc k)) Q" using Suc.prems by (intro ok_ret) auto
  qed (use n in auto)
qed

lemma ok_factor_words: "Q (f + (z + 30) div 31) \<Longrightarrow> ok (factor_words (int z) f) Q"
proof (induction z arbitrary: f rule: less_induct)
  case (less z)
  show ?case
  proof (cases "0 < z")
    case True
    have "ok (factor_words (int z - 31) (f + 1)) Q"
    proof (cases "31 \<le> z")
      case True
      then have e: "int z - 31 = int (z - 31)" "f + 1 + (z - 31 + 30) div 31 = f + (z + 30) div 31" by (simp_all add: div_if)
      show ?thesis unfolding e(1) by (rule less.IH) (use True in simp, unfold e(2), rule less.prems)
    next
      case False
      then have "int z - 31 \<le> 0" "(z + 30) div 31 = 1" using \<open>0 < z\<close> by (auto simp: div_if)
      then show ?thesis using less.prems by (subst factor_words.simps) (auto intro!: ok_branch ok_ret)
    qed
    then show ?thesis using True by (subst factor_words.simps) (auto intro!: ok_branch)
  next
    case False
    then show ?thesis using less.prems by (subst factor_words.simps) (auto intro!: ok_branch ok_ret)
  qed
qed

lemma bits31_enc31: "unat h = enc31 b \<Longrightarrow> bits31 h = b"
proof -
  assume h: "unat h = enc31 b"
  show ?thesis
  proof (cases b)
    case 0
    then show ?thesis using h by (simp add: enc31_def bits31_def)
  next
    case (Suc k)
    have "k mod 31 < 31" by simp
    then have "(32 * (k div 31) + Suc (k mod 31)) div 32 = k div 31" "(32 * (k div 31) + Suc (k mod 31)) mod 32 = Suc (k mod 31)"
      by simp_all
    then show ?thesis using h Suc mult_div_mod_eq [of 31 k] by (simp add: enc31_def bits31_def)
  qed
qed

text \<open>A decoded number is an integer under its own header.\<close>

lemma ok_decode_number:
  assumes len: "len \<le> alen src" "len < 500000000" and sz: "8 * len + 31 \<le> 31 * alen x"
    and Q: "\<And>x' h k. alen x' = alen x \<Longrightarrow> is_i31 h k x' \<Longrightarrow> k \<le> (8 * len + 30) div 31 \<Longrightarrow> val31 k x' = be_val (take len (cells src)) \<Longrightarrow>
      nbits (val31 k x') = bits31 h \<Longrightarrow> unat h = enc31 (nbits (val31 k x')) \<Longrightarrow> Q x'"
  shows "ok (br_i31_decode x src len) Q"
proof (rule ok_br_i31_decode [OF len sz refl])
  define n where "n = (8 * len + 30) div 31"
  define V where "V = be_val (take len (cells src))"
  have n: "n < 134217727" using len(2) unfolding n_def by linarith
  fix x' :: "u32 arr"
  assume a: "alen x' = alen x" and x: "digits31 (Suc 0) ((8 * len + 30) div 31) (cells x')" "i31v ((8 * len + 30) div 31) (cells x') = be_val (take len (cells src))"
    "unat (cells x' ! 0) = enc31 (nbits (be_val (take len (cells src))))"
  note x = x [folded n_def V_def]
  define h where "h = cells x' ! 0"
  define k where "k = words31 h"
  have "V < B31 ^ n" using wsum_lt [OF x(1)] x(2) by simp
  note w = words31_enc31 [OF x(3) this n, folded h_def k_def]
  obtain r where r: "n = k + r" using w(1) le_Suc_ex by blast
  have "i31v n (cells x') = i31v k (cells x') + B31 ^ k * wsum (Suc 0 + k) r (cells x')" by (subst r, rule wsum_split)
  then have "i31v k (cells x') mod B31 ^ k = V mod B31 ^ k" by (simp add: x(2))
  then have v: "i31v k (cells x') = V" using w(2) wsum_lt [OF digits31_prefix [OF x(1) w(1)]] by simp
  have b: "bits31 h = nbits V" using x(3) by (intro bits31_enc31) (simp add: h_def)
  have nb: "nbits V \<le> 31 * n" using \<open>V < B31 ^ n\<close> by (simp add: nbits_le_iff power_mult)
  have "enc31 (nbits V) \<le> 32 * n"
  proof (cases "nbits V")
    case (Suc j)
    then have "j div 31 < n" using nb by linarith
    moreover have "j mod 31 < 31" by simp
    ultimately show ?thesis using Suc by (simp add: enc31_def)
  qed (simp add: enc31_def)
  then have "unat h + 63 < 4294967296" using x(3) n unfolding h_def by linarith
  then have "hdr31 h k" by (simp add: hdr31_def k_def words31_def unat_drop_bit unat_word_ariths)
  then have "is_i31 h k x'" using digits31_prefix [OF x(1) w(1)] by (simp add: is_i31_def h_def)
  then show "Q x'" using a w(1) v b x(3) by (intro Q) (auto simp: n_def V_def h_def)
qed

lemma ninv31_and_1: "br_i31_ninv31 x AND 1 = of_bool (odd (unat x))"
proof (cases "odd (unat x)")
  case True
  have "odd (unat (br_i31_ninv31 x))"
  proof
    assume "even (unat (br_i31_ninv31 x))"
    then have "odd (unat (br_i31_ninv31 x) * unat x + 1)" by simp
    moreover have "even ((unat (br_i31_ninv31 x) * unat x + 1) mod B31)" using ninv31_correct(1) [OF True] by simp
    ultimately show False by (simp add: even_iff_mod_2_eq_zero mod_mod_cancel)
  qed
  then show ?thesis using True by (simp add: odd_and_1)
next
  case False
  then have "unat (x AND 1) = 0" by (simp add: and_one_eq unat_mod even_iff_mod_2_eq_zero)
  then have "x AND 1 = 0" by (simp add: unat_eq_zero)
  then show ?thesis using False by (simp add: br_i31_ninv31_def)
qed

text \<open>Encoding leaves no array, whatever the words of the integer are.\<close>

lemma ok_encode_loop_safe:
  "n < alen x \<Longrightarrow> len \<le> alen d \<Longrightarrow> 0 < k \<Longrightarrow> (\<And>d'. alen d' = alen d \<Longrightarrow> Q d') \<Longrightarrow> ok (encode_loop x n d len k acc l) Q"
proof (induction x n d len k acc l rule: encode_loop.induct)
  case (1 x n d len k acc l)
  show ?case
  proof (subst encode_loop.simps, rule ok_branch)
    assume len: "len \<noteq> 0"
    have w: "ok (branch (k \<le> n) (ld x k) (ret 0)) P" if "\<And>v. P v" for P
      using "1.prems"(1) that by (intro wp) auto
    show "ok (do { w \<leftarrow> branch (k \<le> n) (ld x k) (ret 0);
       branch (l = 0) (encode_loop x n d len (k + 1) w 31)
         (do { let z = acc OR shl w l; let acc_len = l - 1; let acc = shr w (31 - acc_len);
           branch (4 \<le> len)
             (do { dst \<leftarrow> st_bytes d (len - 4) (br_enc32be z); encode_loop x n dst (len - 4) (k + 1) acc acc_len })
             (encode_tail d len z) }) }) Q"
    proof (rule ok_bind, rule w, unfold Let_def, rule ok_branch)
      show "ok (encode_loop x n d len (k + 1) v 31) Q" if "l = 0" for v
        using len that "1.prems" by (intro "1.IH"(1)) auto
      fix v assume l: "l \<noteq> 0"
      show "ok (branch (4 \<le> len) (do { dst \<leftarrow> st_bytes d (len - 4) (br_enc32be (acc OR shl v l));
          encode_loop x n dst (len - 4) (k + 1) (shr v (31 - (l - 1))) (l - 1) }) (encode_tail d len (acc OR shl v l))) Q"
      proof (rule ok_branch, rule ok_bind, rule ok_st_bytes)
        assume l4: "4 \<le> len"
        then show "len - 4 + length (br_enc32be (acc OR shl v l)) \<le> alen d" using "1.prems"(2) by simp
        show "ok (encode_loop x n (d\<lparr>cells := splice (cells d) (len - 4) (br_enc32be (acc OR shl v l))\<rparr>) (len - 4) (k + 1) (shr v (31 - (l - 1))) (l - 1)) Q"
          using len l l4 "1.prems" by (intro "1.IH"(2)) auto
      qed (use len "1.prems" in \<open>auto intro!: ok_encode_tail\<close>)
    qed
  qed (use "1.prems" in \<open>auto intro: ok_ret\<close>)
qed

lemma ok_br_i31_encode_safe:
  assumes "words31 (cells x ! 0) < alen x" and "len \<le> alen d" and Q: "\<And>d'. alen d' = alen d \<Longrightarrow> Q d'"
  shows "ok (br_i31_encode d len x) Q"
proof -
  have "0 < alen x" using assms(1) by linarith
  then show ?thesis
    unfolding br_i31_encode_def Let_def
    by (intro ok_bind ok_ld ok_branch ok_memset ok_encode_loop_safe) (use assms in auto)
qed

section \<open>The public-key operation\<close>

lemma opt_on_decoded:
  assumes m: "is_i31 h k m" "nbits (val31 k m) = bits31 h" "0 < val31 k m" and a: "is_i31 h k a" "val31 k a < val31 k m"
    and e: "elen \<le> alen e" and t: "2 * mwlen31 k \<le> tlen" "tlen \<le> alen t"
    and Q: "\<And>r a' t'. cells a' ! 0 = h \<Longrightarrow> k < alen a' \<Longrightarrow> alen t' = alen t \<Longrightarrow> r = 1 \<Longrightarrow>
      (odd (val31 k m) \<Longrightarrow> 1 < val31 k m \<Longrightarrow> is_i31 h k a' \<and> alen a' = alen a \<and> val31 k a' = val31 k a ^ be_val (take elen (cells e)) mod val31 k m) \<Longrightarrow> Q (r, a', t')"
  shows "ok (br_i31_modpow_opt a e elen m (br_i31_ninv31 (cells m ! 1)) t tlen) Q"
proof (cases "odd (val31 k m) \<and> 1 < val31 k m")
  case True
  have k: "0 < k" using True by (intro gr0I) simp
  then obtain j where "k = Suc j" by (cases k) auto
  then have "odd (unat (cells m ! 1))" using True by (simp add: wsum_head)
  then have o: "odd31 h k m (br_i31_ninv31 (cells m ! 1))" using True m ninv31_correct(1) by (simp add: odd31_def modulus31_def)
  show ?thesis
    by (rule ok_br_i31_modpow_opt [OF o a e t(2)]) (use t(1) is_i31D(5) [OF a(1)] in \<open>auto intro!: Q simp: is_i31D(1) simp del: mult_Suc mult_Suc_right\<close>)
next
  case False
  have k: "0 < k" using m(3) by (intro gr0I) simp
  have s: "opt_safe k a e elen m t tlen"
    using is_i31D [OF m(1)] is_i31D [OF a(1)] m(1) k e t(2) by (auto simp: opt_safe_def is_i31_def)
  have p: "opt_pub a e m t a e m t" by (simp add: opt_pub_def pub_def)
  have h: "cells m ! 0 = h" by (rule is_i31D(1) [OF m(1)])
  show ?thesis
    by (rule ok_weaken [OF ct_imp_ok [OF ct_br_i31_modpow_opt [OF s p refl, where R = "\<lambda>(r, a', t') _. r = 1 \<and> cells a' ! 0 = h \<and> k < alen a' \<and> alen t' = alen t"]]])
      (use t(1) False h in \<open>auto intro!: Q simp: same31_def\<close>)
qed

lemma ok_br_rsa_i31_public:
  assumes tmp: "alen tmp = 1 + pub_TLEN" and n: "pk_nlen pk \<le> alen (pk_n pk)" and e: "pk_elen pk \<le> alen (pk_e pk)" and x: "xlen \<le> alen x"
    and N: "N = be_val (take (pk_nlen pk) (cells (pk_n pk)))" and X: "X = be_val (take xlen (cells x))"
    and bad: "N = 0 \<or> 512 < nbytes N \<or> xlen \<noteq> nbytes N \<Longrightarrow> Q (0, x)"
    and Q: "\<And>x'. 0 < N \<Longrightarrow> nbytes N \<le> 512 \<Longrightarrow> xlen = nbytes N \<Longrightarrow> alen x' = alen x \<Longrightarrow>
      (odd N \<Longrightarrow> 1 < N \<Longrightarrow> X < N \<Longrightarrow> be_val (take xlen (cells x')) = X ^ be_val (take (pk_elen pk) (cells (pk_e pk))) mod N) \<Longrightarrow>
      Q (of_bool (odd N \<and> X < N), x')"
  shows "ok (br_rsa_i31_public x xlen pk tmp) Q"
  unfolding br_rsa_i31_public_def
proof (rule ok_bind, rule ok_skip_zeros [OF n], unfold N [symmetric] prod.case, rule ok_branch)
  fix n' l
  assume l: "l = nbytes N" and "l = 0 \<or> BR_MAX_RSA_SIZE div 8 < l \<or> xlen \<noteq> l"
  then have "N = 0 \<or> 512 < nbytes N \<or> xlen \<noteq> nbytes N"
    using nbits_le_iff [of N 0] by (auto simp: nbytes_def BR_MAX_RSA_SIZE_def)
  then show "ok (ret (0, x)) Q" using bad by (intro ok_ret)
next
  fix n' :: "u8 arr" and l
  assume n': "l \<le> alen n'" "be_val (take l (cells n')) = N" and l: "l = nbytes N"
    and good: "\<not> (l = 0 \<or> BR_MAX_RSA_SIZE div 8 < l \<or> xlen \<noteq> l)"
  then have l': "0 < l" "l \<le> 512" "xlen = l" by (auto simp: BR_MAX_RSA_SIZE_def)
  have N0: "0 < N" using l l'(1) by (intro gr0I) (simp add: nbytes_def)
  define w where "w = 1 + (8 * l + 30) div 31"
  define f where "f = w + w mod 2"
  have wf: "w \<le> f" "f \<le> 134" "even f"
  proof -
    have "w \<le> 134" using l'(2) unfolding w_def by linarith
    then show "w \<le> f" "f \<le> 134" "even f" unfolding f_def by presburger+
  qed
  have T: "pub_TLEN = 540" by (simp add: pub_TLEN_def BR_MAX_RSA_SIZE_def)
  let ?m = "tmp_area tmp f 0" and ?a = "tmp_area tmp f 1" and ?t = "\<lparr>blk = blk tmp + 2, cells = drop (2 * f) (cells tmp)\<rparr>"
  have lens: "alen ?m = f" "alen ?a = f" "alen ?t = 541 - 2 * f" using wf tmp T by (simp_all add: tmp_area_def)
  show "ok (do {
       fwlen \<leftarrow> factor_words (int l * 8) 1;
       let fwlen = fwlen + fwlen mod 2;
       let m = tmp_area tmp fwlen 0;
       let a = tmp_area tmp fwlen 1;
       let t = \<lparr>blk = blk tmp + 2, cells = drop (2 * fwlen) (cells tmp)\<rparr>;
       m \<leftarrow> br_i31_decode m n' l;
       m1 \<leftarrow> ld m 1;
       let m0i = br_i31_ninv31 m1;
       let r = m0i AND 1;
       (a, c) \<leftarrow> br_i31_decode_mod a x xlen m;
       let r = r AND c;
       (_, a, t) \<leftarrow> br_i31_modpow_opt a (pk_e pk) (pk_elen pk) m m0i t (pub_TLEN - 2 * fwlen);
       x \<leftarrow> br_i31_encode x xlen a;
       ret (r, x) }) Q"
  proof (rule ok_bind, unfold mult.commute [of "int l" 8], rule ok_factor_words [of _ _ "8 * l", unfolded of_nat_mult of_nat_numeral], unfold w_def [symmetric] Let_def f_def [symmetric],
      rule ok_bind, rule ok_decode_number [OF n'(1)])
    show "l < 500000000" using l' by simp
    have "8 * l + 31 \<le> 31 * w" unfolding w_def by presburger
    then show "8 * l + 31 \<le> 31 * alen ?m" using wf(1) lens(1) by simp
    fix m h k
    assume m: "alen m = alen ?m" "is_i31 h k m" "k \<le> (8 * l + 30) div 31" "val31 k m = be_val (take l (cells n'))" "nbits (val31 k m) = bits31 h"
    note M = m(4) [unfolded n'(2)]
    have kf: "k < f" using m(3) wf(1) by (simp add: w_def)
    have k0: "0 < k" using M N0 by (intro gr0I) simp
    then have l1: "1 < alen m" using is_i31D(5) [OF m(2)] by simp
    have odd: "odd (unat (cells m ! 1)) \<longleftrightarrow> odd N"
      using k0 by (cases k) (auto simp: wsum_head simp flip: M)
    have t2: "2 * mwlen31 k \<le> pub_TLEN - 2 * f"
    proof -
      have z: "2 * z \<le> 540 - 2 * f" if "z \<le> f" for z using that wf(2) by linarith
      show ?thesis unfolding T by (rule z) (use kf wf(3) in presburger)
    qed
    show "ok (do {
       m1 \<leftarrow> ld m 1;
       (a, c) \<leftarrow> br_i31_decode_mod ?a x xlen m;
       (_, a, t) \<leftarrow> br_i31_modpow_opt a (pk_e pk) (pk_elen pk) m (br_i31_ninv31 m1) ?t (pub_TLEN - 2 * f);
       x \<leftarrow> br_i31_encode x xlen a;
       ret ((br_i31_ninv31 m1 AND 1) AND c, x) }) Q"
    proof (rule ok_bind, rule ok_ld [OF l1], rule ok_bind, rule ok_br_i31_decode_mod [OF m(2) x], use lens kf in simp, unfold prod.case X [symmetric] M, rule ok_bind)
      fix a and c :: u32
      assume a: "alen a = alen ?a" "is_i31 h k a" and c: "c = of_bool (X < N)" "val31 k a = (if X < N then X else 0)"
      have r: "(br_i31_ninv31 (cells m ! 1) AND 1) AND c = of_bool (odd N \<and> X < N)"
        unfolding ninv31_and_1 odd c by simp
      show "ok (br_i31_modpow_opt a (pk_e pk) (pk_elen pk) m (br_i31_ninv31 (cells m ! 1)) ?t (pub_TLEN - 2 * f))
        (\<lambda>z. ok (case z of (_, a, t) \<Rightarrow> do { x \<leftarrow> br_i31_encode x xlen a; ret ((br_i31_ninv31 (cells m ! 1) AND 1) AND c, x) }) Q)"
      proof (rule opt_on_decoded [OF m(2,5) _ a(2) _ e t2], unfold M r prod.case)
        show "0 < N" by (rule N0)
        show "val31 k a < N" using c(2) N0 by simp
        show "pub_TLEN - 2 * f \<le> alen ?t" using lens(3) T by simp
        fix a' :: "u32 arr"
        assume a': "cells a' ! 0 = h" "k < alen a'"
          "odd N \<Longrightarrow> 1 < N \<Longrightarrow> is_i31 h k a' \<and> alen a' = alen a \<and> val31 k a' = val31 k a ^ be_val (take (pk_elen pk) (cells (pk_e pk))) mod N"
        have wk: "words31 h = k" by (rule is_i31D(2) [OF m(2)])
        show "ok (do { x \<leftarrow> br_i31_encode x xlen a'; ret (of_bool (odd N \<and> X < N), x) }) Q"
        proof (cases "odd N \<and> 1 < N \<and> X < N")
          case True
          have v: "is_i31 h k a'" "val31 k a' = X ^ be_val (take (pk_elen pk) (cells (pk_e pk))) mod N" using a'(3) True c(2) by auto
          have "N < 256 ^ xlen" using be_val_less [of "take l (cells n')"] n' l'(3) by (simp add: min_absorb2)
          moreover have "val31 k a' < N" unfolding v(2) using True by (intro mod_less_divisor) simp
          ultimately have "val31 k a' mod 256 ^ xlen = val31 k a'" by simp
          then show ?thesis
            by (intro ok_bind ok_br_i31_encode [OF is_i31D(4) [OF v(1)] _ x] ok_ret Q)
              (use v a' wk N0 l l' in auto)
        next
          case False
          show ?thesis
            by (intro ok_bind ok_br_i31_encode_safe [OF _ x] ok_ret Q) (use a' wk False N0 l l' in auto)
        qed
      qed
    qed
  qed
qed

section \<open>Properties\<close>

abbreviation key_N :: "br_rsa_public_key \<Rightarrow> nat" where
  "key_N pk \<equiv> be_val (take (pk_nlen pk) (cells (pk_n pk)))"

abbreviation key_E :: "br_rsa_public_key \<Rightarrow> nat" where
  "key_E pk \<equiv> be_val (take (pk_elen pk) (cells (pk_e pk)))"

text \<open>What holds of the pointers and lengths in a public key, and of the array on the stack.\<close>

definition pub_args :: "br_rsa_public_key \<Rightarrow> u32 arr \<Rightarrow> bool" where
  "pub_args pk tmp \<longleftrightarrow> pk_nlen pk \<le> alen (pk_n pk) \<and> pk_elen pk \<le> alen (pk_e pk) \<and> alen tmp = 1 + pub_TLEN"

text \<open>C4. \<^bold>\<open>The public-key operation of RSA.\<close> For any public key, byte string and stack contents \<open>br_rsa_i31_public\<close> stays in its arrays. It refuses, with
  the string untouched, a modulus that is zero or longer than 4096 bits and a string that is not as long as the modulus without its leading zero bytes;
  otherwise it returns 1 exactly when the modulus is odd and the number in the string below it, and the string is then replaced by
  the number's power by the public exponent, modulo the modulus.\<close>

theorem br_rsa_i31_public_correct:
  assumes "pub_args pk tmp" and "xlen \<le> alen x"
  shows "ok (br_rsa_i31_public x xlen pk tmp) (\<lambda>(r, x'). let N = key_N pk; X = be_val (take xlen (cells x)) in
    if N = 0 \<or> 512 < nbytes N \<or> xlen \<noteq> nbytes N then r = 0 \<and> x' = x
    else r = of_bool (odd N \<and> X < N) \<and> alen x' = alen x \<and>
      (odd N \<and> 1 < N \<and> X < N \<longrightarrow> be_val (take xlen (cells x')) = X ^ key_E pk mod N))"
proof -
  have a: "alen tmp = 1 + pub_TLEN" "pk_nlen pk \<le> alen (pk_n pk)" "pk_elen pk \<le> alen (pk_e pk)" using assms(1) by (auto simp: pub_args_def)
  show ?thesis unfolding Let_def by (rule ok_br_rsa_i31_public [OF a assms(2) refl refl]) auto
qed

abbreviation ex_pk :: br_rsa_public_key where
  "ex_pk \<equiv> \<lparr>pk_n = \<lparr>blk = 10, cells = [0, 143]\<rparr>, pk_nlen = 2, pk_e = \<lparr>blk = 11, cells = [7]\<rparr>, pk_elen = 1\<rparr>"

abbreviation ex_tmp :: "u32 arr" where
  "ex_tmp \<equiv> \<lparr>blk = 20, cells = replicate 541 0xDEADBEEF\<rparr>"

lemma ex_pub: "pub_args ex_pk ex_tmp"
  by (simp add: pub_args_def pub_TLEN_def BR_MAX_RSA_SIZE_def)

lemma nbytes_1: "0 < v \<Longrightarrow> v < 256 \<Longrightarrow> nbytes v = 1"
  using nbytes_eqI [of 0 v] by simp

theorem br_rsa_i31_public_correct_witness:
  "ok (br_rsa_i31_public \<lparr>blk = 12, cells = [42, 5]\<rparr> 1 ex_pk ex_tmp) (\<lambda>(r, x'). r = 1 \<and> be_val (take 1 (cells x')) = 81)"
  by (rule ok_weaken [OF br_rsa_i31_public_correct [OF ex_pub]])
    (auto simp: be_val_Cons nbytes_1 Let_def)

lemma ok_br_rsa_i31_pkcs1_vrfy:
  assumes "pub_args pk tmp" and "alen sig = 512" and "xlen \<le> alen x" and "oid_ok oid" and "hl < 2 ^ 60"
  shows "ok (br_rsa_i31_pkcs1_vrfy x xlen oid hl pk sig tmp) (\<lambda>res. \<forall>h. res = Some h \<longleftrightarrow>
    xlen = nbytes (key_N pk) \<and> xlen \<le> 512 \<and> odd (key_N pk) \<and> be_val (take xlen (cells x)) < key_N pk \<and> length h = hl \<and>
    (\<exists>k\<ge>8. \<exists>null. length (pkcs1_encoding oid null k h) = xlen \<and>
       be_val (pkcs1_encoding oid null k h) = be_val (take xlen (cells x)) ^ key_E pk mod key_N pk))" (is "ok _ ?Q")
proof -
  let ?N = "key_N pk" and ?X = "be_val (take xlen (cells x))"
  have a: "alen tmp = 1 + pub_TLEN" "pk_nlen pk \<le> alen (pk_n pk)" "pk_elen pk \<le> alen (pk_e pk)" using assms(1) by (auto simp: pub_args_def)
  show ?thesis
    unfolding br_rsa_i31_pkcs1_vrfy_def
  proof (rule ok_branch, rule_tac [2] ok_bind)
    show "ok (ret None) ?Q" if "alen sig < xlen" using that assms(2) by (intro ok_ret) auto
    assume le: "\<not> alen sig < xlen"
    let ?s = "sig\<lparr>cells := splice (cells sig) 0 (take xlen (drop 0 (cells x)))\<rparr>"
    have sl: "alen ?s = 512" "xlen \<le> alen ?s" using le assms(2,3) by simp_all
    have X: "?X = be_val (take xlen (cells ?s))" using assms(3) by (simp add: splice_def min_absorb2)
    show "ok (memcpy sig 0 x 0 xlen) (\<lambda>sig. ok (do { (r, sig) \<leftarrow> br_rsa_i31_public sig xlen pk tmp;
        branch (r = 0) (ret None) (ret (br_rsa_pkcs1_sig_unpad (take xlen (cells sig)) oid hl)) }) ?Q)"
    proof (rule ok_memcpy, use le in simp, use assms(3) in simp, rule ok_bind,
        rule ok_br_rsa_i31_public [OF a sl(2) refl X], unfold prod.case)
      assume "?N = 0 \<or> 512 < nbytes ?N \<or> xlen \<noteq> nbytes ?N"
      then show "ok (branch (0 = (0 :: u32)) (ret None) (ret (br_rsa_pkcs1_sig_unpad (take xlen (cells ?s)) oid hl))) ?Q"
        by (intro ok_branch ok_ret) auto
    next
      fix s' assume s': "nbytes ?N \<le> 512" "xlen = nbytes ?N" "alen s' = alen ?s"
        "odd ?N \<Longrightarrow> 1 < ?N \<Longrightarrow> ?X < ?N \<Longrightarrow> be_val (take xlen (cells s')) = ?X ^ key_E pk mod ?N"
      let ?M = "take xlen (cells s')"
      have lM: "length ?M = xlen" "xlen \<le> 512" using s' sl by (simp_all add: min_absorb2)
      note ex = sig_unpad_exact [OF assms(4), of ?M hl, OF _ assms(5)]
      show "ok (branch ((of_bool (odd ?N \<and> ?X < ?N) :: u32) = 0) (ret None) (ret (br_rsa_pkcs1_sig_unpad ?M oid hl))) ?Q"
      proof (cases "odd ?N \<and> ?X < ?N")
        case True
        show ?thesis
        proof (cases "?N = 1")
          case N1: True
          then have "xlen = 1" using s'(2) nbytes_1 [of 1] by simp
          moreover have "8 \<le> k \<Longrightarrow> length (pkcs1_encoding oid null k h) \<noteq> 1" for k null h by (simp add: pkcs1_encoding_def)
          ultimately show ?thesis using True lM by (intro ok_branch ok_ret) (auto simp: br_rsa_pkcs1_sig_unpad_def)
        next
          case False
          with True have N: "1 < ?N" by (metis even_zero less_one nat_neq_iff)
          have v: "be_val ?M = ?X ^ key_E pk mod ?N" using s'(4) True N by simp
          have eq: "?M = b \<longleftrightarrow> length b = xlen \<and> be_val b = ?X ^ key_E pk mod ?N" for b
            using be_val_inj [of ?M b] lM(1) v by metis
          have "br_rsa_pkcs1_sig_unpad ?M oid hl = Some h \<longleftrightarrow> length h = hl \<and> (\<exists>k\<ge>8. \<exists>null. length (pkcs1_encoding oid null k h) = xlen \<and>
            be_val (pkcs1_encoding oid null k h) = ?X ^ key_E pk mod ?N)" for h
            unfolding eq [symmetric] by (rule ex) (use lM in simp)
          then show ?thesis using True s'(1,2) by (intro ok_branch ok_ret) auto
        qed
      next
        case False
        then show ?thesis by (intro ok_branch ok_ret) auto
      qed
    qed
  qed
qed

text \<open>C5. \<^bold>\<open>Signature verification is exact.\<close> \<open>br_rsa_i31_pkcs1_vrfy\<close> returns a hash value if and only if the signature is as long as the modulus,
  of at most 512 bytes, stands for a number below the odd modulus, and the power of that number by the public exponent is, in that many bytes, one of
  the two PKCS#1 encodings of the hash value with at least eight bytes of padding: no other signature verifies.\<close>

theorem br_rsa_i31_pkcs1_vrfy_exact:
  assumes "pub_args pk tmp" and "alen sig = 512" and "xlen \<le> alen x" and "oid_ok oid" and "hl < 2 ^ 60"
  shows "ok (br_rsa_i31_pkcs1_vrfy x xlen oid hl pk sig tmp) (\<lambda>res. \<forall>h. res = Some h \<longleftrightarrow>
    xlen = nbytes (key_N pk) \<and> xlen \<le> 512 \<and> odd (key_N pk) \<and> be_val (take xlen (cells x)) < key_N pk \<and> length h = hl \<and>
    (\<exists>k\<ge>8. \<exists>null. length (pkcs1_encoding oid null k h) = xlen \<and>
       be_val (pkcs1_encoding oid null k h) = be_val (take xlen (cells x)) ^ key_E pk mod key_N pk))"
  by (rule ok_br_rsa_i31_pkcs1_vrfy [OF assms])

text \<open>A key with two factors of 48 bits and the public exponent 3, its modulus with a leading zero byte.\<close>

abbreviation ex_pk3 :: br_rsa_public_key where
  "ex_pk3 \<equiv> \<lparr>pk_n = \<lparr>blk = 10, cells = [0, 179, 152, 30, 144, 62, 144, 66, 116, 248, 112, 1, 217]\<rparr>, pk_nlen = 13,
    pk_e = \<lparr>blk = 11, cells = [3]\<rparr>, pk_elen = 1\<rparr>"

lemma ex_pk3_args: "pub_args ex_pk3 ex_tmp"
  by (simp add: pub_args_def pub_TLEN_def BR_MAX_RSA_SIZE_def)

lemma ex_pk3_N: "key_N ex_pk3 = 55581717814435999936972587481" "nbytes 55581717814435999936972587481 = 12"
  using nbytes_eqI [of 11 55581717814435999936972587481] by (simp_all add: be_val_Cons)

lemma ex_sig: "be_val [143, 146, 97, 246, 31, 18, 248, 48, 125, 23, 240, 244] = 44433322183803086027183616244"
  by (simp add: be_val_Cons)

theorem br_rsa_i31_pkcs1_vrfy_exact_witness:
  "ok (br_rsa_i31_pkcs1_vrfy \<lparr>blk = 12, cells = [143, 146, 97, 246, 31, 18, 248, 48, 125, 23, 240, 244]\<rparr> 12 None 1 ex_pk3
    \<lparr>blk = 13, cells = replicate 512 0\<rparr> ex_tmp) (\<lambda>res. res = Some [0x42])"
proof -
  have E: "be_val (pkcs1_encoding None False 8 [0x42]) = 2417851639229258349346882"
  proof -
    have "replicate 8 x = [x, x, x, x, x, x, x, x]" for x :: u8 by (simp add: eval_nat_numeral)
    then show ?thesis by (simp add: pkcs1_encoding_def be_val_Cons)
  qed
  have P: "44433322183803086027183616244 ^ 3 mod 55581717814435999936972587481 = (2417851639229258349346882 :: nat)"
    by (simp add: power3_eq_cube)
  have "\<exists>k\<ge>8. \<exists>null. length (pkcs1_encoding None null k [0x42]) = 12 \<and> be_val (pkcs1_encoding None null k [0x42]) = 2417851639229258349346882"
    by (intro exI [of _ 8] exI [of _ False] conjI E) (simp_all add: pkcs1_encoding_def)
  moreover have "key_E ex_pk3 = 3" "take 12 (cells \<lparr>blk = 12, cells = [143, 146, 97, 246, 31, 18, 248, 48, 125, 23, 240, 244]\<rparr>) =
      [143, 146, 97, 246, 31, 18, 248, 48, 125, 23, 240, 244 :: u8]" by (simp_all add: be_val_Cons)
  moreover have "odd (55581717814435999936972587481 :: nat)" by simp
  ultimately show ?thesis
    by (intro ok_weaken [OF br_rsa_i31_pkcs1_vrfy_exact [OF ex_pk3_args]], simp, simp, simp add: oid_ok_def, simp, drule_tac x = "[0x42]" in spec, elim iffD2)
      (simp only: ex_pk3_N ex_sig P, simp)
qed

end
