(* ===== verification/Rsa_Priv.thy ===== *)
theory Rsa_Priv
  imports I31_Wide Rsa_I31
begin

text \<open>
  The private-key operation of RSA, \<^verbatim>\<open>src/rsa/rsa_i31_priv.c\<close>, with the Chinese remainder theorem, and what is built on it: signatures
  (\<^verbatim>\<open>rsa_i31_pkcs1_sign.c\<close>) and OAEP decryption (\<^verbatim>\<open>rsa_i31_oaep_decrypt.c\<close>). All integers live in the array \<open>tmp\<close> on the stack, an
  argument here, at multiples of \<open>fwlen\<close> words, and the places are used again: \<open>area\<close> is the part of the array that a pointer
  into it may touch, and \<open>lay\<close> writes such a part back.
\<close>

section \<open>Operations\<close>

record br_rsa_private_key =
  sk_n_bitlen :: u32
  sk_p :: "u8 arr"
  sk_plen :: nat
  sk_q :: "u8 arr"
  sk_qlen :: nat
  sk_dp :: "u8 arr"
  sk_dplen :: nat
  sk_dq :: "u8 arr"
  sk_dqlen :: nat
  sk_iq :: "u8 arr"
  sk_iqlen :: nat

definition BR_MAX_RSA_FACTOR :: nat where
  "BR_MAX_RSA_FACTOR = (BR_MAX_RSA_SIZE + 64) div 2"

definition priv_TLEN :: nat where
  "priv_TLEN = 8 * (2 + (BR_MAX_RSA_FACTOR + 30) div 31)"

definition area :: "u32 arr \<Rightarrow> nat \<Rightarrow> nat \<Rightarrow> u32 arr" where
  "area tmp off l = \<lparr>blk = blk tmp + off, cells = take l (drop off (cells tmp))\<rparr>"

definition lay :: "u32 arr \<Rightarrow> nat \<Rightarrow> u32 arr \<Rightarrow> u32 arr" where
  "lay tmp off a = tmp\<lparr>cells := splice (cells tmp) off (cells a)\<rparr>"

text \<open>The factors are decoded, their product is written as bytes and compared with the source; \<open>p\<close> moves to its own place.\<close>

definition priv_modulus :: "u8 arr \<Rightarrow> nat \<Rightarrow> u8 arr \<Rightarrow> nat \<Rightarrow> u8 arr \<Rightarrow> nat \<Rightarrow> nat \<Rightarrow> u32 arr \<Rightarrow> (u32 \<times> u32 arr) cm" where
  "priv_modulus x xlen p plen q qlen fwlen tmp = do {
     mq \<leftarrow> br_i31_decode (area tmp 0 fwlen) q qlen;
     let tmp = lay tmp 0 mq;
     t1 \<leftarrow> br_i31_decode (area tmp fwlen fwlen) p plen;
     let tmp = lay tmp fwlen t1;
     mq0 \<leftarrow> ld mq 0;
     t2 \<leftarrow> br_i31_zero (area tmp (2 * fwlen) (2 * fwlen)) mq0;
     t2 \<leftarrow> br_i31_mulacc t2 mq t1;
     let tmp = lay tmp (2 * fwlen) t2;
     t3 \<leftarrow> br_i31_encode (as_bytes (area tmp (4 * fwlen) (1 + priv_TLEN - 4 * fwlen))) xlen t2;
     let tmp = lay tmp (4 * fwlen) (as_words t3);
     r \<leftarrow> for_down xlen (\<lambda>u r. do {
       b \<leftarrow> ld t3 u;
       let wn = ucast b;
       b \<leftarrow> ld x u;
       let wx = ucast b;
       ret (shr (wx - (wn + r)) 8 AND 1) }) 0;
     mp \<leftarrow> memcpy32 (area tmp (2 * fwlen) fwlen) t1 (fwlen * 4);
     ret (r, lay tmp (2 * fwlen) mp) }"

text \<open>\<open>s = x^e mod m\<close>, with \<open>m\<close>, \<open>s\<close> and the temporaries at places \<open>im\<close>, \<open>is\<close> and \<open>it\<close>.\<close>

definition priv_power :: "u8 arr \<Rightarrow> nat \<Rightarrow> u8 arr \<Rightarrow> nat \<Rightarrow> nat \<Rightarrow> nat \<Rightarrow> nat \<Rightarrow> nat \<Rightarrow> u32 arr \<Rightarrow> (u32 \<times> u32 \<times> u32 arr) cm" where
  "priv_power x xlen e elen im is it fwlen tmp = do {
     let m = area tmp (im * fwlen) fwlen;
     m1 \<leftarrow> ld m 1;
     let m0i = br_i31_ninv31 m1;
     s \<leftarrow> br_i31_decode_reduce (area tmp (is * fwlen) fwlen) x xlen m;
     let tmp = lay tmp (is * fwlen) s;
     (c, s, t) \<leftarrow> br_i31_modpow_opt s e elen m m0i (area tmp (it * fwlen) (1 + priv_TLEN - it * fwlen)) (priv_TLEN - it * fwlen);
     ret (m0i, c, lay (lay tmp (is * fwlen) s) (it * fwlen) t) }"

text \<open>\<open>h = (s1 - s2) * iq mod p\<close>, then \<open>s2 + q * h\<close>.\<close>

definition priv_combine :: "u8 arr \<Rightarrow> nat \<Rightarrow> u8 arr \<Rightarrow> nat \<Rightarrow> u32 \<Rightarrow> nat \<Rightarrow> u32 arr \<Rightarrow> u8 arr cm" where
  "priv_combine x xlen iq iqlen p0i fwlen tmp = do {
     let mq = area tmp 0 fwlen;
     let mp = area tmp (2 * fwlen) fwlen;
     t2 \<leftarrow> br_i31_reduce (area tmp (5 * fwlen) fwlen) (area tmp fwlen fwlen) mp;
     (s1, c) \<leftarrow> br_i31_sub (area tmp (3 * fwlen) fwlen) t2 1;
     (s1, _) \<leftarrow> br_i31_add s1 mp c;
     s1 \<leftarrow> br_i31_to_monty s1 mp;
     t1 \<leftarrow> br_i31_decode_reduce (area tmp (4 * fwlen) fwlen) iq iqlen mp;
     t2 \<leftarrow> br_i31_montymul t2 s1 t1 mp p0i;
     let tmp = lay (lay (lay tmp (3 * fwlen) s1) (4 * fwlen) t1) (5 * fwlen) t2;
     t3 \<leftarrow> br_i31_mulacc (area tmp fwlen (2 * fwlen)) mq t2;
     br_i31_encode x xlen t3 }"

definition br_rsa_i31_private :: "u8 arr \<Rightarrow> br_rsa_private_key \<Rightarrow> u32 arr \<Rightarrow> (u32 \<times> u8 arr) cm" where
  "br_rsa_i31_private x sk tmp = do {
     (p, plen) \<leftarrow> skip_zeros (sk_p sk) (sk_plen sk);
     (q, qlen) \<leftarrow> skip_zeros (sk_q sk) (sk_qlen sk);
     fwlen \<leftarrow> factor_words (int (if qlen < plen then plen else qlen) * 8) 1;
     let fwlen = fwlen + fwlen mod 2;
     branch (priv_TLEN < 6 * fwlen) (ret (0, x)) (do {
       let xlen = unat (shr (sk_n_bitlen sk + 7) 3);
       (r, tmp) \<leftarrow> priv_modulus x xlen p plen q qlen fwlen tmp;
       (q0i, c, tmp) \<leftarrow> priv_power x xlen (sk_dq sk) (sk_dqlen sk) 0 1 3 fwlen tmp;
       let r = r AND c;
       (p0i, c, tmp) \<leftarrow> priv_power x xlen (sk_dp sk) (sk_dplen sk) 2 3 4 fwlen tmp;
       let r = r AND c;
       x \<leftarrow> priv_combine x xlen (sk_iq sk) (sk_iqlen sk) p0i fwlen tmp;
       ret ((p0i AND q0i) AND r, x) }) }"

definition br_rsa_i31_pkcs1_sign :: "u8 list option \<Rightarrow> u8 list \<Rightarrow> br_rsa_private_key \<Rightarrow> u8 arr \<Rightarrow> u32 arr \<Rightarrow> (u32 \<times> u8 arr) cm" where
  "br_rsa_i31_pkcs1_sign hash_oid hash sk x tmp =
     (case br_rsa_pkcs1_sig_pad hash_oid hash (sk_n_bitlen sk) of
        None \<Rightarrow> ret (0, x)
      | Some em \<Rightarrow> br_rsa_i31_private (x\<lparr>cells := splice (cells x) 0 em\<rparr>) sk tmp)"

text \<open>The result is the return value, the buffer and the length.\<close>

definition br_rsa_i31_oaep_decrypt :: "'c br_hash_class \<Rightarrow> u8 list \<Rightarrow> br_rsa_private_key \<Rightarrow> u8 arr \<Rightarrow> nat \<Rightarrow> u32 arr \<Rightarrow> (u32 \<times> u8 list \<times> nat) cm" where
  "br_rsa_i31_oaep_decrypt dig label sk data len tmp =
     branch (len \<noteq> unat (shr (sk_n_bitlen sk + 7) 3)) (ret (0, cells data, len)) (do {
       (r, data) \<leftarrow> br_rsa_i31_private data sk tmp;
       let (r', buf, len) = br_rsa_oaep_unpad dig label (take len (cells data));
       ret (r AND r', buf @ drop (length buf) (cells data), len) })"

section \<open>Places in the array\<close>

lemma alen_area [simp]: "off + l \<le> alen tmp \<Longrightarrow> alen (area tmp off l) = l"
  by (simp add: area_def)

lemma alen_lay [simp]: "off + alen a \<le> alen tmp \<Longrightarrow> alen (lay tmp off a) = alen tmp"
  by (simp add: lay_def)

lemma area_lay: "off + alen a \<le> alen tmp \<Longrightarrow> alen a = l \<Longrightarrow> cells (area (lay tmp off a) off l) = cells a"
  by (simp add: area_def lay_def splice_def)

lemma area_lay_before: "off' + l \<le> off \<Longrightarrow> off \<le> alen tmp \<Longrightarrow> area (lay tmp off a) off' l = area tmp off' l"
  by (simp add: area_def lay_def splice_def take_drop min_absorb1)

lemma area_lay_after: "off + alen a \<le> off' \<Longrightarrow> off \<le> alen tmp \<Longrightarrow> area (lay tmp off a) off' l = area tmp off' l"
  by (simp add: area_def lay_def splice_def)

text \<open>A factor of the modulus at its place.\<close>

definition factor :: "u32 \<Rightarrow> nat \<Rightarrow> nat \<Rightarrow> u32 arr \<Rightarrow> bool" where
  "factor h n V a \<longleftrightarrow> modulus31 h n a \<and> val31 n a = V \<and> unat h = enc31 (nbits V)"

lemma factor_cells: "factor h n V a \<Longrightarrow> cells b = cells a \<Longrightarrow> factor h n V b"
  by (auto simp: factor_def modulus31_def is_i31_def)

lemma factorD:
  assumes "factor h n V a"
  shows "modulus31 h n a" "is_i31 h n a" "val31 n a = V" "bits31 h = nbits V" "n < alen a" "words31 h = n" "unat h \<le> 32 * n"
    "0 < V \<Longrightarrow> unat h mod 32 \<noteq> 0" "0 < V \<Longrightarrow> 0 < n" "hdr31 h n"
proof -
  show m: "modulus31 h n a" "is_i31 h n a" "val31 n a = V" "bits31 h = nbits V" using assms by (auto simp: factor_def modulus31_def)
  show "n < alen a" "words31 h = n" using is_i31D [OF m(2)] by auto
  show h: "hdr31 h n" using m(2) by (simp add: is_i31_def)
  then have "n = (unat h + 31) div 32" by (simp add: hdr31_def)
  then show "unat h \<le> 32 * n" by linarith
  show "0 < n" if "0 < V" using m(3) that by (intro gr0I) simp
  show "unat h mod 32 \<noteq> 0" if "0 < V"
  proof -
    have "\<not> nbits V \<le> 0" using that unfolding nbits_le_iff by simp
    then obtain k where k: "nbits V = Suc k" by (cases "nbits V") auto
    have "k mod 31 < 31" by simp
    then have "Suc (k mod 31) < 32" by linarith
    then have "(32 * (k div 31) + Suc (k mod 31)) mod 32 = Suc (k mod 31)" by simp
    then show ?thesis using assms k by (simp add: factor_def enc31_def)
  qed
qed

section \<open>The comparison with the modulus\<close>

lemma borrow_byte:
  assumes "unat (wx :: u32) < 256" and "unat (wn :: u32) < 256"
  shows "shr (wx - (wn + of_bool c)) 8 AND 1 = of_bool (unat wx < unat wn + of_bool c)"
proof -
  let ?s = "wn + of_bool c :: u32"
  have s: "unat ?s = unat wn + of_bool c" using assms(2) by (cases c) (simp_all add: unat_word_ariths)
  show ?thesis
  proof (cases "unat wx < unat ?s")
    case True
    have "unat (wx - ?s) = unat wx + 4294967296 - unat ?s" using True by (simp add: unat_sub32 word_le_nat_alt)
    moreover have "(unat wx + 4294967296 - unat ?s) div 256 = 16777215"
      by (intro div_nat_eqI) (use True assms s in \<open>cases c; simp\<close>)+
    ultimately have "unat (shr (wx - ?s) 8) = 16777215" by (simp add: unat_drop_bit)
    then have "odd (unat (shr (wx - ?s) 8))" by simp
    then have "shr (wx - ?s) 8 AND 1 = 1" by (rule odd_and_1)
    then show ?thesis using True s by simp
  next
    case False
    then have "unat (wx - ?s) < 256" using assms(1) by (simp add: unat_sub32 word_le_nat_alt)
    then have "unat (shr (wx - ?s) 8) = 0" by (simp add: unat_drop_bit)
    then have "shr (wx - ?s) 8 = 0" by (simp add: unat_eq_zero)
    then show ?thesis using False s by simp
  qed
qed

lemma ok_compare:
  assumes "len \<le> alen a" and "len \<le> alen x"
    and Q: "Q (of_bool (be_val (take len (cells x)) < be_val (take len (cells a))))"
  shows "ok (for_down len (\<lambda>u r. do {
       b \<leftarrow> ld a u;
       let wn = ucast b;
       b \<leftarrow> ld x u;
       let wx = ucast b;
       ret (shr (wx - (wn + r)) 8 AND 1) }) (0 :: u32)) Q"
proof (rule ok_for_down [where Inv = "\<lambda>j r. r = of_bool (be_val (drop j (take len (cells x))) < be_val (drop j (take len (cells a))))"])
  fix j and r :: u32
  let ?X = "drop (Suc j) (take len (cells x))" and ?A = "drop (Suc j) (take len (cells a))"
  assume j: "j < len" and r: "r = of_bool (be_val ?X < be_val ?A)"
  have d: "drop j (take len (cells x)) = cells x ! j # ?X" "drop j (take len (cells a)) = cells a ! j # ?A"
    using j assms by (simp_all add: Cons_nth_drop_Suc [symmetric])
  define K where "K = (256 :: nat) ^ (len - Suc j)"
  have l: "be_val ?X < K" "be_val ?A < K" "length ?X = len - Suc j" "length ?A = len - Suc j"
    using be_val_less [of ?X] be_val_less [of ?A] assms by (simp_all add: min_absorb2 K_def)
  have lt: "u * K + v < w * K + z \<longleftrightarrow> u < w + of_bool (v < z)" if "v < K" "z < K" for u v w z
  proof (cases u w rule: linorder_cases)
    case less
    then have "Suc u * K \<le> w * K" by (intro mult_le_mono1) simp
    then have "u * K + v < w * K + z" using that(1) by simp
    then show ?thesis using less by simp
  next
    case greater
    then have "Suc w * K \<le> u * K" by (intro mult_le_mono1) simp
    then have "\<not> u * K + v < w * K + z" using that(2) by simp
    then show ?thesis using greater by simp
  qed simp
  have "be_val (drop j (take len (cells x))) < be_val (drop j (take len (cells a))) \<longleftrightarrow>
      unat (cells x ! j) < unat (cells a ! j) + of_bool (be_val ?X < be_val ?A)"
    unfolding d be_val_Cons l(3,4) K_def [symmetric] by (rule lt [OF l(1,2)])
  then show "ok (do { b \<leftarrow> ld a j; let wn = ucast b; b \<leftarrow> ld x j; let wx = ucast b; ret (shr (wx - (wn + r)) 8 AND 1) })
      (\<lambda>r. r = of_bool (be_val (drop j (take len (cells x))) < be_val (drop j (take len (cells a)))))"
    unfolding r Let_def
    by (intro ok_bind ok_ld ok_ret) (use j assms borrow_byte [of "ucast (cells x ! j)" "ucast (cells a ! j)"] unat_lt8 in \<open>auto simp: unat_byte32\<close>)
qed (use Q assms in \<open>simp_all\<close>)

section \<open>The modulus\<close>

lemma priv_TLEN: "priv_TLEN = 560"
  by (simp add: priv_TLEN_def BR_MAX_RSA_FACTOR_def BR_MAX_RSA_SIZE_def)

lemma ok_decode_factor:
  assumes len: "len \<le> alen src" "(8 * len + 30) div 31 < alen x" "alen x < 1000" and V: "be_val (take len (cells src)) = V"
    and Q: "\<And>x' h n. alen x' = alen x \<Longrightarrow> n < alen x \<Longrightarrow> factor h n V x' \<Longrightarrow> Q x'"
  shows "ok (br_i31_decode x src len) Q"
proof (rule ok_decode_number [OF len(1)])
  show "len < 500000000" "8 * len + 31 \<le> 31 * alen x" using len(2,3) by linarith+
  fix x' :: "u32 arr" and h k
  assume "alen x' = alen x" "is_i31 h k x'" "k \<le> (8 * len + 30) div 31" "val31 k x' = be_val (take len (cells src))"
    "nbits (val31 k x') = bits31 h" "unat h = enc31 (nbits (val31 k x'))"
  then show "Q x'" using V len(2) by (intro Q [of x' k h]) (auto simp: factor_def modulus31_def)
qed

lemma nbits_product:
  assumes "factor hp np P a" and "factor hq nq Q b"
  shows "P * Q < 2 ^ (bits31 hp + bits31 hq)" "nbits (P * Q) \<le> 31 * (np + nq)"
proof -
  have "P < 2 ^ bits31 hp" "Q < 2 ^ bits31 hq" using factorD(4) assms by (metis nbits_le_iff order_refl)+
  then show lt: "P * Q < 2 ^ (bits31 hp + bits31 hq)" unfolding power_add by (intro mult_strict_mono) auto
  then have "nbits (P * Q) \<le> bits31 hp + bits31 hq" by (simp only: nbits_le_iff)
  also have "\<dots> \<le> 31 * np + 31 * nq" by (intro add_mono bits31_fit factorD(10) [OF assms(1)] factorD(10) [OF assms(2)])
  finally show "nbits (P * Q) \<le> 31 * (np + nq)" by (simp only: distrib_left)
qed

lemma hdr31_le: "hdr31 h n \<Longrightarrow> unat h \<le> 32 * n"
  unfolding hdr31_def by linarith

lemma ok_product_bytes:
  assumes p: "is_i31 hp np p" and q: "is_i31 hq nq q" and d: "digits31 (Suc 0) nq (cells d)" "np + nq < alen d"
    and n: "np < 1000" "nq < 1000" and V: "val31 nq d + val31 np p * val31 nq q < 2 ^ (bits31 hp + bits31 hq)"
    and R: "\<And>d'. alen d' = alen d \<Longrightarrow> words31 (cells d' ! 0) < alen d' \<Longrightarrow> digits31 (Suc 0) (words31 (cells d' ! 0)) (cells d') \<Longrightarrow>
      val31 (words31 (cells d' ! 0)) d' = val31 nq d + val31 np p * val31 nq q \<Longrightarrow> R d'"
  shows "ok (br_i31_mulacc d q p) R"
proof (rule ok_br_i31_mulacc [OF q p d(1)])
  have h: "hdr31 hp np" "hdr31 hq nq" using p q by (simp_all add: is_i31_def)
  have u: "unat hp \<le> 32 * 1000" "unat hq \<le> 32 * 1000" using hdr31_le [OF h(1)] hdr31_le [OF h(2)] n by linarith+
  show "nq + np < alen d" using d(2) by simp
  show "unat hq + unat hp + 64 < 4294967296" using u by linarith
  fix d' :: "u32 arr"
  assume a: "alen d' = alen d" "digits31 (Suc 0) (nq + np) (cells d')"
    "i31v (nq + np) (cells d') = i31v nq (cells d) + val31 nq q * val31 np p"
    "bits31 (cells d' ! 0) = bits31 hq + bits31 hp" "unat (cells d' ! 0) \<le> unat hq + unat hp + 1"
  have v: "i31v (nq + np) (cells d') = val31 nq d + val31 np p * val31 nq q" using a(3) by (simp only: mult.commute)
  have b: "bits31 (cells d' ! 0) \<le> 31 * (nq + np)" using a(4) bits31_fit [OF h(1)] bits31_fit [OF h(2)] by simp
  have s: "unat (cells d' ! 0) + 31 < 4294967296" using a(5) u by linarith
  note P = product_words [OF a(2) _ b s] and W = words31_bits31 [OF s b]
  have "i31v (nq + np) (cells d') < 2 ^ bits31 (cells d' ! 0)" unfolding v a(4) using V by (simp only: add.commute)
  note P = P [OF this]
  show "R d'" using P v W(1) a(1) d(2) by (intro R) auto
qed

lemma nbits_nbytes: "nbits v \<le> 8 * nbytes v"
proof -
  have "b \<le> 8 * ((b + 7) div 8)" for b :: nat by linarith
  then show ?thesis by (simp add: nbytes_def)
qed

lemma ok_priv_modulus:
  assumes t: "alen tmp = 561" and fw: "6 * fw \<le> 560"
    and p: "plen \<le> alen p" "(8 * plen + 30) div 31 < fw" "be_val (take plen (cells p)) = P"
    and q: "qlen \<le> alen q" "(8 * qlen + 30) div 31 < fw" "be_val (take qlen (cells q)) = Q"
    and x: "xlen = nbytes (P * Q)" "xlen \<le> alen x"
    and R: "\<And>tmp' hp np hq nq. alen tmp' = 561 \<Longrightarrow> np < fw \<Longrightarrow> nq < fw \<Longrightarrow> factor hq nq Q (area tmp' 0 fw) \<Longrightarrow>
      factor hp np P (area tmp' (2 * fw) fw) \<Longrightarrow> R (of_bool (be_val (take xlen (cells x)) < P * Q), tmp')"
  shows "ok (priv_modulus x xlen p plen q qlen fw tmp) R"
proof -
  define ft where "ft = 2 * fw"
  define ff where "ff = 4 * fw"
  have f: "fw < ft" "fw + fw \<le> ft" "ft + 2 * fw \<le> ff" "ff + fw \<le> 561" "ft + fw \<le> 561" "2 * fw \<le> 561" "8 * fw \<le> 4 * (561 - ff)"
    using fw p(2) unfolding ft_def ff_def by linarith+
  show ?thesis
    unfolding priv_modulus_def Let_def priv_TLEN ft_def [symmetric] ff_def [symmetric]
  proof (rule ok_bind, rule ok_decode_factor [OF q(1) _ _ q(3)])
    have a0: "alen (area tmp 0 fw) = fw" using f t by simp
    show "(8 * qlen + 30) div 31 < alen (area tmp 0 fw)" "alen (area tmp 0 fw) < 1000" using q(2) fw a0 by simp_all
    fix mq hq nq assume mq: "alen mq = alen (area tmp 0 fw)" "nq < alen (area tmp 0 fw)" "factor hq nq Q mq"
    note mq = mq [unfolded a0]
    let ?t0 = "lay tmp 0 mq"
    have t0: "alen ?t0 = 561" using f t mq(1) by simp
    have a1: "alen (area ?t0 fw fw) = fw" using f t0 by simp
    show "ok (do {
        t1 \<leftarrow> br_i31_decode (area ?t0 fw fw) p plen;
        mq0 \<leftarrow> ld mq 0;
        t2 \<leftarrow> br_i31_zero (area (lay ?t0 fw t1) ft ft) mq0;
        t2 \<leftarrow> br_i31_mulacc t2 mq t1;
        t3 \<leftarrow> br_i31_encode (as_bytes (area (lay (lay ?t0 fw t1) ft t2) ff (1 + 560 - ff))) xlen t2;
        r \<leftarrow> for_down xlen (\<lambda>u r. do { b \<leftarrow> ld t3 u; ba \<leftarrow> ld x u; ret (shr (ucast ba - (ucast b + r)) 8 AND 1) }) 0;
        mp \<leftarrow> memcpy32 (area (lay (lay (lay ?t0 fw t1) ft t2) ff (as_words t3)) ft fw) t1 (fw * 4);
        ret (r, lay (lay (lay (lay ?t0 fw t1) ft t2) ff (as_words t3)) ft mp) }) R" (is "ok (_ \<bind> ?rest) R")
    proof (rule ok_bind, rule ok_decode_factor [OF p(1) _ _ p(3)])
      show "(8 * plen + 30) div 31 < alen (area ?t0 fw fw)" "alen (area ?t0 fw fw) < 1000" using p(2) fw a1 by simp_all
      fix t1 hp np assume t1: "alen t1 = alen (area ?t0 fw fw)" "np < alen (area ?t0 fw fw)" "factor hp np P t1"
      note t1 = t1 [unfolded a1]
      let ?t1 = "lay ?t0 fw t1"
      have t1': "alen ?t1 = 561" using f t0 t1(1) by simp
      have n: "np < fw" "nq < fw" "np < 1000" "nq < 1000" using t1(2) mq(2) fw by simp_all
      note mqD = is_i31D [OF factorD(2) [OF mq(3)]]
      show "ok (?rest t1) R"
      proof (rule ok_bind, rule ok_ld, use mqD(5) in linarith, unfold mqD(1), rule ok_bind, rule ok_br_i31_zero, unfold mqD(2))
        have a2: "alen (area ?t1 ft ft) = 2 * fw" using f t1' by (simp add: ft_def)
        show "Suc nq \<le> alen (area ?t1 ft ft)" using a2 n by simp
        fix z assume z: "alen z = alen (area ?t1 ft ft)" "digits31 (Suc 0) nq (cells z)" "val31 nq z = 0"
        note z = z [unfolded a2]
        show "ok (do {
            t2 \<leftarrow> br_i31_mulacc z mq t1;
            t3 \<leftarrow> br_i31_encode (as_bytes (area (lay ?t1 ft t2) ff (1 + 560 - ff))) xlen t2;
            r \<leftarrow> for_down xlen (\<lambda>u r. do { b \<leftarrow> ld t3 u; ba \<leftarrow> ld x u; ret (shr (ucast ba - (ucast b + r)) 8 AND 1) }) 0;
            mp \<leftarrow> memcpy32 (area (lay (lay ?t1 ft t2) ff (as_words t3)) ft fw) t1 (fw * 4);
            ret (r, lay (lay (lay ?t1 ft t2) ff (as_words t3)) ft mp) }) R"
        proof (rule ok_bind, rule ok_product_bytes [OF factorD(2) [OF t1(3)] factorD(2) [OF mq(3)] z(2) _ n(3,4)], unfold z(3) add_0 factorD(3) [OF t1(3)] factorD(3) [OF mq(3)])
          show "np + nq < alen z" using n z(1) by simp
          show "P * Q < 2 ^ (bits31 hp + bits31 hq)" by (rule nbits_product [OF t1(3) mq(3)])
          fix t2 assume t2: "alen t2 = alen z" "digits31 (Suc 0) (words31 (cells t2 ! 0)) (cells t2)" "val31 (words31 (cells t2 ! 0)) t2 = P * Q"
          let ?t2 = "lay ?t1 ft t2"
          have t2': "alen ?t2 = 561" using f t1' t2(1) z(1) by (simp add: ft_def)
          have a4: "alen (area ?t2 ff (1 + 560 - ff)) = 561 - ff" using f t2' by simp
          have "(b + 7) div 8 \<le> 8 * fw" if "b \<le> 31 * (np + nq)" for b
          proof -
            have "b + 7 \<le> 8 * (8 * fw)" using that n by (simp only: distrib_left)
            then show ?thesis using div_le_mono [of "b + 7" "8 * (8 * fw)" 8] by simp
          qed
          then have "xlen \<le> 8 * fw" using nbits_product(2) [OF t1(3) mq(3)] unfolding x(1) nbytes_def by simp
          then have xl: "xlen \<le> alen (as_bytes (area ?t2 ff (1 + 560 - ff)))" using f(7) a4 by simp
          show "ok (do {
            t3 \<leftarrow> br_i31_encode (as_bytes (area ?t2 ff (1 + 560 - ff))) xlen t2;
            r \<leftarrow> for_down xlen (\<lambda>u r. do { b \<leftarrow> ld t3 u; ba \<leftarrow> ld x u; ret (shr (ucast ba - (ucast b + r)) 8 AND 1) }) 0;
            mp \<leftarrow> memcpy32 (area (lay ?t2 ff (as_words t3)) ft fw) t1 (fw * 4);
            ret (r, lay (lay ?t2 ff (as_words t3)) ft mp) }) R"
          proof (rule ok_bind, rule ok_br_i31_encode [OF t2(2) refl xl], unfold t2(3))
            fix t3 :: "u8 arr" assume t3: "alen t3 = alen (as_bytes (area ?t2 ff (1 + 560 - ff)))" "be_val (take xlen (cells t3)) = P * Q mod 256 ^ xlen"
            let ?t3 = "lay ?t2 ff (as_words t3)"
            have "alen (as_words t3) = 561 - ff" using t3(1) a4 by (simp add: alen_as_words)
            then have t3': "alen ?t3 = 561" using t2' f by simp
            have "P * Q < 256 ^ xlen" unfolding pow256 nbits_le_iff [symmetric] x(1) by (rule nbits_nbytes)
            then have v3: "be_val (take xlen (cells t3)) = P * Q" using t3(2) by simp
            have a5: "alen (area ?t3 ft fw) = fw" using t3' f by simp
            have x3: "xlen \<le> alen t3" unfolding t3(1) by (rule xl)
            show "ok (do {
              r \<leftarrow> for_down xlen (\<lambda>u r. do { b \<leftarrow> ld t3 u; ba \<leftarrow> ld x u; ret (shr (ucast ba - (ucast b + r)) 8 AND 1) }) 0;
              mp \<leftarrow> memcpy32 (area ?t3 ft fw) t1 (fw * 4);
              ret (r, lay ?t3 ft mp) }) R"
            proof (rule ok_bind, rule ok_compare [unfolded Let_def, OF x3 x(2)], unfold v3, rule ok_bind,
                unfold mult.commute [of fw 4], rule ok_memcpy32 [of fw], use a5 in simp, use t1(1) in simp, rule refl, rule ok_ret)
              have c: "cells (put (area ?t3 ft fw) t1 fw) = cells t1" using a5 t1(1) by (simp add: put_def)
              let ?t4 = "lay ?t3 ft (put (area ?t3 ft fw) t1 fw)"
              have "area ?t4 0 fw = area ?t0 0 fw"
                using f t3' t2' t1' t0 t1(1) by (simp add: area_lay_before)
              then have q0: "cells (area ?t4 0 fw) = cells mq" using area_lay [of 0 mq tmp fw] mq(1) f t by simp
              have p2: "cells (area ?t4 ft fw) = cells t1" using area_lay [of ft "put (area ?t3 ft fw) t1 fw" ?t3 fw] c t1(1) t3' f by simp
              show "R (of_bool (be_val (take xlen (cells x)) < P * Q), ?t4)"
                using factor_cells [OF mq(3) q0] factor_cells [OF t1(3) p2] n t3' c t1(1) f by (intro R [of _ np nq hq hp]) (simp_all add: ft_def)
            qed
          qed
        qed
      qed
    qed
  qed
qed

section \<open>A power modulo a factor\<close>

lemma factor_odd:
  assumes "factor h n M m" and "odd M" and "1 < M"
  shows "odd31 h n m (br_i31_ninv31 (cells m ! 1))" "odd (unat (cells m ! 1))"
proof -
  obtain j where j: "n = Suc j" using factorD(9) [OF assms(1)] assms(3) by (cases n) auto
  have "odd (val31 (Suc j) m)" using factorD(3) [OF assms(1)] assms(2) unfolding j by simp
  then show o: "odd (unat (cells m ! 1))" by (simp add: wsum_head)
  show "odd31 h n m (br_i31_ninv31 (cells m ! 1))"
    using factorD(1,3) [OF assms(1)] assms(2,3) ninv31_correct(1) [OF o] by (simp add: odd31_def)
qed

lemma mult_less_gap: "i \<noteq> j \<Longrightarrow> i * fw + fw \<le> j * fw \<or> j * fw + fw \<le> i * (fw :: nat)"
proof -
  assume "i \<noteq> j"
  then have "Suc i \<le> j \<or> Suc j \<le> i" by linarith
  then have "Suc i * fw \<le> j * fw \<or> Suc j * fw \<le> i * fw" by (metis mult_le_mono1)
  then show ?thesis by (simp add: add.commute)
qed

lemma area_lay_place: "i \<noteq> j \<Longrightarrow> alen a = fw \<Longrightarrow> j * fw \<le> alen tmp \<Longrightarrow> area (lay tmp (j * fw) a) (i * fw) fw = area tmp (i * fw) fw"
  using mult_less_gap [of i j fw] area_lay_before [of "i * fw" fw "j * fw" tmp a] area_lay_after [of "j * fw" a "i * fw" tmp fw] by auto

lemma ok_priv_power:
  assumes t: "alen tmp = 561" and fw: "6 * fw \<le> 560" "even fw" and n: "n < fw" "0 < fw"
    and m: "factor h n M (area tmp (im * fw) fw)" "odd M" "1 < M"
    and i: "im \<noteq> is" "im < it" "is < it" "it \<le> 4"
    and e: "elen \<le> alen e" and x: "xlen \<le> alen x"
    and R: "\<And>tmp'. alen tmp' = 561 \<Longrightarrow> is_i31 h n (area tmp' (is * fw) fw) \<Longrightarrow>
      val31 n (area tmp' (is * fw) fw) = be_val (take xlen (cells x)) ^ be_val (take elen (cells e)) mod M \<Longrightarrow>
      (\<And>j. j < it \<Longrightarrow> j \<noteq> is \<Longrightarrow> area tmp' (j * fw) fw = area tmp (j * fw) fw) \<Longrightarrow>
      R (br_i31_ninv31 (cells (area tmp (im * fw) fw) ! 1), 1, tmp')"
  shows "ok (priv_power x xlen e elen im is it fw tmp) R"
proof -
  have it4: "it * fw \<le> 4 * fw" "is * fw + fw \<le> it * fw"
    using i(3,4) mult_le_mono1 [of it 4 fw] mult_le_mono1 [of "Suc is" it fw] by (simp_all add: add.commute)
  have l: "is * fw + fw \<le> 561" "it * fw \<le> 561" "it * fw + 2 * fw \<le> 560" using it4 fw(1) by linarith+
  let ?m = "area tmp (im * fw) fw" and ?X = "be_val (take xlen (cells x))"
  note o = factor_odd [OF m] and mD = factorD [OF m(1)]
  have n0: "0 < n" using mD(9) m(3) by simp
  show ?thesis
    unfolding priv_power_def Let_def priv_TLEN
  proof (rule ok_bind, rule ok_ld, use mD(5) n0 in linarith, rule ok_bind, rule ok_br_i31_decode_reduce [OF mD(1) n0 _ _ x])
    have a: "alen (area tmp (is * fw) fw) = fw" using l t by simp
    show "n < 100000000" using n fw by linarith
    show "n < alen (area tmp (is * fw) fw)" using a n by simp
    fix s assume s: "alen s = alen (area tmp (is * fw) fw)" "is_i31 h n s" "val31 n s = ?X mod val31 n ?m"
    note s = s [unfolded a mD(3)]
    let ?t = "area (lay tmp (is * fw) s) (it * fw) (1 + 560 - it * fw)"
    have t1: "alen (lay tmp (is * fw) s) = 561" using l t s(1) by simp
    have a2: "alen ?t = 561 - it * fw" using l t1 by simp
    have M: "0 < M" "val31 n s < M" using m(3) s(3) by simp_all
    have mw: "mwlen31 n \<le> fw" using n fw(2) by presburger
    show "ok (do { (c, u, v) \<leftarrow> br_i31_modpow_opt s e elen ?m (br_i31_ninv31 (cells ?m ! 1)) ?t (560 - it * fw);
        ret (br_i31_ninv31 (cells ?m ! 1), c, lay (lay (lay tmp (is * fw) s) (is * fw) u) (it * fw) v) }) R"
    proof (rule ok_bind, rule ok_br_i31_modpow_opt [OF o(1) s(2) _ e], unfold mD(3), rule M(2))
      show "560 - it * fw \<le> alen ?t" using a2 by simp
      assume "560 - it * fw < 2 * mwlen31 n"
      also have "2 * mwlen31 n \<le> 2 * fw" using mw by (rule mult_le_mono2)
      also have "2 * fw \<le> 560 - it * fw" using l(3) by linarith
      finally show "ok (case (0, s, ?t) of (c, u, v) \<Rightarrow>
          ret (br_i31_ninv31 (cells ?m ! 1), c, lay (lay (lay tmp (is * fw) s) (is * fw) u) (it * fw) v)) R" by linarith
    next
      fix s' t' :: "u32 arr"
      assume r: "alen s' = alen s" "alen t' = alen ?t" "is_i31 h n s'" "val31 n s' = val31 n s ^ be_val (take elen (cells e)) mod M"
      let ?t1 = "lay (lay tmp (is * fw) s) (is * fw) s'"
      let ?t2 = "lay ?t1 (it * fw) t'"
      have t2: "alen ?t1 = 561" using l t1 s(1) r(1) by simp
      then have t3: "alen ?t2 = 561" using l a2 r(2) by simp
      have before: "j < it \<Longrightarrow> area ?t2 (j * fw) fw = area ?t1 (j * fw) fw" for j
        using mult_le_mono1 [of "Suc j" it fw] l t2 by (intro area_lay_before) (simp_all add: add.commute)
      have c: "cells (area ?t2 (is * fw) fw) = cells s'"
        using area_lay [of "is * fw" s' "lay tmp (is * fw) s" fw] before [OF i(3)] l t1 s(1) r(1) by simp
      have v: "val31 n s' = ?X ^ be_val (take elen (cells e)) mod M" using r(4) s(3) by (simp add: power_mod)
      have other: "area ?t2 (j * fw) fw = area tmp (j * fw) fw" if "j < it" "j \<noteq> is" for j
        using before [OF that(1)] that(2) area_lay_place [of j "is"] l t1 t s(1) r(1) by simp
      have "is_i31 h n (area ?t2 (is * fw) fw)" using r(3) c by (simp add: is_i31_def)
      then have "R (br_i31_ninv31 (cells ?m ! 1), 1, ?t2)" using t3 c v other by (intro R) simp_all
      then show "ok (case (1, s', t') of (c, u, v) \<Rightarrow>
          ret (br_i31_ninv31 (cells ?m ! 1), c, lay (lay (lay tmp (is * fw) s) (is * fw) u) (it * fw) v)) R"
        unfolding prod.case by (rule ok_ret)
    qed
  qed
qed

section \<open>The recombination\<close>

lemma garner:
  fixes s1 s2 D h iq P Q :: nat
  assumes "s1 < P" "s2 < Q" and D: "(D + s2) mod P = s1" and h: "h = (D * iq) mod P"
  shows "s2 + Q * h < P * Q" "(s2 + Q * h) mod Q = s2" "(iq * Q) mod P = 1 \<Longrightarrow> (s2 + Q * h) mod P = s1"
proof -
  have "h < P" using assms(1) unfolding h by (intro mod_less_divisor) simp
  then have "Q * Suc h \<le> Q * P" by (intro mult_le_mono2) simp
  then show "s2 + Q * h < P * Q" using assms(2) by (simp add: mult.commute)
  show "(s2 + Q * h) mod Q = s2" using assms(2) by simp
  assume i: "(iq * Q) mod P = 1"
  have "(Q * h) mod P = (D * ((iq * Q) mod P)) mod P" unfolding h by (simp add: mod_simps ac_simps)
  also have "\<dots> = D mod P" by (simp add: i)
  finally have "(s2 + Q * h) mod P = (s2 + D) mod P" by (rule mod_add_cong [OF refl])
  then show "(s2 + Q * h) mod P = s1" using D by (simp add: add.commute)
qed

text \<open>A subtraction, and an addition when it borrows.\<close>

lemma ok_sub_mod:
  assumes m: "is_i31 h n m" and a: "is_i31 h n a" and b: "digits31 (Suc 0) n (cells b)" and lt: "val31 n a < val31 n m" "val31 n b < val31 n m"
    and R: "\<And>a'. alen a' = alen a \<Longrightarrow> is_i31 h n a' \<Longrightarrow> val31 n a' < val31 n m \<Longrightarrow> (val31 n a' + val31 n b) mod val31 n m = val31 n a \<Longrightarrow> ok (f a') R"
  shows "ok (do { (a, c) \<leftarrow> br_i31_sub a b 1; (a, _) \<leftarrow> br_i31_add a m c; f a }) R"
proof (rule ok_bind, rule ok_br_i31_sub [where c = True, unfolded of_bool_eq, OF is_i31D(3) [OF a, folded is_i31D(1) [OF a]] is_i31D(4) [OF a] b])
  let ?K = "B31 ^ n" and ?A = "val31 n a" and ?B = "val31 n b" and ?M = "val31 n m"
  fix a1 and cc :: u32
  assume a1: "frame31 n a a1" "digits31 (Suc 0) n (cells a1)" "cc = of_bool (?A < ?B)" "True \<Longrightarrow> val31 n a1 + ?B = ?A + unat cc * ?K"
  note i1 = is_i31_frame [OF a a1(1,2)]
  have K: "?M < ?K" by (rule wsum_lt [OF is_i31D(4) [OF m]])
  show "ok (case (a1, cc) of (a, c) \<Rightarrow> do { (a, _) \<leftarrow> br_i31_add a m c; f a }) R"
    unfolding prod.case a1(3)
  proof (rule ok_bind, rule ok_br_i31_add [OF is_i31D(3) [OF i1, folded is_i31D(1) [OF i1]] a1(2) is_i31D(4) [OF m]], unfold prod.case)
    fix a2
    assume a2: "frame31 n a1 a2" "digits31 (Suc 0) n (cells a2)"
      "?A < ?B \<Longrightarrow> val31 n a2 = (val31 n a1 + ?M) mod ?K" "\<not> ?A < ?B \<Longrightarrow> a2 = a1"
    have v: "val31 n a2 < ?M \<and> (val31 n a2 + ?B) mod ?M = ?A"
    proof (cases "?A < ?B")
      case True
      then have "val31 n a1 + ?M = (?A + ?M - ?B) + ?K" using a1(3,4) lt by simp
      then have "val31 n a2 = (?A + ?M - ?B) mod ?K" using a2(3) True by simp
      also have "\<dots> = ?A + ?M - ?B" using True K lt by (intro mod_less) linarith
      finally show ?thesis using True lt by simp
    next
      case False
      then show ?thesis using a1(3,4) a2(4) lt by simp
    qed
    show "ok (f a2) R"
      using v a2(1) a1(1) is_i31_frame [OF i1 a2(1,2)] by (intro R) (auto simp: frame31_alen)
  qed
qed

lemma ok_priv_combine:
  assumes t: "alen tmp = 561" and fw: "6 * fw \<le> 560" and n: "np < fw" "nq < fw"
    and q: "factor hq nq Q (area tmp 0 fw)" "0 < Q" and p: "factor hp np P (area tmp (2 * fw) fw)" "odd P" "1 < P"
    and s2: "is_i31 hq nq (area tmp fw fw)" "val31 nq (area tmp fw fw) = S2" "S2 < Q"
    and s1: "is_i31 hp np (area tmp (3 * fw) fw)" "val31 np (area tmp (3 * fw) fw) = S1" "S1 < P"
    and p0i: "p0i = br_i31_ninv31 (cells (area tmp (2 * fw) fw) ! 1)"
    and iq: "iqlen \<le> alen iq" and x: "xlen = nbytes (P * Q)" "xlen \<le> alen x"
    and R: "\<And>x'. alen x' = alen x \<Longrightarrow> (\<forall>i\<ge>xlen. cells x' ! i = cells x ! i) \<Longrightarrow> be_val (take xlen (cells x')) < P * Q \<Longrightarrow> be_val (take xlen (cells x')) mod Q = S2 \<Longrightarrow>
      ((be_val (take iqlen (cells iq)) * Q) mod P = 1 \<Longrightarrow> be_val (take xlen (cells x')) mod P = S1) \<Longrightarrow> R x'"
  shows "ok (priv_combine x xlen iq iqlen p0i fw tmp) R"
proof -
  let ?mq = "area tmp 0 fw" and ?mp = "area tmp (2 * fw) fw" and ?IQ = "be_val (take iqlen (cells iq))"
  note pD = factorD [OF p(1)] and qD = factorD [OF q(1)] and o = odd31D [OF factor_odd(1) [OF p], folded p0i]
  have np: "0 < np" "np < 100000000" using pD(9) p(3) n fw by simp_all
  have al: "alen (area tmp (i * fw) fw) = fw" if "i \<le> 5" for i
  proof -
    have "Suc i * fw \<le> 6 * fw" using that by (intro mult_le_mono1) simp
    then have "i * fw + fw \<le> 561" using fw by (simp only: mult_Suc add.commute)
    then show ?thesis using t by simp
  qed
  have a: "alen (area tmp (5 * fw) fw) = fw" "alen (area tmp (4 * fw) fw) = fw" "alen (area tmp (3 * fw) fw) = fw"
    using al [of 5] al [of 4] al [of 3] by simp_all
  have sz: "sized31 hq nq (area tmp fw fw)" using s2 qD(4) nbits_le_iff [of Q "nbits Q"] nbits_le_iff [of S2 "nbits Q"] by (simp add: sized31_def)
  have M: "modulus31 hp np ?mp" by (rule pD(1))
  show ?thesis
    unfolding priv_combine_def Let_def
  proof (rule ok_bind, rule ok_br_i31_reduce [OF M np(1) _ sz], unfold s2(2) pD(3))
    show "unat hp mod 32 \<noteq> 0" using pD(8) p(3) by simp
    show "np < alen (area tmp (5 * fw) fw)" using a n by simp
    fix t2 :: "u32 arr"
    assume t2: "alen t2 = alen (area tmp (5 * fw) fw)" "is_i31 hp np t2" "val31 np t2 = S2 mod P"
    have lt2: "val31 np t2 < val31 np ?mp" using t2(3) p(3) pD(3) by simp
    have lt1: "val31 np (area tmp (3 * fw) fw) < val31 np ?mp" using s1 pD(3) by simp
    show "ok (do {
        (s1, c) \<leftarrow> br_i31_sub (area tmp (3 * fw) fw) t2 1;
        (s1, _) \<leftarrow> br_i31_add s1 ?mp c;
        s1 \<leftarrow> br_i31_to_monty s1 ?mp;
        t1 \<leftarrow> br_i31_decode_reduce (area tmp (4 * fw) fw) iq iqlen ?mp;
        t2 \<leftarrow> br_i31_montymul t2 s1 t1 ?mp p0i;
        t3 \<leftarrow> br_i31_mulacc (area (lay (lay (lay tmp (3 * fw) s1) (4 * fw) t1) (5 * fw) t2) fw (2 * fw)) ?mq t2;
        br_i31_encode x xlen t3 }) R"
    proof (rule ok_sub_mod [OF pD(2) s1(1) is_i31D(4) [OF t2(2)] lt1 lt2], unfold pD(3) s1(2) t2(3), rule ok_bind, rule ok_br_i31_to_monty [OF M])
      fix d assume d: "alen d = alen (area tmp (3 * fw) fw)" "is_i31 hp np d" "val31 np d < P" "(val31 np d + S2 mod P) mod P = S1"
      show "is_i31 hp np d" "val31 np d < val31 np ?mp" using d pD(3) by simp_all
      fix d1 assume d1: "frame31 np d d1" "digits31 (Suc 0) np (cells d1)" "val31 np d1 = val31 np d * B31 ^ np mod val31 np ?mp"
      show "ok (do {
          t1 \<leftarrow> br_i31_decode_reduce (area tmp (4 * fw) fw) iq iqlen ?mp;
          t2 \<leftarrow> br_i31_montymul t2 d1 t1 ?mp p0i;
          t3 \<leftarrow> br_i31_mulacc (area (lay (lay (lay tmp (3 * fw) d1) (4 * fw) t1) (5 * fw) t2) fw (2 * fw)) ?mq t2;
          br_i31_encode x xlen t3 }) R"
      proof (rule ok_bind, rule ok_br_i31_decode_reduce [OF M np _ iq], use a n in simp, rule ok_bind, rule ok_br_i31_montymul [OF pD(2) d1(2) is_i31D(4) _ _ o(5)])
        fix t1 assume t1: "alen t1 = alen (area tmp (4 * fw) fw)" "is_i31 hp np t1" "val31 np t1 = ?IQ mod val31 np ?mp"
        show "is_i31 hp np t1" by fact
        show "np < alen t2" using t2(1) a n by simp
        show "val31 np t1 < val31 np ?mp" using t1(3) p(3) pD(3) by simp
        fix h
        assume h: "alen h = alen t2" "is_i31 hp np h" "val31 np h < val31 np ?mp" "val31 np h * B31 ^ np mod val31 np ?mp = val31 np d1 * val31 np t1 mod val31 np ?mp"
        have hv: "val31 np h = val31 np d * ?IQ mod P"
        proof -
          have "(val31 np h * B31 ^ np) mod P = (val31 np d * ?IQ * B31 ^ np) mod P"
            using h(4) unfolding d1(3) t1(3) pD(3) mod_mult_eq by (simp only: ac_simps)
          then have "val31 np h mod P = (val31 np d * ?IQ) mod P" by (rule mod_cancel) (rule coprime_B31 [OF p(2)])
          then show ?thesis using h(3) pD(3) by simp
        qed
        let ?tmp = "lay (lay (lay tmp (3 * fw) d1) (4 * fw) t1) (5 * fw) h"
        have ar: "area ?tmp fw (2 * fw) = area tmp fw (2 * fw)"
          using fw t t1(1) t2(1) h(1) d(1) frame31_alen [OF d1(1)] a by (simp add: area_lay_before)
        let ?d = "area tmp fw (2 * fw)"
        have al2: "alen ?d = 2 * fw" using fw t by simp
        have same: "cells ?d ! i = cells (area tmp fw fw) ! i" if "i < fw" for i using that by (simp add: area_def)
        have dg: "digits31 (Suc 0) nq (cells ?d)" using is_i31D(4) [OF s2(1)] n same al2 by (auto simp: digits31_def)
        have "val31 nq ?d = val31 nq (area tmp fw fw)" using n same by (intro wsum_nth_cong) auto
        then have v: "val31 nq ?d = S2" using s2(2) by simp
        have g0: "(val31 np d + S2) mod P = S1" using d(4) by (simp add: mod_simps)
        note g = garner [OF s1(3) s2(3) g0 hv]
        have V: "val31 nq ?d + val31 np h * val31 nq ?mq = S2 + Q * val31 np h"
          unfolding v qD(3) by (simp only: mult.commute)
        show "ok (do { t3 \<leftarrow> br_i31_mulacc (area ?tmp fw (2 * fw)) ?mq h; br_i31_encode x xlen t3 }) R"
          unfolding ar
        proof (rule ok_bind, rule ok_product_bytes [OF h(2) qD(2) dg], unfold V)
          show "np + nq < alen ?d" using al2 n by simp
          show "np < 1000" "nq < 1000" using n fw by simp_all
          show "S2 + Q * val31 np h < 2 ^ (bits31 hp + bits31 hq)" using g(1) nbits_product(1) [OF p(1) q(1)] by linarith
          fix t3 assume t3: "digits31 (Suc 0) (words31 (cells t3 ! 0)) (cells t3)" "val31 (words31 (cells t3 ! 0)) t3 = S2 + Q * val31 np h"
          have "P * Q < 256 ^ xlen" unfolding pow256 nbits_le_iff [symmetric] x(1) by (rule nbits_nbytes)
          then have m: "(S2 + Q * val31 np h) mod 256 ^ xlen = S2 + Q * val31 np h" using g(1) by simp
          show "ok (br_i31_encode x xlen t3) R"
          proof (rule ok_br_i31_encode [OF t3(1) refl x(2)], unfold t3(2) m, rule R)
            fix x' :: "u8 arr"
            assume x': "alen x' = alen x" "\<forall>i\<ge>xlen. cells x' ! i = cells x ! i" "be_val (take xlen (cells x')) = S2 + Q * val31 np h"
            show "alen x' = alen x" "\<forall>i\<ge>xlen. cells x' ! i = cells x ! i" by fact+
            show "be_val (take xlen (cells x')) < P * Q" "be_val (take xlen (cells x')) mod Q = S2" unfolding x'(3) by (rule g)+
            show "be_val (take xlen (cells x')) mod P = S1" if "(?IQ * Q) mod P = 1" unfolding x'(3) by (rule g(3) [OF that])
          qed
        qed
      qed
    qed
  qed
qed

section \<open>The operation\<close>

abbreviation key_P :: "br_rsa_private_key \<Rightarrow> nat" where
  "key_P sk \<equiv> be_val (take (sk_plen sk) (cells (sk_p sk)))"

abbreviation key_Q :: "br_rsa_private_key \<Rightarrow> nat" where
  "key_Q sk \<equiv> be_val (take (sk_qlen sk) (cells (sk_q sk)))"

abbreviation key_DP :: "br_rsa_private_key \<Rightarrow> nat" where
  "key_DP sk \<equiv> be_val (take (sk_dplen sk) (cells (sk_dp sk)))"

abbreviation key_DQ :: "br_rsa_private_key \<Rightarrow> nat" where
  "key_DQ sk \<equiv> be_val (take (sk_dqlen sk) (cells (sk_dq sk)))"

abbreviation key_IQ :: "br_rsa_private_key \<Rightarrow> nat" where
  "key_IQ sk \<equiv> be_val (take (sk_iqlen sk) (cells (sk_iq sk)))"

text \<open>What holds of the pointers and lengths in a private key and of the array on the stack; the bit length is exact, as \<^verbatim>\<open>bearssl_rsa.h\<close>
  demands.\<close>

definition priv_args :: "br_rsa_private_key \<Rightarrow> u32 arr \<Rightarrow> bool" where
  "priv_args sk tmp \<longleftrightarrow> sk_plen sk \<le> alen (sk_p sk) \<and> sk_qlen sk \<le> alen (sk_q sk) \<and> sk_dplen sk \<le> alen (sk_dp sk) \<and>
     sk_dqlen sk \<le> alen (sk_dq sk) \<and> sk_iqlen sk \<le> alen (sk_iq sk) \<and> alen tmp = 1 + priv_TLEN \<and>
     unat (sk_n_bitlen sk) = nbits (key_P sk * key_Q sk) \<and> unat (sk_n_bitlen sk) + 7 < 2 ^ 32"

definition odd_factors :: "br_rsa_private_key \<Rightarrow> bool" where
  "odd_factors sk \<longleftrightarrow> odd (key_P sk) \<and> 1 < key_P sk \<and> odd (key_Q sk) \<and> 1 < key_Q sk"

lemma fwlen_limit:
  fixes w fw l :: nat
  assumes "w = 1 + (8 * l + 30) div 31" and "fw = w + w mod 2"
  shows "560 < 6 * fw \<longleftrightarrow> 352 < l" "even fw" "w \<le> fw" "k \<le> l \<Longrightarrow> (8 * k + 30) div 31 < fw" "0 < fw"
proof -
  show "even fw" using assms(2) by presburger
  show w: "w \<le> fw" "0 < fw" using assms by simp_all
  show "560 < 6 * fw \<longleftrightarrow> 352 < l"
  proof
    assume "352 < l"
    then have "(8 * 353 + 30) div 31 \<le> (8 * l + 30) div 31" by (intro div_le_mono) simp
    then have "93 \<le> w" using assms(1) by simp
    then have "94 \<le> fw" using assms(2) by presburger
    then show "560 < 6 * fw" by simp
  next
    assume a: "560 < 6 * fw"
    show "352 < l"
    proof (rule ccontr)
      assume "\<not> 352 < l"
      then have "(8 * l + 30) div 31 \<le> (8 * 352 + 30) div 31" by (intro div_le_mono) simp
      then have "w \<le> 92" using assms(1) by simp
      then have "fw \<le> 92" using assms(2) by presburger
      with a show False by simp
    qed
  qed
  show "(8 * k + 30) div 31 < fw" if "k \<le> l"
  proof -
    have "(8 * k + 30) div 31 \<le> (8 * l + 30) div 31" using that by (intro div_le_mono) simp
    then show ?thesis using w assms(1) by simp
  qed
qed

lemma and_flags: "a AND 1 = 1 \<Longrightarrow> b AND 1 = 1 \<Longrightarrow> (a AND b) AND ((of_bool r AND 1) AND 1) = (of_bool r :: u32)"
  by (cases r) (simp_all add: and.assoc)

lemma ok_br_rsa_i31_private:
  assumes a: "priv_args sk tmp" and o: "odd_factors sk" and x: "nbytes (key_P sk * key_Q sk) \<le> alen x"
    and xl: "xlen = nbytes (key_P sk * key_Q sk)"
    and X: "X = be_val (take xlen (cells x))"
    and bad: "352 < nbytes (key_P sk) \<or> 352 < nbytes (key_Q sk) \<Longrightarrow> R (0, x)"
    and R: "\<And>x'. nbytes (key_P sk) \<le> 352 \<Longrightarrow> nbytes (key_Q sk) \<le> 352 \<Longrightarrow> alen x' = alen x \<Longrightarrow> (\<forall>i\<ge>xlen. cells x' ! i = cells x ! i) \<Longrightarrow>
      be_val (take xlen (cells x')) < key_P sk * key_Q sk \<Longrightarrow>
      be_val (take xlen (cells x')) mod key_Q sk = X ^ key_DQ sk mod key_Q sk \<Longrightarrow>
      ((key_IQ sk * key_Q sk) mod key_P sk = 1 \<Longrightarrow> be_val (take xlen (cells x')) mod key_P sk = X ^ key_DP sk mod key_P sk) \<Longrightarrow>
      R (of_bool (X < key_P sk * key_Q sk), x')"
  shows "ok (br_rsa_i31_private x sk tmp) R"
proof -
  let ?P = "key_P sk" and ?Q = "key_Q sk"
  have args: "sk_plen sk \<le> alen (sk_p sk)" "sk_qlen sk \<le> alen (sk_q sk)" "sk_dplen sk \<le> alen (sk_dp sk)" "sk_dqlen sk \<le> alen (sk_dq sk)"
    "sk_iqlen sk \<le> alen (sk_iq sk)" "alen tmp = 561" "unat (sk_n_bitlen sk) = nbits (?P * ?Q)" "unat (sk_n_bitlen sk) + 7 < 2 ^ 32"
    using a by (auto simp: priv_args_def priv_TLEN)
  have od: "odd ?P" "1 < ?P" "odd ?Q" "1 < ?Q" using o by (auto simp: odd_factors_def)
  have "unat (shr (sk_n_bitlen sk + 7) 3) = xlen"
    using args(7,8) unfolding xl nbytes_def by (simp add: unat_drop_bit unat_word_ariths)
  note xw = this
  have xa: "xlen \<le> alen x" using x xl by simp
  show ?thesis
    unfolding br_rsa_i31_private_def xw
  proof (rule ok_bind, rule ok_skip_zeros [OF args(1)], unfold prod.case, rule ok_bind, rule ok_skip_zeros [OF args(2)], unfold prod.case)
    fix p q :: "u8 arr" and pl ql
    assume p: "pl \<le> alen p" "be_val (take pl (cells p)) = ?P" "pl = nbytes ?P"
    assume q: "ql \<le> alen q" "be_val (take ql (cells q)) = ?Q" "ql = nbytes ?Q"
    define l where "l = (if ql < pl then pl else ql)"
    define w where "w = 1 + (8 * l + 30) div 31"
    define fw where "fw = w + w mod 2"
    note F = fwlen_limit [OF w_def fw_def]
    have l: "pl \<le> l" "ql \<le> l" "352 < l \<longleftrightarrow> 352 < nbytes ?P \<or> 352 < nbytes ?Q" using p q by (auto simp: l_def)
    show "ok (do {
     fwlen \<leftarrow> factor_words (int (if ql < pl then pl else ql) * 8) 1;
     let fwlen = fwlen + fwlen mod 2;
     branch (priv_TLEN < 6 * fwlen) (ret (0, x)) (do {
       let xlen = xlen;
       (r, tmp) \<leftarrow> priv_modulus x xlen p pl q ql fwlen tmp;
       (q0i, c, tmp) \<leftarrow> priv_power x xlen (sk_dq sk) (sk_dqlen sk) 0 1 3 fwlen tmp;
       let r = r AND c;
       (p0i, c, tmp) \<leftarrow> priv_power x xlen (sk_dp sk) (sk_dplen sk) 2 3 4 fwlen tmp;
       let r = r AND c;
       x \<leftarrow> priv_combine x xlen (sk_iq sk) (sk_iqlen sk) p0i fwlen tmp;
       ret ((p0i AND q0i) AND r, x) }) }) R"
    proof (rule ok_bind, unfold mult.commute [of _ "8 :: int"] l_def [symmetric], rule ok_factor_words [of _ _ "8 * l", unfolded of_nat_mult of_nat_numeral],
        unfold w_def [symmetric] Let_def fw_def [symmetric] priv_TLEN F(1) l(3), rule ok_branch)
      assume "352 < nbytes ?P \<or> 352 < nbytes ?Q"
      then show "ok (ret (0, x)) R" using bad by (intro ok_ret)
    next
      assume g: "\<not> (352 < nbytes ?P \<or> 352 < nbytes ?Q)"
      then have fw: "6 * fw \<le> 560" using F(1) l(3) by linarith
      show "ok (do {
       (r, tmp) \<leftarrow> priv_modulus x xlen p pl q ql fw tmp;
       (q0i, c, tmp) \<leftarrow> priv_power x xlen (sk_dq sk) (sk_dqlen sk) 0 1 3 fw tmp;
       (p0i, ca, tmp) \<leftarrow> priv_power x xlen (sk_dp sk) (sk_dplen sk) 2 3 4 fw tmp;
       x \<leftarrow> priv_combine x xlen (sk_iq sk) (sk_iqlen sk) p0i fw tmp;
       ret ((p0i AND q0i) AND ((r AND c) AND ca), x) }) R"
      proof (rule ok_bind, rule ok_priv_modulus [OF args(6) fw p(1) F(4) [OF l(1)] p(2) q(1) F(4) [OF l(2)] q(2) xl xa], unfold X [symmetric] prod.case)
        fix t1 hp np hq nq
        assume t1: "alen t1 = 561" "np < fw" "nq < fw" "factor hq nq ?Q (area t1 0 fw)" "factor hp np ?P (area t1 (2 * fw) fw)"
        have fq: "factor hq nq ?Q (area t1 (0 * fw) fw)" using t1(4) by simp
        show "ok (do {
         (q0i, c, tmp) \<leftarrow> priv_power x xlen (sk_dq sk) (sk_dqlen sk) 0 1 3 fw t1;
         (p0i, ca, tmp) \<leftarrow> priv_power x xlen (sk_dp sk) (sk_dplen sk) 2 3 4 fw tmp;
         x \<leftarrow> priv_combine x xlen (sk_iq sk) (sk_iqlen sk) p0i fw tmp;
         ret ((p0i AND q0i) AND ((of_bool (X < ?P * ?Q) AND c) AND ca), x) }) R"
        proof (rule ok_bind, rule ok_priv_power [OF t1(1) fw F(2) t1(3) F(5) fq od(3,4) _ _ _ _ args(4) xa], simp, simp, simp, simp, unfold X [symmetric] prod.case)
          fix t2
          assume t2: "alen t2 = 561" "is_i31 hq nq (area t2 (1 * fw) fw)" "val31 nq (area t2 (1 * fw) fw) = X ^ key_DQ sk mod ?Q"
            "\<And>j. j < 3 \<Longrightarrow> j \<noteq> 1 \<Longrightarrow> area t2 (j * fw) fw = area t1 (j * fw) fw"
          have fp: "factor hp np ?P (area t2 (2 * fw) fw)" using t1(5) t2(4) [of 2] by simp
          have q0: "br_i31_ninv31 (cells (area t1 (0 * fw) fw) ! 1) AND 1 = 1"
            using factor_odd(2) [OF fq od(3,4)] by (simp add: ninv31_and_1)
          show "ok (do {
           (p0i, ca, tmp) \<leftarrow> priv_power x xlen (sk_dp sk) (sk_dplen sk) 2 3 4 fw t2;
           x \<leftarrow> priv_combine x xlen (sk_iq sk) (sk_iqlen sk) p0i fw tmp;
           ret ((p0i AND br_i31_ninv31 (cells (area t1 (0 * fw) fw) ! 1)) AND ((of_bool (X < ?P * ?Q) AND 1) AND ca), x) }) R"
          proof (rule ok_bind, rule ok_priv_power [OF t2(1) fw F(2) t1(2) F(5) fp od(1,2) _ _ _ _ args(3) xa], simp, simp, simp, simp, unfold X [symmetric] prod.case)
            fix t3
            assume t3: "alen t3 = 561" "is_i31 hp np (area t3 (3 * fw) fw)" "val31 np (area t3 (3 * fw) fw) = X ^ key_DP sk mod ?P"
              "\<And>j. j < 4 \<Longrightarrow> j \<noteq> 3 \<Longrightarrow> area t3 (j * fw) fw = area t2 (j * fw) fw"
            have fq3: "factor hq nq ?Q (area t3 0 fw)" using t1(4) t2(4) [of 0] t3(4) [of 0] by simp
            have fp3: "factor hp np ?P (area t3 (2 * fw) fw)" using fp t3(4) [of 2] by simp
            have s2: "is_i31 hq nq (area t3 fw fw)" "val31 nq (area t3 fw fw) = X ^ key_DQ sk mod ?Q" using t2(2,3) t3(4) [of 1] by simp_all
            have p0: "br_i31_ninv31 (cells (area t2 (2 * fw) fw) ! 1) AND 1 = 1"
              using factor_odd(2) [OF fp od(1,2)] by (simp add: ninv31_and_1)
            have e: "br_i31_ninv31 (cells (area t2 (2 * fw) fw) ! 1) = br_i31_ninv31 (cells (area t3 (2 * fw) fw) ! 1)" using t3(4) [of 2] by simp
            show "ok (do {
             x \<leftarrow> priv_combine x xlen (sk_iq sk) (sk_iqlen sk) (br_i31_ninv31 (cells (area t2 (2 * fw) fw) ! 1)) fw t3;
             ret ((br_i31_ninv31 (cells (area t2 (2 * fw) fw) ! 1) AND br_i31_ninv31 (cells (area t1 (0 * fw) fw) ! 1)) AND ((of_bool (X < ?P * ?Q) AND 1) AND 1), x) }) R"
              unfolding and_flags [OF p0 q0]
            proof (rule ok_bind, rule ok_priv_combine [OF t3(1) fw t1(2,3) fq3 _ fp3 od(1,2) s2 _ t3(2,3) _ e args(5) xl xa], rule_tac [4] ok_ret)
              show "0 < ?Q" "X ^ key_DQ sk mod ?Q < ?Q" "X ^ key_DP sk mod ?P < ?P" using od by simp_all
              fix x' :: "u8 arr"
              assume "alen x' = alen x" "\<forall>i\<ge>xlen. cells x' ! i = cells x ! i" "be_val (take xlen (cells x')) < ?P * ?Q"
                "be_val (take xlen (cells x')) mod ?Q = X ^ key_DQ sk mod ?Q"
                "(key_IQ sk * ?Q) mod ?P = 1 \<Longrightarrow> be_val (take xlen (cells x')) mod ?P = X ^ key_DP sk mod ?P"
              then show "R (of_bool (X < ?P * ?Q), x')" using g by (intro R) auto
            qed
          qed
        qed
      qed
    qed
  qed
qed

section \<open>Properties\<close>

text \<open>C1. \<^bold>\<open>The private-key operation of RSA.\<close> For any key with odd factors above 1, any string and any stack contents \<open>br_rsa_i31_private\<close> stays in its arrays.
  It refuses factors of more than 352 bytes. Otherwise it returns 1 exactly when the number in the string is below the modulus, and what
  it leaves in the string is the number below the modulus that is \<open>X ^ dq\<close> modulo \<open>q\<close> and, if \<open>iq\<close> is the inverse of \<open>q\<close>, \<open>X ^ dp\<close> modulo
  \<open>p\<close>; \<open>p\<close> may be below \<open>q\<close>, and \<open>iq\<close> above \<open>p\<close>.\<close>

theorem br_rsa_i31_private_correct:
  assumes "priv_args sk tmp" and "odd_factors sk" and "nbytes (key_P sk * key_Q sk) \<le> alen x"
  shows "ok (br_rsa_i31_private x sk tmp) (\<lambda>(r, x').
    let P = key_P sk; Q = key_Q sk; len = nbytes (P * Q); X = be_val (take len (cells x)); V = be_val (take len (cells x')) in
    if 352 < nbytes P \<or> 352 < nbytes Q then r = 0 \<and> x' = x
    else r = of_bool (X < P * Q) \<and> alen x' = alen x \<and> V < P * Q \<and> V mod Q = X ^ key_DQ sk mod Q \<and>
      ((key_IQ sk * Q) mod P = 1 \<longrightarrow> V mod P = X ^ key_DP sk mod P))"
  unfolding Let_def by (rule ok_br_rsa_i31_private [OF assms refl refl]) auto

abbreviation ex_sk :: br_rsa_private_key where
  "ex_sk \<equiv> \<lparr>sk_n_bitlen = 8, sk_p = \<lparr>blk = 1, cells = [0, 11]\<rparr>, sk_plen = 2, sk_q = \<lparr>blk = 2, cells = [13]\<rparr>, sk_qlen = 1,
    sk_dp = \<lparr>blk = 3, cells = [3]\<rparr>, sk_dplen = 1, sk_dq = \<lparr>blk = 4, cells = [7]\<rparr>, sk_dqlen = 1, sk_iq = \<lparr>blk = 5, cells = [17]\<rparr>, sk_iqlen = 1\<rparr>"

theorem br_rsa_i31_private_correct_witness:
  "ok (br_rsa_i31_private \<lparr>blk = 12, cells = [81, 5]\<rparr> ex_sk \<lparr>blk = 20, cells = replicate 561 0xDEADBEEF\<rparr>)
    (\<lambda>(r, x'). r = 1 \<and> be_val (take 1 (cells x')) = 42)"
proof -
  have v: "key_P ex_sk = 11" "key_Q ex_sk = 13" "key_DP ex_sk = 3" "key_DQ ex_sk = 7" "key_IQ ex_sk = 17" by (simp_all add: be_val_Cons)
  have nb: "nbits 143 = 8" "nbytes 143 = 1" "nbytes 11 = 1" "nbytes 13 = 1" using nbits_eqI [of 7 143] by (simp_all add: nbytes_1)
  have 42: "V = 42" if "V < 143" "V mod 13 = 3" "V mod 11 = 9" for V :: nat
  proof -
    define k where "k = V div 13"
    have V: "V = 13 * k + 3" using that(2) mult_div_mod_eq [of 13 V] by (simp add: k_def)
    then have "k < 11" using that(1) by simp
    then have "k = 0 \<or> k = 1 \<or> k = 2 \<or> k = 3 \<or> k = 4 \<or> k = 5 \<or> k = 6 \<or> k = 7 \<or> k = 8 \<or> k = 9 \<or> k = 10" by arith
    then show ?thesis using that(3) unfolding V by (elim disjE) simp_all
  qed
  have "priv_args ex_sk \<lparr>blk = 20, cells = replicate 561 0xDEADBEEF\<rparr>" "odd_factors ex_sk"
    unfolding priv_args_def odd_factors_def v by (simp_all add: priv_TLEN nb)
  then show ?thesis
    by (rule ok_weaken [OF br_rsa_i31_private_correct])
      (unfold v, simp_all add: nb Let_def be_val_Cons, auto intro: 42)
qed

end
