(* ===== verification/Rsa_Pair.thy ===== *)
theory Rsa_Pair
  imports Rsa_Priv
begin

text \<open>
  The two RSA operations together: what makes a public and a private key a pair, why each operation then undoes the other, that a signature
  verifies and that OAEP decryption returns the message.
\<close>

section \<open>Key pairs\<close>

text \<open>The powers of \<open>e\<close> and \<open>dp\<close> cancel modulo \<open>p\<close>, those of \<open>e\<close> and \<open>dq\<close> modulo \<open>q\<close>.\<close>

definition rsa_pair :: "br_rsa_public_key \<Rightarrow> br_rsa_private_key \<Rightarrow> bool" where
  "rsa_pair pk sk \<longleftrightarrow> key_N pk = key_P sk * key_Q sk \<and> odd_factors sk \<and> (key_IQ sk * key_Q sk) mod key_P sk = 1 \<and>
     (\<forall>v. v ^ (key_E pk * key_DP sk) mod key_P sk = v mod key_P sk) \<and> (\<forall>v. v ^ (key_E pk * key_DQ sk) mod key_Q sk = v mod key_Q sk)"

text \<open>The factors of the keys that the code is made for are primes: Fermat's little theorem holds modulo \<open>p\<close>.\<close>

definition fermat :: "nat \<Rightarrow> bool" where
  "fermat p \<longleftrightarrow> (\<forall>v. \<not> p dvd v \<longrightarrow> v ^ (p - 1) mod p = 1)"

lemma mod_pow_cong: "a mod p = b mod p \<Longrightarrow> a ^ n mod p = b ^ n mod (p :: nat)"
  using power_mod [of a p n] power_mod [of b p n] by simp

lemma mod_pow_1: "a mod p = 1 \<Longrightarrow> 1 < p \<Longrightarrow> a ^ n mod p = (1 :: nat)"
  using mod_pow_cong [of a p 1 n] by simp

lemma fermat_inverse:
  assumes "fermat p" and "1 < p" and "e * d = 1 + k * (p - 1)"
  shows "v ^ (e * d) mod p = v mod p"
proof (cases "p dvd v")
  case True
  have "0 < e * d" unfolding assms(3) by simp
  then have "p dvd v ^ (e * d)" using True by (meson dvd_power dvd_trans)
  then show ?thesis using True by (simp add: dvd_eq_mod_eq_0)
next
  case False
  then have "v ^ (p - 1) mod p = 1" using assms(1) by (simp add: fermat_def)
  then have "(v ^ (p - 1)) ^ k mod p = 1" using mod_pow_1 assms(2) by blast
  have "v ^ (e * d) mod p = (v * ((v ^ (p - 1)) ^ k mod p)) mod p"
    unfolding assms(3) by (simp add: power_add power_mult mult.commute [of k] mod_mult_right_eq)
  also have "\<dots> = v mod p" by (simp only: \<open>(v ^ (p - 1)) ^ k mod p = 1\<close> mult_1_right)
  finally show ?thesis .
qed

text \<open>A generator of the units shows that a number is a prime in this sense, when the primes of \<open>p - 1\<close> are known.\<close>

lemma order_divides:
  fixes g p n :: nat
  assumes "1 < p" and "g ^ n mod p = 1" and "0 < n"
  obtains d where "0 < d" "d dvd n" "g ^ d mod p = 1" "\<And>i. 0 < i \<Longrightarrow> i < d \<Longrightarrow> g ^ i mod p \<noteq> 1"
proof -
  let ?O = "\<lambda>d. 0 < d \<and> g ^ d mod p = 1"
  define d where "d = (LEAST d. ?O d)"
  have d: "0 < d" "g ^ d mod p = 1" using LeastI [of ?O n] assms(2,3) by (auto simp: d_def)
  have least: "g ^ i mod p \<noteq> 1" if "0 < i" "i < d" for i using not_less_Least [of i ?O] that by (auto simp: d_def)
  have "g ^ n = (g ^ d) ^ (n div d) * g ^ (n mod d)" by (simp flip: power_add power_mult)
  then have "1 = ((g ^ d) ^ (n div d) * g ^ (n mod d)) mod p" using assms(2) by simp
  also have "\<dots> = ((g ^ d mod p) ^ (n div d) * g ^ (n mod d)) mod p"
    using mod_mult_cong [OF power_mod [of "g ^ d" p "n div d"] refl] by (rule sym)
  also have "\<dots> = g ^ (n mod d) mod p" by (simp add: d)
  finally have "n mod d = 0" using least [of "n mod d"] d(1) by (metis gr0I mod_less_divisor)
  then have "d dvd n" by (simp add: dvd_eq_mod_eq_0)
  then show ?thesis using that d least by blast
qed

lemma generator_fermat:
  fixes g p :: nat
  assumes p: "2 < p" and n: "g ^ (p - 1) mod p = 1" and prime: "\<And>m. 1 < m \<Longrightarrow> m dvd p - 1 \<Longrightarrow> 2 dvd m \<or> r dvd m"
    and 2: "g ^ ((p - 1) div 2) mod p \<noteq> 1" and r: "r dvd p - 1" "g ^ ((p - 1) div r) mod p \<noteq> 1" and even: "2 dvd p - 1"
  shows "fermat p"
proof -
  have p1: "1 < p" "0 < p - 1" using p by simp_all
  obtain d where d: "0 < d" "d dvd p - 1" "g ^ d mod p = 1" "\<And>i. 0 < i \<Longrightarrow> i < d \<Longrightarrow> g ^ i mod p \<noteq> 1"
    using order_divides [OF p1(1) n p1(2)] by metis
  have mult: "g ^ (d * j) mod p = 1" for j unfolding power_mult by (rule mod_pow_1 [OF d(3) p1(1)])
  have "d = p - 1"
  proof (rule ccontr)
    assume ne: "d \<noteq> p - 1"
    obtain m where m: "p - 1 = d * m" using d(2) by (elim dvdE)
    have "m \<noteq> 0" "m \<noteq> 1" using m ne p1(2) by (auto intro: gr0I)
    then have "1 < m" by simp
    then have "2 dvd m \<or> r dvd m" using prime m by simp
    then obtain s where s: "s = 2 \<or> s = r" "s dvd m" by blast
    then obtain j where j: "m = s * j" by (elim dvdE)
    have "0 < s" using j \<open>m \<noteq> 0\<close> by (intro gr0I) simp
    then have "(p - 1) div s = d * j" unfolding m j by (metis mult.left_commute nonzero_mult_div_cancel_left not_gr_zero)
    then show False using mult [of j] s(1) 2 r(2) by auto
  qed
  note least = d(4) [unfolded this]
  have cop: "coprime g p"
  proof (rule coprimeI)
    fix c assume "c dvd g" "c dvd p"
    then have "c dvd g ^ (p - 1) mod p" using p1(2) by (intro dvd_mod) (meson dvd_power dvd_trans)+
    then show "is_unit c" unfolding n .
  qed
  have unit: "g ^ i mod p \<noteq> 0" for i
  proof
    assume "g ^ i mod p = 0"
    then have "p dvd g ^ i" by (simp add: dvd_eq_mod_eq_0)
    moreover have "coprime p (g ^ i)" using cop by (simp add: coprime_commute)
    ultimately have "is_unit p" by (metis coprime_common_divisor dvd_refl)
    then show False using p by simp
  qed
  have ne: "g ^ i mod p \<noteq> g ^ j mod p" if "i < j" "j < p - 1" for i j
  proof
    assume e: "g ^ i mod p = g ^ j mod p"
    have "(1 * g ^ i) mod p = (g ^ (j - i) * g ^ i) mod p" using e that(1) by (simp flip: power_add)
    then have "1 mod p = g ^ (j - i) mod p" by (rule mod_cancel) (use cop in simp)
    then have "g ^ (j - i) mod p = 1" using p1(1) by (simp only: mod_less)
    moreover have "0 < j - i" "j - i < p - 1" using that by simp_all
    ultimately show False using least by blast
  qed
  have inj: "inj_on (\<lambda>i. g ^ i mod p) {..<p - 1}"
    by (rule inj_onI) (metis ne lessThan_iff linorder_neqE_nat)
  have "(\<lambda>i. g ^ i mod p) ` {..<p - 1} = {1..<p}"
  proof (rule card_subset_eq)
    show "(\<lambda>i. g ^ i mod p) ` {..<p - 1} \<subseteq> {1..<p}" using unit p1 by (auto simp: Suc_le_eq)
    show "card ((\<lambda>i. g ^ i mod p) ` {..<p - 1}) = card {1..<p}" unfolding card_image [OF inj] by simp
  qed simp
  note surj = this
  show ?thesis
    unfolding fermat_def
  proof (intro allI impI)
    fix v assume "\<not> p dvd v"
    then have "v mod p \<in> {1..<p}" using p1 by (simp add: dvd_eq_mod_eq_0 Suc_le_eq)
    then have "v mod p \<in> (\<lambda>i. g ^ i mod p) ` {..<p - 1}" unfolding surj .
    then obtain i where i: "v mod p = g ^ i mod p" by (elim imageE)
    have "v ^ (p - 1) mod p = (g ^ i) ^ (p - 1) mod p" by (rule mod_pow_cong [OF i])
    also have "\<dots> = (g ^ (p - 1)) ^ i mod p" by (simp only: power_mult [symmetric] mult.commute [of i])
    also have "\<dots> = 1" by (rule mod_pow_1 [OF n p1(1)])
    finally show "v ^ (p - 1) mod p = 1" .
  qed
qed

lemma prime_divisor:
  fixes m :: nat
  assumes "m dvd 2 ^ a * 5 ^ b" and "1 < m"
  shows "2 dvd m \<or> 5 dvd m"
proof (rule ccontr)
  assume n: "\<not> (2 dvd m \<or> 5 dvd m)"
  have "coprime m 5"
  proof (rule coprimeI)
    fix c :: nat assume c: "c dvd m" "c dvd 5"
    have "c \<le> 5" using c(2) by (rule dvd_imp_le) simp
    then have "c = 0 \<or> c = 1 \<or> c = 2 \<or> c = 3 \<or> c = 4 \<or> c = 5" by arith
    then show "is_unit c" using c n by (elim disjE) auto
  qed
  then have "coprime m (2 ^ a * 5 ^ b)" using n by simp
  then have "is_unit m" using assms(1) by (metis coprime_common_divisor dvd_refl)
  then show False using assms(2) by simp
qed

section \<open>Each operation undoes the other\<close>

lemma crt_unique:
  fixes a b P Q :: nat
  assumes "coprime P Q" and "a mod P = b mod P" and "a mod Q = b mod Q"
  shows "a mod (P * Q) = b mod (P * Q)"
proof -
  have "int P dvd int a - int b" "int Q dvd int a - int b"
    using assms(2,3) by (metis mod_eq_dvd_iff of_nat_mod)+
  moreover have "coprime (int P) (int Q)" using assms(1) by simp
  ultimately have "int (P * Q) dvd int a - int b" by (simp add: divides_mult)
  then have "int a mod int (P * Q) = int b mod int (P * Q)" by (simp only: mod_eq_dvd_iff)
  then have "int (a mod (P * Q)) = int (b mod (P * Q))" by (simp only: of_nat_mod)
  then show ?thesis by (simp only: of_nat_eq_iff)
qed

lemma rsa_pairD:
  assumes "rsa_pair pk sk"
  shows "key_N pk = key_P sk * key_Q sk" "odd_factors sk" "coprime (key_P sk) (key_Q sk)" "(key_IQ sk * key_Q sk) mod key_P sk = 1"
    "odd (key_N pk)" "1 < key_N pk" "v ^ (key_E pk * key_DP sk) mod key_P sk = v mod key_P sk" "v ^ (key_E pk * key_DQ sk) mod key_Q sk = v mod key_Q sk"
proof -
  show d: "key_N pk = key_P sk * key_Q sk" "odd_factors sk" "(key_IQ sk * key_Q sk) mod key_P sk = 1"
    "v ^ (key_E pk * key_DP sk) mod key_P sk = v mod key_P sk" "v ^ (key_E pk * key_DQ sk) mod key_Q sk = v mod key_Q sk"
    using assms by (simp_all add: rsa_pair_def)
  show "coprime (key_P sk) (key_Q sk)"
  proof (rule coprimeI)
    fix c assume "c dvd key_P sk" "c dvd key_Q sk"
    then have "c dvd (key_IQ sk * key_Q sk) mod key_P sk" by (intro dvd_mod dvd_mult)
    then show "is_unit c" unfolding d(3) .
  qed
  have o: "odd (key_P sk)" "1 < key_P sk" "odd (key_Q sk)" "1 < key_Q sk" using d(2) by (simp_all add: odd_factors_def)
  show "odd (key_N pk)" using o d(1) by simp
  have "1 * 1 < key_P sk * key_Q sk" using o by (intro mult_strict_mono) auto
  then show "1 < key_N pk" using d(1) by simp
qed

lemma public_of_private:
  assumes p: "rsa_pair pk sk" and V: "V mod key_P sk = X ^ key_DP sk mod key_P sk" "V mod key_Q sk = X ^ key_DQ sk mod key_Q sk" and X: "X < key_N pk"
  shows "V ^ key_E pk mod key_N pk = X"
proof -
  note pD = rsa_pairD [OF p]
  have e: "V ^ key_E pk mod M = X mod M" if "V mod M = X ^ D mod M" "X ^ (key_E pk * D) mod M = X mod M" for M D
  proof -
    have "V ^ key_E pk mod M = (X ^ D) ^ key_E pk mod M" by (rule mod_pow_cong [OF that(1)])
    also have "(X ^ D) ^ key_E pk = X ^ (key_E pk * D)" by (simp only: power_mult [symmetric] mult.commute)
    finally show ?thesis using that(2) by simp
  qed
  have "V ^ key_E pk mod (key_P sk * key_Q sk) = X mod (key_P sk * key_Q sk)"
    by (rule crt_unique [OF pD(3) e [OF V(1) pD(7)] e [OF V(2) pD(8)]])
  then show ?thesis using X pD(1) by simp
qed

lemma private_of_public:
  assumes p: "rsa_pair pk sk" and V: "V = X ^ key_E pk mod key_N pk" and X: "X < key_N pk"
    and W: "W mod key_P sk = V ^ key_DP sk mod key_P sk" "W mod key_Q sk = V ^ key_DQ sk mod key_Q sk" "W < key_N pk"
  shows "W = X"
proof -
  note pD = rsa_pairD [OF p]
  have e: "W mod M = X mod M" if "M dvd key_N pk" "W mod M = V ^ D mod M" "X ^ (key_E pk * D) mod M = X mod M" for M D
  proof -
    have "V mod M = X ^ key_E pk mod M" unfolding V by (rule mod_mod_cancel [OF that(1)])
    then have "V ^ D mod M = (X ^ key_E pk) ^ D mod M" by (rule mod_pow_cong)
    then show ?thesis using that(2,3) by (simp add: power_mult)
  qed
  have d: "key_P sk dvd key_N pk" "key_Q sk dvd key_N pk" unfolding pD(1) by simp_all
  have "W mod (key_P sk * key_Q sk) = X mod (key_P sk * key_Q sk)"
    by (rule crt_unique [OF pD(3) e [OF d(1) W(1) pD(7)] e [OF d(2) W(2) pD(8)]])
  then show ?thesis using X W(3) pD(1) by simp
qed

text \<open>The private-key operation with a key that has a public counterpart.\<close>

lemma ok_private_pair:
  assumes p: "rsa_pair pk sk" and a: "priv_args sk tmp" and sz: "nbytes (key_P sk) \<le> 352" "nbytes (key_Q sk) \<le> 352"
    and len: "len = nbytes (key_N pk)" "len \<le> alen x" and X: "X = be_val (take len (cells x))" "X < key_N pk"
    and R: "\<And>x'. alen x' = alen x \<Longrightarrow> (\<forall>i\<ge>len. cells x' ! i = cells x ! i) \<Longrightarrow> be_val (take len (cells x')) < key_N pk \<Longrightarrow>
      be_val (take len (cells x')) mod key_P sk = X ^ key_DP sk mod key_P sk \<Longrightarrow>
      be_val (take len (cells x')) mod key_Q sk = X ^ key_DQ sk mod key_Q sk \<Longrightarrow> R (1, x')"
  shows "ok (br_rsa_i31_private x sk tmp) R"
proof -
  note pD = rsa_pairD [OF p]
  show ?thesis
    by (rule ok_br_rsa_i31_private [OF a pD(2) _ len(1) [unfolded pD(1)] X(1)])
      (use len X(2) sz R pD(1,4) in auto)
qed

lemma xlen_of_key:
  assumes "priv_args sk tmp"
  shows "unat (shr (sk_n_bitlen sk + 7) 3) = nbytes (key_P sk * key_Q sk)"
  using assms by (simp add: priv_args_def unat_drop_bit unat_word_ariths nbytes_def)

section \<open>Signatures\<close>

lemma nbytes_ge: "0 < v \<Longrightarrow> 256 ^ (nbytes v - 1) \<le> v"
proof -
  assume v: "0 < v"
  have "\<not> nbits v \<le> 0" using v unfolding nbits_le_iff by simp
  then have "8 * ((nbits v + 7) div 8 - 1) \<le> nbits v - 1" by linarith
  then have "(2 :: nat) ^ (8 * (nbytes v - 1)) \<le> 2 ^ (nbits v - 1)" unfolding nbytes_def by (intro power_increasing) auto
  also have "\<dots> \<le> v"
  proof -
    have "\<not> nbits v \<le> nbits v - 1" using \<open>\<not> nbits v \<le> 0\<close> by linarith
    then show ?thesis unfolding nbits_le_iff by simp
  qed
  finally show ?thesis by (simp only: pow256)
qed

lemma leading_zero_below:
  assumes "length em = nbytes N" and "0 < N" and "em = 0 # em'"
  shows "be_val em < N"
proof -
  have "be_val em = be_val em'" unfolding assms(3) by (simp add: be_val_Cons)
  also have "\<dots> < 256 ^ length em'" by (rule be_val_less)
  also have "length em' = nbytes N - 1" unfolding assms(1) [symmetric] assms(3) by simp
  also have "256 ^ (nbytes N - 1) \<le> N" by (rule nbytes_ge [OF assms(2)])
  finally show ?thesis .
qed

lemma sig_pad_length:
  "br_rsa_pkcs1_sig_pad oid hash n = Some em \<Longrightarrow> oid_ok oid \<Longrightarrow> length em = unat (shr (n + 7) 3) \<and> hd em = 0 \<and> em \<noteq> [] \<and> length hash \<le> length em"
  by (auto simp: br_rsa_pkcs1_sig_pad_def oid_ok_def Let_def split: option.splits if_splits)

lemma take_splice_0: "length ys \<le> length xs \<Longrightarrow> take (length ys) (splice xs 0 ys) = ys"
  by (simp add: splice_def)

lemma ok_sign_verify:
  assumes pair: "rsa_pair pk sk" and a: "pub_args pk tmp" "priv_args sk tmp'" and sz: "nbytes (key_P sk) \<le> 352" "nbytes (key_Q sk) \<le> 352" "nbytes (key_N pk) \<le> 512"
    and x: "nbytes (key_N pk) \<le> alen x" and sig: "alen sig = 512" and oid: "oid_ok oid" and hash: "length hash < 2 ^ 60"
  shows "ok (do { (r, s) \<leftarrow> br_rsa_i31_pkcs1_sign oid hash sk x tmp';
      v \<leftarrow> br_rsa_i31_pkcs1_vrfy s (nbytes (key_N pk)) oid (length hash) pk sig tmp;
      ret (r, s, v) })
    (\<lambda>(r, s, v). if br_rsa_pkcs1_sig_pad oid hash (sk_n_bitlen sk) = None then r = 0 \<and> s = x else r = 1 \<and> alen s = alen x \<and> v = Some hash)"
proof -
  note pD = rsa_pairD [OF pair]
  let ?N = "key_N pk" and ?l = "nbytes (key_N pk)"
  have V: "ok (br_rsa_i31_pkcs1_vrfy s ?l oid (length hash) pk sig tmp) (\<lambda>res. \<forall>h. res = Some h \<longleftrightarrow>
      ?l = nbytes ?N \<and> ?l \<le> 512 \<and> odd ?N \<and> be_val (take ?l (cells s)) < ?N \<and> length h = length hash \<and>
      (\<exists>k\<ge>8. \<exists>null. length (pkcs1_encoding oid null k h) = ?l \<and>
         be_val (pkcs1_encoding oid null k h) = be_val (take ?l (cells s)) ^ key_E pk mod ?N))" if "alen s = alen x" for s
    by (rule ok_br_rsa_i31_pkcs1_vrfy [OF a(1) sig _ oid hash]) (use that x in simp)
  show ?thesis
  proof (cases "br_rsa_pkcs1_sig_pad oid hash (sk_n_bitlen sk)")
    case None
    then show ?thesis unfolding br_rsa_i31_pkcs1_sign_def by (simp, intro ok_bind ok_ret ok_weaken [OF V]) simp_all
  next
    case (Some em)
    have em: "length em = ?l" "hd em = 0" "em \<noteq> []" using sig_pad_length [OF Some oid] xlen_of_key [OF a(2)] pD(1) by simp_all
    obtain k where k: "8 \<le> k" "em = pkcs1_encoding oid True k hash" using sig_pad_encoding [OF Some] by blast
    let ?x = "x\<lparr>cells := splice (cells x) 0 em\<rparr>"
    have x': "alen ?x = alen x" "?l \<le> alen ?x" using em x by simp_all
    have X: "be_val em = be_val (take ?l (cells ?x))" using take_splice_0 [of em "cells x"] em(1) x by simp
    have lt: "be_val em < ?N" by (rule leading_zero_below [of _ _ "tl em"]) (use em pD(6) list.collapse [of em] in auto)
    show ?thesis
      unfolding br_rsa_i31_pkcs1_sign_def Some option.case
    proof (rule ok_bind, rule ok_private_pair [OF pair a(2) sz(1,2) refl x'(2) X lt], unfold prod.case, rule ok_bind, rule ok_weaken [OF V], use x' in simp, rule ok_ret)
      fix s :: "u8 arr" and v
      assume s: "alen s = alen ?x" "be_val (take ?l (cells s)) < ?N" "be_val (take ?l (cells s)) mod key_P sk = be_val em ^ key_DP sk mod key_P sk"
        "be_val (take ?l (cells s)) mod key_Q sk = be_val em ^ key_DQ sk mod key_Q sk"
      assume v: "\<forall>h. v = Some h \<longleftrightarrow> ?l = nbytes ?N \<and> ?l \<le> 512 \<and> odd ?N \<and> be_val (take ?l (cells s)) < ?N \<and> length h = length hash \<and>
        (\<exists>k\<ge>8. \<exists>null. length (pkcs1_encoding oid null k h) = ?l \<and> be_val (pkcs1_encoding oid null k h) = be_val (take ?l (cells s)) ^ key_E pk mod ?N)"
      have "be_val (take ?l (cells s)) ^ key_E pk mod ?N = be_val em" by (rule public_of_private [OF pair s(3,4) lt])
      then have "v = Some hash" using v sz(3) pD(5) s(2) k em(1) by auto
      then show "case (1 :: u32, s, v) of (r, s, v) \<Rightarrow> if Some em = None then r = 0 \<and> s = x else r = 1 \<and> alen s = alen x \<and> v = Some hash"
        using s(1) x' by simp
    qed
  qed
qed

section \<open>OAEP\<close>

lemma and_1_cases: "(x :: u32) AND 1 = 0 \<or> x AND 1 = 1"
proof (cases "odd (unat x)")
  case True
  then show ?thesis by (simp add: odd_and_1)
next
  case False
  then have "unat (x AND 1) = 0" by (simp add: and_one_eq unat_mod even_iff_mod_2_eq_zero)
  then show ?thesis by (simp add: unat_eq_zero)
qed

lemma and_of_bool_cases: "(x :: u32) AND of_bool c = 0 \<or> x AND of_bool c = 1"
  using and_1_cases [of x] by (cases c) simp_all

lemma unpad_flag: "br_rsa_oaep_unpad dig label buf = (s, b, l) \<Longrightarrow> s = 0 \<or> s = 1"
  using and_of_bool_cases by (auto simp: br_rsa_oaep_unpad_def Let_def split: prod.splits if_splits)

lemma last_odd: "odd (be_val bs) \<Longrightarrow> bs \<noteq> [] \<and> last bs \<noteq> 0"
  by (cases bs rule: rev_cases) (auto simp: be_val_snoc)

text \<open>The encoded message of a public key: its first byte is 0 and it is as long as the array of the modulus.\<close>

context hash_impl
begin

lemma unpad_lengths:
  assumes "br_rsa_oaep_unpad dig label buf = (s, b, l)" and "2 * br_digest_size dig + 2 \<le> length buf"
  shows "length b = length buf" "l \<le> length buf"
proof -
  let ?h = "br_digest_size dig"
  have x: "length (xor_hash_data dig d label) = length d" if "?h \<le> length d" for d
    using out [OF update [OF init [of "hc_ctx dig"]], of label] that by (simp add: xor_hash_data_def Let_def digest_length)
  show "length b = length buf" "l \<le> length buf"
    using assms by (auto simp: br_rsa_oaep_unpad_def Let_def length_mgf1 x split: prod.splits if_splits)
qed

lemma oaep_pad_key:
  assumes "odd (be_val n)" and "2 * br_digest_size dig + 2 + length src \<le> length n" and "length n \<le> dml"
    and "length (snd (generate rnd (br_digest_size dig))) = br_digest_size dig"
  obtains rnd' em where "br_rsa_oaep_pad generate rnd dig label n dml src = (rnd', Some em)" "length em = length n" "em = 0 # tl em"
    "\<exists>seed z. length seed = br_digest_size dig \<and> em = oaep_encode digest label seed z src"
proof -
  have k: "oaep_modulus_len n (length n) = length n" using last_odd [OF assms(1)] oaep_modulus_len_last by blast
  obtain rnd' r where r: "br_rsa_oaep_pad generate rnd dig label n dml src = (rnd', r)" by (rule prod.exhaust)
  have "r \<noteq> None" using r assms(2,3) by (auto simp: br_rsa_oaep_pad_def Let_def k split: prod.splits if_splits)
  then obtain em where em: "br_rsa_oaep_pad generate rnd dig label n dml src = (rnd', Some em)" using r by blast
  note p = oaep_pad_encodes [OF em assms(4), unfolded k]
  have "em = oaep_encode digest label (snd (generate rnd (br_digest_size dig))) (length em - length src - 2 * br_digest_size dig - 2) src" using p by blast
  moreover have "oaep_encode digest label s z src = 0 # tl (oaep_encode digest label s z src)" for s z by (simp add: oaep_encode_def Let_def)
  ultimately have "em = 0 # tl em" by metis
  then show ?thesis using that em p assms(4) by blast
qed

lemma ok_encrypt_decrypt:
  assumes pair: "rsa_pair pk sk" and a: "pub_args pk tmp" "priv_args sk tmp'" and sz: "nbytes (key_P sk) \<le> 352" "nbytes (key_Q sk) \<le> 352" "nbytes (key_N pk) \<le> 512"
    and g: "length (snd (generate rnd (br_digest_size dig))) = br_digest_size dig"
    and k: "2 * br_digest_size dig + 2 + length src \<le> pk_nlen pk" "pk_nlen pk \<le> dml" "dml \<le> alen dst"
  shows "ok (do { (rnd', r, dst) \<leftarrow> br_rsa_i31_oaep_encrypt generate rnd dig label pk dst dml src tmp;
      (d, buf, len) \<leftarrow> br_rsa_i31_oaep_decrypt dig label sk dst (unat r) tmp';
      ret (r, oaep_message (d, buf, len)) })
    (\<lambda>(r, m). if pk_nlen pk = nbytes (key_N pk) then unat r = nbytes (key_N pk) \<and> m = Some src else r = 0 \<and> m = None)"
proof -
  note pD = rsa_pairD [OF pair]
  let ?N = "key_N pk" and ?l = "nbytes (key_N pk)" and ?n = "take (pk_nlen pk) (cells (pk_n pk))"
  have args: "alen tmp = 1 + pub_TLEN" "pk_nlen pk \<le> alen (pk_n pk)" "pk_elen pk \<le> alen (pk_e pk)" using a(1) by (auto simp: pub_args_def)
  have ln: "length ?n = pk_nlen pk" using args(2) by simp
  obtain rnd' em where em: "br_rsa_oaep_pad generate rnd dig label ?n dml src = (rnd', Some em)" "length em = pk_nlen pk" "em = 0 # tl em"
    "\<exists>seed z. length seed = br_digest_size dig \<and> em = oaep_encode digest label seed z src"
    using oaep_pad_key [where n = ?n and src = src and dml = dml and label = label and generate = generate and rnd = rnd] pD(5) g k(1,2) unfolding ln by metis
  let ?x = "dst\<lparr>cells := splice (cells dst) 0 em\<rparr>"
  have x: "alen ?x = alen dst" "length em \<le> alen ?x" using em(2) k by simp_all
  have X: "be_val em = be_val (take (length em) (cells ?x))" using take_splice_0 [of em "cells dst"] em(2) k by simp
  have xl: "unat (shr (sk_n_bitlen sk + 7) 3) = ?l" using xlen_of_key [OF a(2)] pD(1) by simp
  have l0: "0 < ?l" using nbits_nbytes [of ?N] pD(6) nbits_le_iff [of ?N 0] by (intro gr0I) simp
  show ?thesis
    unfolding br_rsa_i31_oaep_encrypt_def em(1) prod.case option.case Let_def bind_assoc
  proof (rule ok_bind, rule ok_br_rsa_i31_public [OF args x(2) refl X], unfold prod.case)
    assume bad: "?N = 0 \<or> 512 < nbytes ?N \<or> length em \<noteq> nbytes ?N"
    then have ne: "pk_nlen pk \<noteq> ?l" using pD(6) sz(3) em(2) by auto
    show "ok (do { (rnd', r, dst) \<leftarrow> ret (rnd', of_nat (length em) AND - ucast (0 :: u32) :: u64, ?x);
        (d, buf, len) \<leftarrow> br_rsa_i31_oaep_decrypt dig label sk dst (unat r) tmp';
        ret (r, oaep_message (d, buf, len)) })
      (\<lambda>(r, m). if pk_nlen pk = ?l then unat r = ?l \<and> m = Some src else r = 0 \<and> m = None)"
      using ne l0 by (simp add: br_rsa_i31_oaep_decrypt_def xl, intro ok_bind ok_branch ok_ret) (simp_all add: oaep_message_def ok_ret)
  next
    fix y :: "u8 arr"
    assume y: "length em = nbytes ?N" "alen y = alen ?x" "odd ?N \<Longrightarrow> 1 < ?N \<Longrightarrow> be_val em < ?N \<Longrightarrow> be_val (take (length em) (cells y)) = be_val em ^ key_E pk mod ?N"
    have lt: "be_val em < ?N" by (rule leading_zero_below [OF y(1) _ em(3)]) (use pD(6) in simp)
    have v: "be_val (take ?l (cells y)) = be_val em ^ key_E pk mod ?N" using y(3) [OF pD(5,6) lt] y(1) by simp
    have vl: "be_val em ^ key_E pk mod ?N < ?N" using pD(6) by simp
    have ly: "?l \<le> alen y" using y(1,2) x by simp
    have r: "unat (of_nat (length em) AND - ucast (of_bool (odd ?N \<and> be_val em < ?N) :: u32) :: u64) = ?l"
      using pD(5) lt y(1) sz(3) by (simp add: unat_of_nat take_bit_nat_eq_self)
    show "ok (do { (rnd', r, dst) \<leftarrow> ret (rnd', of_nat (length em) AND - ucast (of_bool (odd ?N \<and> be_val em < ?N) :: u32) :: u64, y);
        (d, buf, len) \<leftarrow> br_rsa_i31_oaep_decrypt dig label sk dst (unat r) tmp';
        ret (r, oaep_message (d, buf, len)) })
      (\<lambda>(r, m). if pk_nlen pk = ?l then unat r = ?l \<and> m = Some src else r = 0 \<and> m = None)"
      unfolding br_rsa_i31_oaep_decrypt_def xl
    proof (rule ok_bind, rule ok_ret, unfold prod.case r, rule ok_bind, rule ok_branch, simp, rule ok_bind,
        rule ok_private_pair [OF pair a(2) sz(1,2) refl ly v [symmetric] vl], unfold prod.case)
      fix w :: "u8 arr"
      assume w: "alen w = alen y" "be_val (take ?l (cells w)) < ?N" "be_val (take ?l (cells w)) mod key_P sk = (be_val em ^ key_E pk mod ?N) ^ key_DP sk mod key_P sk"
        "be_val (take ?l (cells w)) mod key_Q sk = (be_val em ^ key_E pk mod ?N) ^ key_DQ sk mod key_Q sk"
      have "be_val (take ?l (cells w)) = be_val em" by (rule private_of_public [OF pair refl lt w(3,4,2)])
      then have e: "take ?l (cells w) = em" using be_val_inj [of "take ?l (cells w)" em] w(1) ly y(1) by simp
      obtain s b len where u: "br_rsa_oaep_unpad dig label em = (s, b, len)" by (rule prod_cases3)
      have le: "2 * br_digest_size dig + 2 \<le> length em" using k(1) em(2) by simp
      have "oaep_message (s, b, len) = Some src"
        using oaep_message_iff [of em label src] em(4) le y(1) sz(3) unfolding u [symmetric] by auto
      then have m: "oaep_message (1 AND s, b @ drop (length b) (cells w), len) = Some src"
        using unpad_flag [OF u] unpad_lengths [OF u le] by (auto simp: oaep_message_def split: if_splits)
      have pk: "pk_nlen pk = ?l" using em(2) y(1) by simp
      show "ok (let (r', buf, len) = br_rsa_oaep_unpad dig label (take ?l (cells w)) in ret (1 AND r', buf @ drop (length buf) (cells w), len))
        (\<lambda>z. ok (case z of (d, buf, len) \<Rightarrow> ret (of_nat (length em) AND - ucast (of_bool (odd ?N \<and> be_val em < ?N) :: u32) :: u64, oaep_message (d, buf, len)))
          (\<lambda>(r, m). if pk_nlen pk = ?l then unat r = ?l \<and> m = Some src else r = 0 \<and> m = None))"
        unfolding e u Let_def prod.case by (rule ok_ret, unfold prod.case m, rule ok_ret, unfold prod.case if_P [OF pk] r) simp
    qed
  qed
qed

end


section \<open>Properties\<close>

text \<open>C2. \<^bold>\<open>Signatures verify.\<close> For a pair of keys with factors of at most 352 bytes and a modulus of at most 512 bytes, \<open>br_rsa_i31_pkcs1_sign\<close> returns 0 with
  the buffer untouched when the hash value does not fit; otherwise it returns 1 and \<open>br_rsa_i31_pkcs1_vrfy\<close> recovers the hash value from
  what it wrote. Both stay in their arrays.\<close>

theorem rsa_sign_verify:
  assumes "rsa_pair pk sk" and "pub_args pk tmp" and "priv_args sk tmp'" and "nbytes (key_P sk) \<le> 352" and "nbytes (key_Q sk) \<le> 352"
    and "nbytes (key_N pk) \<le> 512" and "nbytes (key_N pk) \<le> alen x" and "alen sig = 512" and "oid_ok oid" and "length hash < 2 ^ 60"
  shows "ok (do { (r, s) \<leftarrow> br_rsa_i31_pkcs1_sign oid hash sk x tmp';
      v \<leftarrow> br_rsa_i31_pkcs1_vrfy s (nbytes (key_N pk)) oid (length hash) pk sig tmp;
      ret (r, s, v) })
    (\<lambda>(r, s, v). if br_rsa_pkcs1_sig_pad oid hash (sk_n_bitlen sk) = None then r = 0 \<and> s = x else r = 1 \<and> alen s = alen x \<and> v = Some hash)"
  by (rule ok_sign_verify [OF assms])

text \<open>A pair of keys with prime factors \<open>2 ^ 31 * 5 ^ 7 + 1\<close> and \<open>2 ^ 20 * 5 ^ 12 + 1\<close> and the public exponent 3. Powers are evaluated by
  repeated squaring.\<close>

definition sq_step :: "nat \<Rightarrow> nat \<Rightarrow> bool \<Rightarrow> nat \<Rightarrow> nat" where
  "sq_step g m b h = (if b then g * (h * h) mod m else h * h mod m)"

primrec powmod :: "nat \<Rightarrow> nat \<Rightarrow> bool list \<Rightarrow> nat" where
  "powmod g m [] = 1 mod m"
| "powmod g m (b # bs) = sq_step g m b (powmod g m bs)"

primrec bits_val :: "bool list \<Rightarrow> nat" where
  "bits_val [] = 0"
| "bits_val (b # bs) = of_bool b + 2 * bits_val bs"

lemma powmod_eq: "powmod g m bs = g ^ bits_val bs mod m"
proof (induction bs)
  case (Cons b bs)
  define x where "x = g ^ bits_val bs"
  have e: "g ^ bits_val (b # bs) = (if b then g * (x * x) else x * x)" by (simp add: x_def mult_2 power_add)
  have h: "(x mod m) * (x mod m) mod m = x * x mod m" by (rule mod_mult_eq)
  have "g * ((x mod m) * (x mod m)) mod m = g * (x * x) mod m"
    using h mod_mult_right_eq [of g "(x mod m) * (x mod m)" m] mod_mult_right_eq [of g "x * x" m] by simp
  then show ?case unfolding e powmod.simps Cons x_def [symmetric] sq_step_def using h by simp
qed simp

lemma power_bits: "bits_val bs = n \<Longrightarrow> powmod g m bs = r \<Longrightarrow> g ^ n mod m = r"
  by (simp add: powmod_eq)

lemma fermat_P: "fermat 167772160000001"
proof (rule generator_fermat [where g = 3 and r = 5])
  have n: "(167772160000001 :: nat) - 1 = 167772160000000" "(167772160000001 - 1) div 2 = (83886080000000 :: nat)" "(167772160000001 - 1) div 5 = (33554432000000 :: nat)" by simp_all
  show "(3 :: nat) ^ (167772160000001 - 1) mod 167772160000001 = 1" unfolding n
    by (rule power_bits [where bs = "[False, False, False, False, False, False, False, False, False, False, False, False, False, False, False, False, False, False, False, False, False, False, False, False, False, False, False, False, False, False, False, True, False, True, True, False, True, False, False, True, False, False, False, True, True, False, False, True]"]) (simp_all add: sq_step_def)
  show "(3 :: nat) ^ ((167772160000001 - 1) div 2) mod 167772160000001 \<noteq> 1" unfolding n
    by (subst power_bits [where bs = "[False, False, False, False, False, False, False, False, False, False, False, False, False, False, False, False, False, False, False, False, False, False, False, False, False, False, False, False, False, False, True, False, True, True, False, True, False, False, True, False, False, False, True, True, False, False, True]" and r = 167772160000000]) (simp_all add: sq_step_def)
  show "(3 :: nat) ^ ((167772160000001 - 1) div 5) mod 167772160000001 \<noteq> 1" unfolding n
    by (subst power_bits [where bs = "[False, False, False, False, False, False, False, False, False, False, False, False, False, False, False, False, False, False, False, False, False, False, False, False, False, False, False, False, False, False, False, True, False, False, True, False, False, False, False, True, False, True, True, True, True]" and r = 144376136570892]) (simp_all add: sq_step_def)
  show "2 dvd m \<or> 5 dvd m" if "1 < m" "m dvd 167772160000001 - 1" for m :: nat
    by (rule prime_divisor [where a = 31 and b = 7]) (use that in simp_all)
qed simp_all

lemma fermat_Q: "fermat 256000000000001"
proof (rule generator_fermat [where g = 7 and r = 5])
  have n: "(256000000000001 :: nat) - 1 = 256000000000000" "(256000000000001 - 1) div 2 = (128000000000000 :: nat)" "(256000000000001 - 1) div 5 = (51200000000000 :: nat)" by simp_all
  show "(7 :: nat) ^ (256000000000001 - 1) mod 256000000000001 = 1" unfolding n
    by (rule power_bits [where bs = "[False, False, False, False, False, False, False, False, False, False, False, False, False, False, False, False, False, False, False, False, True, False, False, False, True, False, True, False, False, True, False, True, False, False, True, False, True, False, True, True, False, False, False, True, False, True, True, True]"]) (simp_all add: sq_step_def)
  show "(7 :: nat) ^ ((256000000000001 - 1) div 2) mod 256000000000001 \<noteq> 1" unfolding n
    by (subst power_bits [where bs = "[False, False, False, False, False, False, False, False, False, False, False, False, False, False, False, False, False, False, False, True, False, False, False, True, False, True, False, False, True, False, True, False, False, True, False, True, False, True, True, False, False, False, True, False, True, True, True]" and r = 256000000000000]) (simp_all add: sq_step_def)
  show "(7 :: nat) ^ ((256000000000001 - 1) div 5) mod 256000000000001 \<noteq> 1" unfolding n
    by (subst power_bits [where bs = "[False, False, False, False, False, False, False, False, False, False, False, False, False, False, False, False, False, False, False, False, True, False, True, True, True, False, True, True, False, True, True, True, False, False, False, False, True, False, False, True, False, True, True, True, False, True]" and r = 45697612503850]) (simp_all add: sq_step_def)
  show "2 dvd m \<or> 5 dvd m" if "1 < m" "m dvd 256000000000001 - 1" for m :: nat
    by (rule prime_divisor [where a = 20 and b = 12]) (use that in simp_all)
qed simp_all

abbreviation ex_sk96 :: br_rsa_private_key where
  "ex_sk96 \<equiv> \<lparr>sk_n_bitlen = 96, sk_p = \<lparr>blk = 1, cells = [152, 150, 128, 0, 0, 1]\<rparr>, sk_plen = 6, sk_q = \<lparr>blk = 2, cells = [232, 212, 165, 16, 0, 1]\<rparr>, sk_qlen = 6,
    sk_dp = \<lparr>blk = 3, cells = [101, 185, 170, 170, 170, 171]\<rparr>, sk_dplen = 6, sk_dq = \<lparr>blk = 4, cells = [155, 56, 110, 10, 170, 171]\<rparr>, sk_dqlen = 6,
    sk_iq = \<lparr>blk = 5, cells = [50, 75, 193, 33, 10, 55]\<rparr>, sk_iqlen = 6\<rparr>"

abbreviation ex_pk96 :: br_rsa_public_key where
  "ex_pk96 \<equiv> \<lparr>pk_n = \<lparr>blk = 6, cells = [138, 199, 35, 4, 137, 233, 129, 107, 37, 16, 0, 1]\<rparr>, pk_nlen = 12, pk_e = \<lparr>blk = 7, cells = [3]\<rparr>, pk_elen = 1\<rparr>"

lemma ex96_values:
  "key_P ex_sk96 = 167772160000001" "key_Q ex_sk96 = 256000000000001" "key_DP ex_sk96 = 111848106666667" "key_DQ ex_sk96 = 170666666666667"
  "key_IQ ex_sk96 = 55300944103991" "key_N ex_pk96 = 42949672960000423772160000001" "key_E ex_pk96 = 3"
  by (simp_all add: be_val_Cons)

lemma ex96_sizes:
  "nbits 42949672960000423772160000001 = 96" "nbytes 42949672960000423772160000001 = 12" "nbytes 167772160000001 = 6" "nbytes 256000000000001 = 6"
  using nbits_eqI [of 95 42949672960000423772160000001] nbytes_eqI [of 11 42949672960000423772160000001] nbytes_eqI [of 5 167772160000001] nbytes_eqI [of 5 256000000000001] by simp_all

lemma ex96_pair: "rsa_pair ex_pk96 ex_sk96"
  unfolding rsa_pair_def odd_factors_def ex96_values
proof (intro conjI allI)
  show "v ^ (3 * 111848106666667) mod 167772160000001 = v mod (167772160000001 :: nat)" for v
    by (rule fermat_inverse [OF fermat_P, where k = 2]) simp_all
  show "v ^ (3 * 170666666666667) mod 256000000000001 = v mod (256000000000001 :: nat)" for v
    by (rule fermat_inverse [OF fermat_Q, where k = 2]) simp_all
qed simp_all

abbreviation ex_tmp_priv :: "u32 arr" where
  "ex_tmp_priv \<equiv> \<lparr>blk = 30, cells = replicate 561 0xDEADBEEF\<rparr>"

lemma ex96_args: "priv_args ex_sk96 ex_tmp_priv" "pub_args ex_pk96 ex_tmp"
proof -
  show "priv_args ex_sk96 ex_tmp_priv" unfolding priv_args_def ex96_values by (simp add: priv_TLEN ex96_sizes)
  show "pub_args ex_pk96 ex_tmp" by (simp add: pub_args_def pub_TLEN_def BR_MAX_RSA_SIZE_def)
qed

theorem rsa_sign_verify_witness:
  "ok (do { (r, s) \<leftarrow> br_rsa_i31_pkcs1_sign None [0x42] ex_sk96 \<lparr>blk = 8, cells = replicate 12 7\<rparr> ex_tmp_priv;
      v \<leftarrow> br_rsa_i31_pkcs1_vrfy s 12 None 1 ex_pk96 \<lparr>blk = 9, cells = replicate 512 0\<rparr> ex_tmp;
      ret (r, s, v) }) (\<lambda>(r, s, v). r = 1 \<and> v = Some [0x42])"
proof -
  have p: "br_rsa_pkcs1_sig_pad None [0x42] (sk_n_bitlen ex_sk96) \<noteq> None" by (simp add: br_rsa_pkcs1_sig_pad_def)
  have l: "length [0x42 :: u8] = 1" by simp
  show ?thesis
    by (rule ok_weaken [OF rsa_sign_verify [OF ex96_pair ex96_args(2,1), where oid = None and hash = "[0x42]", unfolded ex96_values ex96_sizes l]])
      (use p in \<open>auto simp: oid_ok_def\<close>)
qed


text \<open>C3. \<^bold>\<open>OAEP decryption inverts encryption\<close>, over SHA-256, for a pair of keys and any generator of seeds, when the message fits and the array of the modulus
  has no leading zero byte: \<open>br_rsa_i31_oaep_encrypt\<close> returns the length of the modulus and \<open>br_rsa_i31_oaep_decrypt\<close> the message. With leading zero
  bytes, which \<^verbatim>\<open>bearssl_rsa.h\<close> allows, every encryption fails: the padding strips zeros at the other end of the modulus.\<close>

theorem rsa_oaep_encrypt_decrypt:
  assumes "rsa_pair pk sk" and "pub_args pk tmp" and "priv_args sk tmp'" and "nbytes (key_P sk) \<le> 352" and "nbytes (key_Q sk) \<le> 352"
    and "nbytes (key_N pk) \<le> 512" and "length (snd (generate rnd 32)) = 32" and "66 + length src \<le> pk_nlen pk" and "pk_nlen pk \<le> dml" and "dml \<le> alen dst"
  shows "ok (do { (rnd', r, dst) \<leftarrow> br_rsa_i31_oaep_encrypt generate rnd br_sha256_vtable label pk dst dml src tmp;
      (d, buf, len) \<leftarrow> br_rsa_i31_oaep_decrypt br_sha256_vtable label sk dst (unat r) tmp';
      ret (r, oaep_message (d, buf, len)) })
    (\<lambda>(r, m). if pk_nlen pk = nbytes (key_N pk) then unat r = nbytes (key_N pk) \<and> m = Some src else r = 0 \<and> m = None)"
  by (rule sha256_hash.ok_encrypt_decrypt [OF assms(1-6)]) (use assms(7-10) in \<open>simp_all add: hash_sizes\<close>)

text \<open>The factors \<open>2 ^ 272 - 1\<close> and \<open>2 ^ 272 - 3\<close> with all exponents 1: a modulus of 68 bytes.\<close>

abbreviation ex_sk544 :: br_rsa_private_key where
  "ex_sk544 \<equiv> \<lparr>sk_n_bitlen = 544, sk_p = \<lparr>blk = 1, cells = [255, 255, 255, 255, 255, 255, 255, 255, 255, 255, 255, 255, 255, 255, 255, 255, 255, 255, 255, 255, 255, 255, 255, 255, 255, 255, 255, 255, 255, 255, 255, 255, 255, 255]\<rparr>, sk_plen = 34,
    sk_q = \<lparr>blk = 2, cells = [255, 255, 255, 255, 255, 255, 255, 255, 255, 255, 255, 255, 255, 255, 255, 255, 255, 255, 255, 255, 255, 255, 255, 255, 255, 255, 255, 255, 255, 255, 255, 255, 255, 253]\<rparr>, sk_qlen = 34,
    sk_dp = \<lparr>blk = 3, cells = [1]\<rparr>, sk_dplen = 1, sk_dq = \<lparr>blk = 4, cells = [1]\<rparr>, sk_dqlen = 1,
    sk_iq = \<lparr>blk = 5, cells = [127, 255, 255, 255, 255, 255, 255, 255, 255, 255, 255, 255, 255, 255, 255, 255, 255, 255, 255, 255, 255, 255, 255, 255, 255, 255, 255, 255, 255, 255, 255, 255, 255, 255]\<rparr>, sk_iqlen = 34\<rparr>"

abbreviation ex_pk544 :: br_rsa_public_key where
  "ex_pk544 \<equiv> \<lparr>pk_n = \<lparr>blk = 6, cells = [255, 255, 255, 255, 255, 255, 255, 255, 255, 255, 255, 255, 255, 255, 255, 255, 255, 255, 255, 255, 255, 255, 255, 255, 255, 255, 255, 255, 255, 255, 255, 255, 255, 252, 0, 0, 0, 0, 0, 0, 0, 0, 0, 0, 0, 0, 0, 0, 0, 0, 0, 0, 0, 0, 0, 0, 0, 0, 0, 0, 0, 0, 0, 0, 0, 0, 0, 3]\<rparr>, pk_nlen = 68,
    pk_e = \<lparr>blk = 7, cells = [1]\<rparr>, pk_elen = 1\<rparr>"

lemma ex544_values:
  "key_P ex_sk544 = 7588550360256754183279148073529370729071901715047420004889892225542594864082845695" "key_Q ex_sk544 = 7588550360256754183279148073529370729071901715047420004889892225542594864082845693" "key_DP ex_sk544 = 1" "key_DQ ex_sk544 = 1"
  "key_IQ ex_sk544 = 3794275180128377091639574036764685364535950857523710002444946112771297432041422847" "key_N ex_pk544 = 57586096570152913699974892898380567793532123114264532903689671329431521032595044709729519341102786238402395361991584541289458945320647016459740092144694641014341635" "key_E ex_pk544 = 1"
  by (simp_all add: be_val_Cons)

lemma ex544_product: "(7588550360256754183279148073529370729071901715047420004889892225542594864082845695 :: nat) * 7588550360256754183279148073529370729071901715047420004889892225542594864082845693 = 57586096570152913699974892898380567793532123114264532903689671329431521032595044709729519341102786238402395361991584541289458945320647016459740092144694641014341635" "(3794275180128377091639574036764685364535950857523710002444946112771297432041422847 :: nat) * 7588550360256754183279148073529370729071901715047420004889892225542594864082845693 = 3794275180128377091639574036764685364535950857523710002444946112771297432041422846 * 7588550360256754183279148073529370729071901715047420004889892225542594864082845695 + 1"
  by simp_all

lemma ex544_sizes:
  "nbits 57586096570152913699974892898380567793532123114264532903689671329431521032595044709729519341102786238402395361991584541289458945320647016459740092144694641014341635 = 544" "nbytes 57586096570152913699974892898380567793532123114264532903689671329431521032595044709729519341102786238402395361991584541289458945320647016459740092144694641014341635 = 68" "nbytes 7588550360256754183279148073529370729071901715047420004889892225542594864082845695 = 34" "nbytes 7588550360256754183279148073529370729071901715047420004889892225542594864082845693 = 34"
  using nbits_eqI [of 543 57586096570152913699974892898380567793532123114264532903689671329431521032595044709729519341102786238402395361991584541289458945320647016459740092144694641014341635] nbytes_eqI [of 67 57586096570152913699974892898380567793532123114264532903689671329431521032595044709729519341102786238402395361991584541289458945320647016459740092144694641014341635] nbytes_eqI [of 33 7588550360256754183279148073529370729071901715047420004889892225542594864082845695] nbytes_eqI [of 33 7588550360256754183279148073529370729071901715047420004889892225542594864082845693] by simp_all

lemma ex544_pair: "rsa_pair ex_pk544 ex_sk544"
  unfolding rsa_pair_def odd_factors_def ex544_values ex544_product mult_1 power_one_right by simp

lemma ex544_args: "priv_args ex_sk544 ex_tmp_priv" "pub_args ex_pk544 ex_tmp"
proof -
  show "priv_args ex_sk544 ex_tmp_priv" unfolding priv_args_def ex544_values ex544_product ex544_sizes by (simp add: priv_TLEN)
  show "pub_args ex_pk544 ex_tmp" by (simp add: pub_args_def pub_TLEN_def BR_MAX_RSA_SIZE_def)
qed

theorem rsa_oaep_encrypt_decrypt_witness:
  "ok (do { (rnd', r, dst) \<leftarrow> br_rsa_i31_oaep_encrypt (\<lambda>s n. (s, replicate n 9)) () br_sha256_vtable [3] ex_pk544 \<lparr>blk = 8, cells = replicate 70 7\<rparr> 70 [0xAB, 0xCD] ex_tmp;
      (d, buf, len) \<leftarrow> br_rsa_i31_oaep_decrypt br_sha256_vtable [3] ex_sk544 dst (unat r) ex_tmp_priv;
      ret (r, oaep_message (d, buf, len)) }) (\<lambda>(r, m). unat r = 68 \<and> m = Some [0xAB, 0xCD])"
  by (rule ok_weaken [OF rsa_oaep_encrypt_decrypt [OF ex544_pair ex544_args(2,1), unfolded ex544_values ex544_sizes]]) auto

end
