(* ===== verification/C_Heap.thy ===== *)
theory C_Heap
  imports Ccopy
begin

text \<open>
  The environment of the measuring programs: a heap of allocated blocks, the clock, the random generator and the exit of the process.
  Address 0 is \<open>NULL\<close>. \<open>'s\<close> is the type of the structures that a program keeps in the heap. What the C library decides (whether an
  allocation succeeds, the clock readings, the random numbers, the numeric address of a block, the contents of fresh memory) is the
  parameter \<open>env\<close>. The monad is \<open>State_Monad\<close> over \<open>'s hst\<close>: a running process, one that has exited, or one that has accessed memory
  it does not own; \<open>hok\<close> is total correctness from a given world.
\<close>

named_theorems hwp \<open>introduction rules for hok\<close>

datatype 's block = W8 "u8 list" | W32 "u32 list" | W64 "u64 list" | Struct 's

record 's world =
  heap :: "nat \<Rightarrow> 's block option"
  brk :: nat
  clocks :: nat
  rands :: nat
  obs :: "event list"

datatype 's hst = Run "'s world" | Exited nat | Faulted

type_synonym ('s, 'a) hm = "('s hst, 'a) state"

record env =
  alloc_ok :: "nat \<Rightarrow> bool"
  clock :: "nat \<Rightarrow> (u64 \<times> u64) option"
  rand_val :: "nat \<Rightarrow> u32"
  base :: "nat \<Rightarrow> u64"
  junk :: u64

definition prim :: "'a \<Rightarrow> ('s world \<Rightarrow> 'a \<times> 's hst) \<Rightarrow> ('s, 'a) hm" where
  "prim d f = State (\<lambda>s. case s of Run w \<Rightarrow> f w | _ \<Rightarrow> (d, s))"

section \<open>The C library\<close>

definition alloc :: "env \<Rightarrow> 's block \<Rightarrow> ('s, nat) hm" where
  "alloc E b = prim 0 (\<lambda>w. if alloc_ok E (brk w)
     then (brk w, Run (w\<lparr>heap := (heap w)(brk w \<mapsto> b), brk := brk w + 1\<rparr>))
     else (0, Run (w\<lparr>brk := brk w + 1\<rparr>)))"

definition free :: "nat \<Rightarrow> ('s, unit) hm" where
  "free a = prim () (\<lambda>w. if a = 0 then ((), Run w)
     else if heap w a = None then ((), Faulted)
     else ((), Run (w\<lparr>heap := (heap w)(a := None)\<rparr>)))"

definition exit_with :: "nat \<Rightarrow> ('s, unit) hm" where
  "exit_with c = prim () (\<lambda>w. ((), Exited c))"

text \<open>An access through \<open>NULL\<close>.\<close>

definition segv :: "('s, unit) hm" where
  "segv = prim () (\<lambda>w. ((), Faulted))"

definition note_ev :: "event \<Rightarrow> ('s, unit) hm" where
  "note_ev e = prim () (\<lambda>w. ((), Run (w\<lparr>obs := obs w @ [e]\<rparr>)))"

definition get8 :: "nat \<Rightarrow> nat \<Rightarrow> ('s, u8) hm" where
  "get8 a i = prim 0 (\<lambda>w. case heap w a of
     Some (W8 xs) \<Rightarrow> if i < length xs then (xs ! i, Run (w\<lparr>obs := obs w @ [Ld a i]\<rparr>)) else (0, Faulted)
   | _ \<Rightarrow> (0, Faulted))"

definition put8 :: "nat \<Rightarrow> nat \<Rightarrow> u8 \<Rightarrow> ('s, unit) hm" where
  "put8 a i v = prim () (\<lambda>w. case heap w a of
     Some (W8 xs) \<Rightarrow> if i < length xs then ((), Run (w\<lparr>heap := (heap w)(a \<mapsto> W8 (xs[i := v])), obs := obs w @ [St a i]\<rparr>)) else ((), Faulted)
   | _ \<Rightarrow> ((), Faulted))"

definition get32 :: "nat \<Rightarrow> nat \<Rightarrow> ('s, u32) hm" where
  "get32 a i = prim 0 (\<lambda>w. case heap w a of
     Some (W32 xs) \<Rightarrow> if i < length xs then (xs ! i, Run (w\<lparr>obs := obs w @ [Ld a i]\<rparr>)) else (0, Faulted)
   | _ \<Rightarrow> (0, Faulted))"

definition put32 :: "nat \<Rightarrow> nat \<Rightarrow> u32 \<Rightarrow> ('s, unit) hm" where
  "put32 a i v = prim () (\<lambda>w. case heap w a of
     Some (W32 xs) \<Rightarrow> if i < length xs then ((), Run (w\<lparr>heap := (heap w)(a \<mapsto> W32 (xs[i := v])), obs := obs w @ [St a i]\<rparr>)) else ((), Faulted)
   | _ \<Rightarrow> ((), Faulted))"

definition get64 :: "nat \<Rightarrow> nat \<Rightarrow> ('s, u64) hm" where
  "get64 a i = prim 0 (\<lambda>w. case heap w a of
     Some (W64 xs) \<Rightarrow> if i < length xs then (xs ! i, Run (w\<lparr>obs := obs w @ [Ld a i]\<rparr>)) else (0, Faulted)
   | _ \<Rightarrow> (0, Faulted))"

definition put64 :: "nat \<Rightarrow> nat \<Rightarrow> u64 \<Rightarrow> ('s, unit) hm" where
  "put64 a i v = prim () (\<lambda>w. case heap w a of
     Some (W64 xs) \<Rightarrow> if i < length xs then ((), Run (w\<lparr>heap := (heap w)(a \<mapsto> W64 (xs[i := v])), obs := obs w @ [St a i]\<rparr>)) else ((), Faulted)
   | _ \<Rightarrow> ((), Faulted))"

text \<open>A structure is read and written as a whole.\<close>

definition get_struct :: "'s \<Rightarrow> nat \<Rightarrow> ('s, 's) hm" where
  "get_struct d a = prim d (\<lambda>w. case heap w a of Some (Struct s) \<Rightarrow> (s, Run w) | _ \<Rightarrow> (d, Faulted))"

definition put_struct :: "nat \<Rightarrow> 's \<Rightarrow> ('s, unit) hm" where
  "put_struct a s = prim () (\<lambda>w. case heap w a of
     Some (Struct _) \<Rightarrow> ((), Run (w\<lparr>heap := (heap w)(a \<mapsto> Struct s)\<rparr>)) | _ \<Rightarrow> ((), Faulted))"

text \<open>\<open>memset (a, 0, n)\<close> on a block of words, \<open>n\<close> in bytes.\<close>

definition memset_words :: "nat \<Rightarrow> nat \<Rightarrow> ('s, unit) hm" where
  "memset_words a n = prim () (\<lambda>w. case heap w a of
     Some (W32 xs) \<Rightarrow> if n \<le> 4 * length xs
       then ((), Run (w\<lparr>heap := (heap w)(a \<mapsto> W32 (to_words (splice (to_bytes xs) 0 (replicate n 0)))), obs := obs w @ [Mset a 0 n]\<rparr>))
       else ((), Faulted)
   | _ \<Rightarrow> ((), Faulted))"

text \<open>The words of a block, and a call of a function of the leakage model; an access outside its arrays is a fault.\<close>

definition words_at :: "nat \<Rightarrow> ('s, u32 list) hm" where
  "words_at a = prim [] (\<lambda>w. case heap w a of Some (W32 xs) \<Rightarrow> (xs, Run w) | _ \<Rightarrow> ([], Faulted))"

definition set_words :: "nat \<Rightarrow> u32 list \<Rightarrow> ('s, unit) hm" where
  "set_words a xs = prim () (\<lambda>w. ((), Run (w\<lparr>heap := (heap w)(a \<mapsto> W32 xs)\<rparr>)))"

definition call_cm :: "'a cm \<Rightarrow> ('s, 'a) hm" where
  "call_cm f = prim (result f) (\<lambda>w. case run_state f (Some []) of
     (x, Some t) \<Rightarrow> (x, Run (w\<lparr>obs := obs w @ t\<rparr>)) | (x, None) \<Rightarrow> (x, Faulted))"

definition clock_gettime :: "env \<Rightarrow> ('s, (u64 \<times> u64) option) hm" where
  "clock_gettime E = prim None (\<lambda>w. (clock E (clocks w), Run (w\<lparr>clocks := clocks w + 1\<rparr>)))"

definition rand :: "env \<Rightarrow> ('s, u32) hm" where
  "rand E = prim 0 (\<lambda>w. (rand_val E (rands w), Run (w\<lparr>rands := rands w + 1\<rparr>)))"

text \<open>\<open>for (i = i0; i < n; i += d)\<close>. The programs have \<open>d > 0\<close>.\<close>

function for_step :: "nat \<Rightarrow> nat \<Rightarrow> nat \<Rightarrow> (nat \<Rightarrow> 'x \<Rightarrow> ('s, 'x) hm) \<Rightarrow> 'x \<Rightarrow> ('s, 'x) hm" where
  "for_step i n d body x =
     (if i < n \<and> 0 < d then do { x \<leftarrow> body i x; for_step (i + d) n d body x } else State_Monad.return x)"
  by pat_completeness auto
termination
  by (relation "measure (\<lambda>(i, n, d, _, _). n - i)") auto

declare for_step.simps [simp del]

abbreviation for_h :: "nat \<Rightarrow> nat \<Rightarrow> (nat \<Rightarrow> 'x \<Rightarrow> ('s, 'x) hm) \<Rightarrow> 'x \<Rightarrow> ('s, 'x) hm" where
  "for_h i n \<equiv> for_step i n 1"

section \<open>Total correctness\<close>

definition hok :: "('s, 'a) hm \<Rightarrow> 's world \<Rightarrow> ('a \<Rightarrow> 's world \<Rightarrow> bool) \<Rightarrow> bool" where
  "hok f w Q \<longleftrightarrow> (\<exists>x w'. run_state f (Run w) = (x, Run w') \<and> Q x w')"

lemma hok_weaken: "hok f w P \<Longrightarrow> (\<And>x w'. P x w' \<Longrightarrow> Q x w') \<Longrightarrow> hok f w Q"
  unfolding hok_def by meson

lemma hok_ret [hwp]: "Q x w \<Longrightarrow> hok (State_Monad.return x) w Q"
  by (simp add: hok_def)

lemma hok_bind [hwp]: "hok f w (\<lambda>x w'. hok (g x) w' Q) \<Longrightarrow> hok (State_Monad.bind f g) w Q"
  by (auto simp: hok_def)

lemma hok_prim: "(case f w of (x, Run w') \<Rightarrow> Q x w' | _ \<Rightarrow> False) \<Longrightarrow> hok (prim d f) w Q"
  by (auto simp: hok_def prim_def split: prod.splits hst.splits)

lemma hok_if [hwp]: "(b \<Longrightarrow> hok f w Q) \<Longrightarrow> (\<not> b \<Longrightarrow> hok g w Q) \<Longrightarrow> hok (if b then f else g) w Q"
  by simp

lemma hok_alloc [hwp]:
  "alloc_ok E (brk w) \<Longrightarrow> Q (brk w) (w\<lparr>heap := (heap w)(brk w \<mapsto> b), brk := brk w + 1\<rparr>) \<Longrightarrow> hok (alloc E b) w Q"
  by (auto simp: alloc_def intro!: hok_prim)

lemma hok_alloc_any:
  "Q (if alloc_ok E (brk w) then brk w else 0)
     (w\<lparr>heap := (if alloc_ok E (brk w) then (heap w)(brk w \<mapsto> b) else heap w), brk := brk w + 1\<rparr>) \<Longrightarrow> hok (alloc E b) w Q"
  by (cases w, cases "alloc_ok E (brk w)") (auto simp: alloc_def intro!: hok_prim)

lemma hok_free [hwp]: "heap w a = Some b \<Longrightarrow> a \<noteq> 0 \<Longrightarrow> Q () (w\<lparr>heap := (heap w)(a := None)\<rparr>) \<Longrightarrow> hok (free a) w Q"
  by (auto simp: free_def intro!: hok_prim)

lemma hok_note [hwp]: "Q () (w\<lparr>obs := obs w @ [e]\<rparr>) \<Longrightarrow> hok (note_ev e) w Q"
  by (auto simp: note_ev_def intro!: hok_prim)

lemma hok_get8 [hwp]: "heap w a = Some (W8 xs) \<Longrightarrow> i < length xs \<Longrightarrow> Q (xs ! i) (w\<lparr>obs := obs w @ [Ld a i]\<rparr>) \<Longrightarrow> hok (get8 a i) w Q"
  by (auto simp: get8_def intro!: hok_prim)

lemma hok_put8 [hwp]: "heap w a = Some (W8 xs) \<Longrightarrow> i < length xs \<Longrightarrow>
    Q () (w\<lparr>heap := (heap w)(a \<mapsto> W8 (xs[i := v])), obs := obs w @ [St a i]\<rparr>) \<Longrightarrow> hok (put8 a i v) w Q"
  by (auto simp: put8_def intro!: hok_prim)

lemma hok_get32 [hwp]: "heap w a = Some (W32 xs) \<Longrightarrow> i < length xs \<Longrightarrow> Q (xs ! i) (w\<lparr>obs := obs w @ [Ld a i]\<rparr>) \<Longrightarrow> hok (get32 a i) w Q"
  by (auto simp: get32_def intro!: hok_prim)

lemma hok_put32 [hwp]: "heap w a = Some (W32 xs) \<Longrightarrow> i < length xs \<Longrightarrow>
    Q () (w\<lparr>heap := (heap w)(a \<mapsto> W32 (xs[i := v])), obs := obs w @ [St a i]\<rparr>) \<Longrightarrow> hok (put32 a i v) w Q"
  by (auto simp: put32_def intro!: hok_prim)

lemma hok_get64 [hwp]: "heap w a = Some (W64 xs) \<Longrightarrow> i < length xs \<Longrightarrow> Q (xs ! i) (w\<lparr>obs := obs w @ [Ld a i]\<rparr>) \<Longrightarrow> hok (get64 a i) w Q"
  by (auto simp: get64_def intro!: hok_prim)

lemma hok_put64 [hwp]: "heap w a = Some (W64 xs) \<Longrightarrow> i < length xs \<Longrightarrow>
    Q () (w\<lparr>heap := (heap w)(a \<mapsto> W64 (xs[i := v])), obs := obs w @ [St a i]\<rparr>) \<Longrightarrow> hok (put64 a i v) w Q"
  by (auto simp: put64_def intro!: hok_prim)

lemma hok_get_struct [hwp]: "heap w a = Some (Struct s) \<Longrightarrow> Q s w \<Longrightarrow> hok (get_struct d a) w Q"
  by (auto simp: get_struct_def intro!: hok_prim)

lemma hok_put_struct [hwp]: "heap w a = Some (Struct s') \<Longrightarrow> Q () (w\<lparr>heap := (heap w)(a \<mapsto> Struct s)\<rparr>) \<Longrightarrow> hok (put_struct a s) w Q"
  by (auto simp: put_struct_def intro!: hok_prim)

lemma hok_words_at [hwp]: "heap w a = Some (W32 xs) \<Longrightarrow> Q xs w \<Longrightarrow> hok (words_at a) w Q"
  by (auto simp: words_at_def intro!: hok_prim)

lemma hok_set_words [hwp]: "Q () (w\<lparr>heap := (heap w)(a \<mapsto> W32 xs)\<rparr>) \<Longrightarrow> hok (set_words a xs) w Q"
  by (auto simp: set_words_def intro!: hok_prim)

lemma hok_call [hwp]: "ok f P \<Longrightarrow> (\<And>x t. P x \<Longrightarrow> Q x (w\<lparr>obs := obs w @ t\<rparr>)) \<Longrightarrow> hok (call_cm f) w Q"
  unfolding call_cm_def by (rule hok_prim) (use ok_run [of f P] in auto)

lemma hok_clock [hwp]: "Q (clock E (clocks w)) (w\<lparr>clocks := clocks w + 1\<rparr>) \<Longrightarrow> hok (clock_gettime E) w Q"
  by (auto simp: clock_gettime_def intro!: hok_prim)

lemma hok_rand [hwp]: "Q (rand_val E (rands w)) (w\<lparr>rands := rands w + 1\<rparr>) \<Longrightarrow> hok (rand E) w Q"
  by (auto simp: rand_def intro!: hok_prim)

lemma hok_for_step:
  assumes "Inv i x w" and "0 < d"
    and "\<And>j x w. j < n \<Longrightarrow> Inv j x w \<Longrightarrow> hok (body j x) w (Inv (j + d))"
    and "\<And>j x w. n \<le> j \<Longrightarrow> Inv j x w \<Longrightarrow> Q x w"
  shows "hok (for_step i n d body x) w Q"
  using assms
proof (induction i n d body x arbitrary: w rule: for_step.induct)
  case (1 i n d body x)
  show ?case
  proof (cases "i < n")
    case True
    have "hok (body i x) w (\<lambda>x w'. hok (for_step (i + d) n d body x) w' Q)"
      by (rule hok_weaken [OF "1.prems"(3) [OF True "1.prems"(1)]], rule "1.IH") (use True "1.prems" in auto)
    then show ?thesis using True "1.prems"(2) by (subst for_step.simps) (auto intro: hok_bind)
  next
    case False
    then show ?thesis using "1.prems"(1,4) by (subst for_step.simps) (auto intro!: hok_ret simp: not_less)
  qed
qed

lemma hok_for_h:
  assumes "Inv i x w" and "i \<le> n"
    and "\<And>j x w. i \<le> j \<Longrightarrow> j < n \<Longrightarrow> Inv j x w \<Longrightarrow> hok (body j x) w (Inv (Suc j))"
    and "\<And>x w. Inv n x w \<Longrightarrow> Q x w"
  shows "hok (for_h i n body x) w Q"
  by (rule hok_for_step [where Inv = "\<lambda>j x w. i \<le> j \<and> j \<le> n \<and> Inv j x w"])
    (use assms in \<open>auto intro: hok_weaken\<close>)

section \<open>Runs that end early\<close>

text \<open>Nothing happens in a process that has exited or faulted.\<close>

definition stopped :: "'s hst \<Rightarrow> bool" where
  "stopped s \<longleftrightarrow> (\<forall>w. s \<noteq> Run w)"

definition inert :: "('s, 'a) hm \<Rightarrow> bool" where
  "inert f \<longleftrightarrow> (\<forall>s. stopped s \<longrightarrow> snd (run_state f s) = s)"

named_theorems inertI \<open>introduction rules for inert\<close>

lemma inert_prim [inertI]: "inert (prim d f)"
  by (auto simp: inert_def prim_def stopped_def split: hst.splits)

lemma inert_ret [inertI]: "inert (State_Monad.return x)"
  by (simp add: inert_def)

lemma inert_bind [inertI]: "inert f \<Longrightarrow> (\<And>x. inert (g x)) \<Longrightarrow> inert (State_Monad.bind f g)"
  by (auto simp: inert_def case_prod_beta)

lemma inert_if [inertI]: "inert f \<Longrightarrow> inert g \<Longrightarrow> inert (if b then f else g)"
  by simp

lemma inert_for_step [inertI]: "(\<And>i x. inert (body i x)) \<Longrightarrow> inert (for_step i n d body x)"
proof (induction i n d body x rule: for_step.induct)
  case (1 i n d body x)
  then show ?case by (subst for_step.simps) (auto intro!: inertI)
qed

lemmas prim_defs = alloc_def free_def exit_with_def segv_def note_ev_def get8_def put8_def get32_def put32_def get64_def put64_def
  get_struct_def put_struct_def memset_words_def words_at_def set_words_def call_cm_def clock_gettime_def rand_def

lemma inert_prims [inertI]:
  "inert (alloc E b)" "inert (free a)" "inert (exit_with c)" "inert segv" "inert (note_ev e)" "inert (get8 a i)" "inert (put8 a i x)"
  "inert (get32 a i)" "inert (put32 a i y)" "inert (get64 a i)" "inert (put64 a i z)" "inert (get_struct d a)" "inert (put_struct a v)"
  "inert (memset_words a n)" "inert (words_at a)" "inert (set_words a ys)" "inert (call_cm f)" "inert (clock_gettime E)" "inert (rand E)"
  by (simp_all add: prim_defs inert_prim)

lemma inert_cases [inertI]:
  "inert f \<Longrightarrow> (\<And>x. inert (g x)) \<Longrightarrow> inert (case opt of None \<Rightarrow> f | Some x \<Rightarrow> g x)"
  "(\<And>x y. inert (h x y)) \<Longrightarrow> inert (case p of (x, y) \<Rightarrow> h x y)"
  by (simp_all split: option.splits prod.splits)

text \<open>\<open>hend f w s\<close>: the run ends in the state \<open>s\<close>.\<close>

definition hend :: "('s, 'a) hm \<Rightarrow> 's world \<Rightarrow> 's hst \<Rightarrow> bool" where
  "hend f w s \<longleftrightarrow> snd (run_state f (Run w)) = s"

lemma hend_first: "hend f w s \<Longrightarrow> stopped s \<Longrightarrow> (\<And>x. inert (g x)) \<Longrightarrow> hend (State_Monad.bind f g) w s"
  by (auto simp: hend_def inert_def case_prod_beta)

lemma hend_later: "hok f w (\<lambda>x w'. hend (g x) w' s) \<Longrightarrow> hend (State_Monad.bind f g) w s"
  by (auto simp: hend_def hok_def)

lemma stopped_simps [simp]: "stopped (Exited c)" "stopped Faulted"
  by (simp_all add: stopped_def)

lemma hend_put32: "(\<And>xs. heap w a = Some (W32 xs) \<Longrightarrow> length xs \<le> i) \<Longrightarrow> hend (put32 a i v) w Faulted"
  by (auto simp: put32_def hend_def prim_def not_less split: option.splits block.splits)

lemma hend_put64: "(\<And>xs. heap w a = Some (W64 xs) \<Longrightarrow> length xs \<le> i) \<Longrightarrow> hend (put64 a i v) w Faulted"
  by (auto simp: put64_def hend_def prim_def not_less split: option.splits block.splits)

text \<open>A loop whose turn \<open>m\<close> stops the process.\<close>

lemma hend_for_h:
  assumes "Inv i x w" and "i \<le> m" and "m < n" and "stopped s" and "\<And>j x. inert (body j x)"
    and "\<And>j x w. i \<le> j \<Longrightarrow> j < m \<Longrightarrow> Inv j x w \<Longrightarrow> hok (body j x) w (Inv (Suc j))"
    and "\<And>x w. Inv m x w \<Longrightarrow> hend (body m x) w s"
  shows "hend (for_h i n body x) w s"
  using assms(1,2,6)
proof (induction "m - i" arbitrary: i x w)
  case 0
  then have "hend (do { x \<leftarrow> body m x; for_h (m + 1) n body x }) w s"
    by (intro hend_first assms(4) inertI assms(5) assms(7)) simp
  then show ?case using 0 assms(3) by (subst for_step.simps) simp
next
  case (Suc d)
  have "hend (do { x \<leftarrow> body i x; for_h (i + 1) n body x }) w s"
  proof (rule hend_later, rule hok_weaken [OF Suc.prems(3)])
    show "i \<le> i" "i < m" "Inv i x w" using Suc.hyps(2) Suc.prems by simp_all
    fix y w' assume "Inv (Suc i) y w'"
    then show "hend (for_h (i + 1) n body y) w' s"
      using Suc.hyps(1) [of "Suc i" y w'] Suc.hyps(2) Suc.prems(3) by simp
  qed
  moreover have "i < n" using Suc.hyps(2) assms(3) by linarith
  ultimately show ?case by (subst for_step.simps) simp
qed

end
