(* ===== verification/Harness.thy ===== *)
theory Harness
  imports C_Heap
begin

text \<open>
  The measuring harness of \<^verbatim>\<open>automation/bearssl-0.6/ccopy\<close>: the contexts (\<^verbatim>\<open>context.c\<close>), the wrappers that time one conditional copy
  (\<^verbatim>\<open>v2/uut/wrapper.c\<close>, \<^verbatim>\<open>v3/uut/wrapper.c\<close>) and the main loop (\<^verbatim>\<open>harness.c\<close>). A client of \<^verbatim>\<open>skeleton.h\<close> is a record of functions, and
  what the harness may rely on is the locale \<open>harness_client\<close>; what it relies on in the function under test is \<open>timed_uut\<close>. A context
  passed by a pointer that may be \<open>NULL\<close> is an option, returned updated.
\<close>

section \<open>Contexts (context.h, context.c)\<close>

record trial_context_t =
  dest :: nat
  dummy :: nat
  data :: nat
  data_len :: nat

record global_context_t =
  iterations :: u64
  random_seed :: u32
  g_state :: nat

record bench_context_t =
  global_ctx :: "global_context_t option"
  iteration :: u64
  b_state :: nat

definition handle_oom_error :: "nat \<Rightarrow> ('s, unit) hm" where
  "handle_oom_error ptr = (if ptr = 0 then exit_with 1 else State_Monad.return ())"

definition fill_words_deterministically :: "nat \<Rightarrow> nat \<Rightarrow> u32 \<Rightarrow> ('s, u32) hm" where
  "fill_words_deterministically dst n seed = for_h 0 n (\<lambda>i v. do {
     let v = v * 1664525 + 1013904223;
     put32 dst i v;
     State_Monad.return v }) seed"

definition create_default_trial_context :: "env \<Rightarrow> u64 \<Rightarrow> ('s, trial_context_t) hm" where
  "create_default_trial_context E data_size = do {
     let buffer_byte_size = data_size * 4;
     de \<leftarrow> alloc E (W32 (replicate (unat data_size) 0));
     du \<leftarrow> alloc E (W32 (replicate (unat data_size) 0));
     da \<leftarrow> alloc E (W32 (replicate (unat data_size) 0));
     dl \<leftarrow> alloc E (W64 [junk E]);
     handle_oom_error de;
     handle_oom_error du;
     handle_oom_error da;
     _ \<leftarrow> fill_words_deterministically da (unat data_size) 0x11111111;
     put64 dl 0 buffer_byte_size;
     State_Monad.return \<lparr>dest = de, dummy = du, data = da, data_len = dl\<rparr> }"

definition reset_trial_context :: "trial_context_t \<Rightarrow> ('s, unit) hm" where
  "reset_trial_context ctx = do {
     _ \<leftarrow> get64 (data_len ctx) 0;
     n \<leftarrow> get64 (data_len ctx) 0;
     memset_words (dest ctx) (unat n);
     n \<leftarrow> get64 (data_len ctx) 0;
     memset_words (dummy ctx) (unat n);
     n \<leftarrow> get64 (data_len ctx) 0;
     memset_words (data ctx) (unat n);
     n \<leftarrow> get64 (data_len ctx) 0;
     _ \<leftarrow> fill_words_deterministically (data ctx) (unat n) 0x11111111;
     State_Monad.return () }"

definition create_global_context :: "u64 \<Rightarrow> u32 \<Rightarrow> global_context_t" where
  "create_global_context n seed = \<lparr>iterations = n, random_seed = seed, g_state = 0\<rparr>"

definition create_context :: "global_context_t \<Rightarrow> u64 \<Rightarrow> bench_context_t" where
  "create_context g i = \<lparr>global_ctx = Some g, iteration = i, b_state = 0\<rparr>"

section \<open>The function under test (timing.c, wrapper.c)\<close>

definition monotonic_ns :: "env \<Rightarrow> ('s, u64) hm" where
  "monotonic_ns E = do {
     ts \<leftarrow> clock_gettime E;
     case ts of None \<Rightarrow> do { exit_with 1; State_Monad.return 0 }
     | Some (tv_sec, tv_nsec) \<Rightarrow> State_Monad.return (tv_sec * 1000000000 + tv_nsec) }"

abbreviation byte_arr :: "nat \<Rightarrow> u32 list \<Rightarrow> u8 arr" where
  "byte_arr a xs \<equiv> as_bytes \<lparr>blk = a, cells = xs\<rparr>"

definition timed_call_uut_v2 :: "env \<Rightarrow> u32 \<Rightarrow> trial_context_t \<Rightarrow> ('s, u64) hm" where
  "timed_call_uut_v2 E key ctx = do {
     start \<leftarrow> monotonic_ns E;
     d \<leftarrow> words_at (dest ctx);
     u \<leftarrow> words_at (dummy ctx);
     s \<leftarrow> words_at (data ctx);
     n \<leftarrow> get64 (data_len ctx) 0;
     (d, u) \<leftarrow> call_cm (br_ccopy_v2 key (byte_arr (dest ctx) d) (byte_arr (dummy ctx) u) (byte_arr (data ctx) s) (unat n));
     set_words (dest ctx) (cells (as_words d));
     set_words (dummy ctx) (cells (as_words u));
     e \<leftarrow> monotonic_ns E;
     State_Monad.return (e - start) }"

definition timed_call_uut_v3 :: "env \<Rightarrow> u32 \<Rightarrow> trial_context_t \<Rightarrow> ('s, u64) hm" where
  "timed_call_uut_v3 E key ctx = do {
     start \<leftarrow> monotonic_ns E;
     d \<leftarrow> words_at (dest ctx);
     s \<leftarrow> words_at (data ctx);
     n \<leftarrow> get64 (data_len ctx) 0;
     d \<leftarrow> call_cm (br_ccopy key (byte_arr (dest ctx) d) (byte_arr (data ctx) s) (unat n));
     set_words (dest ctx) (cells (as_words d));
     e \<leftarrow> monotonic_ns E;
     State_Monad.return (e - start) }"

section \<open>The main loop (skeleton.h, harness.c)\<close>

record 's client =
  global_setup :: "global_context_t option \<Rightarrow> ('s, global_context_t option) hm"
  global_teardown :: "global_context_t option \<Rightarrow> ('s, global_context_t option) hm"
  trial_setup :: "bench_context_t option \<Rightarrow> ('s, bench_context_t option) hm"
  trial_inner_setup :: "bench_context_t option \<Rightarrow> trial_context_t option \<Rightarrow> ('s, bench_context_t option) hm"
  trial_teardown :: "bench_context_t option \<Rightarrow> ('s, bench_context_t option) hm"
  helper_start :: "bench_context_t option \<Rightarrow> ('s, bench_context_t option) hm"
  helper_stop :: "bench_context_t option \<Rightarrow> ('s, bench_context_t option) hm"

definition destroy_trial_context :: "trial_context_t \<Rightarrow> ('s, unit) hm" where
  "destroy_trial_context ctx = do { free (dest ctx); free (dummy ctx); free (data ctx); free (data_len ctx) }"

text \<open>One turn of the inner loop. \<open>ds\<close> and \<open>ks\<close> are the arrays of durations and keys.\<close>

definition harness_bit :: "env \<Rightarrow> 's client \<Rightarrow> (u32 \<Rightarrow> trial_context_t \<Rightarrow> ('s, u64) hm) \<Rightarrow> nat \<Rightarrow> nat \<Rightarrow> nat \<Rightarrow> nat \<Rightarrow>
    bench_context_t option \<Rightarrow> ('s, bench_context_t option) hm" where
  "harness_bit E C timed_call_uut ds ks i ki run_context = do {
     key \<leftarrow> get32 ks i;
     let bit = shr key ki AND 1;
     t \<leftarrow> create_default_trial_context E 1024;
     run_context \<leftarrow> trial_inner_setup C run_context (Some t);
     run_context \<leftarrow> helper_start C run_context;
     d \<leftarrow> timed_call_uut bit t;
     put64 ds (i * 32 + ki) d;
     run_context \<leftarrow> helper_stop C run_context;
     destroy_trial_context t;
     State_Monad.return run_context }"

text \<open>One turn of the outer loop. The run context points to the global context of \<open>main\<close>, which therefore sees what a client writes to it.\<close>

definition global_of :: "bench_context_t option \<Rightarrow> global_context_t \<Rightarrow> global_context_t" where
  "global_of run_context g = (case run_context of None \<Rightarrow> g | Some b \<Rightarrow> (case global_ctx b of None \<Rightarrow> g | Some g' \<Rightarrow> g'))"

definition harness_iteration :: "env \<Rightarrow> 's client \<Rightarrow> (u32 \<Rightarrow> trial_context_t \<Rightarrow> ('s, u64) hm) \<Rightarrow> nat \<Rightarrow> nat \<Rightarrow>
    nat \<Rightarrow> global_context_t \<Rightarrow> ('s, global_context_t) hm" where
  "harness_iteration E C timed_call_uut ds ks i g = do {
     key \<leftarrow> rand E;
     put32 ks i key;
     let run_context = create_context g (of_nat i);
     run_context \<leftarrow> trial_setup C (Some run_context);
     run_context \<leftarrow> for_h 0 32 (harness_bit E C timed_call_uut ds ks i) run_context;
     run_context \<leftarrow> trial_teardown C run_context;
     State_Monad.return (global_of run_context g) }"

text \<open>\<open>main\<close> after the parsing of its arguments and before its output: it returns the global context and the addresses of the durations
  and the keys.\<close>

definition harness_main :: "env \<Rightarrow> 's client \<Rightarrow> (u32 \<Rightarrow> trial_context_t \<Rightarrow> ('s, u64) hm) \<Rightarrow> u64 \<Rightarrow> u32 \<Rightarrow>
    ('s, global_context_t option \<times> nat \<times> nat) hm" where
  "harness_main E C timed_call_uut n seed = do {
     let total_bit_iterations = n * 32;
     ds \<leftarrow> alloc E (W64 (replicate (unat (8 * total_bit_iterations) div 8) (junk E)));
     ks \<leftarrow> alloc E (W32 (replicate (unat (4 * n) div 4) (ucast (junk E))));
     g \<leftarrow> global_setup C (Some (create_global_context n seed));
     g \<leftarrow> for_h 0 (unat n) (harness_iteration E C timed_call_uut ds ks) (the g);
     g \<leftarrow> global_teardown C (Some g);
     State_Monad.return (g, ds, ks) }"

section \<open>Contexts and wrappers: what they do\<close>

definition wf :: "'s world \<Rightarrow> bool" where
  "wf w \<longleftrightarrow> 0 < brk w \<and> (\<forall>a b. heap w a = Some b \<longrightarrow> 0 < a \<and> a < brk w)"

text \<open>The clock can be read, and the allocations from the \<open>k\<close>-th on succeed.\<close>

definition clocked :: "env \<Rightarrow> bool" where
  "clocked E \<longleftrightarrow> (\<forall>n. clock E n \<noteq> None)"

definition env_from :: "env \<Rightarrow> nat \<Rightarrow> bool" where
  "env_from E k \<longleftrightarrow> (\<forall>n\<ge>k. alloc_ok E n) \<and> clocked E"

definition env_ok :: "env \<Rightarrow> bool" where
  "env_ok E \<longleftrightarrow> (\<forall>n. alloc_ok E n) \<and> (\<forall>n. clock E n \<noteq> None)"

lemma env_ok_from: "env_ok E \<Longrightarrow> env_from E k"
  by (simp add: env_ok_def env_from_def clocked_def)

lemma env_from_mono: "env_from E k \<Longrightarrow> k \<le> m \<Longrightarrow> env_from E m"
  by (auto simp: env_from_def)

lemma env_from_clocked: "env_from E k \<Longrightarrow> clocked E"
  by (simp add: env_from_def)

definition ns :: "env \<Rightarrow> nat \<Rightarrow> u64" where
  "ns E n = (case clock E n of None \<Rightarrow> 0 | Some (s, r) \<Rightarrow> s * 1000000000 + r)"

primrec lcg :: "u32 \<Rightarrow> nat \<Rightarrow> u32" where
  "lcg s 0 = s"
| "lcg s (Suc i) = lcg s i * 1664525 + 1013904223"

definition pattern :: "nat \<Rightarrow> u32 list" where
  "pattern n = map (\<lambda>i. lcg 0x11111111 (Suc i)) [0..<n]"

lemma length_pattern [simp]: "length (pattern n) = n"
  by (simp add: pattern_def)

lemma hok_oom [hwp]: "p \<noteq> 0 \<Longrightarrow> Q () w \<Longrightarrow> hok (handle_oom_error p) w Q"
  by (simp add: handle_oom_error_def hok_ret)

lemma hok_fill:
  assumes a: "heap w a = Some (W32 xs)" "n \<le> length xs"
    and Q: "Q (lcg seed n) (w\<lparr>heap := (heap w)(a \<mapsto> W32 (map (\<lambda>i. lcg seed (Suc i)) [0..<n] @ drop n xs)), obs := obs w @ map (St a) [0..<n]\<rparr>)"
  shows "hok (fill_words_deterministically a n seed) w Q"
  unfolding fill_words_deterministically_def
proof (rule hok_for_h [where Inv = "\<lambda>j x w'. x = lcg seed j \<and> w' = w\<lparr>heap := (heap w)(a \<mapsto> W32 (map (\<lambda>i. lcg seed (Suc i)) [0..<j] @ drop j xs)),
      obs := obs w @ map (St a) [0..<j]\<rparr>"])
  fix j x w' assume j: "j < n" and I: "x = lcg seed j \<and> w' = w\<lparr>heap := (heap w)(a \<mapsto> W32 (map (\<lambda>i. lcg seed (Suc i)) [0..<j] @ drop j xs)),
      obs := obs w @ map (St a) [0..<j]\<rparr>"
  have l: "j < length xs" using j a(2) by simp
  have u: "(map (\<lambda>i. lcg seed (Suc i)) [0..<j] @ drop j xs)[j := v] = map (\<lambda>i. lcg seed (Suc i)) [0..<j] @ v # drop (Suc j) xs" for v
    using Cons_nth_drop_Suc [OF l, symmetric] by (simp add: list_update_append)
  show "hok (let v = x * 1664525 + 1013904223 in do { put32 a j v; State_Monad.return v }) w' (\<lambda>x w'. x = lcg seed (Suc j) \<and>
      w' = w\<lparr>heap := (heap w)(a \<mapsto> W32 (map (\<lambda>i. lcg seed (Suc i)) [0..<Suc j] @ drop (Suc j) xs)), obs := obs w @ map (St a) [0..<Suc j]\<rparr>)"
    using I l u by (auto simp: Let_def intro!: hwp)
qed (use a Q in \<open>auto simp: fun_upd_idem\<close>)

lemma hok_create:
  assumes w: "wf w" and E: "env_from E (brk w)"
    and Q: "\<And>w'. heap w' = (heap w)(brk w \<mapsto> W32 (replicate (unat n) 0), brk w + 1 \<mapsto> W32 (replicate (unat n) 0),
        brk w + 2 \<mapsto> W32 (pattern (unat n)), brk w + 3 \<mapsto> W64 [n * 4]) \<Longrightarrow>
      brk w' = brk w + 4 \<Longrightarrow> clocks w' = clocks w \<Longrightarrow> rands w' = rands w \<Longrightarrow>
      Q \<lparr>dest = brk w, dummy = brk w + 1, data = brk w + 2, data_len = brk w + 3\<rparr> w'"
  shows "hok (create_default_trial_context E n) w Q"
proof -
  have k: "k + 1 = Suc k" "k + 2 = Suc (Suc k)" "k + 3 = Suc (Suc (Suc k))" "k + 4 = Suc (Suc (Suc (Suc k)))" for k :: nat by simp_all
  show ?thesis
    unfolding create_default_trial_context_def Let_def using w E
    by (auto simp: k wf_def env_from_def intro!: hwp hok_fill Q [unfolded k pattern_def])
qed

lemma hok_ns:
  assumes "clocked E" and "Q (ns E (clocks w)) (w\<lparr>clocks := clocks w + 1\<rparr>)"
  shows "hok (monotonic_ns E) w Q"
proof -
  obtain s r where "clock E (clocks w) = Some (s, r)" using assms(1) unfolding clocked_def by (metis not_None_eq surj_pair)
  then show ?thesis using assms(2) unfolding monotonic_ns_def by (intro hok_bind hok_clock) (simp add: ns_def hok_ret)
qed

text \<open>A trial context whose buffers all have the announced length.\<close>

definition trial_at :: "'s world \<Rightarrow> trial_context_t \<Rightarrow> u32 list \<Rightarrow> u32 list \<Rightarrow> u32 list \<Rightarrow> bool" where
  "trial_at w t d u s \<longleftrightarrow> heap w (dest t) = Some (W32 d) \<and> heap w (dummy t) = Some (W32 u) \<and> heap w (data t) = Some (W32 s) \<and>
     (\<exists>n. heap w (data_len t) = Some (W64 [n]) \<and> unat n = 4 * length s) \<and> length d = length s \<and> length u = length s \<and>
     distinct [dest t, dummy t, data t, data_len t]"

lemma trial_atD:
  assumes "trial_at w t d u s"
  obtains n where "heap w (dest t) = Some (W32 d)" "heap w (dummy t) = Some (W32 u)" "heap w (data t) = Some (W32 s)"
    "heap w (data_len t) = Some (W64 [n])" "unat n = 4 * length s" "length d = length s" "length u = length s"
    "distinct [dest t, dummy t, data t, data_len t]"
  using assms by (auto simp: trial_at_def)

lemma byte_arr_sizes: "alen (byte_arr a xs) = 4 * length xs"
  by (simp add: as_bytes_def)

lemma ok_v2_words:
  assumes "length d = length s" "length u = length s"
  shows "ok (br_ccopy_v2 key (byte_arr a d) (byte_arr b u) (byte_arr c s) (4 * length s))
    (\<lambda>r. cells (as_words (fst r)) = (if key \<noteq> 0 then s else d) \<and> cells (as_words (snd r)) = (if key \<noteq> 0 then u else s))"
  unfolding br_ccopy_v2_def using assms by (auto intro!: wp simp: as_bytes_def as_words_def splice_def)

lemma ok_v3_words:
  assumes "length d = length s"
  shows "ok (br_ccopy (of_bool b) (byte_arr a d) (byte_arr c s) (4 * length s)) (\<lambda>x. cells (as_words x) = (if b then s else d))"
  using assms by (intro ok_br_ccopy) (auto simp: as_bytes_def as_words_def)

lemma hok_v2:
  assumes E: "clocked E" and t: "trial_at w t d u s"
    and Q: "\<And>w'. heap w' = (heap w)(dest t \<mapsto> W32 (if key \<noteq> 0 then s else d), dummy t \<mapsto> W32 (if key \<noteq> 0 then u else s)) \<Longrightarrow>
      brk w' = brk w \<Longrightarrow> clocks w' = clocks w + 2 \<Longrightarrow> rands w' = rands w \<Longrightarrow> Q (ns E (clocks w + 1) - ns E (clocks w)) w'"
  shows "hok (timed_call_uut_v2 E key t) w Q"
proof -
  obtain n where n: "heap w (dest t) = Some (W32 d)" "heap w (dummy t) = Some (W32 u)" "heap w (data t) = Some (W32 s)"
    "heap w (data_len t) = Some (W64 [n])" "unat n = 4 * length s" "length d = length s" "length u = length s"
    "distinct [dest t, dummy t, data t, data_len t]" using t by (rule trial_atD)
  note copy = ok_v2_words [OF n(6,7), of key "dest t" "dummy t" "data t"]
  show ?thesis
    unfolding timed_call_uut_v2_def case_prod_beta
    by (intro hok_bind hok_ns [OF E] hok_words_at hok_get64 hok_set_words hok_ret)
      (use n Q in \<open>auto intro!: hok_bind hok_ns [OF E] hok_set_words hok_ret hok_call [OF copy]\<close>)
qed

lemma hok_v3_ctl:
  assumes E: "clocked E" and t: "trial_at w t d u s"
    and copy: "ok (br_ccopy key (byte_arr (dest t) d) (byte_arr (data t) s) (4 * length s)) (\<lambda>x. cells (as_words x) = d')"
    and Q: "\<And>w'. heap w' = (heap w)(dest t \<mapsto> W32 d') \<Longrightarrow>
      brk w' = brk w \<Longrightarrow> clocks w' = clocks w + 2 \<Longrightarrow> rands w' = rands w \<Longrightarrow> Q (ns E (clocks w + 1) - ns E (clocks w)) w'"
  shows "hok (timed_call_uut_v3 E key t) w Q"
proof -
  obtain n where n: "heap w (dest t) = Some (W32 d)" "heap w (dummy t) = Some (W32 u)" "heap w (data t) = Some (W32 s)"
    "heap w (data_len t) = Some (W64 [n])" "unat n = 4 * length s" "length d = length s" "length u = length s"
    "distinct [dest t, dummy t, data t, data_len t]" using t by (rule trial_atD)
  show ?thesis
    unfolding timed_call_uut_v3_def
    by (intro hok_bind hok_ns [OF E] hok_words_at hok_get64 hok_set_words hok_ret)
      (use n Q in \<open>auto intro!: hok_bind hok_ns [OF E] hok_set_words hok_ret hok_call [OF copy]\<close>)
qed

lemma inert_uut [inertI]: "inert (timed_call_uut_v2 E key t)" "inert (timed_call_uut_v3 E key t)"
  by (auto simp: timed_call_uut_v2_def timed_call_uut_v3_def monotonic_ns_def intro!: inertI)

lemma hok_v3:
  assumes E: "clocked E" and t: "trial_at w t d u s"
    and Q: "\<And>w'. heap w' = (heap w)(dest t \<mapsto> W32 (if b then s else d)) \<Longrightarrow>
      brk w' = brk w \<Longrightarrow> clocks w' = clocks w + 2 \<Longrightarrow> rands w' = rands w \<Longrightarrow> Q (ns E (clocks w + 1) - ns E (clocks w)) w'"
  shows "hok (timed_call_uut_v3 E (of_bool b) t) w Q"
proof -
  have "length d = length s" using t by (auto simp: trial_at_def)
  then show ?thesis using Q by (intro hok_v3_ctl [OF E t ok_v3_words])
qed

section \<open>What the harness relies on\<close>

text \<open>A function of a client may change the client's own blocks and nothing else.\<close>

definition same_but :: "nat set \<Rightarrow> 's world \<Rightarrow> 's world \<Rightarrow> bool" where
  "same_but X w w' \<longleftrightarrow> wf w' \<and> (\<forall>a. a \<notin> X \<longrightarrow> heap w' a = heap w a) \<and> brk w \<le> brk w' \<and> clocks w' = clocks w \<and> rands w' = rands w"

definition kept :: "(nat \<Rightarrow> 's world \<Rightarrow> bool) \<Rightarrow> (nat \<Rightarrow> 's world \<Rightarrow> nat set) \<Rightarrow> global_context_t \<Rightarrow> 's world \<Rightarrow>
    bench_context_t option \<Rightarrow> 's world \<Rightarrow> bool" where
  "kept cinv cown g w r w' \<longleftrightarrow> (\<exists>b. r = Some b \<and> global_ctx b = Some g) \<and> cinv (g_state g) w' \<and>
     cown (g_state g) w' = cown (g_state g) w \<and> same_but (cown (g_state g) w) w w'"

locale harness_client =
  fixes C :: "'s client" and E :: env
    and cinv :: "nat \<Rightarrow> 's world \<Rightarrow> bool" and cown :: "nat \<Rightarrow> 's world \<Rightarrow> nat set"
  assumes start: "wf w \<Longrightarrow> env_from E (brk w) \<Longrightarrow> g_state g = 0 \<Longrightarrow> hok (global_setup C (Some g)) w (\<lambda>r w'. \<exists>p. r = Some (g\<lparr>g_state := p\<rparr>) \<and>
      cinv p w' \<and> cown p w' \<inter> dom (heap w) = {} \<and> same_but (cown p w') w w')"
    and trial: "f \<in> {trial_setup C, trial_teardown C, helper_start C, helper_stop C} \<Longrightarrow> wf w \<Longrightarrow> cinv (g_state g) w \<Longrightarrow>
      global_ctx b = Some g \<Longrightarrow> hok (f (Some b)) w (kept cinv cown g w)"
    and inner: "wf w \<Longrightarrow> cinv (g_state g) w \<Longrightarrow> global_ctx b = Some g \<Longrightarrow> trial_at w t d u s \<Longrightarrow>
      hok (trial_inner_setup C (Some b) (Some t)) w (kept cinv cown g w)"
    and teardown: "wf w \<Longrightarrow> cinv (g_state g) w \<Longrightarrow> hok (global_teardown C (Some g)) w (\<lambda>r w'. r = Some (g\<lparr>g_state := 0\<rparr>) \<and>
      heap w' = heap w |` (- cown (g_state g) w) \<and> clocks w' = clocks w \<and> rands w' = rands w)"
    and own_dom: "cinv p w \<Longrightarrow> cown p w \<subseteq> dom (heap w)"
    and frame: "cinv p w \<Longrightarrow> (\<And>a. a \<in> cown p w \<Longrightarrow> heap w' a = heap w a) \<Longrightarrow> cinv p w' \<and> cown p w' = cown p w"
    and still: "inert (global_setup C go)" "inert (trial_setup C bo)" "inert (trial_inner_setup C bo to)" "inert (helper_start C bo)"
      "inert (helper_stop C bo)" "inert (trial_teardown C bo)" "inert (global_teardown C go)"

text \<open>The timed call takes two clock readings and may change the two output buffers.\<close>

locale timed_uut =
  fixes uut :: "u32 \<Rightarrow> trial_context_t \<Rightarrow> ('s, u64) hm" and E :: env
  assumes still_call: "inert (uut key t)"
    and call: "clocked E \<Longrightarrow> trial_at w t d u s \<Longrightarrow> hok (uut (of_bool b) t) w (\<lambda>r w'. r = ns E (clocks w + 1) - ns E (clocks w) \<and>
      (\<exists>d' u'. heap w' = (heap w)(dest t \<mapsto> W32 d', dummy t \<mapsto> W32 u')) \<and>
      brk w' = brk w \<and> clocks w' = clocks w + 2 \<and> rands w' = rands w)"

interpretation v2: timed_uut "timed_call_uut_v2 E" E for E
  by unfold_locales (auto intro!: hok_v2 inertI)

interpretation v3: timed_uut "timed_call_uut_v3 E" E for E
proof unfold_locales
  fix w :: "'a world" and t d u s and b :: bool
  assume E: "clocked E" and t: "trial_at w t d u s"
  then have "(heap w)(dest t \<mapsto> W32 x) = (heap w)(dest t \<mapsto> W32 x, dummy t \<mapsto> W32 u)" for x
    by (auto simp: trial_at_def fun_eq_iff)
  then show "hok (timed_call_uut_v3 E (of_bool b) t) w (\<lambda>r w'. r = ns E (clocks w + 1) - ns E (clocks w) \<and>
      (\<exists>d' u'. heap w' = (heap w)(dest t \<mapsto> W32 d', dummy t \<mapsto> W32 u')) \<and>
      brk w' = brk w \<and> clocks w' = clocks w + 2 \<and> rands w' = rands w)"
    by (intro hok_v3 [OF E t]) metis
qed (rule inert_uut)

section \<open>The main loop runs to its end\<close>

text \<open>The client's invariant holds, later allocations succeed, and the heap outside the client's blocks \<open>X\<close> is \<open>G\<close>.\<close>

definition outside :: "env \<Rightarrow> (nat \<Rightarrow> 's world \<Rightarrow> bool) \<Rightarrow> (nat \<Rightarrow> 's world \<Rightarrow> nat set) \<Rightarrow> nat \<Rightarrow> nat set \<Rightarrow> (nat \<Rightarrow> 's block option) \<Rightarrow>
    nat \<Rightarrow> nat \<Rightarrow> 's world \<Rightarrow> bool" where
  "outside E cinv cown p X G c r w \<longleftrightarrow>
     wf w \<and> env_from E (brk w) \<and> cinv p w \<and> cown p w = X \<and> (\<forall>a. a \<notin> X \<longrightarrow> heap w a = G a) \<and> clocks w = c \<and> rands w = r"

text \<open>The durations after \<open>m\<close> of \<open>N\<close> measurements from the clock reading \<open>c\<close> on, and the keys after \<open>m\<close> of \<open>N\<close> iterations.\<close>

definition durations :: "env \<Rightarrow> nat \<Rightarrow> nat \<Rightarrow> nat \<Rightarrow> u64 list" where
  "durations E c m N = map (\<lambda>j. ns E (c + 2 * j + 1) - ns E (c + 2 * j)) [0..<m] @ replicate (N - m) (junk E)"

definition keys :: "env \<Rightarrow> nat \<Rightarrow> nat \<Rightarrow> nat \<Rightarrow> u32 list" where
  "keys E r m N = map (\<lambda>j. rand_val E (r + j)) [0..<m] @ replicate (N - m) (ucast (junk E))"

definition world0 :: "'s world" where
  "world0 = \<lparr>heap = (\<lambda>_. None), brk = 1, clocks = 0, rands = 0, obs = []\<rparr>"

lemma wf_world0: "wf world0"
  by (simp add: wf_def world0_def)

text \<open>A run of \<open>main\<close> from the start of the process: nothing faults, the heap at the end holds the array of the \<open>32 n\<close> durations and the array of
  the \<open>n\<close> keys and nothing else, duration \<open>j\<close> is the difference of the clock readings \<open>2 j + 1\<close> and \<open>2 j\<close>, key \<open>i\<close> is the random number \<open>i\<close>.\<close>

definition measured :: "env \<Rightarrow> u64 \<Rightarrow> u32 \<Rightarrow> ('s, global_context_t option \<times> nat \<times> nat) hm \<Rightarrow> bool" where
  "measured E n seed f \<longleftrightarrow> hok f world0 (\<lambda>r w. r = (Some (create_global_context n seed), 1, 2) \<and>
     heap w = [1 \<mapsto> W64 (map (\<lambda>j. ns E (2 * j + 1) - ns E (2 * j)) [0..<32 * unat n]), 2 \<mapsto> W32 (map (rand_val E) [0..<unat n])] \<and>
     clocks w = 64 * unat n \<and> rands w = unat n)"

text \<open>How a run ends: with all the measurements, or with a store outside the array of durations when its size has wrapped around, or with a
  store through \<open>NULL\<close> when one of the two arrays (the blocks 1 and 2) could not be allocated.\<close>

definition harness_outcome :: "env \<Rightarrow> u64 \<Rightarrow> u32 \<Rightarrow> ('s, global_context_t option \<times> nat \<times> nat) hm \<Rightarrow> bool" where
  "harness_outcome E n seed f \<longleftrightarrow>
     (env_ok E \<and> unat n < 2 ^ 56 \<longrightarrow> measured E n seed f) \<and>
     (env_ok E \<and> 2 ^ 56 \<le> unat n \<longrightarrow> hend f world0 Faulted) \<and>
     (env_from E 3 \<and> \<not> (alloc_ok E 1 \<and> alloc_ok E 2) \<and> 0 < n \<longrightarrow> hend f world0 Faulted)"

text \<open>The two arrays that \<open>main\<close> allocates, as the code computes their sizes.\<close>

lemma array_sizes:
  "unat (8 * (n * 32 :: u64)) div 8 = 32 * (unat n mod 2 ^ 56)" "unat (4 * n :: u64) div 4 = unat n mod 2 ^ 62"
proof -
  have "8 * (n * 32) = 256 * n" by simp
  moreover have "unat (256 * n) = 256 * (unat n mod 2 ^ 56)" by (simp add: unat_word_ariths mult_mod_right)
  moreover have "unat (4 * n) = 4 * (unat n mod 2 ^ 62)" by (simp add: unat_word_ariths mult_mod_right)
  ultimately show "unat (8 * (n * 32 :: u64)) div 8 = 32 * (unat n mod 2 ^ 56)" "unat (4 * n :: u64) div 4 = unat n mod 2 ^ 62" by simp_all
qed

locale harness = harness_client C E cinv cown + timed_uut uut E
  for C :: "'s client" and E :: env and cinv :: "nat \<Rightarrow> 's world \<Rightarrow> bool" and cown :: "nat \<Rightarrow> 's world \<Rightarrow> nat set"
    and uut :: "u32 \<Rightarrow> trial_context_t \<Rightarrow> ('s, u64) hm"
begin

lemma outside_kept:
  "outside E cinv cown (g_state g) X G c r w \<Longrightarrow> kept cinv cown g w ro w' \<Longrightarrow> outside E cinv cown (g_state g) X G c r w'"
  by (auto simp: outside_def kept_def same_but_def intro: env_from_mono)

lemma outside_upd:
  assumes "outside E cinv cown p X G c r w" and "\<And>a. a \<in> X \<Longrightarrow> heap w' a = heap w a" and "\<And>a. a \<notin> X \<Longrightarrow> heap w' a = G' a"
    and "wf w'" and "brk w \<le> brk w'" and "clocks w' = c'" and "rands w' = r'"
  shows "outside E cinv cown p X G' c' r' w'"
  using assms frame [of p w w'] env_from_mono [of E "brk w" "brk w'"] by (auto simp: outside_def)

lemma hok_kept:
  assumes o: "outside E cinv cown (g_state g) X G c r w" and f: "hok f w (kept cinv cown g w)"
    and Q: "\<And>b' w'. global_ctx b' = Some g \<Longrightarrow> outside E cinv cown (g_state g) X G c r w' \<Longrightarrow> Q (Some b') w'"
  shows "hok f w Q"
proof (rule hok_weaken [OF f])
  fix x w' assume k: "kept cinv cown g w x w'"
  then obtain b' where "x = Some b'" "global_ctx b' = Some g" by (auto simp: kept_def)
  with Q outside_kept [OF o k] show "Q x w'" by simp
qed

lemma hok_trial:
  assumes o: "outside E cinv cown (g_state g) X G c r w" and f: "f \<in> {trial_setup C, trial_teardown C, helper_start C, helper_stop C}"
    and b: "global_ctx b = Some g"
    and Q: "\<And>b' w'. global_ctx b' = Some g \<Longrightarrow> outside E cinv cown (g_state g) X G c r w' \<Longrightarrow> Q (Some b') w'"
  shows "hok (f (Some b)) w Q"
proof (rule hok_kept [OF o])
  show "hok (f (Some b)) w (kept cinv cown g w)" using o f b by (intro trial) (auto simp: outside_def)
qed (rule Q)

lemma hok_inner:
  assumes o: "outside E cinv cown (g_state g) X G c r w" and b: "global_ctx b = Some g" and t: "trial_at w t d u s"
    and Q: "\<And>b' w'. global_ctx b' = Some g \<Longrightarrow> outside E cinv cown (g_state g) X G c r w' \<Longrightarrow> Q (Some b') w'"
  shows "hok (trial_inner_setup C (Some b) (Some t)) w Q"
proof (rule hok_kept [OF o])
  show "hok (trial_inner_setup C (Some b) (Some t)) w (kept cinv cown g w)" using o b t by (intro inner) (auto simp: outside_def)
qed (rule Q)

text \<open>With the four blocks of a trial context \<open>T\<close> allocated.\<close>

lemma hok_trial_call:
  assumes b: "global_ctx b = Some g"
    and o: "outside E cinv cown (g_state g) X (G(dest T \<mapsto> W32 z, dummy T \<mapsto> W32 z, data T \<mapsto> W32 s, data_len T \<mapsto> W64 [n])) c r w"
    and T: "unat n = 4 * length s" "length z = length s" "distinct [dest T, dummy T, data T, data_len T]"
      "{0, ds} \<inter> {dest T, dummy T, data T, data_len T} = {}" "({ds} \<union> {dest T, dummy T, data T, data_len T}) \<inter> X = {}"
    and G: "G ds = Some (W64 dv)" "i < length dv" "\<And>a. a \<in> {dest T, dummy T, data T, data_len T} \<Longrightarrow> G a = None"
    and Q: "\<And>b' w'. global_ctx b' = Some g \<Longrightarrow>
      outside E cinv cown (g_state g) X (G(ds \<mapsto> W64 (dv[i := ns E (c + 1) - ns E c]))) (c + 2) r w' \<Longrightarrow> Q (Some b') w'"
  shows "hok (do { rc \<leftarrow> trial_inner_setup C (Some b) (Some T); rc \<leftarrow> helper_start C rc; d \<leftarrow> uut (of_bool k) T; put64 ds i d;
     rc \<leftarrow> helper_stop C rc; destroy_trial_context T; State_Monad.return rc }) w Q"
proof -
  let ?G = "G(dest T \<mapsto> W32 z, dummy T \<mapsto> W32 z, data T \<mapsto> W32 s, data_len T \<mapsto> W64 [n])"
  let ?o = "outside E cinv cown (g_state g) X"
  have at: "trial_at w' T z z s" if "?o ?G c r w'" for w' using that T by (auto simp: outside_def trial_at_def)
  have wf: "wf w'" "clocked E" if "?o G' c' r w'" for G' c' w' using that by (simp_all add: outside_def env_from_def)
  show ?thesis
  proof (rule hok_bind, rule hok_inner [OF o b at [OF o]], rule hok_bind, rule hok_trial, assumption, simp, assumption, rule hok_bind)
    fix b2 :: bench_context_t and w2 assume b2: "global_ctx b2 = Some g" and o2: "?o ?G c r w2"
    have c2: "clocks w2 = c" using o2 by (simp add: outside_def)
    show "hok (uut (of_bool k) T) w2 (\<lambda>x w'. hok (put64 ds i x \<bind> (\<lambda>_. helper_stop C (Some b2) \<bind> (\<lambda>rc. destroy_trial_context T \<bind>
        (\<lambda>_. State_Monad.return rc)))) w' Q)"
    proof (rule hok_weaken [OF call [OF wf(2) [OF o2] at [OF o2]]], elim conjE exE, hypsubst)
      fix w3 :: "'s world" and d' u'
      assume w3: "heap w3 = (heap w2)(dest T \<mapsto> W32 d', dummy T \<mapsto> W32 u')" "brk w3 = brk w2" "clocks w3 = clocks w2 + 2" "rands w3 = rands w2"
      show "hok (put64 ds i (ns E (clocks w2 + 1) - ns E (clocks w2)) \<bind> (\<lambda>_. helper_stop C (Some b2) \<bind> (\<lambda>rc. destroy_trial_context T \<bind>
        (\<lambda>_. State_Monad.return rc)))) w3 Q"
      proof -
        let ?v = "ns E (c + 1) - ns E c"
        let ?A = "{dest T, dummy T, data T, data_len T}"
        have w2: "heap w2 a = ?G a" if "a \<notin> X" for a using o2 that by (simp add: outside_def)
        have ds: "heap w3 ds = Some (W64 dv)" using w3(1) w2 [of ds] T G by auto
        define G4 where "G4 = ?G(dest T \<mapsto> W32 d', dummy T \<mapsto> W32 u', ds \<mapsto> W64 (dv[i := ?v]))"
        have wf3: "wf w3" using wf(1) [OF o2] w3 T w2 by (auto simp: wf_def)
        show ?thesis
          unfolding c2
        proof (rule hok_bind, rule hok_put64 [OF ds G(2)], rule hok_bind, rule hok_trial [where b = b2])
          show "outside E cinv cown (g_state g) X G4 (c + 2) r (w3\<lparr>heap := (heap w3)(ds \<mapsto> W64 (dv[i := ?v])), obs := obs w3 @ [St ds i]\<rparr>)"
            by (rule outside_upd [OF o2]) (use T w3 wf3 ds o2 in \<open>auto simp: G4_def w2 outside_def wf_def\<close>)
          fix b' :: bench_context_t and w4 assume b': "global_ctx b' = Some g" and o4: "?o G4 (c + 2) r w4"
          have a: "heap w4 a = G4 a" if "a \<in> ?A" for a using that o4 T(5) by (auto simp: outside_def)
          have h: "heap w4 (dest T) = Some (W32 d')" "heap w4 (dummy T) = Some (W32 u')" "heap w4 (data T) = Some (W32 s)"
            "heap w4 (data_len T) = Some (W64 [n])" using T(3,4) by (auto simp: a G4_def)
          define w5 where "w5 = w4\<lparr>heap := (heap w4)(dest T := None, dummy T := None, data T := None, data_len T := None)\<rparr>"
          have "outside E cinv cown (g_state g) X (G(ds \<mapsto> W64 (dv[i := ?v]))) (c + 2) r w5"
          proof (rule outside_upd [OF o4])
            fix a assume "a \<in> X"
            then show "heap w5 a = heap w4 a" using T(5) by (auto simp: w5_def)
          next
            fix a assume "a \<notin> X"
            then have "heap w4 a = G4 a" using o4 by (simp add: outside_def)
            then show "heap w5 a = (G(ds \<mapsto> W64 (dv[i := ?v]))) a" using T(4) G(3) by (auto simp: w5_def G4_def)
          qed (use o4 in \<open>auto simp: w5_def outside_def wf_def\<close>)
          note Q' = Q [OF b' this, unfolded w5_def]
          show "hok (destroy_trial_context T \<bind> (\<lambda>_. State_Monad.return (Some b'))) w4 Q"
            unfolding destroy_trial_context_def
            by (intro hok_bind hok_free hok_ret) (use h T(3,4) Q' in auto)
        qed (use b2 in auto)
      qed
    qed
  qed
qed

lemma append_replicate_upd: "m < N \<Longrightarrow> length xs = m \<Longrightarrow> (xs @ replicate (N - m) y)[m := v] = (xs @ [v]) @ replicate (N - Suc m) y"
  by (simp add: list_update_append Suc_diff_Suc [symmetric])

lemma durations_step: "m < N \<Longrightarrow> (durations E c m N)[m := ns E (c + 2 * m + 1) - ns E (c + 2 * m)] = durations E c (Suc m) N"
  by (simp add: durations_def append_replicate_upd)

lemma keys_step: "m < N \<Longrightarrow> (keys E r m N)[m := rand_val E (r + m)] = keys E r (Suc m) N"
  by (simp add: keys_def append_replicate_upd)

lemma length_durations [simp]: "m \<le> N \<Longrightarrow> length (durations E c m N) = N"
  by (simp add: durations_def)

lemma length_keys [simp]: "m \<le> N \<Longrightarrow> length (keys E r m N) = N"
  by (simp add: keys_def)

abbreviation arrays :: "(nat \<Rightarrow> 's block option) \<Rightarrow> nat \<Rightarrow> u64 list \<Rightarrow> nat \<Rightarrow> u32 list \<Rightarrow> nat \<Rightarrow> 's block option" where
  "arrays H ds dv ks kv \<equiv> H(ds \<mapsto> W64 dv, ks \<mapsto> W32 kv)"

lemma hok_bit:
  assumes b: "global_ctx b = Some g" and o: "outside E cinv cown (g_state g) X (arrays H ds dv ks kv) c r w"
    and a: "ds \<noteq> ks" "ds \<noteq> 0" "{ds, ks} \<inter> X = {}" and i: "i < length kv" "i * 32 + ki < length dv"
    and Q: "\<And>b' w'. global_ctx b' = Some g \<Longrightarrow>
      outside E cinv cown (g_state g) X (arrays H ds (dv[i * 32 + ki := ns E (c + 1) - ns E c]) ks kv) (c + 2) r w' \<Longrightarrow> Q (Some b') w'"
  shows "hok (harness_bit E C uut ds ks i ki (Some b)) w Q"
proof -
  let ?G = "arrays H ds dv ks kv"
  have E: "env_from E (brk w)" using o by (simp add: outside_def)
  have w: "wf w" "cinv (g_state g) w" "cown (g_state g) w = X" "\<And>a. a \<notin> X \<Longrightarrow> heap w a = ?G a" "clocks w = c" "rands w = r"
    using o by (auto simp: outside_def)
  have ks: "heap w ks = Some (W32 kv)" using w(4) [of ks] a by simp
  have bit: "shr (kv ! i) ki AND 1 = of_bool (bit (kv ! i) ki)" by (rule bit_word_eqI) (auto simp: bit_simps)
  show ?thesis
    unfolding harness_bit_def Let_def
  proof (rule hok_bind, rule hok_get32 [OF ks i(1)], rule hok_bind, rule hok_create, goal_cases)
    case 1 then show ?case using w(1) by (simp add: wf_def)
  next
    case 2 show ?case using E by simp
  next
    case (3 w1)
    let ?k = "brk w"
    let ?T = "\<lparr>dest = ?k, dummy = ?k + 1, data = ?k + 2, data_len = ?k + 3\<rparr>"
    have fresh: "heap w j = None" "j \<notin> X" if "?k \<le> j" for j
    proof -
      show f: "heap w j = None" using w(1) that by (cases "heap w j") (auto simp: wf_def)
      show "j \<notin> X" using own_dom [OF w(2)] f w(3) by auto
    qed
    have less: "j < ?k" if "heap w j \<noteq> None" for j using that fresh by (meson not_le)
    have ds: "ds < ?k" "ks < ?k" using less w(4) a by auto
    have T: "unat ((1024 :: u64) * 4) = 4 * length (pattern 1024)" "unat (1024 :: u64) = 1024" by simp_all
    have o1: "outside E cinv cown (g_state g) X (?G(dest ?T \<mapsto> W32 (replicate 1024 0), dummy ?T \<mapsto> W32 (replicate 1024 0),
        data ?T \<mapsto> W32 (pattern 1024), data_len ?T \<mapsto> W64 [1024 * 4])) c r w1"
    proof (rule outside_upd [OF o])
      fix a assume "a \<in> X"
      then have "a < ?k" using fresh(2) by (meson not_le)
      then show "heap w1 a = heap w a" using 3 by simp
    next
      show "wf w1" using 3 w(1) by (auto simp: wf_def)
    qed (use 3 w T(2) in simp_all)
    have B: "brk (w\<lparr>obs := x\<rparr>) = ?k" for x by simp
    show ?case
      unfolding bit B
      by (rule hok_trial_call [OF b o1 T(1)]) (use a i ds fresh in \<open>auto simp: w(4) fun_upd_twist [OF a(1)] intro!: Q\<close>)
  qed
qed

lemma hok_iteration:
  assumes i: "i < K" "32 * i + 32 \<le> N"
    and o: "outside E cinv cown (g_state g) X (arrays H ds (durations E c (32 * i) N) ks (keys E r i K)) (c + 64 * i) (r + i) w"
    and a: "ds \<noteq> ks" "ds \<noteq> 0" "{ds, ks} \<inter> X = {}"
  shows "hok (harness_iteration E C uut ds ks i g) w (\<lambda>g' w'. g' = g \<and>
    outside E cinv cown (g_state g) X (arrays H ds (durations E c (32 * Suc i) N) ks (keys E r (Suc i) K)) (c + 64 * Suc i) (r + Suc i) w')"
proof -
  let ?o = "outside E cinv cown (g_state g) X"
  let ?I = "\<lambda>j (rc :: bench_context_t option) w'. (\<exists>b. rc = Some b \<and> global_ctx b = Some g) \<and>
      ?o (arrays H ds (durations E c (32 * i + j) N) ks (keys E r (Suc i) K)) (c + 64 * i + 2 * j) (r + Suc i) w'"
  have ks: "heap w ks = Some (W32 (keys E r i K))" and r: "rands w = r + i" using o a by (auto simp: outside_def)
  define w1 where "w1 = w\<lparr>rands := rands w + 1, heap := (heap w)(ks \<mapsto> W32 (keys E r (Suc i) K)), obs := obs w @ [St ks i]\<rparr>"
  have o1: "?o (arrays H ds (durations E c (32 * i) N) ks (keys E r (Suc i) K)) (c + 64 * i) (r + Suc i) w1"
    by (rule outside_upd [OF o]) (use a o ks in \<open>auto simp: w1_def outside_def wf_def\<close>)
  show ?thesis
    unfolding harness_iteration_def Let_def
  proof (rule hok_bind, rule hok_rand, rule hok_bind, rule hok_put32, simp add: ks, use i in simp, rule hok_bind, rule hok_trial)
    show "?o (arrays H ds (durations E c (32 * i) N) ks (keys E r (Suc i) K)) (c + 64 * i) (r + Suc i)
        (w\<lparr>rands := rands w + 1, heap := (heap (w\<lparr>rands := rands w + 1\<rparr>))(ks \<mapsto> W32 ((keys E r i K)[i := rand_val E (rands w)])),
           obs := obs (w\<lparr>rands := rands w + 1\<rparr>) @ [St ks i]\<rparr>)"
      using o1 keys_step [OF i(1), of r] by (simp add: w1_def r)
  next
    show "trial_setup C \<in> {trial_setup C, trial_teardown C, helper_start C, helper_stop C}" by simp
    show "global_ctx (create_context g (of_nat i)) = Some g" by (simp add: create_context_def)
  next
    fix b :: bench_context_t and w2
    assume b: "global_ctx b = Some g"
      and o2: "?o (arrays H ds (durations E c (32 * i) N) ks (keys E r (Suc i) K)) (c + 64 * i) (r + Suc i) w2"
    show "hok (for_h 0 32 (harness_bit E C uut ds ks i) (Some b) \<bind> (\<lambda>rc. trial_teardown C rc \<bind> (\<lambda>rc. State_Monad.return (global_of rc g)))) w2
      (\<lambda>g' w'. g' = g \<and> ?o (arrays H ds (durations E c (32 * Suc i) N) ks (keys E r (Suc i) K)) (c + 64 * Suc i) (r + Suc i) w')"
    proof (rule hok_bind, rule hok_for_h [where Inv = ?I])
      fix j and rc :: "bench_context_t option" and w3 assume j: "j < 32" and I: "?I j rc w3"
      then obtain b where b: "rc = Some b" "global_ctx b = Some g"
        and o3: "?o (arrays H ds (durations E c (32 * i + j) N) ks (keys E r (Suc i) K)) (c + 64 * i + 2 * j) (r + Suc i) w3" by blast
      have m: "32 * i + j < N" using i j by simp
      note st = durations_step [OF m, of c]
      show "hok (harness_bit E C uut ds ks i j rc) w3 (?I (Suc j))"
        unfolding b(1) using st
        by (intro hok_bit [OF b(2) o3 a]) (use m i in \<open>auto simp: algebra_simps\<close>)
    next
      fix rc :: "bench_context_t option" and w3 assume "?I 32 rc w3"
      then obtain b where b: "rc = Some b" "global_ctx b = Some g"
        and o3: "?o (arrays H ds (durations E c (32 * i + 32) N) ks (keys E r (Suc i) K)) (c + 64 * i + 2 * 32) (r + Suc i) w3" by blast
      show "hok (trial_teardown C rc \<bind> (\<lambda>rc. State_Monad.return (global_of rc g))) w3 (\<lambda>g' w'. g' = g \<and>
        ?o (arrays H ds (durations E c (32 * Suc i) N) ks (keys E r (Suc i) K)) (c + 64 * Suc i) (r + Suc i) w')"
        unfolding b(1) by (rule hok_bind, rule hok_trial [OF o3 _ b(2)]) (auto intro!: hok_ret simp: algebra_simps global_of_def)
    qed (use b o2 in auto)
  qed
qed

text \<open>The two ways in which the loop leaves its arrays: the key or the duration has no place in the array that was allocated.\<close>

lemma hend_trial_call:
  assumes b: "global_ctx b = Some g"
    and o: "outside E cinv cown (g_state g) X (G(dest T \<mapsto> W32 z, dummy T \<mapsto> W32 z, data T \<mapsto> W32 s, data_len T \<mapsto> W64 [n])) c r w"
    and T: "unat n = 4 * length s" "length z = length s" "distinct [dest T, dummy T, data T, data_len T]"
      "{ds} \<inter> {dest T, dummy T, data T, data_len T} = {}" "({ds} \<union> {dest T, dummy T, data T, data_len T}) \<inter> X = {}"
    and bad: "\<And>dv. G ds = Some (W64 dv) \<Longrightarrow> length dv \<le> i"
  shows "hend (do { rc \<leftarrow> trial_inner_setup C (Some b) (Some T); rc \<leftarrow> helper_start C rc; d \<leftarrow> uut (of_bool k) T; put64 ds i d;
     rc \<leftarrow> helper_stop C rc; destroy_trial_context T; State_Monad.return rc }) w Faulted"
proof -
  let ?G = "G(dest T \<mapsto> W32 z, dummy T \<mapsto> W32 z, data T \<mapsto> W32 s, data_len T \<mapsto> W64 [n])"
  let ?o = "outside E cinv cown (g_state g) X"
  have at: "trial_at w' T z z s" if "?o ?G c r w'" for w' using that T by (auto simp: outside_def trial_at_def)
  have ck: "clocked E" using o by (simp add: outside_def env_from_def)
  show ?thesis
  proof (rule hend_later, rule hok_inner [OF o b at [OF o]], rule hend_later, rule hok_trial, assumption, simp, assumption, rule hend_later)
    fix b2 :: bench_context_t and w2 assume b2: "global_ctx b2 = Some g" and o2: "?o ?G c r w2"
    show "hok (uut (of_bool k) T) w2 (\<lambda>x w'. hend (put64 ds i x \<bind> (\<lambda>_. helper_stop C (Some b2) \<bind> (\<lambda>rc. destroy_trial_context T \<bind>
        (\<lambda>_. State_Monad.return rc)))) w' Faulted)"
    proof (rule hok_weaken [OF call [OF ck at [OF o2]]], elim conjE exE, hypsubst)
      fix w3 :: "'s world" and d' u'
      assume w3: "heap w3 = (heap w2)(dest T \<mapsto> W32 d', dummy T \<mapsto> W32 u')"
      have "heap w3 ds = G ds" using w3 o2 T by (auto simp: outside_def)
      then show "hend (put64 ds i (ns E (clocks w2 + 1) - ns E (clocks w2)) \<bind> (\<lambda>_. helper_stop C (Some b2) \<bind> (\<lambda>rc. destroy_trial_context T \<bind>
        (\<lambda>_. State_Monad.return rc)))) w3 Faulted"
        using bad by (intro hend_first hend_put64 inertI still) (auto simp: destroy_trial_context_def intro!: inertI)
    qed
  qed
qed

lemma fresh_block:
  assumes o: "outside E cinv cown (g_state g) X G c r w" and j: "brk w \<le> j"
  shows "heap w j = None" and "j \<notin> X"
proof -
  show f: "heap w j = None" using o j by (cases "heap w j") (auto simp: outside_def wf_def)
  show "j \<notin> X" using own_dom [of "g_state g" w] f o by (auto simp: outside_def)
qed

lemma hend_bit:
  assumes b: "global_ctx b = Some g" and o: "outside E cinv cown (g_state g) X G c r w"
    and a: "ds = 0 \<or> G ds \<noteq> None" "ds \<notin> X" "heap w ks = Some (W32 kv)" and i: "i < length kv"
    and bad: "\<And>dv. G ds = Some (W64 dv) \<Longrightarrow> length dv \<le> i * 32 + ki"
  shows "hend (harness_bit E C uut ds ks i ki (Some b)) w Faulted"
proof -
  have w: "wf w" "env_from E (brk w)" "\<And>a. a \<notin> X \<Longrightarrow> heap w a = G a" "clocks w = c" "rands w = r" using o by (auto simp: outside_def)
  have "ds < brk w" using a w(1) w(3) [of ds] by (cases "ds = 0") (auto simp: wf_def)
  note a = this a(2,3)
  have bit: "shr (kv ! i) ki AND 1 = of_bool (bit (kv ! i) ki)" by (rule bit_word_eqI) (auto simp: bit_simps)
  show ?thesis
    unfolding harness_bit_def Let_def
  proof (rule hend_later, rule hok_get32 [OF a(3) i], rule hend_later, rule hok_create, goal_cases)
    case 1 then show ?case using w(1) by (simp add: wf_def)
  next
    case 2 show ?case using w(2) by simp
  next
    case (3 w1)
    let ?k = "brk w"
    let ?T = "\<lparr>dest = ?k, dummy = ?k + 1, data = ?k + 2, data_len = ?k + 3\<rparr>"
    have T: "unat ((1024 :: u64) * 4) = 4 * length (pattern 1024)" "unat (1024 :: u64) = 1024" by simp_all
    have o1: "outside E cinv cown (g_state g) X (G(dest ?T \<mapsto> W32 (replicate 1024 0), dummy ?T \<mapsto> W32 (replicate 1024 0),
        data ?T \<mapsto> W32 (pattern 1024), data_len ?T \<mapsto> W64 [1024 * 4])) c r w1"
    proof (rule outside_upd [OF o])
      fix a assume "a \<in> X"
      then have "a < ?k" using fresh_block(2) [OF o] by (meson not_le)
      then show "heap w1 a = heap w a" using 3 by simp
    next
      show "wf w1" using 3 w(1) by (auto simp: wf_def)
    qed (use 3 w T(2) in simp_all)
    have B: "brk (w\<lparr>obs := x\<rparr>) = ?k" for x by simp
    show ?case
      unfolding bit B
      by (rule hend_trial_call [OF b o1 T(1) _ _ _ _ bad]) (use a fresh_block(2) [OF o] in auto)
  qed
qed

lemma inert_bit [inertI]: "inert (harness_bit E C uut ds ks i ki rc)"
  by (auto simp: harness_bit_def create_default_trial_context_def fill_words_deterministically_def handle_oom_error_def destroy_trial_context_def
      Let_def intro!: inertI still still_call)

lemma inert_iteration: "inert (harness_iteration E C uut ds ks i g)"
  by (auto simp: harness_iteration_def Let_def intro!: inertI still)

lemma hend_iteration:
  assumes o: "outside E cinv cown (g_state g) X G c r w"
    and a: "ds = 0 \<or> G ds \<noteq> None" "{ds, ks} \<inter> X = {}"
    and bad: "\<And>kv dv. G ks = Some (W32 kv) \<Longrightarrow> i < length kv \<Longrightarrow> G ds = Some (W64 dv) \<Longrightarrow> length dv \<le> 32 * i"
  shows "hend (harness_iteration E C uut ds ks i g) w Faulted"
proof (cases "\<exists>kv. G ks = Some (W32 kv) \<and> i < length kv")
  case False
  have "heap w ks = G ks" using o a by (auto simp: outside_def)
  with False show ?thesis
    unfolding harness_iteration_def Let_def
    by (intro hend_later hok_rand hend_first hend_put32 inertI still) (auto simp: not_less)
next
  case True
  then obtain kv where kv: "G ks = Some (W32 kv)" "i < length kv" by blast
  have ks: "heap w ks = Some (W32 kv)" using o a kv by (auto simp: outside_def)
  show ?thesis
    unfolding harness_iteration_def Let_def
  proof (rule hend_later, rule hok_rand, rule hend_later, rule hok_put32, simp add: ks, rule kv(2), rule hend_later, rule hok_trial)
    let ?kv = "kv[i := rand_val E (rands w)]"
    show "outside E cinv cown (g_state g) X (G(ks \<mapsto> W32 ?kv)) c (r + 1)
       (w\<lparr>rands := rands w + 1, heap := (heap (w\<lparr>rands := rands w + 1\<rparr>))(ks \<mapsto> W32 ?kv), obs := obs (w\<lparr>rands := rands w + 1\<rparr>) @ [St ks i]\<rparr>)"
      by (rule outside_upd [OF o]) (use a o ks in \<open>auto simp: outside_def wf_def\<close>)
    show "trial_setup C \<in> {trial_setup C, trial_teardown C, helper_start C, helper_stop C}" by simp
    show "global_ctx (create_context g (of_nat i)) = Some g" by (simp add: create_context_def)
    fix b :: bench_context_t and w2
    assume b: "global_ctx b = Some g" and o2: "outside E cinv cown (g_state g) X (G(ks \<mapsto> W32 ?kv)) c (r + 1) w2"
    show "hend (for_h 0 32 (harness_bit E C uut ds ks i) (Some b) \<bind> (\<lambda>rc. trial_teardown C rc \<bind> (\<lambda>rc. State_Monad.return (global_of rc g)))) w2 Faulted"
    proof (rule hend_first, rule hend_for_h [where m = 0 and Inv = "\<lambda>_ rc w'. rc = Some b \<and> w' = w2"])
      fix rc w3 assume "rc = Some b \<and> w3 = w2"
      moreover have "heap w2 ks = Some (W32 ?kv)" using o2 a by (auto simp: outside_def)
      ultimately show "hend (harness_bit E C uut ds ks i 0 rc) w3 Faulted"
        using a bad [OF kv] kv by (auto intro!: hend_bit [OF b o2] split: if_splits)
    qed (auto intro!: inertI still)
  qed
qed

text \<open>The client has set itself up outside the two arrays.\<close>

lemma outside_start:
  assumes w: "wf w1" "wf w2" "env_from E (brk w1)" and p: "cinv p w2" "cown p w2 \<inter> dom (heap w1) = {}" "same_but (cown p w2) w1 w2"
  shows "outside E cinv cown p (cown p w2) (heap w1) (clocks w1) (rands w1) w2" and "a = 0 \<or> heap w1 a \<noteq> None \<Longrightarrow> a \<notin> cown p w2"
proof -
  show "outside E cinv cown p (cown p w2) (heap w1) (clocks w1) (rands w1) w2"
    using w p env_from_mono [of E "brk w1" "brk w2"] by (auto simp: outside_def same_but_def)
  have "heap w2 0 = None" using w(2) by (cases "heap w2 0") (auto simp: wf_def)
  then show "a \<notin> cown p w2" if "a = 0 \<or> heap w1 a \<noteq> None" using that own_dom [OF p(1)] p(2) by (auto simp: dom_def)
qed

lemma hok_main:
  assumes w: "wf w" and E: "env_ok E" and n: "unat n < 2 ^ 56"
  shows "hok (harness_main E C uut n seed) w (\<lambda>r w'. r = (Some (create_global_context n seed), brk w, brk w + 1) \<and>
    heap w' = arrays (heap w) (brk w) (durations E (clocks w) (32 * unat n) (32 * unat n)) (brk w + 1) (keys E (rands w) (unat n) (unat n)) \<and>
    clocks w' = clocks w + 64 * unat n \<and> rands w' = rands w + unat n)"
proof -
  let ?ds = "brk w" and ?ks = "brk w + 1" and ?N = "unat n" and ?c = "clocks w" and ?r = "rands w"
  let ?g = "create_global_context n seed"
  let ?A = "\<lambda>i. arrays (heap w) ?ds (durations E ?c (32 * i) (32 * ?N)) ?ks (keys E ?r i ?N)"
  have init: "W64 (replicate (unat (8 * (n * 32)) div 8) (junk E)) = W64 (durations E ?c (32 * 0) (32 * ?N))"
    "W32 (replicate (unat (4 * n) div 4) (ucast (junk E))) = W32 (keys E ?r 0 ?N)"
    using n unfolding array_sizes durations_def keys_def by simp_all
  have al: "alloc_ok E a" for a using E by (simp add: env_ok_def)
  define w1 where "w1 = w\<lparr>heap := ?A 0, brk := brk w + 2\<rparr>"
  have wf1: "wf w1" using w by (auto simp: w1_def wf_def)
  have ds0: "?ds \<noteq> 0" using w by (simp add: wf_def)
  have main: "hok (do { g \<leftarrow> global_setup C (Some ?g); g \<leftarrow> for_h 0 ?N (harness_iteration E C uut ?ds ?ks) (the g);
     g \<leftarrow> global_teardown C (Some g); State_Monad.return (g, ?ds, ?ks) }) w1 (\<lambda>r w'. r = (Some ?g, ?ds, ?ks) \<and>
       heap w' = ?A ?N \<and> clocks w' = ?c + 64 * ?N \<and> rands w' = ?r + ?N)"
  proof (rule hok_bind, rule hok_weaken [OF start [OF wf1 env_ok_from [OF E]]], goal_cases)
    case 1 show ?case by (simp add: create_global_context_def)
  next
    case (2 go w2)
    then obtain p where p: "go = Some (?g\<lparr>g_state := p\<rparr>)" "cinv p w2" "cown p w2 \<inter> dom (heap w1) = {}" "same_but (cown p w2) w1 w2" by blast
    define g where "g = ?g\<lparr>g_state := p\<rparr>"
    have g: "go = Some g" "g_state g = p" "g\<lparr>g_state := 0\<rparr> = ?g" using p(1) by (simp_all add: g_def create_global_context_def)
    let ?X = "cown p w2"
    let ?o = "\<lambda>i. outside E cinv cown p ?X (?A i) (?c + 64 * i) (?r + i)"
    have "wf w2" using p(4) by (simp add: same_but_def)
    note st = outside_start [OF wf1 this env_ok_from [OF E] p(2-4)]
    have o2: "?o 0 w2" using st(1) by (simp add: w1_def)
    have X: "{?ds, ?ks} \<inter> ?X = {}" using st(2) [of ?ds] st(2) [of ?ks] by (auto simp: w1_def)
    have Xn: "heap w a = None" if "a \<in> ?X" for a using that p(3) by (cases "heap w a") (auto simp: w1_def dom_def split: if_splits)
    show ?case
      unfolding g(1) option.sel
    proof (rule hok_bind, rule hok_for_h [where Inv = "\<lambda>i x w. x = g \<and> ?o i w"])
      fix i x w3 assume i: "i < ?N" and I: "x = g \<and> ?o i w3"
      have l: "32 * i + 32 \<le> 32 * ?N" using i by simp
      show "hok (harness_iteration E C uut ?ds ?ks i x) w3 (\<lambda>x w. x = g \<and> ?o (Suc i) w)"
        using I hok_iteration [OF i l _ _ ds0, of g ?X "heap w" ?c ?ks ?r w3] X g(2) by simp
    next
      fix x w3 assume "x = g \<and> ?o ?N w3"
      then have x: "x = g" and o3: "?o ?N w3" by simp_all
      show "hok (global_teardown C (Some x) \<bind> (\<lambda>g. State_Monad.return (g, ?ds, ?ks))) w3 (\<lambda>r w'. r = (Some ?g, ?ds, ?ks) \<and>
         heap w' = ?A ?N \<and> clocks w' = ?c + 64 * ?N \<and> rands w' = ?r + ?N)"
        unfolding x
      proof (rule hok_bind, rule hok_weaken [OF teardown])
        show "wf w3" "cinv (g_state g) w3" using o3 g(2) by (simp_all add: outside_def)
        fix go' and w4 :: "'s world"
        assume t: "go' = Some (g\<lparr>g_state := 0\<rparr>) \<and> heap w4 = heap w3 |` (- cown (g_state g) w3) \<and> clocks w4 = clocks w3 \<and> rands w4 = rands w3"
        have "heap w4 a = ?A ?N a" for a
          using t o3 g(2) X Xn by (cases "a \<in> ?X") (auto simp: outside_def restrict_map_def)
        then show "hok (State_Monad.return (go', ?ds, ?ks)) w4 (\<lambda>r w'. r = (Some ?g, ?ds, ?ks) \<and>
           heap w' = ?A ?N \<and> clocks w' = ?c + 64 * ?N \<and> rands w' = ?r + ?N)"
          using t o3 g by (intro hok_ret) (auto simp: outside_def)
      qed
    qed (use o2 in simp_all)
  qed
  show ?thesis
    unfolding harness_main_def Let_def init
    by (rule hok_bind, rule hok_alloc [OF al], rule hok_bind, rule hok_alloc [OF al]) (use main in \<open>simp add: w1_def\<close>)
qed

text \<open>A run that does \<open>m\<close> iterations and has no place for the next.\<close>

lemma hend_rest:
  assumes w: "wf w1" "env_from E (brk w1)" and a: "ds = 0 \<or> heap w1 ds \<noteq> None" "ks = 0 \<or> heap w1 ks \<noteq> None" and m: "m < N"
    and G: "G 0 = heap w1" "ds = 0 \<or> G m ds \<noteq> None"
    and step: "\<And>i g X w. i < m \<Longrightarrow> {ds, ks} \<inter> X = {} \<Longrightarrow>
      outside E cinv cown (g_state g) X (G i) (clocks w1 + 64 * i) (rands w1 + i) w \<Longrightarrow>
      hok (harness_iteration E C uut ds ks i g) w (\<lambda>g' w'. g' = g \<and>
        outside E cinv cown (g_state g) X (G (Suc i)) (clocks w1 + 64 * Suc i) (rands w1 + Suc i) w')"
    and bad: "\<And>kv dv. G m ks = Some (W32 kv) \<Longrightarrow> m < length kv \<Longrightarrow> G m ds = Some (W64 dv) \<Longrightarrow> length dv \<le> 32 * m"
  shows "hend (do { g \<leftarrow> global_setup C (Some (create_global_context n seed)); g \<leftarrow> for_h 0 N (harness_iteration E C uut ds ks) (the g);
     g \<leftarrow> global_teardown C (Some g); State_Monad.return (g, ds, ks) }) w1 Faulted"
proof (rule hend_later, rule hok_weaken [OF start [OF w]], goal_cases)
  case 1 show ?case by (simp add: create_global_context_def)
next
  case (2 go w2)
  then obtain g where g: "go = Some g" "cinv (g_state g) w2" "cown (g_state g) w2 \<inter> dom (heap w1) = {}" "same_but (cown (g_state g) w2) w1 w2"
    by (auto simp: create_global_context_def)
  let ?X = "cown (g_state g) w2"
  let ?o = "\<lambda>i. outside E cinv cown (g_state g) ?X (G i) (clocks w1 + 64 * i) (rands w1 + i)"
  have "wf w2" using g(4) by (simp add: same_but_def)
  note st = outside_start [OF w(1) this w(2) g(2-4)]
  have X: "{ds, ks} \<inter> ?X = {}" using st(2) a by auto
  show ?case
    unfolding g(1) option.sel
  proof (rule hend_first, rule hend_for_h [where m = m and Inv = "\<lambda>i x w. x = g \<and> ?o i w"])
    show "g = g \<and> ?o 0 w2" using st(1) G(1) by simp
    show "hok (harness_iteration E C uut ds ks j x) w (\<lambda>x w. x = g \<and> ?o (Suc j) w)" if "j < m" "x = g \<and> ?o j w" for j x w
      using step [OF that(1) X] that(2) by simp
    show "hend (harness_iteration E C uut ds ks m x) w Faulted" if "x = g \<and> ?o m w" for x w
      using that G(2) X bad by (auto intro!: hend_iteration [of g ?X "G m"])
  qed (use m in \<open>auto intro!: inertI still inert_iteration\<close>)
qed

text \<open>From \<open>2 ^ 56\<close> iterations on the size of the first array is reduced modulo \<open>2 ^ 64\<close>, and the loop leaves it.\<close>

lemma hend_main_wraps:
  assumes w: "wf w" and E: "env_ok E" and n: "2 ^ 56 \<le> unat n"
  shows "hend (harness_main E C uut n seed) w Faulted"
proof -
  let ?m = "unat n mod 2 ^ 56" and ?K = "unat n mod 2 ^ 62" and ?ds = "brk w" and ?ks = "brk w + 1"
  let ?G = "\<lambda>i. arrays (heap w) ?ds (durations E (clocks w) (32 * i) (32 * ?m)) ?ks (keys E (rands w) i ?K)"
  have "?m < 2 ^ 56" by simp
  then have m: "?m < unat n" using n by linarith
  have "?K mod 2 ^ 56 = ?m" by (rule mod_mod_cancel) simp
  then have K: "?m \<le> ?K" by (metis mod_less_eq_dividend)
  have init: "W64 (replicate (unat (8 * (n * 32)) div 8) (junk E)) = W64 (durations E (clocks w) (32 * 0) (32 * ?m))"
    "W32 (replicate (unat (4 * n) div 4) (ucast (junk E))) = W32 (keys E (rands w) 0 ?K)"
    unfolding array_sizes durations_def keys_def by simp_all
  have al: "alloc_ok E a" for a using E by (simp add: env_ok_def)
  define w1 where "w1 = w\<lparr>heap := ?G 0, brk := brk w + 2\<rparr>"
  have w1: "wf w1" "heap w1 = ?G 0" "clocks w1 = clocks w" "rands w1 = rands w" using w by (auto simp: w1_def wf_def)
  have ds0: "?ds \<noteq> 0" using w by (simp add: wf_def)
  have "hend (do { g \<leftarrow> global_setup C (Some (create_global_context n seed)); g \<leftarrow> for_h 0 (unat n) (harness_iteration E C uut ?ds ?ks) (the g);
     g \<leftarrow> global_teardown C (Some g); State_Monad.return (g, ?ds, ?ks) }) w1 Faulted"
  proof (rule hend_rest [OF w1(1) env_ok_from [OF E] _ _ m, where G = ?G])
    fix i :: nat and g :: global_context_t and X w' assume i: "i < ?m" and X: "{?ds, ?ks} \<inter> X = {}"
      and o: "outside E cinv cown (g_state g) X (?G i) (clocks w1 + 64 * i) (rands w1 + i) w'"
    show "hok (harness_iteration E C uut ?ds ?ks i g) w' (\<lambda>g' w'. g' = g \<and>
        outside E cinv cown (g_state g) X (?G (Suc i)) (clocks w1 + 64 * Suc i) (rands w1 + Suc i) w')"
      using i K o X ds0 unfolding w1(3,4) by (intro hok_iteration) simp_all
  qed (use w1 in \<open>auto simp: durations_def\<close>)
  note main = this
  show ?thesis
    unfolding harness_main_def Let_def init
    by (rule hend_later, rule hok_alloc [OF al], rule hend_later, rule hok_alloc [OF al]) (use main in \<open>simp add: w1_def\<close>)
qed

text \<open>The results of the two allocations are not checked.\<close>

lemma hend_main_unchecked:
  assumes w: "wf w" and E: "env_from E (brk w + 2)" "\<not> (alloc_ok E (brk w) \<and> alloc_ok E (brk w + 1))" and n: "0 < unat n"
  shows "hend (harness_main E C uut n seed) w Faulted"
proof -
  have 0: "heap w 0 = None" "brk w \<noteq> 0" using w by (cases "heap w 0"; auto simp: wf_def)+
  show ?thesis
    unfolding harness_main_def Let_def
  proof (rule hend_later, rule hok_alloc_any, rule hend_later, rule hok_alloc_any, goal_cases)
    case 1
    show ?case (is "hend _ ?w1 _")
      by (rule hend_rest [where m = 0 and G = "\<lambda>_. heap ?w1"]) (use w E n 0 in \<open>auto simp: wf_def split: if_splits\<close>)
  qed
qed

lemma outcome: "harness_outcome E n seed (harness_main E C uut n seed)"
  unfolding harness_outcome_def
proof (intro conjI impI; elim conjE)
  assume E: "env_ok E" and n: "unat n < 2 ^ 56"
  show "measured E n seed (harness_main E C uut n seed)"
    unfolding measured_def by (rule hok_weaken [OF hok_main [OF wf_world0 E n]]) (simp add: world0_def durations_def keys_def numeral_2_eq_2)
next
  assume "env_ok E" and "2 ^ 56 \<le> unat n"
  then show "hend (harness_main E C uut n seed) world0 Faulted" by (rule hend_main_wraps [OF wf_world0])
next
  assume "env_from E 3" and "\<not> (alloc_ok E 1 \<and> alloc_ok E 2)" and "0 < n"
  then show "hend (harness_main E C uut n seed) world0 Faulted"
    by (intro hend_main_unchecked [OF wf_world0]) (simp_all add: world0_def numeral_2_eq_2 numeral_3_eq_3 word_gt_0 unat_gt_0)
qed

end

end
