(* ===== verification/Clients.thy ===== *)
theory Clients
  imports Harness
begin

text \<open>
  The three clients of the harness in the repository: \<^verbatim>\<open>harness/attack.c\<close> (a walk over a probe buffer before each timed call),
  \<^verbatim>\<open>smoke_data/attack-current.c\<close> (a probe buffer that is flushed or read before the call, and read after) and
  \<^verbatim>\<open>smoke_data/attack-stub.c\<close>. Each is shown to satisfy \<open>harness_client\<close>, so that what is shown of the main loop holds with it.
\<close>

section \<open>attack.c\<close>

record attack_state_t =
  raw_alloc :: nat
  probe_aligned :: "nat \<times> nat"   \<comment> \<open>block and offset; block 0 is \<open>NULL\<close>\<close>
  probe_size :: nat
  line_size :: nat
  sink :: u8

definition attack_state0 :: attack_state_t where
  "attack_state0 = \<lparr>raw_alloc = 0, probe_aligned = (0, 0), probe_size = 0, line_size = 0, sink = 0\<rparr>"

definition attack_global_setup :: "env \<Rightarrow> global_context_t option \<Rightarrow> (attack_state_t, global_context_t option) hm" where
  "attack_global_setup E ctx = (case ctx of None \<Rightarrow> State_Monad.return None | Some c \<Rightarrow> do {
     p \<leftarrow> alloc E (Struct attack_state0);
     handle_oom_error p;
     let s = attack_state0\<lparr>line_size := 64, probe_size := 8 * 1024\<rparr>;
     let alloc_size = probe_size s + line_size s;
     r \<leftarrow> alloc E (W8 (replicate alloc_size (ucast (junk E))));
     handle_oom_error r;
     let s = s\<lparr>raw_alloc := r\<rparr>;
     let q = base E r;
     let aligned = (q + of_nat (line_size s - 1)) AND NOT (of_nat (line_size s - 1));
     let s = s\<lparr>probe_aligned := (r, unat (aligned - q))\<rparr>;
     for_step 0 (probe_size s) (line_size s) (\<lambda>i _. put8 (fst (probe_aligned s)) (snd (probe_aligned s) + i) (of_nat i AND 0xFF)) ();
     put_struct p (s\<lparr>sink := 0\<rparr>);
     State_Monad.return (Some (c\<lparr>g_state := p\<rparr>)) })"

definition attack_global_teardown :: "global_context_t option \<Rightarrow> (attack_state_t, global_context_t option) hm" where
  "attack_global_teardown ctx = (case ctx of None \<Rightarrow> State_Monad.return None | Some c \<Rightarrow> do {
     let p = g_state c;
     _ \<leftarrow> (if p \<noteq> 0 then do {
         s \<leftarrow> get_struct attack_state0 p;
         free (raw_alloc s);
         put_struct p (s\<lparr>raw_alloc := 0, probe_aligned := (0, 0)\<rparr>);
         free p }
       else State_Monad.return ());
     State_Monad.return (Some (c\<lparr>g_state := 0\<rparr>)) })"

definition attack_walk :: "attack_state_t \<Rightarrow> (attack_state_t, u8) hm" where
  "attack_walk s = for_step 0 (probe_size s) (line_size s) (\<lambda>i acc. do {
     x \<leftarrow> get8 (fst (probe_aligned s)) (snd (probe_aligned s) + i);
     State_Monad.return (acc XOR x) }) (sink s)"

definition attack_trial_inner_setup :: "bench_context_t option \<Rightarrow> trial_context_t option \<Rightarrow> (attack_state_t, bench_context_t option) hm" where
  "attack_trial_inner_setup ctx trial_ctx = (case trial_ctx of None \<Rightarrow> State_Monad.return ctx | Some t \<Rightarrow>
     if dest t = 0 \<or> dummy t = 0 then State_Monad.return ctx
     else if dest t \<noteq> dummy t then do {
       let p = (case ctx of None \<Rightarrow> 0 | Some b \<Rightarrow> (case global_ctx b of None \<Rightarrow> 0 | Some g \<Rightarrow> g_state g));
       if p = 0 then State_Monad.return ctx
       else do {
         s \<leftarrow> get_struct attack_state0 p;
         if fst (probe_aligned s) = 0 then State_Monad.return ctx
         else do {
           acc \<leftarrow> attack_walk s;
           put_struct p (s\<lparr>sink := acc\<rparr>);
           State_Monad.return ctx }}}
     else State_Monad.return ctx)"

text \<open>The functions with an empty body.\<close>

definition trial_nop :: "bench_context_t option \<Rightarrow> ('s, bench_context_t option) hm" where
  "trial_nop ctx = State_Monad.return ctx"

definition attack_client :: "env \<Rightarrow> attack_state_t client" where
  "attack_client E = \<lparr>global_setup = attack_global_setup E, global_teardown = attack_global_teardown, trial_setup = trial_nop,
     trial_inner_setup = attack_trial_inner_setup, trial_teardown = trial_nop, helper_start = trial_nop, helper_stop = trial_nop\<rparr>"

section \<open>attack-current.c\<close>

record attack_global_state_t =
  probe_buf :: nat
  probe_words :: nat
  g_sink :: u32

definition read_probe_once :: "u32 \<Rightarrow> nat \<Rightarrow> nat \<Rightarrow> (attack_global_state_t, u32) hm" where
  "read_probe_once acc buf words = for_step 0 words 16 (\<lambda>i acc. do { x \<leftarrow> get32 buf i; State_Monad.return (acc XOR x) }) acc"

definition read_probe_multipass :: "u32 \<Rightarrow> nat \<Rightarrow> nat \<Rightarrow> nat \<Rightarrow> (attack_global_state_t, u32) hm" where
  "read_probe_multipass acc buf words passes = for_h 0 passes (\<lambda>p acc.
     for_step 0 words 16 (\<lambda>i acc. do { x \<leftarrow> get32 buf i; State_Monad.return (acc XOR (x + of_nat p)) }) acc) acc"

text \<open>The body is compiled on x86 only.\<close>

definition flush_probe_lines :: "bool \<Rightarrow> nat \<Rightarrow> nat \<Rightarrow> (attack_global_state_t, unit) hm" where
  "flush_probe_lines x86 buf words = (if x86 then do {
     for_step 0 words 16 (\<lambda>i _. note_ev (Flush buf i)) ();
     note_ev Fence } else State_Monad.return ())"

definition flush_global_setup :: "env \<Rightarrow> global_context_t option \<Rightarrow> (attack_global_state_t, global_context_t option) hm" where
  "flush_global_setup E ctx = do {
     p \<leftarrow> alloc E (Struct \<lparr>probe_buf = unat (junk E), probe_words = unat (junk E), g_sink = ucast (junk E)\<rparr>);
     handle_oom_error p;
     let words = 64 * (64 div 4);
     b \<leftarrow> alloc E (W32 (replicate words (ucast (junk E))));
     put_struct p \<lparr>probe_buf = b, probe_words = words, g_sink = 0\<rparr>;
     handle_oom_error b;
     for_h 0 words (\<lambda>i _. put32 b i (0x9E3779B9 XOR of_nat i)) ();
     case ctx of None \<Rightarrow> do { segv; State_Monad.return None } | Some c \<Rightarrow> State_Monad.return (Some (c\<lparr>g_state := p\<rparr>)) }"

definition flush_state :: "bench_context_t option \<Rightarrow> (attack_global_state_t, nat) hm" where
  "flush_state ctx = (case ctx of None \<Rightarrow> do { segv; State_Monad.return 0 }
     | Some b \<Rightarrow> (case global_ctx b of None \<Rightarrow> do { segv; State_Monad.return 0 } | Some g \<Rightarrow> State_Monad.return (g_state g)))"

definition flush_state0 :: attack_global_state_t where
  "flush_state0 = \<lparr>probe_buf = 0, probe_words = 0, g_sink = 0\<rparr>"

definition flush_global_teardown :: "global_context_t option \<Rightarrow> (attack_global_state_t, global_context_t option) hm" where
  "flush_global_teardown ctx = (case ctx of None \<Rightarrow> do { segv; State_Monad.return None } | Some c \<Rightarrow>
     if g_state c \<noteq> 0 then do {
       s \<leftarrow> get_struct flush_state0 (g_state c);
       free (probe_buf s);
       free (g_state c);
       State_Monad.return (Some (c\<lparr>g_state := 0\<rparr>)) }
     else State_Monad.return ctx)"

definition flush_trial_inner_setup :: "bool \<Rightarrow> bench_context_t option \<Rightarrow> trial_context_t option \<Rightarrow>
    (attack_global_state_t, bench_context_t option) hm" where
  "flush_trial_inner_setup x86 ctx trial_ctx = do {
     p \<leftarrow> flush_state ctx;
     if p = 0 then State_Monad.return ctx
     else case trial_ctx of None \<Rightarrow> do { segv; State_Monad.return ctx } | Some t \<Rightarrow> do {
       n \<leftarrow> get64 (data_len t) 0;
       s \<leftarrow> get_struct flush_state0 p;
       _ \<leftarrow> (if n = 0 then do {
           acc \<leftarrow> read_probe_once (g_sink s) (probe_buf s) (probe_words s);
           put_struct p (s\<lparr>g_sink := acc\<rparr>) }
         else flush_probe_lines x86 (probe_buf s) (probe_words s));
       State_Monad.return ctx }}"

definition flush_helper_start :: "bench_context_t option \<Rightarrow> (attack_global_state_t, bench_context_t option) hm" where
  "flush_helper_start ctx = do {
     p \<leftarrow> flush_state ctx;
     if p = 0 then State_Monad.return ctx
     else do {
       s \<leftarrow> get_struct flush_state0 p;
       acc \<leftarrow> read_probe_multipass (g_sink s) (probe_buf s) (probe_words s) 4;
       put_struct p (s\<lparr>g_sink := acc\<rparr>);
       State_Monad.return ctx }}"

definition flush_client :: "env \<Rightarrow> bool \<Rightarrow> attack_global_state_t client" where
  "flush_client E x86 = \<lparr>global_setup = flush_global_setup E, global_teardown = flush_global_teardown, trial_setup = trial_nop,
     trial_inner_setup = flush_trial_inner_setup x86, trial_teardown = trial_nop, helper_start = flush_helper_start, helper_stop = trial_nop\<rparr>"

section \<open>attack-stub.c\<close>

definition global_nop :: "global_context_t option \<Rightarrow> ('s, global_context_t option) hm" where
  "global_nop ctx = State_Monad.return ctx"

definition inner_nop :: "bench_context_t option \<Rightarrow> trial_context_t option \<Rightarrow> ('s, bench_context_t option) hm" where
  "inner_nop ctx trial_ctx = State_Monad.return ctx"

definition stub_client :: "'s client" where
  "stub_client = \<lparr>global_setup = global_nop, global_teardown = global_nop, trial_setup = trial_nop,
     trial_inner_setup = inner_nop, trial_teardown = trial_nop, helper_start = trial_nop, helper_stop = trial_nop\<rparr>"

section \<open>The clients satisfy the contract\<close>

lemma kept_refl:
  "wf w \<Longrightarrow> cinv (g_state g) w \<Longrightarrow> global_ctx b = Some g \<Longrightarrow> kept cinv cown g w (Some b) w"
  by (simp add: kept_def same_but_def)

text \<open>Nothing a client does leaves a stopped process.\<close>

lemma inert_oom [inertI]: "inert (handle_oom_error a)"
  by (auto simp: handle_oom_error_def intro!: inertI)

lemma inert_nops [inertI]: "inert (trial_nop b)" "inert (global_nop g)" "inert (inner_nop b t)"
  by (simp_all add: trial_nop_def global_nop_def inner_nop_def inert_ret)

lemma inert_attack [inertI]: "inert (attack_global_setup E g)" "inert (attack_trial_inner_setup b t)" "inert (attack_global_teardown g)"
  by (auto simp: attack_global_setup_def attack_trial_inner_setup_def attack_global_teardown_def attack_walk_def Let_def intro!: inertI)

lemma inert_flush [inertI]: "inert (flush_global_setup E g)" "inert (flush_trial_inner_setup x86 b t)" "inert (flush_helper_start b)"
    "inert (flush_global_teardown g)"
  by (auto simp: flush_global_setup_def flush_trial_inner_setup_def flush_helper_start_def flush_global_teardown_def flush_state_def
      read_probe_once_def read_probe_multipass_def flush_probe_lines_def Let_def intro!: inertI)

interpretation stub: harness_client stub_client E "\<lambda>p w. p = 0" "\<lambda>p w. {}" for E
  by unfold_locales
    (auto simp: stub_client_def global_nop_def trial_nop_def inner_nop_def same_but_def restrict_map_def intro!: hok_ret kept_refl inertI)

interpretation stub_v2: harness stub_client E "\<lambda>p w. p = 0" "\<lambda>p w. {}" "timed_call_uut_v2 E" for E ..

interpretation stub_v3: harness stub_client E "\<lambda>p w. p = 0" "\<lambda>p w. {}" "timed_call_uut_v3 E" for E ..

text \<open>attack.c\<close>

text \<open>The 8192 bytes of the probe start at the first line boundary of the block \<open>raw_alloc\<close>, which holds 8256 bytes.\<close>

definition line_offset :: "env \<Rightarrow> nat \<Rightarrow> nat" where
  "line_offset E r = unat (((base E r + 63) AND NOT 63) - base E r)"

definition attack_ready :: "env \<Rightarrow> attack_state_t \<Rightarrow> u8 list \<Rightarrow> bool" where
  "attack_ready E s xs \<longleftrightarrow> line_size s = 64 \<and> probe_size s = 8192 \<and>
     probe_aligned s = (raw_alloc s, line_offset E (raw_alloc s)) \<and> length xs = 8256"

definition attack_inv :: "env \<Rightarrow> nat \<Rightarrow> attack_state_t world \<Rightarrow> bool" where
  "attack_inv E p w \<longleftrightarrow> p \<noteq> 0 \<and> (\<exists>s xs. heap w p = Some (Struct s) \<and> raw_alloc s \<noteq> p \<and> raw_alloc s \<noteq> 0 \<and>
     heap w (raw_alloc s) = Some (W8 xs) \<and> attack_ready E s xs)"

definition attack_own :: "nat \<Rightarrow> attack_state_t world \<Rightarrow> nat set" where
  "attack_own p w = (case heap w p of Some (Struct s) \<Rightarrow> {p, raw_alloc s} | _ \<Rightarrow> {})"

lemma align_up: "unat (((q + 63) AND NOT 63) - q :: u64) \<le> 63"
proof -
  define x where "x = q + 63"
  have "(x AND NOT 63) + (x AND 63) = (x AND NOT 63) OR (x AND 63)" by (rule disjunctive_add) (auto simp: bit_simps)
  also have "\<dots> = x" by (rule bit_word_eqI) (auto simp: bit_simps)
  finally have s: "(x AND NOT 63) - q = 63 - (x AND 63)" by (simp add: x_def algebra_simps)
  have "x AND 63 \<le> 63" by (rule word_and_le1)
  then show ?thesis unfolding x_def [symmetric] s by (simp add: unat_sub)
qed

lemma line_offset_le: "line_offset E r \<le> 63"
  unfolding line_offset_def by (rule align_up)

lemma line_aligned: "64 dvd unat (base E r + of_nat (line_offset E r))"
proof -
  let ?x = "(base E r + 63) AND NOT 63"
  have "take_bit 6 ?x = 0" by (rule bit_word_eqI) (auto simp: bit_simps)
  then have "take_bit 6 (unat ?x) = 0" by (simp flip: unsigned_take_bit_eq)
  then have "64 dvd unat ?x" by (simp add: take_bit_eq_mod dvd_eq_mod_eq_0)
  then show ?thesis by (simp add: line_offset_def)
qed

lemma attack_invD:
  assumes "attack_inv E p w"
  obtains s xs where "p \<noteq> 0" "heap w p = Some (Struct s)" "raw_alloc s \<noteq> p" "raw_alloc s \<noteq> 0"
    "heap w (raw_alloc s) = Some (W8 xs)" "attack_ready E s xs" "attack_own p w = {p, raw_alloc s}"
  using assms by (auto simp: attack_inv_def attack_own_def)

lemma hok_attack_walk:
  assumes r: "attack_ready E s xs" and h: "heap w (raw_alloc s) = Some (W8 xs)"
    and Q: "\<And>acc. Q acc (w\<lparr>obs := obs w @ map (\<lambda>j. Ld (raw_alloc s) (snd (probe_aligned s) + 64 * j)) [0..<128]\<rparr>)"
  shows "hok (attack_walk s) w Q"
  unfolding attack_walk_def
proof (rule hok_for_step [where Inv = "\<lambda>i acc w'. \<exists>k\<le>128. i = 64 * k \<and>
    w' = w\<lparr>obs := obs w @ map (\<lambda>j. Ld (raw_alloc s) (snd (probe_aligned s) + 64 * j)) [0..<k]\<rparr>"])
  fix i and acc :: u8 and w'
  assume i: "i < probe_size s" and "\<exists>k\<le>128. i = 64 * k \<and>
    w' = w\<lparr>obs := obs w @ map (\<lambda>j. Ld (raw_alloc s) (snd (probe_aligned s) + 64 * j)) [0..<k]\<rparr>"
  then obtain k where k: "i = 64 * k" "w' = w\<lparr>obs := obs w @ map (\<lambda>j. Ld (raw_alloc s) (snd (probe_aligned s) + 64 * j)) [0..<k]\<rparr>" by blast
  show "hok (do { x \<leftarrow> get8 (fst (probe_aligned s)) (snd (probe_aligned s) + i); State_Monad.return (acc XOR x) }) w'
      (\<lambda>acc w'. \<exists>k\<le>128. i + line_size s = 64 * k \<and>
        w' = w\<lparr>obs := obs w @ map (\<lambda>j. Ld (raw_alloc s) (snd (probe_aligned s) + 64 * j)) [0..<k]\<rparr>)"
    using r h i k line_offset_le [of E "raw_alloc s"] by (auto simp: attack_ready_def intro!: hok_bind hok_get8 hok_ret exI [of _ "Suc k"])
next
  fix j and acc :: u8 and w'
  assume "probe_size s \<le> j" and "\<exists>k\<le>128. j = 64 * k \<and>
    w' = w\<lparr>obs := obs w @ map (\<lambda>j. Ld (raw_alloc s) (snd (probe_aligned s) + 64 * j)) [0..<k]\<rparr>"
  then obtain k where "k \<le> 128" "8192 \<le> 64 * k" "w' = w\<lparr>obs := obs w @ map (\<lambda>j. Ld (raw_alloc s) (snd (probe_aligned s) + 64 * j)) [0..<k]\<rparr>"
    using r by (auto simp: attack_ready_def)
  moreover have "k = 128" using calculation by simp
  ultimately show "Q acc w'" using Q by simp
qed (use r in \<open>auto simp: attack_ready_def intro!: exI [of _ 0]\<close>)

lemma hok_attack_inner:
  assumes w: "wf w" and i: "attack_inv E p w" and b: "global_ctx b = Some g" "g_state g = p"
    and t: "dest t \<noteq> 0" "dummy t \<noteq> 0" "dest t \<noteq> dummy t"
    and Q: "\<And>w' s. heap w p = Some (Struct s) \<Longrightarrow> kept (attack_inv E) attack_own g w (Some b) w' \<Longrightarrow>
      obs w' = obs w @ map (\<lambda>j. Ld (raw_alloc s) (snd (probe_aligned s) + 64 * j)) [0..<128] \<Longrightarrow> Q (Some b) w'"
  shows "hok (attack_trial_inner_setup (Some b) (Some t)) w Q"
proof -
  obtain s xs where s: "p \<noteq> 0" "heap w p = Some (Struct s)" "raw_alloc s \<noteq> p" "raw_alloc s \<noteq> 0"
    "heap w (raw_alloc s) = Some (W8 xs)" "attack_ready E s xs" "attack_own p w = {p, raw_alloc s}" using i by (rule attack_invD)
  define w1 where "w1 = (\<lambda>acc. w\<lparr>obs := obs w @ map (\<lambda>j. Ld (raw_alloc s) (snd (probe_aligned s) + 64 * j)) [0..<128],
    heap := (heap w)(p \<mapsto> Struct (s\<lparr>sink := acc\<rparr>))\<rparr>)"
  have k: "kept (attack_inv E) attack_own g w (Some b) (w1 acc)" for acc
    using w s b by (auto simp: kept_def same_but_def w1_def wf_def attack_inv_def attack_own_def attack_ready_def)
  show ?thesis
    using t s b Q [OF s(2) k] unfolding attack_trial_inner_setup_def w1_def
    by (auto simp: attack_ready_def intro!: hok_bind hok_get_struct hok_put_struct hok_ret hok_attack_walk [OF s(6,5)])
qed

lemma hok_pretouch:
  fixes w :: "'s world"
  assumes h: "heap w r = Some (W8 xs)" "off + n \<le> length xs" and d: "0 < d"
    and Q: "\<And>w' ys. length ys = length xs \<Longrightarrow> heap w' = (heap w)(r \<mapsto> W8 ys) \<Longrightarrow> brk w' = brk w \<Longrightarrow> clocks w' = clocks w \<Longrightarrow>
      rands w' = rands w \<Longrightarrow> Q () w'"
  shows "hok (for_step 0 n d (\<lambda>i _. put8 r (off + i) (f i)) ()) w Q"
proof (rule hok_for_step [OF _ d, where Inv = "\<lambda>i _ w'. \<exists>ys. length ys = length xs \<and> heap w' = (heap w)(r \<mapsto> W8 ys) \<and>
    brk w' = brk w \<and> clocks w' = clocks w \<and> rands w' = rands w"])
  show "\<exists>ys. length ys = length xs \<and> heap w = (heap w)(r \<mapsto> W8 ys) \<and> brk w = brk w \<and> clocks w = clocks w \<and> rands w = rands w"
    using h(1) by (intro exI [of _ xs]) (simp add: fun_upd_idem)
next
  fix i :: nat and x and w' :: "'s world"
  assume "i < n" and "\<exists>ys. length ys = length xs \<and> heap w' = (heap w)(r \<mapsto> W8 ys) \<and>
    brk w' = brk w \<and> clocks w' = clocks w \<and> rands w' = rands w"
  then obtain ys where ys: "length ys = length xs" "heap w' = (heap w)(r \<mapsto> W8 ys)" "brk w' = brk w" "clocks w' = clocks w"
    "rands w' = rands w" by blast
  have a: "heap w' r = Some (W8 ys)" "off + i < length ys" using ys h(2) \<open>i < n\<close> by auto
  show "hok (put8 r (off + i) (f i)) w' (\<lambda>_ w'. \<exists>ys. length ys = length xs \<and> heap w' = (heap w)(r \<mapsto> W8 ys) \<and>
      brk w' = brk w \<and> clocks w' = clocks w \<and> rands w' = rands w)"
    by (rule hok_put8 [OF a]) (use ys in \<open>auto intro!: exI [of _ "ys[off + i := f i]"]\<close>)
next
  fix j :: nat and x :: unit and w' :: "'s world"
  assume "\<exists>ys. length ys = length xs \<and> heap w' = (heap w)(r \<mapsto> W8 ys) \<and> brk w' = brk w \<and> clocks w' = clocks w \<and> rands w' = rands w"
  then show "Q x w'" using Q by auto
qed

lemma hok_attack_setup:
  assumes w: "wf w" and E: "env_from E (brk w)"
  shows "hok (attack_global_setup E (Some g)) w (\<lambda>r w'. \<exists>p. r = Some (g\<lparr>g_state := p\<rparr>) \<and> attack_inv E p w' \<and>
    attack_own p w' \<inter> dom (heap w) = {} \<and> same_but (attack_own p w') w w')"
proof -
  let ?p = "brk w" and ?r = "brk w + 1"
  have al: "alloc_ok E (brk w)" "alloc_ok E (brk w + 1)" using E by (simp_all add: env_from_def)
  have p: "?p \<noteq> 0" "heap w ?p = None" "heap w ?r = None" using w by (auto simp: wf_def)
  define off where "off = line_offset E ?r"
  have off: "off \<le> 63" unfolding off_def by (rule line_offset_le)
  define s where "s = attack_state0\<lparr>line_size := 64, probe_size := 8192, raw_alloc := ?r, probe_aligned := (?r, off)\<rparr>"
  define w0 where "w0 = w\<lparr>heap := (heap w)(?p \<mapsto> Struct attack_state0, ?r \<mapsto> W8 (replicate 8256 (ucast (junk E)))), brk := ?p + 2\<rparr>"
  have r: "heap w0 ?r = Some (W8 (replicate 8256 (ucast (junk E))))" "off + 8192 \<le> length (replicate 8256 (ucast (junk E) :: u8))" "(0 :: nat) < 64"
    using off by (simp_all add: w0_def)
  have "hok (do {
      for_step 0 8192 64 (\<lambda>i _. put8 ?r (off + i) (of_nat i AND 0xFF)) ();
      put_struct ?p (s\<lparr>sink := 0\<rparr>);
      State_Monad.return (Some (g\<lparr>g_state := ?p\<rparr>)) }) w0
     (\<lambda>r w'. \<exists>p. r = Some (g\<lparr>g_state := p\<rparr>) \<and> attack_inv E p w' \<and>
       attack_own p w' \<inter> dom (heap w) = {} \<and> same_but (attack_own p w') w w')"
  proof (rule hok_bind, rule hok_pretouch [OF r])
    fix w1 :: "attack_state_t world" and ys :: "u8 list"
    assume "length ys = length (replicate 8256 (ucast (junk E) :: u8))" and "heap w1 = (heap w0)(?r \<mapsto> W8 ys)" and "brk w1 = brk w0"
      and "clocks w1 = clocks w0" and "rands w1 = rands w0"
    then show "hok (put_struct ?p (s\<lparr>sink := 0\<rparr>) \<bind> (\<lambda>_. State_Monad.return (Some (g\<lparr>g_state := ?p\<rparr>)))) w1
      (\<lambda>r w'. \<exists>p. r = Some (g\<lparr>g_state := p\<rparr>) \<and> attack_inv E p w' \<and>
       attack_own p w' \<inter> dom (heap w) = {} \<and> same_but (attack_own p w') w w')"
      using p w
      by (intro hok_bind hok_put_struct hok_ret exI [of _ ?p])
        (auto simp: w0_def attack_inv_def attack_own_def attack_ready_def s_def off_def same_but_def wf_def)
  qed
  note main = this
  show ?thesis
    unfolding attack_global_setup_def Let_def option.case
    by (rule hok_bind, rule hok_alloc [OF al(1)], rule hok_bind, rule hok_oom, use p in simp, rule hok_bind, rule hok_alloc, use al in simp,
        rule hok_bind, rule hok_oom, simp)
      (use main in \<open>simp add: attack_state0_def s_def off_def line_offset_def w0_def\<close>)
qed

lemma hok_attack_teardown:
  assumes w: "wf w" and i: "attack_inv E (g_state g) w"
  shows "hok (attack_global_teardown (Some g)) w (\<lambda>r w'. r = Some (g\<lparr>g_state := 0\<rparr>) \<and>
    heap w' = heap w |` (- attack_own (g_state g) w) \<and> clocks w' = clocks w \<and> rands w' = rands w)"
proof -
  obtain s xs where s: "g_state g \<noteq> 0" "heap w (g_state g) = Some (Struct s)" "raw_alloc s \<noteq> g_state g" "raw_alloc s \<noteq> 0"
    "heap w (raw_alloc s) = Some (W8 xs)" "attack_ready E s xs" "attack_own (g_state g) w = {g_state g, raw_alloc s}"
    using i by (rule attack_invD)
  show ?thesis
    unfolding attack_global_teardown_def Let_def option.case
    by (rule hok_bind, simp only: if_P [OF s(1)], rule hok_bind, rule hok_get_struct [OF s(2)], rule hok_bind, rule hok_free [OF s(5,4)])
      (use s in \<open>auto intro!: hok_bind hok_put_struct hok_free hok_ret simp: restrict_map_def\<close>)
qed

lemma trial_at_ptrs: "wf w \<Longrightarrow> trial_at w t d u s \<Longrightarrow> dest t \<noteq> 0 \<and> dummy t \<noteq> 0 \<and> dest t \<noteq> dummy t"
  by (force simp: wf_def trial_at_def)

interpretation attack: harness_client "attack_client E" E "attack_inv E" attack_own for E
proof unfold_locales
  fix w :: "attack_state_t world" and g t d u s and b :: bench_context_t
  assume "wf w" "attack_inv E (g_state g) w" "global_ctx b = Some g" "trial_at w t d u s"
  then show "hok (trial_inner_setup (attack_client E) (Some b) (Some t)) w (kept (attack_inv E) attack_own g w)"
    using trial_at_ptrs [of w t d u s] by (simp add: attack_client_def hok_attack_inner)
next
  fix p and w w' :: "attack_state_t world"
  assume "attack_inv E p w" "\<And>a. a \<in> attack_own p w \<Longrightarrow> heap w' a = heap w a"
  then show "attack_inv E p w' \<and> attack_own p w' = attack_own p w"
    by (auto simp: attack_inv_def attack_own_def)
next
  fix p and w :: "attack_state_t world"
  assume "attack_inv E p w"
  then show "attack_own p w \<subseteq> dom (heap w)" by (auto simp: attack_inv_def attack_own_def)
qed (auto simp: attack_client_def hok_attack_setup hok_attack_teardown intro!: inertI, auto simp: trial_nop_def intro!: hok_ret kept_refl)

interpretation attack_v2: harness "attack_client E" E "attack_inv E" attack_own "timed_call_uut_v2 E" for E ..

interpretation attack_v3: harness "attack_client E" E "attack_inv E" attack_own "timed_call_uut_v3 E" for E ..

text \<open>attack-current.c\<close>

definition flush_inv :: "nat \<Rightarrow> attack_global_state_t world \<Rightarrow> bool" where
  "flush_inv p w \<longleftrightarrow> p \<noteq> 0 \<and> (\<exists>s xs. heap w p = Some (Struct s) \<and> probe_buf s \<noteq> p \<and> probe_buf s \<noteq> 0 \<and>
     heap w (probe_buf s) = Some (W32 xs) \<and> probe_words s = 1024 \<and> length xs = 1024)"

definition flush_own :: "nat \<Rightarrow> attack_global_state_t world \<Rightarrow> nat set" where
  "flush_own p w = (case heap w p of Some (Struct s) \<Rightarrow> {p, probe_buf s} | _ \<Rightarrow> {})"

lemma flush_invD:
  assumes "flush_inv p w"
  obtains s xs where "p \<noteq> 0" "heap w p = Some (Struct s)" "probe_buf s \<noteq> p" "probe_buf s \<noteq> 0"
    "heap w (probe_buf s) = Some (W32 xs)" "probe_words s = 1024" "length xs = 1024" "flush_own p w = {p, probe_buf s}"
  using assms by (auto simp: flush_inv_def flush_own_def)

text \<open>A walk over the lines of the probe that emits one event per line.\<close>

lemma hok_lines:
  fixes w :: "'s world"
  assumes n: "n = 16 * m"
    and b: "\<And>k x w'. k < m \<Longrightarrow> heap w' = heap w \<Longrightarrow> hok (body (16 * k) x) w' (\<lambda>_ w''. w'' = w'\<lparr>obs := obs w' @ [f k]\<rparr>)"
    and Q: "\<And>x. Q x (w\<lparr>obs := obs w @ map f [0..<m]\<rparr>)"
  shows "hok (for_step 0 n 16 body x) w Q"
proof (rule hok_for_step [where Inv = "\<lambda>i x w'. \<exists>k\<le>m. i = 16 * k \<and> w' = w\<lparr>obs := obs w @ map f [0..<k]\<rparr>"])
  fix i x and w' :: "'s world"
  assume i: "i < n" and "\<exists>k\<le>m. i = 16 * k \<and> w' = w\<lparr>obs := obs w @ map f [0..<k]\<rparr>"
  then obtain k where k: "i = 16 * k" "w' = w\<lparr>obs := obs w @ map f [0..<k]\<rparr>" by blast
  have "k < m" using i k(1) n by simp
  show "hok (body i x) w' (\<lambda>_ w'. \<exists>k\<le>m. i + 16 = 16 * k \<and> w' = w\<lparr>obs := obs w @ map f [0..<k]\<rparr>)"
    unfolding k(1)
    by (rule hok_weaken [OF b [OF \<open>k < m\<close>]]) (use k \<open>k < m\<close> in \<open>auto intro!: exI [of _ "Suc k"]\<close>)
next
  fix j x and w' :: "'s world"
  assume "n \<le> j" and "\<exists>k\<le>m. j = 16 * k \<and> w' = w\<lparr>obs := obs w @ map f [0..<k]\<rparr>"
  then show "Q x w'" using Q n by (auto dest: le_antisym)
qed (auto intro!: exI [of _ 0])

lemma flush_kept:
  assumes "wf w" and "flush_inv (g_state g) w" and "heap w (g_state g) = Some (Struct s)" and "global_ctx b = Some g"
    and "heap w' = heap w \<or> heap w' = (heap w)(g_state g \<mapsto> Struct (s\<lparr>g_sink := acc\<rparr>))"
    and "brk w' = brk w" "clocks w' = clocks w" "rands w' = rands w"
  shows "kept flush_inv flush_own g w (Some b) w'"
  using assms by (auto simp: kept_def same_but_def flush_inv_def flush_own_def wf_def split: if_splits)

lemma hok_read_once:
  assumes "heap w buf = Some (W32 xs)" and "length xs = 1024"
    and "\<And>acc ev. Q acc (w\<lparr>obs := obs w @ ev\<rparr>)"
  shows "hok (read_probe_once a buf 1024) w Q"
  unfolding read_probe_once_def
  by (rule hok_lines [where m = 64 and f = "\<lambda>k. Ld buf (16 * k)"]) (use assms in \<open>auto intro!: hok_bind hok_get32 hok_ret\<close>)

lemma hok_multipass:
  fixes w :: "attack_global_state_t world"
  assumes h: "heap w buf = Some (W32 xs)" "length xs = 1024"
    and Q: "\<And>acc ev. Q acc (w\<lparr>obs := obs w @ ev\<rparr>)"
  shows "hok (read_probe_multipass a buf 1024 passes) w Q"
  unfolding read_probe_multipass_def
proof (rule hok_for_h [where Inv = "\<lambda>_ _ w'. \<exists>ev. w' = w\<lparr>obs := obs w @ ev\<rparr>"])
  fix p and acc :: u32 and w' :: "attack_global_state_t world"
  assume "\<exists>ev. w' = w\<lparr>obs := obs w @ ev\<rparr>"
  then show "hok (for_step 0 1024 16 (\<lambda>i acc. do { x \<leftarrow> get32 buf i; State_Monad.return (acc XOR (x + of_nat p)) }) acc) w'
      (\<lambda>_ w'. \<exists>ev. w' = w\<lparr>obs := obs w @ ev\<rparr>)"
    using h by (intro hok_lines [where m = 64 and f = "\<lambda>k. Ld buf (16 * k)"]) (auto intro!: hok_bind hok_get32 hok_ret)
qed (use Q in \<open>auto intro!: exI [of _ "[]"]\<close>)

lemma hok_flush_lines:
  assumes "\<And>ev. x86 \<longrightarrow> ev = map (\<lambda>k. Flush buf (16 * k)) [0..<64] @ [Fence] \<Longrightarrow> \<not> x86 \<longrightarrow> ev = [] \<Longrightarrow> Q () (w\<lparr>obs := obs w @ ev\<rparr>)"
  shows "hok (flush_probe_lines x86 buf 1024) w Q"
proof (cases x86)
  case True
  have "hok (for_step 0 1024 16 (\<lambda>i _. note_ev (Flush buf i)) ()) w (\<lambda>_ w'. hok (note_ev Fence) w' Q)"
    by (rule hok_lines [where m = 64 and f = "\<lambda>k. Flush buf (16 * k)"]) (use assms True in \<open>auto intro!: hok_note\<close>)
  then show ?thesis using True by (auto simp: flush_probe_lines_def intro: hok_bind)
next
  case False then show ?thesis using assms [of "[]"] by (simp add: flush_probe_lines_def hok_ret)
qed

lemma hok_flush_inner:
  assumes w: "wf w" and i: "flush_inv (g_state g) w" and b: "global_ctx b = Some g" and t: "trial_at w t d u v"
    and Q: "\<And>w' s ev. heap w (g_state g) = Some (Struct s) \<Longrightarrow> kept flush_inv flush_own g w (Some b) w' \<Longrightarrow> obs w' = obs w @ Ld (data_len t) 0 # ev \<Longrightarrow>
      (v \<noteq> [] \<longrightarrow> ev = (if x86 then map (\<lambda>k. Flush (probe_buf s) (16 * k)) [0..<64] @ [Fence] else [])) \<Longrightarrow> Q (Some b) w'"
  shows "hok (flush_trial_inner_setup x86 (Some b) (Some t)) w Q"
proof -
  obtain s xs where s: "g_state g \<noteq> 0" "heap w (g_state g) = Some (Struct s)" "probe_buf s \<noteq> g_state g" "probe_buf s \<noteq> 0"
    "heap w (probe_buf s) = Some (W32 xs)" "probe_words s = 1024" "length xs = 1024" "flush_own (g_state g) w = {g_state g, probe_buf s}"
    using i by (rule flush_invD)
  obtain n where n: "heap w (data_len t) = Some (W64 [n])" "unat n = 4 * length v" using t by (auto simp: trial_at_def)
  have z: "n = 0 \<longleftrightarrow> v = []" using n(2) by (auto simp: unat_eq_0)
  note K = flush_kept [OF w i s(2) b]
  show ?thesis
    unfolding flush_trial_inner_setup_def flush_state_def option.case b
    by (rule hok_bind, rule hok_ret, simp only: if_not_P [OF s(1)], rule hok_bind, rule hok_get64 [OF n(1)], simp, rule hok_bind,
        rule hok_get_struct, simp add: s(2))
      (auto simp: s(6) z intro!: hok_bind hok_read_once [OF _ s(7)] hok_flush_lines hok_put_struct hok_ret Q [OF s(2)] K simp: s)
qed

lemma hok_flush_start:
  assumes w: "wf w" and i: "flush_inv (g_state g) w" and b: "global_ctx b = Some g"
  shows "hok (flush_helper_start (Some b)) w (kept flush_inv flush_own g w)"
proof -
  obtain s xs where s: "g_state g \<noteq> 0" "heap w (g_state g) = Some (Struct s)" "probe_buf s \<noteq> g_state g" "probe_buf s \<noteq> 0"
    "heap w (probe_buf s) = Some (W32 xs)" "probe_words s = 1024" "length xs = 1024" "flush_own (g_state g) w = {g_state g, probe_buf s}"
    using i by (rule flush_invD)
  note K = flush_kept [OF w i s(2) b]
  show ?thesis
    unfolding flush_helper_start_def flush_state_def option.case b
    by (rule hok_bind, rule hok_ret, simp only: if_not_P [OF s(1)], rule hok_bind, rule hok_get_struct [OF s(2)])
      (auto simp: s(6) intro!: hok_bind hok_multipass [OF s(5,7)] hok_put_struct hok_ret K simp: s)
qed

lemma hok_flush_teardown:
  assumes i: "flush_inv (g_state g) w"
  shows "hok (flush_global_teardown (Some g)) w (\<lambda>r w'. r = Some (g\<lparr>g_state := 0\<rparr>) \<and>
    heap w' = heap w |` (- flush_own (g_state g) w) \<and> clocks w' = clocks w \<and> rands w' = rands w)"
proof -
  obtain s xs where s: "g_state g \<noteq> 0" "heap w (g_state g) = Some (Struct s)" "probe_buf s \<noteq> g_state g" "probe_buf s \<noteq> 0"
    "heap w (probe_buf s) = Some (W32 xs)" "probe_words s = 1024" "length xs = 1024" "flush_own (g_state g) w = {g_state g, probe_buf s}"
    using i by (rule flush_invD)
  show ?thesis
    unfolding flush_global_teardown_def option.case
    by (simp only: if_P [OF s(1)], rule hok_bind, rule hok_get_struct [OF s(2)], rule hok_bind, rule hok_free [OF s(5,4)])
      (use s in \<open>auto intro!: hok_bind hok_free hok_ret simp: restrict_map_def\<close>)
qed

lemma hok_fill32:
  fixes w :: "'s world"
  assumes h: "heap w r = Some (W32 xs)" "n = length xs"
    and Q: "\<And>w' ys. length ys = n \<Longrightarrow> heap w' = (heap w)(r \<mapsto> W32 ys) \<Longrightarrow> brk w' = brk w \<Longrightarrow> clocks w' = clocks w \<Longrightarrow>
      rands w' = rands w \<Longrightarrow> Q () w'"
  shows "hok (for_h 0 n (\<lambda>i _. put32 r i (f i)) ()) w Q"
proof (rule hok_for_h [where Inv = "\<lambda>i _ w'. \<exists>ys. length ys = n \<and> heap w' = (heap w)(r \<mapsto> W32 ys) \<and>
    brk w' = brk w \<and> clocks w' = clocks w \<and> rands w' = rands w"])
  show "\<exists>ys. length ys = n \<and> heap w = (heap w)(r \<mapsto> W32 ys) \<and> brk w = brk w \<and> clocks w = clocks w \<and> rands w = rands w"
    using h by (intro exI [of _ xs]) (simp add: fun_upd_idem)
next
  fix i :: nat and x and w' :: "'s world"
  assume "i < n" and "\<exists>ys. length ys = n \<and> heap w' = (heap w)(r \<mapsto> W32 ys) \<and>
    brk w' = brk w \<and> clocks w' = clocks w \<and> rands w' = rands w"
  then obtain ys where ys: "length ys = n" "heap w' = (heap w)(r \<mapsto> W32 ys)" "brk w' = brk w" "clocks w' = clocks w"
    "rands w' = rands w" by blast
  have a: "heap w' r = Some (W32 ys)" "i < length ys" using ys \<open>i < n\<close> by auto
  show "hok (put32 r i (f i)) w' (\<lambda>_ w'. \<exists>ys. length ys = n \<and> heap w' = (heap w)(r \<mapsto> W32 ys) \<and>
      brk w' = brk w \<and> clocks w' = clocks w \<and> rands w' = rands w)"
    by (rule hok_put32 [OF a]) (use ys in \<open>auto intro!: exI [of _ "ys[i := f i]"]\<close>)
next
  fix x :: unit and w' :: "'s world"
  assume "\<exists>ys. length ys = n \<and> heap w' = (heap w)(r \<mapsto> W32 ys) \<and> brk w' = brk w \<and> clocks w' = clocks w \<and> rands w' = rands w"
  then show "Q x w'" using Q by auto
qed simp

lemma hok_flush_setup:
  assumes w: "wf w" and E: "env_from E (brk w)"
  shows "hok (flush_global_setup E (Some g)) w (\<lambda>r w'. \<exists>p. r = Some (g\<lparr>g_state := p\<rparr>) \<and> flush_inv p w' \<and>
    flush_own p w' \<inter> dom (heap w) = {} \<and> same_but (flush_own p w') w w')"
proof -
  let ?p = "brk w" and ?r = "brk w + 1"
  have al: "alloc_ok E (brk w)" "alloc_ok E (brk w + 1)" using E by (simp_all add: env_from_def)
  have p: "?p \<noteq> 0" "heap w ?p = None" "heap w ?r = None" using w by (auto simp: wf_def)
  define w0 where "w0 = w\<lparr>brk := ?p + 2, heap := (heap w)(?r \<mapsto> W32 (replicate 1024 (ucast (junk E))),
    ?p \<mapsto> Struct \<lparr>probe_buf = ?r, probe_words = 1024, g_sink = 0\<rparr>)\<rparr>"
  have r: "heap w0 ?r = Some (W32 (replicate 1024 (ucast (junk E))))" "1024 = length (replicate 1024 (ucast (junk E) :: u32))"
    by (simp_all add: w0_def)
  have main: "hok (do { for_h 0 1024 (\<lambda>i _. put32 ?r i (0x9E3779B9 XOR of_nat i)) (); State_Monad.return (Some (g\<lparr>g_state := ?p\<rparr>)) }) w0
     (\<lambda>r w'. \<exists>p. r = Some (g\<lparr>g_state := p\<rparr>) \<and> flush_inv p w' \<and>
       flush_own p w' \<inter> dom (heap w) = {} \<and> same_but (flush_own p w') w w')"
  proof (rule hok_bind, rule hok_fill32 [OF r])
    fix w1 :: "attack_global_state_t world" and ys :: "u32 list"
    assume "length ys = 1024" and "heap w1 = (heap w0)(?r \<mapsto> W32 ys)" and "brk w1 = brk w0"
      and "clocks w1 = clocks w0" and "rands w1 = rands w0"
    then show "hok (State_Monad.return (Some (g\<lparr>g_state := ?p\<rparr>))) w1
      (\<lambda>r w'. \<exists>p. r = Some (g\<lparr>g_state := p\<rparr>) \<and> flush_inv p w' \<and>
       flush_own p w' \<inter> dom (heap w) = {} \<and> same_but (flush_own p w') w w')"
      using p w by (intro hok_ret exI [of _ ?p]) (auto simp: w0_def flush_inv_def flush_own_def same_but_def wf_def)
  qed
  show ?thesis
    unfolding flush_global_setup_def Let_def option.case
    by (rule hok_bind, rule hok_alloc [OF al(1)], rule hok_bind, rule hok_oom, use p in simp, rule hok_bind, rule hok_alloc, use al in simp,
        rule hok_bind, rule hok_put_struct, simp, rule hok_bind, rule hok_oom, simp)
      (use main in \<open>simp add: w0_def fun_upd_twist\<close>)
qed

interpretation flush: harness_client "flush_client E x86" E flush_inv flush_own for E x86
proof unfold_locales
  fix w :: "attack_global_state_t world" and g t d u s and b :: bench_context_t
  assume "wf w" "flush_inv (g_state g) w" "global_ctx b = Some g" "trial_at w t d u s"
  then show "hok (trial_inner_setup (flush_client E x86) (Some b) (Some t)) w (kept flush_inv flush_own g w)"
    by (simp add: flush_client_def hok_flush_inner)
next
  fix p and w w' :: "attack_global_state_t world"
  assume "flush_inv p w" "\<And>a. a \<in> flush_own p w \<Longrightarrow> heap w' a = heap w a"
  then show "flush_inv p w' \<and> flush_own p w' = flush_own p w"
    by (auto simp: flush_inv_def flush_own_def)
next
  fix p and w :: "attack_global_state_t world"
  assume "flush_inv p w"
  then show "flush_own p w \<subseteq> dom (heap w)" by (auto simp: flush_inv_def flush_own_def)
qed (auto simp: flush_client_def hok_flush_setup hok_flush_teardown hok_flush_start intro!: inertI, auto simp: trial_nop_def intro!: hok_ret kept_refl)

interpretation flush_v2: harness "flush_client E x86" E flush_inv flush_own "timed_call_uut_v2 E" for E x86 ..

interpretation flush_v3: harness "flush_client E x86" E flush_inv flush_own "timed_call_uut_v3 E" for E x86 ..

section \<open>Allocation failures, and the reset of a context\<close>

lemma hend_oom: "(\<And>x. inert (g x)) \<Longrightarrow> hend (State_Monad.bind (handle_oom_error 0) g) w (Exited 1)"
  by (rule hend_first) (simp_all add: handle_oom_error_def exit_with_def hend_def prim_def)

lemma hend_oom_any:
  "(p \<noteq> 0 \<Longrightarrow> hend (g ()) w s) \<Longrightarrow> (p = 0 \<Longrightarrow> s = Exited 1) \<Longrightarrow> (\<And>x. inert (g x)) \<Longrightarrow> hend (State_Monad.bind (handle_oom_error p) g) w s"
proof (cases "p = 0")
  case False
  assume "p \<noteq> 0 \<Longrightarrow> hend (g ()) w s"
  with False show ?thesis by (intro hend_later hok_oom)
next
  case True
  assume i: "\<And>x. inert (g x)" and "p = 0 \<Longrightarrow> s = Exited 1"
  with True hend_oom [where w = w, OF i] show ?thesis by simp
qed

lemma inert_fill [inertI]: "inert (fill_words_deterministically a n v)"
  by (auto simp: fill_words_deterministically_def Let_def intro!: inertI)

lemma create_oom:
  assumes w: "wf w"
  shows "(\<exists>j<3. \<not> alloc_ok E (brk w + j)) \<longrightarrow> hend (create_default_trial_context E n) w (Exited 1)"
    and "(\<forall>j<3. alloc_ok E (brk w + j)) \<and> \<not> alloc_ok E (brk w + 3) \<longrightarrow> hend (create_default_trial_context E n) w Faulted"
proof -
  have b: "brk w \<noteq> 0" using w by (simp add: wf_def)
  have ev: "hend (create_default_trial_context E n) w r"
    if "\<And>w' de du da dl. de = (if alloc_ok E (brk w) then brk w else 0) \<Longrightarrow> du = (if alloc_ok E (brk w + 1) then brk w + 1 else 0) \<Longrightarrow>
        da = (if alloc_ok E (brk w + 2) then brk w + 2 else 0) \<Longrightarrow> dl = (if alloc_ok E (brk w + 3) then brk w + 3 else 0) \<Longrightarrow>
        (da \<noteq> 0 \<longrightarrow> heap w' da = Some (W32 (replicate (unat n) 0))) \<Longrightarrow> (dl = 0 \<longrightarrow> heap w' 0 = None) \<Longrightarrow>
      hend (do { handle_oom_error de; handle_oom_error du; handle_oom_error da;
        _ \<leftarrow> fill_words_deterministically da (unat n) 0x11111111; put64 dl 0 (n * 4);
        State_Monad.return \<lparr>dest = de, dummy = du, data = da, data_len = dl\<rparr> }) w' r" for r
    unfolding create_default_trial_context_def Let_def
    by (rule hend_later, rule hok_alloc_any, rule hend_later, rule hok_alloc_any, rule hend_later, rule hok_alloc_any,
        rule hend_later, rule hok_alloc_any, rule that)
      (use w in \<open>auto simp: wf_def numeral_3_eq_3\<close>)
  show "(\<exists>j<3. \<not> alloc_ok E (brk w + j)) \<longrightarrow> hend (create_default_trial_context E n) w (Exited 1)"
  proof
    assume j: "\<exists>j<3. \<not> alloc_ok E (brk w + j)"
    show "hend (create_default_trial_context E n) w (Exited 1)"
    proof (rule ev)
      fix w' and de du da dl :: nat
      assume "de = (if alloc_ok E (brk w) then brk w else 0)" "du = (if alloc_ok E (brk w + 1) then brk w + 1 else 0)"
        "da = (if alloc_ok E (brk w + 2) then brk w + 2 else 0)"
      with j b have "de = 0 \<or> du = 0 \<or> da = 0" by (auto simp: numeral_3_eq_3 less_Suc_eq)
      then show "hend (do { handle_oom_error de; handle_oom_error du; handle_oom_error da;
        _ \<leftarrow> fill_words_deterministically da (unat n) 0x11111111; put64 dl 0 (n * 4);
        State_Monad.return \<lparr>dest = de, dummy = du, data = da, data_len = dl\<rparr> }) w' (Exited 1)"
        by (intro hend_oom_any inertI) auto
    qed
  qed
  show "(\<forall>j<3. alloc_ok E (brk w + j)) \<and> \<not> alloc_ok E (brk w + 3) \<longrightarrow> hend (create_default_trial_context E n) w Faulted"
  proof
    assume j: "(\<forall>j<3. alloc_ok E (brk w + j)) \<and> \<not> alloc_ok E (brk w + 3)"
    show "hend (create_default_trial_context E n) w Faulted"
    proof (rule ev)
      fix w' :: "'a world" and de du da dl :: nat
      assume d: "de = (if alloc_ok E (brk w) then brk w else 0)" "du = (if alloc_ok E (brk w + 1) then brk w + 1 else 0)"
        "da = (if alloc_ok E (brk w + 2) then brk w + 2 else 0)" "dl = (if alloc_ok E (brk w + 3) then brk w + 3 else 0)"
        and h: "da \<noteq> 0 \<longrightarrow> heap w' da = Some (W32 (replicate (unat n) 0))" "dl = 0 \<longrightarrow> heap w' 0 = None"
      have nz: "de \<noteq> 0" "du \<noteq> 0" "da \<noteq> 0" "dl = 0" 
        using d b j j [THEN conjunct1, rule_format, of 0] j [THEN conjunct1, rule_format, of 1] j [THEN conjunct1, rule_format, of 2]
        by simp_all
      have "hend (put64 0 0 v) w2 Faulted" if "heap w2 0 = None" for v and w2 :: "'a world"
        using that by (simp add: put64_def hend_def prim_def)
      then have "hend (do { _ \<leftarrow> fill_words_deterministically da (unat n) 0x11111111; put64 dl 0 (n * 4);
          State_Monad.return \<lparr>dest = de, dummy = du, data = da, data_len = dl\<rparr> }) w' Faulted"
        using nz h by (intro hend_later hok_fill [where xs = "replicate (unat n) 0"] hend_first [where s = Faulted] inertI) auto
      then show "hend (do { handle_oom_error de; handle_oom_error du; handle_oom_error da;
        _ \<leftarrow> fill_words_deterministically da (unat n) 0x11111111; put64 dl 0 (n * 4);
        State_Monad.return \<lparr>dest = de, dummy = du, data = da, data_len = dl\<rparr> }) w' Faulted"
        using nz by (intro hend_oom_any inertI) auto
    qed
  qed
qed

lemma hend_fill:
  "heap w a = Some (W32 xs) \<Longrightarrow> i \<le> length xs \<Longrightarrow> length xs < n \<Longrightarrow>
    hend (for_h i n (\<lambda>i v. do { let v = v * 1664525 + 1013904223; put32 a i v; State_Monad.return v }) v) w Faulted"
proof (induction "length xs - i" arbitrary: i v w xs)
  case 0
  then have "hend (put32 a i x) w Faulted" for x by (simp add: put32_def hend_def prim_def)
  then show ?case using 0 by (subst for_step.simps) (auto simp: Let_def intro!: hend_first inertI)
next
  case (Suc k)
  let ?f = "\<lambda>i v. do { let v = v * 1664525 + 1013904223; put32 a i v; State_Monad.return v }"
  let ?v = "v * 1664525 + 1013904223"
  have i: "i < length xs" using Suc.hyps(2) by simp
  have e: "for_h i n ?f v = State_Monad.bind (?f i v) (for_h (Suc i) n ?f)"
    using i Suc.prems by (subst for_step.simps) simp
  have "hend (for_h (Suc i) n ?f ?v) (w\<lparr>heap := (heap w)(a \<mapsto> W32 (xs[i := ?v])), obs := obs w @ [St a i]\<rparr>) Faulted"
    by (rule Suc.hyps(1) [where xs = "xs[i := ?v]"]) (use Suc in auto)
  then have "hok (?f i v) w (\<lambda>x w'. hend (for_h (Suc i) n ?f x) w' Faulted)"
    unfolding Let_def by (intro hok_bind hok_put32 [OF Suc.prems(1) i] hok_ret)
  then show ?case unfolding e by (rule hend_later)
qed

lemma hok_memset_words [hwp]:
  assumes "heap w a = Some (W32 xs)" "n \<le> 4 * length xs"
    and "\<And>ys. length ys = length xs \<Longrightarrow> Q () (w\<lparr>heap := (heap w)(a \<mapsto> W32 ys), obs := obs w @ [Mset a 0 n]\<rparr>)"
  shows "hok (memset_words a n) w Q"
  using assms by (auto simp: memset_words_def length_to_words splice_def intro!: hok_prim)

lemma reset_faults:
  assumes t: "trial_at w t d u s" and s: "s \<noteq> []"
  shows "hend (reset_trial_context t) w Faulted"
proof -
  obtain n where n: "heap w (dest t) = Some (W32 d)" "heap w (dummy t) = Some (W32 u)" "heap w (data t) = Some (W32 s)"
    "heap w (data_len t) = Some (W64 [n])" "unat n = 4 * length s" "length d = length s" "length u = length s"
    "distinct [dest t, dummy t, data t, data_len t]" using t by (rule trial_atD)
  have f: "hend (fill_words_deterministically (data t) (4 * length s) 0x11111111) w' Faulted"
    if "heap w' (data t) = Some (W32 ys)" "length ys = length s" for w' ys
    unfolding fill_words_deterministically_def using that s by (intro hend_fill) auto
  show ?thesis
    unfolding reset_trial_context_def
    by (rule hend_later, rule hok_get64 [OF n(4)], simp, rule hend_later, rule hok_get64, use n in simp, simp,
        rule hend_later, rule hok_memset_words, use n in simp, simp add: n(5,6),
        rule hend_later, rule hok_get64, use n in simp, simp, rule hend_later, rule hok_memset_words, use n in simp, simp add: n(5,7),
        rule hend_later, rule hok_get64, use n in simp, simp, rule hend_later, rule hok_memset_words, use n in simp, simp add: n(5),
        rule hend_later, rule hok_get64, use n in simp, simp, rule hend_first [OF _ stopped_simps(2) inert_ret])
      (use n in \<open>auto intro!: f\<close>)
qed

section \<open>Properties\<close>

text \<open>C36. \<^bold>\<open>How a run of the harness ends.\<close> For every client (\<^verbatim>\<open>attack.c\<close>, \<^verbatim>\<open>attack-current.c\<close> built for x86 or not, \<^verbatim>\<open>attack-stub.c\<close>), either
  function under test and every number \<open>n\<close> of iterations. (1) If every allocation succeeds, the clock can always be read and
  \<open>n < 2\<^sup>5\<^sup>6\<close>, the run terminates without a fault, frees every trial context and the client's state exactly once, and leaves the two filled arrays. (2) Under
  the same conditions but with \<open>n \<ge> 2\<^sup>5\<^sup>6\<close> the size of the array of durations wraps around and the run ends in a store outside it. (3) If
  \<open>n > 0\<close> and one of the two unchecked \<open>malloc\<close> calls for the arrays fails (they are the blocks 1 and 2), while everything after them
  succeeds, the run ends in a store through \<open>NULL\<close>.\<close>

theorem harness_runs:
  "harness_outcome E n seed (harness_main E (attack_client E) (timed_call_uut_v2 E) n seed) \<and>
   harness_outcome E n seed (harness_main E (attack_client E) (timed_call_uut_v3 E) n seed) \<and>
   harness_outcome E n seed (harness_main E (flush_client E x86) (timed_call_uut_v2 E) n seed) \<and>
   harness_outcome E n seed (harness_main E (flush_client E x86) (timed_call_uut_v3 E) n seed) \<and>
   harness_outcome E n seed (harness_main E (stub_client :: unit client) (timed_call_uut_v2 E) n seed) \<and>
   harness_outcome E n seed (harness_main E (stub_client :: unit client) (timed_call_uut_v3 E) n seed)"
  by (intro conjI attack_v2.outcome attack_v3.outcome flush_v2.outcome flush_v3.outcome stub_v2.outcome stub_v3.outcome)

definition quiet_env :: env where
  "quiet_env = \<lparr>alloc_ok = (\<lambda>_. True), clock = (\<lambda>n. Some (0, of_nat n)), rand_val = (\<lambda>n. of_nat n), base = (\<lambda>n. 4 * of_nat n), junk = 7\<rparr>"

lemma quiet_env_ok: "env_ok quiet_env"
  by (simp add: env_ok_def quiet_env_def)

theorem harness_runs_witness:
  "measured quiet_env 2 5 (harness_main quiet_env (attack_client quiet_env) (timed_call_uut_v2 quiet_env) 2 5) \<and>
   hend (harness_main quiet_env (attack_client quiet_env) (timed_call_uut_v2 quiet_env) (2 ^ 59) 5) world0 Faulted \<and>
   hend (harness_main (quiet_env\<lparr>alloc_ok := \<lambda>a. a \<noteq> 2\<rparr>) (attack_client (quiet_env\<lparr>alloc_ok := \<lambda>a. a \<noteq> 2\<rparr>))
     (timed_call_uut_v2 (quiet_env\<lparr>alloc_ok := \<lambda>a. a \<noteq> 2\<rparr>)) 2 5) world0 Faulted"
proof -
  let ?E = "quiet_env\<lparr>alloc_ok := \<lambda>a. a \<noteq> 2\<rparr>"
  have "env_from ?E 3" "\<not> alloc_ok ?E 2" by (simp_all add: env_from_def clocked_def quiet_env_def)
  then show ?thesis
    using harness_runs [of quiet_env 2 5 True] harness_runs [of quiet_env "2 ^ 59" 5 True] harness_runs [of ?E 2 5 True] quiet_env_ok
    by (simp add: harness_outcome_def)
qed

text \<open>C38. \<^bold>\<open>What one trial copies.\<close> From a fresh trial context and for a key bit \<open>b\<close>, the harness around \<open>br_ccopy_v2\<close> leaves the
  data in \<open>dest\<close> if the bit is set and in \<open>dummy\<close> otherwise; the one around \<open>br_ccopy\<close> writes \<open>dest\<close> only, and only if the bit is set.\<close>

theorem trial_copies:
  assumes "wf w" and "env_ok E" and "unat n < 2 ^ 60"
  shows "hok (do { t \<leftarrow> create_default_trial_context E n; d \<leftarrow> timed_call_uut_v2 E (of_bool b) t; State_Monad.return t }) w (\<lambda>t w'.
      heap w' (dest t) = Some (W32 (if b then pattern (unat n) else replicate (unat n) 0)) \<and>
      heap w' (dummy t) = Some (W32 (if b then replicate (unat n) 0 else pattern (unat n)))) \<and>
    hok (do { t \<leftarrow> create_default_trial_context E n; d \<leftarrow> timed_call_uut_v3 E (of_bool b) t; State_Monad.return t }) w (\<lambda>t w'.
      heap w' (dest t) = Some (W32 (if b then pattern (unat n) else replicate (unat n) 0)) \<and>
      heap w' (dummy t) = Some (W32 (replicate (unat n) 0)))"
proof -
  have n: "unat (n * 4) = 4 * unat n" using assms(3) by (subst unat_mult_lem [THEN iffD1]) simp_all
  have t: "trial_at w' \<lparr>dest = brk w, dummy = brk w + 1, data = brk w + 2, data_len = brk w + 3\<rparr>
      (replicate (unat n) 0) (replicate (unat n) 0) (pattern (unat n))"
    if "heap w' = (heap w)(brk w \<mapsto> W32 (replicate (unat n) 0), brk w + 1 \<mapsto> W32 (replicate (unat n) 0),
        brk w + 2 \<mapsto> W32 (pattern (unat n)), brk w + 3 \<mapsto> W64 [n * 4])" for w' :: "'a world"
    using that n by (auto simp: trial_at_def)
  show ?thesis
  proof (intro conjI; rule hok_bind; rule hok_create [OF assms(1) env_ok_from [OF assms(2)]]; rule hok_bind)
    fix w1 :: "'a world"
    let ?t = "\<lparr>dest = brk w, dummy = brk w + 1, data = brk w + 2, data_len = brk w + 3\<rparr>"
    assume "heap w1 = (heap w)(brk w \<mapsto> W32 (replicate (unat n) 0), brk w + 1 \<mapsto> W32 (replicate (unat n) 0),
        brk w + 2 \<mapsto> W32 (pattern (unat n)), brk w + 3 \<mapsto> W64 [n * 4])"
    note T = t [OF this]
    show "hok (timed_call_uut_v2 E (of_bool b) ?t) w1 (\<lambda>x w'. hok (State_Monad.return ?t) w' (\<lambda>t w'.
      heap w' (dest t) = Some (W32 (if b then pattern (unat n) else replicate (unat n) 0)) \<and>
      heap w' (dummy t) = Some (W32 (if b then replicate (unat n) 0 else pattern (unat n)))))"
      by (rule hok_v2 [OF env_from_clocked [OF env_ok_from [OF assms(2)]] T]) (auto intro!: hok_ret)
    show "hok (timed_call_uut_v3 E (of_bool b) ?t) w1 (\<lambda>x w'. hok (State_Monad.return ?t) w' (\<lambda>t w'.
      heap w' (dest t) = Some (W32 (if b then pattern (unat n) else replicate (unat n) 0)) \<and>
      heap w' (dummy t) = Some (W32 (replicate (unat n) 0))))"
      by (rule hok_v3 [OF env_from_clocked [OF env_ok_from [OF assms(2)]] T]) (use T in \<open>auto intro!: hok_ret simp: trial_at_def\<close>)
  qed
qed

theorem trial_copies_witness:
  "hok (do { t \<leftarrow> create_default_trial_context quiet_env 4; d \<leftarrow> timed_call_uut_v2 quiet_env 0 t; State_Monad.return t })
    (world0 :: unit world) (\<lambda>t w'. heap w' (dest t) = Some (W32 (replicate 4 0)) \<and> heap w' (dummy t) = Some (W32 (pattern 4)))"
  using conjunct1 [OF trial_copies [OF wf_world0 quiet_env_ok, of 4 False]] by simp

text \<open>C37. \<^bold>\<open>The clients do not see the class.\<close> The comments say that a trial of class 0 gets no walk over the probe buffer (\<^verbatim>\<open>attack.c\<close>), or
  a read instead of a flush (\<^verbatim>\<open>attack-current.c\<close>). The harness calls \<open>trial_inner_setup\<close> with a context from
  \<open>create_default_trial_context\<close>, whose two buffers differ and whose length is not 0. So in every trial, whatever its class, the first client reads each of the
  128 lines of the 8192 bytes at its pointer \<open>probe_aligned\<close>, which is on a line boundary in its own block; the second one, on x86,
  flushes each of the 64 lines of its own probe buffer and nothing else, and on any other processor only reads the length. The states of the clients are
  those that \<open>global_setup\<close> establishes and every trial keeps, allocations succeed.\<close>

theorem clients_ignore_class:
  fixes w :: "attack_state_t world" and v :: "attack_global_state_t world"
  assumes "env_ok E" and "global_ctx b = Some g"
    and "wf w" and "attack_inv E (g_state g) w" and "heap w (g_state g) = Some (Struct s)"
    and "wf v" and "flush_inv (g_state g) v" and "heap v (g_state g) = Some (Struct p)"
  shows "(\<forall>u g0. wf u \<longrightarrow> hok (global_setup (attack_client E) (Some g0)) u (\<lambda>r u'. \<exists>q. r = Some (g0\<lparr>g_state := q\<rparr>) \<and> attack_inv E q u')) \<and>
    (\<forall>u g0. wf u \<longrightarrow> hok (global_setup (flush_client E x86) (Some g0)) u (\<lambda>r u'. \<exists>q. r = Some (g0\<lparr>g_state := q\<rparr>) \<and> flush_inv q u')) \<and>
    (\<exists>off\<le>63. probe_aligned s = (raw_alloc s, off) \<and> 64 dvd unat (base E (raw_alloc s) + of_nat off) \<and>
      hok (create_default_trial_context E 1024) w (\<lambda>t w1. hok (trial_inner_setup (attack_client E) (Some b) (Some t)) w1 (\<lambda>r w2.
        obs w2 = obs w1 @ map (\<lambda>j. Ld (raw_alloc s) (off + 64 * j)) [0..<128]))) \<and>
    hok (create_default_trial_context E 1024) v (\<lambda>t v1. hok (trial_inner_setup (flush_client E x86) (Some b) (Some t)) v1 (\<lambda>r v2.
      obs v2 = obs v1 @ Ld (data_len t) 0 # (if x86 then map (\<lambda>k. Flush (probe_buf p) (16 * k)) [0..<64] @ [Fence] else [])))"
proof (intro conjI allI impI)
  note E = env_ok_from [OF assms(1)]
  have fresh: "\<And>a. brk w \<le> a \<Longrightarrow> heap w a = None" "\<And>a. brk v \<le> a \<Longrightarrow> heap v a = None"
    using assms(3,6) by (force simp: wf_def)+
  let ?T = "\<lambda>k. \<lparr>dest = k, dummy = k + 1, data = k + 2, data_len = k + 3\<rparr>"
  show "hok (global_setup (attack_client E) (Some g0)) u (\<lambda>r u'. \<exists>q. r = Some (g0\<lparr>g_state := q\<rparr>) \<and> attack_inv E q u')" if "wf u" for u g0
    unfolding attack_client_def client.simps by (rule hok_weaken [OF hok_attack_setup [OF that E]]) blast
  show "hok (global_setup (flush_client E x86) (Some g0)) u (\<lambda>r u'. \<exists>q. r = Some (g0\<lparr>g_state := q\<rparr>) \<and> flush_inv q u')" if "wf u" for u g0
    unfolding flush_client_def client.simps by (rule hok_weaken [OF hok_flush_setup [OF that E]]) blast
  have s: "probe_aligned s = (raw_alloc s, line_offset E (raw_alloc s))" using assms(4,5) by (auto simp: attack_inv_def attack_ready_def)
  have "hok (create_default_trial_context E 1024) w (\<lambda>t w1. hok (trial_inner_setup (attack_client E) (Some b) (Some t)) w1 (\<lambda>r w2.
        obs w2 = obs w1 @ map (\<lambda>j. Ld (raw_alloc s) (snd (probe_aligned s) + 64 * j)) [0..<128]))"
  proof (rule hok_create [OF assms(3) E])
    fix w1 :: "attack_state_t world"
    assume h: "heap w1 = (heap w)(brk w \<mapsto> W32 (replicate (unat (1024 :: u64)) 0), brk w + 1 \<mapsto> W32 (replicate (unat (1024 :: u64)) 0),
      brk w + 2 \<mapsto> W32 (pattern (unat (1024 :: u64))), brk w + 3 \<mapsto> W64 [1024 * 4])" "brk w1 = brk w + 4"
    have k: "wf w1" using h assms(3) by (auto simp: wf_def)
    have i: "attack_inv E (g_state g) w1" using h(1) assms(4) attack.own_dom [OF assms(4)] fresh(1)
      by (intro conjunct1 [OF attack.frame [OF assms(4)]]) (auto simp: dom_def)
    have s1: "heap w1 (g_state g) = Some (Struct s)" using h(1) assms(5) fresh(1) [of "g_state g"] by (cases "brk w \<le> g_state g") auto
    show "hok (trial_inner_setup (attack_client E) (Some b) (Some (?T (brk w)))) w1 (\<lambda>r w2.
      obs w2 = obs w1 @ map (\<lambda>j. Ld (raw_alloc s) (snd (probe_aligned s) + 64 * j)) [0..<128])"
      unfolding attack_client_def client.simps
      by (rule hok_attack_inner [OF k i assms(2) refl]) (use assms(3) s1 in \<open>auto simp: wf_def\<close>)
  qed
  then show "\<exists>off\<le>63. probe_aligned s = (raw_alloc s, off) \<and> 64 dvd unat (base E (raw_alloc s) + of_nat off) \<and>
      hok (create_default_trial_context E 1024) w (\<lambda>t w1. hok (trial_inner_setup (attack_client E) (Some b) (Some t)) w1 (\<lambda>r w2.
        obs w2 = obs w1 @ map (\<lambda>j. Ld (raw_alloc s) (off + 64 * j)) [0..<128]))"
    using s line_offset_le line_aligned by (intro exI [of _ "line_offset E (raw_alloc s)"]) simp
  show "hok (create_default_trial_context E 1024) v (\<lambda>t v1. hok (trial_inner_setup (flush_client E x86) (Some b) (Some t)) v1 (\<lambda>r v2.
      obs v2 = obs v1 @ Ld (data_len t) 0 # (if x86 then map (\<lambda>k. Flush (probe_buf p) (16 * k)) [0..<64] @ [Fence] else [])))"
  proof (rule hok_create [OF assms(6) E])
    fix v1 :: "attack_global_state_t world"
    assume h: "heap v1 = (heap v)(brk v \<mapsto> W32 (replicate (unat (1024 :: u64)) 0), brk v + 1 \<mapsto> W32 (replicate (unat (1024 :: u64)) 0),
      brk v + 2 \<mapsto> W32 (pattern (unat (1024 :: u64))), brk v + 3 \<mapsto> W64 [1024 * 4])" "brk v1 = brk v + 4"
    have k: "wf v1" using h assms(6) by (auto simp: wf_def)
    have i: "flush_inv (g_state g) v1" using h(1) assms(7) flush.own_dom [OF assms(7)] fresh(2)
      by (intro conjunct1 [OF flush.frame [OF assms(7)]]) (auto simp: dom_def)
    have p1: "heap v1 (g_state g) = Some (Struct p)" using h(1) assms(8) fresh(2) [of "g_state g"] by (cases "brk v \<le> g_state g") auto
    have t: "trial_at v1 (?T (brk v)) (replicate 1024 0) (replicate 1024 0) (pattern 1024)"
      using h(1) by (auto simp: trial_at_def)
    have "pattern 1024 \<noteq> []" using length_pattern [of 1024] by (metis list.size(3) zero_neq_numeral)
    then show "hok (trial_inner_setup (flush_client E x86) (Some b) (Some (?T (brk v)))) v1 (\<lambda>r v2.
      obs v2 = obs v1 @ Ld (data_len (?T (brk v))) 0 # (if x86 then map (\<lambda>k. Flush (probe_buf p) (16 * k)) [0..<64] @ [Fence] else []))"
      unfolding flush_client_def client.simps
      by (intro hok_flush_inner [OF k i assms(2) t]) (use p1 in auto)
  qed
qed

theorem clients_ignore_class_witness:
  "hok (create_default_trial_context quiet_env 1024)
     \<lparr>heap = [1 \<mapsto> Struct \<lparr>raw_alloc = 2, probe_aligned = (2, 56), probe_size = 8192, line_size = 64, sink = 0\<rparr>, 2 \<mapsto> W8 (replicate 8256 0)],
       brk = 3, clocks = 0, rands = 0, obs = []\<rparr>
     (\<lambda>t w1. hok (trial_inner_setup (attack_client quiet_env) (Some (create_context \<lparr>iterations = 1, random_seed = 0, g_state = 1\<rparr> 0)) (Some t)) w1
       (\<lambda>r w2. obs w2 = obs w1 @ map (\<lambda>j. Ld 2 (56 + 64 * j)) [0..<128]))"
proof -
  let ?w = "\<lparr>heap = [1 \<mapsto> Struct \<lparr>raw_alloc = 2, probe_aligned = (2, 56), probe_size = 8192, line_size = 64, sink = 0\<rparr>, 2 \<mapsto> W8 (replicate 8256 0)],
       brk = 3, clocks = 0, rands = 0, obs = []\<rparr> :: attack_state_t world"
  let ?v = "\<lparr>heap = [1 \<mapsto> Struct \<lparr>probe_buf = 2, probe_words = 1024, g_sink = 0\<rparr>, 2 \<mapsto> W32 (replicate 1024 0)],
       brk = 3, clocks = 0, rands = 0, obs = []\<rparr> :: attack_global_state_t world"
  let ?g = "\<lparr>iterations = 1, random_seed = 0, g_state = 1\<rparr>"
  have o: "line_offset quiet_env 2 = 56" by (simp add: line_offset_def quiet_env_def)
  have "wf ?w" "wf ?v" by (auto simp: wf_def)
  moreover have "attack_inv quiet_env (g_state ?g) ?w" "flush_inv (g_state ?g) ?v"
    using o by (auto simp: attack_inv_def attack_ready_def flush_inv_def)
  moreover have "global_ctx (create_context ?g 0) = Some ?g" by (simp add: create_context_def)
  ultimately show ?thesis
    using clients_ignore_class [where g = ?g and w = ?w and v = ?v and E = quiet_env and b = "create_context ?g 0"
      and s = "\<lparr>raw_alloc = 2, probe_aligned = (2, 56), probe_size = 8192, line_size = 64, sink = 0\<rparr>"
      and p = "\<lparr>probe_buf = 2, probe_words = 1024, g_sink = 0\<rparr>"] quiet_env_ok o by auto
qed

text \<open>C39. \<^bold>\<open>Errors of the contexts.\<close> If one of the three buffers of a trial context cannot be allocated the process exits with status 1; if only the
  cell for the length cannot, its result is not checked and the process writes through \<open>NULL\<close>. \<open>reset_trial_context\<close> takes the length
  in bytes for a number of words and writes beyond the data buffer of any context that is not empty.\<close>

theorem context_errors:
  assumes "wf w" and "0 < unat n" and "unat n < 2 ^ 60"
  shows "((\<exists>j<3. \<not> alloc_ok E (brk w + j)) \<longrightarrow> hend (create_default_trial_context E n) w (Exited 1)) \<and>
    ((\<forall>j<3. alloc_ok E (brk w + j)) \<and> \<not> alloc_ok E (brk w + 3) \<longrightarrow> hend (create_default_trial_context E n) w Faulted) \<and>
    (env_ok E \<longrightarrow> hend (State_Monad.bind (create_default_trial_context E n) reset_trial_context) w Faulted)"
proof (intro conjI create_oom [OF assms(1)] impI)
  assume E: "env_ok E"
  have n: "unat (n * 4) = 4 * unat n" using assms(3) by (subst unat_mult_lem [THEN iffD1]) simp_all
  show "hend (State_Monad.bind (create_default_trial_context E n) reset_trial_context) w Faulted"
  proof (rule hend_later, rule hok_create [OF assms(1) env_ok_from [OF E]], rule reset_faults)
    fix w' :: "'a world"
    assume "heap w' = (heap w)(brk w \<mapsto> W32 (replicate (unat n) 0), brk w + 1 \<mapsto> W32 (replicate (unat n) 0),
        brk w + 2 \<mapsto> W32 (pattern (unat n)), brk w + 3 \<mapsto> W64 [n * 4])"
    then show "trial_at w' \<lparr>dest = brk w, dummy = brk w + 1, data = brk w + 2, data_len = brk w + 3\<rparr>
      (replicate (unat n) 0) (replicate (unat n) 0) (pattern (unat n))"
      using n by (auto simp: trial_at_def)
    show "pattern (unat n) \<noteq> []" using assms(2) length_pattern [of "unat n"] by (metis less_irrefl list.size(3))
  qed
qed

theorem context_errors_witness:
  "hend (State_Monad.bind (create_default_trial_context quiet_env 1024) reset_trial_context) (world0 :: unit world) Faulted \<and>
   hend (create_default_trial_context (quiet_env\<lparr>alloc_ok := \<lambda>a. a \<noteq> 2\<rparr>) 1024) (world0 :: unit world) (Exited 1)"
proof
  show "hend (State_Monad.bind (create_default_trial_context quiet_env 1024) reset_trial_context) (world0 :: unit world) Faulted"
    using context_errors [where w = "world0 :: unit world", OF wf_world0, of 1024 quiet_env] quiet_env_ok by simp
  have "\<exists>j<3. \<not> alloc_ok (quiet_env\<lparr>alloc_ok := \<lambda>a. a \<noteq> 2\<rparr>) (brk (world0 :: unit world) + j)"
    by (rule exI [of _ 1]) (simp add: world0_def)
  then show "hend (create_default_trial_context (quiet_env\<lparr>alloc_ok := \<lambda>a. a \<noteq> 2\<rparr>) 1024) (world0 :: unit world) (Exited 1)"
    using conjunct1 [OF context_errors [where w = "world0 :: unit world", OF wf_world0, of 1024 "quiet_env\<lparr>alloc_ok := \<lambda>a. a \<noteq> 2\<rparr>"]] by simp
qed

end
