(* ===== verification/Microbench.thy ===== *)
theory Microbench
  imports Ccopy
begin

text \<open>
  The micro-benchmark \<^verbatim>\<open>apps/microbench/ct_ccopy\<close> (the three directories hold the same code with different exponents): a conditional
  copy of one word, in a loop over the bits of \<open>e\<close>. The argument \<open>loopcnt\<close> is an \<open>int\<close>, whose addition is undefined when it overflows; the
  length \<open>elen\<close> is a \<open>size_t\<close>, and the loop bound \<open>elen << 3\<close> is computed on 32 bits. Like an access outside an array, an overflow ends in
  the trace \<open>None\<close>, which no operation leaves.
\<close>

definition int_add :: "int \<Rightarrow> int \<Rightarrow> int cm" where
  "int_add x y = State (\<lambda>s. (x + y, if - (2 ^ 31) \<le> x + y \<and> x + y < 2 ^ 31 then s else None))"

definition ccopy :: "u32 \<Rightarrow> u32 \<Rightarrow> u32 \<Rightarrow> u32" where
  "ccopy src dst ctl = dst XOR (- ctl AND (src XOR dst))"

definition test_ccopy_loop :: "int \<Rightarrow> u8 arr \<Rightarrow> u32 \<Rightarrow> u32 \<Rightarrow> u32 cm" where
  "test_ccopy_loop loopcnt e src dst = do {
     x \<leftarrow> int_add loopcnt 7;
     let elen = (of_int (x div 8) :: u64);
     for_loop 0 (unat (shl (ucast elen :: u32) 3)) (\<lambda>k r. do {
       b \<leftarrow> ld e (unat (elen - 1 - of_nat (k div 8)));
       let ctl = shr (ucast b :: u32) (k mod 8) AND 1;
       ret (ccopy src dst ctl) }) 0 }"

lemma ccopy_bit: "ccopy src dst (of_bool b) = (if b then src else dst)"
  by (cases b) (simp_all add: ccopy_def xor.left_commute)

lemma shr_bit: "shr (ucast (b :: u8) :: u32) n AND 1 = of_bool (bit b n)"
  by (rule bit_word_eqI) (auto simp: bit_simps dest: bit_imp_le_length)

text \<open>A length that fits is kept by the conversions, and the bound of the loop is not reduced.\<close>

lemma unat_elen: "elen < 2 ^ 29 \<Longrightarrow> unat (of_nat elen :: u64) = elen"
  by (simp add: unat_of_nat take_bit_nat_eq_self)

lemma loop_bound: "elen < 2 ^ 29 \<Longrightarrow> unat (shl (ucast (of_nat elen :: u64) :: u32) 3) = 8 * elen"
proof -
  assume e: "elen < 2 ^ 29"
  have "ucast (of_nat elen :: u64) = (of_nat elen :: u32)"
    by (rule bit_word_eqI) (simp add: bit_simps)
  then have "shl (ucast (of_nat elen :: u64) :: u32) 3 = of_nat (8 * elen)" by (simp add: push_bit_eq_mult mult.commute)
  then show ?thesis using e by (simp only: unat_of_nat) (simp add: take_bit_nat_eq_self)
qed

lemma elen_index:
  assumes "elen < 2 ^ 29" and "k < 8 * elen"
  shows "unat ((of_nat elen :: u64) - 1 - of_nat (k div 8)) = elen - 1 - k div 8"
proof -
  have "int elen - 1 - int (k div 8) = int (elen - 1 - k div 8)" using assms(2) by linarith
  then have "(of_nat elen :: u64) - 1 - of_nat (k div 8) = of_nat (elen - 1 - k div 8)"
    by (metis of_int_1 of_int_diff of_int_of_nat_eq)
  then show ?thesis using assms(1) by (simp only: unat_elen)
qed

text \<open>A run that is undefined stays so.\<close>

lemma run_for_loop_none:
  assumes "\<And>i s. snd (run_state (body i s) None) = None"
  shows "snd (run_state (for_loop i n body s) None) = None"
  using assms
proof (induction i n body s rule: for_loop.induct)
  case (1 i n body s)
  then show ?case
    by (subst for_loop.simps) (auto simp: branch_def tick_def case_prod_beta)
qed

lemma run_body_none:
  "snd (run_state (do { b \<leftarrow> ld e (f k); let ctl = shr (ucast b :: u32) (k mod 8) AND 1; ret (ccopy src dst ctl) }) None) = None"
  by (simp add: ld_def case_prod_beta)

text \<open>An overflow, or a first access outside the array.\<close>

lemma test_overflow: "\<not> (- (2 ^ 31) \<le> loopcnt + 7 \<and> loopcnt + 7 < 2 ^ 31) \<Longrightarrow> trace (test_ccopy_loop loopcnt e src dst) = None"
  unfolding test_ccopy_loop_def trace_def Let_def
  by (simp add: int_add_def if_not_P case_prod_beta del: not_le not_less) (rule run_for_loop_none, rule run_body_none [unfolded Let_def])

lemma test_outside:
  assumes "0 < unat (shl (ucast (of_int ((loopcnt + 7) div 8) :: u64) :: u32) 3)" and "alen e \<le> unat (of_int ((loopcnt + 7) div 8) - 1 :: u64)"
  shows "trace (test_ccopy_loop loopcnt e src dst) = None"
proof (cases "- (2 ^ 31) \<le> loopcnt + 7 \<and> loopcnt + 7 < 2 ^ 31")
  case True
  show ?thesis
    unfolding test_ccopy_loop_def trace_def Let_def
    by (simp add: int_add_def True case_prod_beta, subst for_loop.simps)
      (use assms in \<open>simp add: branch_def tick_def ld_def case_prod_beta run_for_loop_none\<close>)
qed (rule test_overflow)

text \<open>The length that a negative \<open>loopcnt\<close> becomes.\<close>

lemma neg_of_nat:
  assumes "n < 2 ^ LENGTH('a)"
  shows "- of_nat n = (of_nat (2 ^ LENGTH('a) - n) :: 'a :: len word)"
proof -
  have "of_nat (2 ^ LENGTH('a) - n) + of_nat n = (of_nat (2 ^ LENGTH('a)) :: 'a word)" using assms by (simp flip: of_nat_add)
  then show ?thesis by (simp add: add_eq_0_iff2)
qed

lemma neg_elen:
  assumes "0 < j" and "j \<le> 2 ^ 28"
  shows "2 ^ 63 \<le> unat (- of_nat j - 1 :: u64)" and "0 < unat (shl (ucast (- of_nat j :: u64) :: u32) 3)"
proof -
  have "(- of_nat j - 1 :: u64) = - of_nat (j + 1)" by simp
  also have "\<dots> = of_nat (2 ^ 64 - (j + 1))" using assms(2) by (subst neg_of_nat) simp_all
  finally show "2 ^ 63 \<le> unat (- of_nat j - 1 :: u64)"
    using assms(2) by (simp only: unat_of_nat) (simp add: take_bit_nat_eq_self)
  have "(- of_nat j :: u64) = of_nat (2 ^ 64 - j)" using assms(2) by (subst neg_of_nat) simp_all
  moreover have "ucast (of_nat n :: u64) = (of_nat n :: u32)" for n by (rule bit_word_eqI) (simp add: bit_simps)
  moreover have "of_nat (2 ^ 64 - j) = (of_nat (2 ^ 32 - j) :: u32)"
  proof -
    have "2 ^ 64 - j = (2 ^ 32 - j) + (2 ^ 32 - 1) * 2 ^ 32" using assms(2) by simp
    then have "of_nat (2 ^ 64 - j) = (of_nat ((2 ^ 32 - j) + (2 ^ 32 - 1) * 2 ^ 32) :: u32)" by (simp only:)
    then show ?thesis by simp
  qed
  ultimately have "ucast (- of_nat j :: u64) = (of_nat (2 ^ 32 - j) :: u32)" by simp
  also have "\<dots> = - of_nat j" using assms(2) by (subst neg_of_nat) simp_all
  finally have "shl (ucast (- of_nat j :: u64) :: u32) 3 = - of_nat (8 * j)" by (simp add: push_bit_eq_mult)
  also have "\<dots> = of_nat (2 ^ 32 - 8 * j)" using assms(2) by (subst neg_of_nat) simp_all
  finally show "0 < unat (shl (ucast (- of_nat j :: u64) :: u32) 3)"
    using assms by (simp only: unat_of_nat) (simp add: take_bit_nat_eq_self)
qed

text \<open>C40. \<^bold>\<open>The micro-benchmark.\<close> For every value of the \<open>int\<close> \<open>loopcnt\<close>: if it is from \<open>-7\<close> to \<open>2\<^sup>3\<^sup>1 - 8\<close> and \<open>e\<close> has the bytes that it
  announces, the loop stays in \<open>e\<close> and returns the copy selected by the top bit of the first byte of \<open>e\<close> (the last one it looks at), or 0
  when \<open>loopcnt\<close> is not positive. In every other case the run is undefined: the addition of 7 overflows, or the first access is outside \<open>e\<close> (for a
  value below \<open>-7\<close> the length becomes a huge \<open>size_t\<close>). The trace never depends on the bytes of \<open>e\<close> nor on the two words. (\<open>e\<close> is shorter than
  \<open>2\<^sup>6\<^sup>3\<close> bytes, as any object is.)\<close>

theorem test_ccopy_loop_correct:
  assumes "- (2 ^ 31) \<le> loopcnt" and "loopcnt < 2 ^ 31" and "alen e < 2 ^ 63" and "shape e e'"
  defines "defined \<equiv> - 7 \<le> loopcnt \<and> loopcnt \<le> 2 ^ 31 - 8 \<and> (loopcnt + 7) div 8 \<le> int (alen e)"
  shows "(defined \<longrightarrow> ok (test_ccopy_loop loopcnt e src dst) (\<lambda>r. r = (if loopcnt \<le> 0 then 0 else if bit (cells e ! 0) 7 then src else dst))) \<and>
    (\<not> defined \<longrightarrow> trace (test_ccopy_loop loopcnt e src dst) = None) \<and>
    trace (test_ccopy_loop loopcnt e src dst) = trace (test_ccopy_loop loopcnt e' src' dst')"
proof (cases defined)
  case True
  define elen where "elen = nat ((loopcnt + 7) div 8)"
  have e: "elen < 2 ^ 29" "elen \<le> alen e" "(loopcnt + 7) div 8 = int elen" "- (2 ^ 31) \<le> loopcnt + 7 \<and> loopcnt + 7 < 2 ^ 31" "0 < loopcnt \<longleftrightarrow> 0 < elen"
    using True by (auto simp: elen_def defined_def)
  have add: "ok (int_add loopcnt 7) (\<lambda>x. x = loopcnt + 7)" "ct (int_add loopcnt 7) (int_add loopcnt 7) (\<lambda>x y. x = loopcnt + 7 \<and> y = x)"
    using e(4) by (simp_all add: int_add_def ok_def ct_def)
  have last: "(8 * elen - Suc 0) mod 8 = 7" if "0 < elen" using that by (cases elen) simp_all
  note n = loop_bound [OF e(1)] and ix = elen_index [OF e(1)]
  have i: "elen - 1 - k div 8 < alen e" "k div 8 < elen" if "k < 8 * elen" for k using e(2) that by auto
  have "ok (test_ccopy_loop loopcnt e src dst) (\<lambda>r. r = (if loopcnt \<le> 0 then 0 else if bit (cells e ! 0) 7 then src else dst))"
    unfolding test_ccopy_loop_def
  proof (rule ok_bind, rule ok_weaken [OF add(1)], hypsubst, unfold Let_def e(3) of_int_of_nat_eq n)
    show "ok (for_loop 0 (8 * elen) (\<lambda>k r. do { b \<leftarrow> ld e (unat ((of_nat elen :: u64) - 1 - of_nat (k div 8)));
        ret (ccopy src dst (shr (ucast b) (k mod 8) AND 1)) }) 0) (\<lambda>r. r = (if loopcnt \<le> 0 then 0 else if bit (cells e ! 0) 7 then src else dst))"
      by (rule ok_for_loop [where Inv = "\<lambda>k r. r = (if k = 0 then 0 else if bit (cells e ! (elen - 1 - (k - 1) div 8)) ((k - 1) mod 8) then src else dst)"])
        (use i e(5) last in \<open>auto simp: shr_bit ccopy_bit ix intro!: wp\<close>)
  qed
  moreover have "ct (test_ccopy_loop loopcnt e src dst) (test_ccopy_loop loopcnt e' src' dst') (\<lambda>_ _. True)"
    unfolding test_ccopy_loop_def
  proof (rule ct_bind, rule ct_weaken [OF add(2)], elim conjE, hypsubst, unfold Let_def e(3) of_int_of_nat_eq n)
    show "ct (for_loop 0 (8 * elen) (\<lambda>k r. do { b \<leftarrow> ld e (unat ((of_nat elen :: u64) - 1 - of_nat (k div 8)));
        ret (ccopy src dst (shr (ucast b) (k mod 8) AND 1)) }) 0) (for_loop 0 (8 * elen) (\<lambda>k r. do { b \<leftarrow> ld e' (unat ((of_nat elen :: u64) - 1 - of_nat (k div 8)));
        ret (ccopy src' dst' (shr (ucast b) (k mod 8) AND 1)) }) 0) (\<lambda>_ _. True)"
      by (rule ct_for_loop [where Inv = "\<lambda>_ _ _. True"]) (use i assms(4) in \<open>auto simp: ix intro!: ctr\<close>)
  qed
  ultimately show ?thesis using True ctD_trace by blast
next
  case False
  have "trace (test_ccopy_loop loopcnt f x y) = None" if f: "alen f = alen e" for f x y
  proof (cases "loopcnt \<le> 2 ^ 31 - 8")
    case le: True
    define m where "m = (loopcnt + 7) div 8"
    have m: "- (2 ^ 28) \<le> m" "m < 2 ^ 28" using assms(1) le by (simp_all add: m_def)
    have "m < 0 \<or> 0 < m \<and> int (alen e) < m" using False le by (auto simp: defined_def m_def)
    then show ?thesis
    proof
      assume neg: "m < 0"
      define j where "j = nat (- m)"
      have j: "m = - int j" "0 < j" "j \<le> 2 ^ 28" using m(1) neg by (simp_all add: j_def)
      note neg_elen [OF j(2,3)]
      then show ?thesis
        using f assms(3) by (intro test_outside) (simp_all add: j(1) flip: m_def)
    next
      assume pos: "0 < m \<and> int (alen e) < m"
      then obtain k where k: "m = int k" "0 < k" "alen e < k" "k < 2 ^ 29" using m(2) by (cases m) auto
      show ?thesis
        using k loop_bound [OF k(4)] elen_index [OF k(4), of 0] f by (intro test_outside) (simp_all flip: m_def)
    qed
  qed (rule test_overflow, simp)
  then show ?thesis using False assms(4) by (simp add: shape_def)
qed

theorem test_ccopy_loop_correct_witness:
  "ok (test_ccopy_loop 100 \<lparr>blk = 1, cells = replicate 128 0x44\<rparr> 0xFF03B244 0xDEADBEEF) (\<lambda>r. r = 0xDEADBEEF) \<and>
   trace (test_ccopy_loop 2147483641 \<lparr>blk = 1, cells = replicate 128 0x44\<rparr> 0xFF03B244 0xDEADBEEF) = None \<and>
   trace (test_ccopy_loop (- 8) \<lparr>blk = 1, cells = replicate 128 0x44\<rparr> 0xFF03B244 0xDEADBEEF) = None"
proof -
  let ?e = "\<lparr>blk = 1, cells = replicate 128 0x44\<rparr> :: u8 arr"
  note t = test_ccopy_loop_correct [where e = ?e and e' = ?e and src = "0xFF03B244" and dst = "0xDEADBEEF"]
  show ?thesis using t [of 100] t [of 2147483641] t [of "- 8"] by simp
qed

end
