(* ===== verification/Spec2Isabelle.thy ===== *)
theory Spec2Isabelle
  imports Rsa_Pair Hmac_CT Clients Microbench
begin

text \<open>
  A verification development for MicroSampler, a test bench for constant-time code: the BearSSL library that it instruments
  (\<^verbatim>\<open>src/apps/bearssl-0.6\<close>, with deliberately leaky variants of the conditional copy and of the modular exponentiation), the harness that
  times the copies (\<^verbatim>\<open>src/automation\<close>) and the micro-benchmark (\<^verbatim>\<open>src/apps/microbench\<close>).

  \<^bold>\<open>How the parts interact.\<close> The programs under test are \<open>br_ccopy\<close> and its variants \<open>br_ccopy_v1\<close>, \<open>br_ccopy_v2\<close>. The
  exponentiations of \<^verbatim>\<open>int/i31_modpow.c\<close> call one of them once per bit of the secret exponent, on top of the 31-bit integers. The harness calls one of
  them once per bit of a random key, between two clock readings, around the functions of a client. BearSSL itself builds RSA on the integers and on
  the paddings, which rest on the hash functions; HMAC, HKDF, HMAC_DRBG and the TLS pseudorandom functions rest on the hash functions too.

  \<^bold>\<open>Three machine models.\<close>
  \<^item> \<open>Leak_Monad\<close>, for code whose secret-dependent behaviour matters: C arrays as values, and a state monad that records what an observer of
    the program counter and of the memory addresses sees; an access outside an array ends in \<open>None\<close>. Total correctness is \<open>ok\<close>, equality of
    the traces of two runs is \<open>ct\<close>, and \<open>differ\<close> says that two traces separate. Used for the copies, the big integers, RSA
    and the micro-benchmark.
  \<^item> \<open>C_Heap\<close>, for the harness: a heap of allocated blocks with \<open>NULL\<close> as address 0, a process that runs, has exited or has faulted, and a
    record of what the C library decides (allocation, clock, random numbers). Total correctness from a world is \<open>hok\<close>; \<open>hend\<close> says how a run
    ends. A function of the first model is called through \<open>call_cm\<close>.
  \<^item> Pure functions on byte lists, for the hash functions and what is built on them: a context is a record, the bytes of a stack buffer are a
    list, an output buffer is a result. Class pointers are records of functions (\<open>br_hash_class\<close>), whose field \<open>hc_ctx\<close> stands for the
    uninitialised context that the caller declares.

  \<^bold>\<open>Theories.\<close>
  \<^item> \<open>Ct_Prims\<close>: the constant-time primitives of \<^verbatim>\<open>inner.h\<close> and the division of \<^verbatim>\<open>int/i32_div32.c\<close>.
  \<^item> \<open>Ccopy\<close>: \<^verbatim>\<open>codec/ccopy.c\<close>, the three conditional copies. \<open>Microbench\<close>: \<^verbatim>\<open>ct_ccopy/*/ct.c\<close>.
  \<^item> \<open>I31\<close>, \<open>I31_Mont\<close>, \<open>I31_Muladd\<close>, \<open>I31_Codec\<close>: the 31-bit integers of \<^verbatim>\<open>int/i31_*.c\<close>: addition, subtraction, lengths, inverse,
    Montgomery product and conversions, reduction, and the conversions from and to bytes. \<open>is_i31 h n x\<close> says that the array \<open>x\<close> holds an integer
    of \<open>n\<close> words under the header \<open>h\<close>; \<open>val31 n x\<close> is its value. \<open>I31_Wide\<close>: integers that are wider than a modulus, \<^verbatim>\<open>i31_mulacc.c\<close>,
    \<^verbatim>\<open>i31_decred.c\<close>, \<^verbatim>\<open>i31_rshift.c\<close>.
  \<^item> \<open>I31_Modpow\<close>: \<^verbatim>\<open>int/i31_modpow.c\<close>, the six exponentiations, with the interfaces they have to the copies as locales: the loop is verified once
    for any copy that satisfies the laws of \<open>cond_copy\<close>, and interpreted for each variant; constant time for a \<open>ct_copy\<close> such as \<open>br_ccopy\<close>, and the
    exact leak for a \<open>leaky_copy\<close> such as the two variants. \<open>I31_Modpow2\<close>: \<^verbatim>\<open>int/i31_modpow2.c\<close>, the exponentiation with windows that RSA uses: the
    window in force, the table of powers, the bits read from the exponent, correctness for every window size, and what its \<open>printf\<close> calls leak.
  \<^item> \<open>Rsa_I31\<close>: \<^verbatim>\<open>rsa/rsa_i31_pub.c\<close>, \<^verbatim>\<open>rsa_i31_pkcs1_vrfy.c\<close>, \<^verbatim>\<open>rsa_i31_oaep_encrypt.c\<close>, for all keys, valid or not. \<open>Rsa_Priv\<close>: \<^verbatim>\<open>rsa_i31_priv.c\<close>,
    whose integers share one array on the stack (\<open>area\<close>, \<open>lay\<close>), \<^verbatim>\<open>rsa_i31_pkcs1_sign.c\<close> and \<^verbatim>\<open>rsa_i31_oaep_decrypt.c\<close>. \<open>Rsa_Pair\<close>: what makes two
    keys a pair (\<open>rsa_pair\<close>; primes are shown to give one, through a generator of the units), and the two round trips.
  \<^item> \<open>Bytes\<close>: \<^verbatim>\<open>codec/enc*.c\<close>, \<^verbatim>\<open>dec*.c\<close>. \<open>Hash_Common\<close>: what the hash files share (context, update loop, padding, class), the locales
    \<open>hash_impl\<close> (what a client of a class relies on) and \<open>md_class\<close> (what an implementation has to show), and the second as a source of the first.
    \<open>Hash_MD5\<close>, \<open>Hash_SHA1\<close>, \<open>Hash_SHA2\<close>: the hash functions of \<^verbatim>\<open>hash/*.c\<close> against the standards, and the interpretations.
  \<^item> \<open>Hmac\<close>, \<open>Hmac_CT\<close>: \<^verbatim>\<open>mac/hmac.c\<close> and \<^verbatim>\<open>mac/hmac_ct.c\<close>. \<open>Kdf\<close>: \<^verbatim>\<open>hash/mgf1.c\<close>, \<^verbatim>\<open>ssl/prf*.c\<close>, \<^verbatim>\<open>kdf/hkdf.c\<close>, \<^verbatim>\<open>rand/hmac_drbg.c\<close>.
    \<open>Rsa_Pad\<close>: the paddings of \<^verbatim>\<open>rsa/*.c\<close>. All of them are proved inside \<open>hash_impl\<close> (or \<open>md_hash\<close> for \<open>Hmac_CT\<close>) and rest on its
    interpretations.
  \<^item> \<open>Harness\<close>: \<^verbatim>\<open>harness/context.c\<close>, \<^verbatim>\<open>harness.c\<close>, \<^verbatim>\<open>wrapper.c\<close>; the locales \<open>harness_client\<close> (the contract of \<^verbatim>\<open>skeleton.h\<close>) and
    \<open>timed_uut\<close>. \<open>Clients\<close>: \<^verbatim>\<open>attack.c\<close>, \<^verbatim>\<open>attack-current.c\<close>, \<^verbatim>\<open>attack-stub.c\<close> and their interpretations.

  \<^bold>\<open>Conventions.\<close> Loops are structural, or have a measure; where the code relies on a positive step (a hash length, a line size) the model's
  loop also stops at step 0, which the lemmas exclude. Only the main loop of \<open>br_i31_modpow_opt\<close> has fuel, \<open>8 * elen + 1\<close> rounds, each of
  which consumes a bit of the exponent or ends; running out is a value of its own and shown not to happen. A value that the code reads twice without a write between is read once.
  Sizes are natural numbers unless the code's wrap-around matters; the bounds in the hypotheses (\<open>2 ^ 60\<close> bytes and the like) keep them in \<open>size_t\<close>.
  The harness is followed for every number of iterations: below \<open>2 ^ 56\<close> the sizes of its two arrays fit in \<open>size_t\<close>, from there on the model shows the
  wrap-around and the store that has no place. That allocations succeed (\<open>env_ok\<close>, \<open>env_from\<close>) is a hypothesis where it is used; what happens when the
  unchecked ones fail is shown too. A signed addition that overflows (the micro-benchmark) ends in \<open>None\<close> like an access outside an array.
  Caller's duties (distinct arrays, lengths) are hypotheses. Where a property has hypotheses a closed theorem shows that they can hold.

  \<^bold>\<open>Not modelled.\<close> The TLS engine and its T0 virtual machine (generated code), X.509, elliptic curves, the block and stream ciphers and the
  AEAD modes, the 15-, 32- and 62-bit integers, key generation, the command line tools, tests and samples of BearSSL; its variants for other processors
  (SSE2, AES-NI, POWER8); the output of the harness and the parsing of its arguments; the Python automation. The simulator scripts
  (\<^verbatim>\<open>src/BOOM_simulator\<close>) and the RISC-V test suite (\<^verbatim>\<open>src/apps/verification\<close>) are not code of the program. Timing is seen through the trace
  only: no cache and no pipeline; for the private-key operation of RSA the functional side is shown, and the leak of the exponentiation that it calls.
\<close>

end
